(* ===== verification/Prelude.thy ===== *)
theory Prelude
  imports Main "HOL-Library.Word"
begin

text \<open>
  Shared vocabulary of the development.

  \<^item> The machine: System/161 is a 32-bit big-endian MIPS; \<open>u8\<close> .. \<open>u64\<close> are the kernel's
    fixed-width unsigned types (\<^verbatim>\<open>kern/arch/mips/include/kern/types.h\<close>), \<open>daddr\<close>,
    \<open>paddr\<close> and \<open>vaddr\<close> the 32-bit disk, physical and virtual addresses.
  \<^item> Errors: \<open>error\<close> is one value per constant of \<^verbatim>\<open>kern/include/kern/errno.h\<close>
    up to \<open>EFBIG\<close> (the later ones, of networking and conversions, are not used by the
    modelled code), plus
    \<open>PANIC\<close> (a failed \<open>KASSERT\<close> or a call of \<open>panic\<close>: the machine stops),
    \<open>UNDEFINED\<close> (an access outside an object or through a null pointer, which C does not
    define) and \<open>HANG\<close> (the CPU waits for something that never happens). A call that can fail is a value of \<open>'a result\<close>.
  \<^item> State: an operation on a state \<open>'s\<close> is an \<open>('s, 'a) kernel\<close>; it returns its result
    together with the state it leaves, also when it fails, since the code does not roll back.
  \<^item> \<open>ktriple\<close> states what an operation guarantees; its rules are in the collection
    \<open>ktriple_rules\<close>, the unfolding equations of the monad in \<open>kmonad_defs\<close>.
\<close>

unbundle bit_operations_syntax

named_theorems kmonad_defs "unfolding equations of the state and error monad"
named_theorems ktriple_rules "rules for ktriple, one per combinator"
named_theorems bit_facts "bit-level facts shared by the components"

subsection \<open>Machine types\<close>

type_synonym u8 = "8 word"
type_synonym u16 = "16 word"
type_synonym u32 = "32 word"
type_synonym u64 = "64 word"
type_synonym daddr = u32
type_synonym paddr = u32
type_synonym vaddr = u32

subsection \<open>Errors\<close>

datatype error =
    ENOSYS | ENOMEM | EAGAIN | EINTR | EFAULT | ENAMETOOLONG | EINVAL | EPERM | EACCES
  | EMPROC | ENPROC | ENOEXEC | E2BIG | ESRCH | ECHILD | ENOTDIR | EISDIR | ENOENT | ELOOP
  | ENOTEMPTY | EEXIST | EMLINK | EXDEV | ENODEV | ENXIO | EBUSY | EMFILE | ENFILE | EBADF
  | EIOCTL | EIO | ESPIPE | EPIPE | EROFS | ENOSPC | EDQUOT | EFBIG
  | PANIC | UNDEFINED | HANG

type_synonym 'a result = "error + 'a"

text \<open>The errno value of each error; the stops of the machine have none.\<close>

fun errno_code :: "error \<Rightarrow> int option" where
  "errno_code ENOSYS = Some 1"
| "errno_code ENOMEM = Some 3"
| "errno_code EAGAIN = Some 4"
| "errno_code EINTR = Some 5"
| "errno_code EFAULT = Some 6"
| "errno_code ENAMETOOLONG = Some 7"
| "errno_code EINVAL = Some 8"
| "errno_code EPERM = Some 9"
| "errno_code EACCES = Some 10"
| "errno_code EMPROC = Some 11"
| "errno_code ENPROC = Some 12"
| "errno_code ENOEXEC = Some 13"
| "errno_code E2BIG = Some 14"
| "errno_code ESRCH = Some 15"
| "errno_code ECHILD = Some 16"
| "errno_code ENOTDIR = Some 17"
| "errno_code EISDIR = Some 18"
| "errno_code ENOENT = Some 19"
| "errno_code ELOOP = Some 20"
| "errno_code ENOTEMPTY = Some 21"
| "errno_code EEXIST = Some 22"
| "errno_code EMLINK = Some 23"
| "errno_code EXDEV = Some 24"
| "errno_code ENODEV = Some 25"
| "errno_code ENXIO = Some 26"
| "errno_code EBUSY = Some 27"
| "errno_code EMFILE = Some 28"
| "errno_code ENFILE = Some 29"
| "errno_code EBADF = Some 30"
| "errno_code EIOCTL = Some 31"
| "errno_code EIO = Some 32"
| "errno_code ESPIPE = Some 33"
| "errno_code EPIPE = Some 34"
| "errno_code EROFS = Some 35"
| "errno_code ENOSPC = Some 36"
| "errno_code EDQUOT = Some 37"
| "errno_code EFBIG = Some 38"
| "errno_code PANIC = None"
| "errno_code UNDEFINED = None"
| "errno_code HANG = None"

definition stops :: "error \<Rightarrow> bool" where
  "stops e \<longleftrightarrow> e = PANIC \<or> e = UNDEFINED \<or> e = HANG"

lemma stops_simps [simp]: "stops PANIC" "stops UNDEFINED" "stops HANG"
  by (simp_all add: stops_def)

subsection \<open>Operations on a state that may fail\<close>

type_synonym ('s, 'a) kernel = "'s \<Rightarrow> 'a result \<times> 's"

definition kreturn :: "'a \<Rightarrow> ('s, 'a) kernel" where
  [kmonad_defs]: "kreturn x s = (Inr x, s)"

definition kfail :: "error \<Rightarrow> ('s, 'a) kernel" where
  [kmonad_defs]: "kfail e s = (Inl e, s)"

definition kbind :: "('s, 'a) kernel \<Rightarrow> ('a \<Rightarrow> ('s, 'b) kernel) \<Rightarrow> ('s, 'b) kernel" where
  [kmonad_defs]: "kbind m f s = (case m s of (Inl e, s') \<Rightarrow> (Inl e, s') | (Inr x, s') \<Rightarrow> f x s')"

definition kget :: "('s \<Rightarrow> 'a) \<Rightarrow> ('s, 'a) kernel" where
  [kmonad_defs]: "kget f s = (Inr (f s), s)"

definition kmodify :: "('s \<Rightarrow> 's) \<Rightarrow> ('s, unit) kernel" where
  [kmonad_defs]: "kmodify f s = (Inr (), f s)"

text \<open>\<open>KASSERT\<close>: a failed assertion stops the machine.\<close>

definition kassert :: "bool \<Rightarrow> ('s, unit) kernel" where
  [kmonad_defs]: "kassert b s = (if b then Inr () else Inl PANIC, s)"

text \<open>
  \<open>ktry m\<close> hands the error code of \<open>m\<close> to the caller as a value, as
  \<^verbatim>\<open>result = m()\<close> does; a stop of the machine is not an error code and propagates.
\<close>

definition ktry :: "('s, 'a) kernel \<Rightarrow> ('s, 'a result) kernel" where
  [kmonad_defs]: "ktry m s =
     (case m s of (Inl e, s') \<Rightarrow> if stops e then (Inl e, s') else (Inr (Inl e), s')
                | (Inr x, s') \<Rightarrow> (Inr (Inr x), s'))"

subsection \<open>Triples\<close>

text \<open>
  From a state with \<open>P\<close>, the operation either returns a value and a state related by \<open>Q\<close>
  or fails with an error and a state related by \<open>E\<close>.
\<close>

definition ktriple ::
  "('s \<Rightarrow> bool) \<Rightarrow> ('s, 'a) kernel \<Rightarrow> ('a \<Rightarrow> 's \<Rightarrow> bool) \<Rightarrow> (error \<Rightarrow> 's \<Rightarrow> bool) \<Rightarrow> bool" where
  "ktriple P m Q E \<longleftrightarrow>
     (\<forall>s. P s \<longrightarrow> (case m s of (Inr x, s') \<Rightarrow> Q x s' | (Inl e, s') \<Rightarrow> E e s'))"

lemma ktripleI:
  assumes "\<And>s x s'. P s \<Longrightarrow> m s = (Inr x, s') \<Longrightarrow> Q x s'"
    and "\<And>s e s'. P s \<Longrightarrow> m s = (Inl e, s') \<Longrightarrow> E e s'"
  shows "ktriple P m Q E"
  using assms by (auto simp: ktriple_def split: prod.splits sum.splits)

lemma ktriple_Inr: "ktriple P m Q E \<Longrightarrow> P s \<Longrightarrow> m s = (Inr x, s') \<Longrightarrow> Q x s'"
  by (auto simp: ktriple_def)

lemma ktriple_Inl: "ktriple P m Q E \<Longrightarrow> P s \<Longrightarrow> m s = (Inl e, s') \<Longrightarrow> E e s'"
  by (auto simp: ktriple_def)

lemma ktriple_pre: "ktriple P' m Q E \<Longrightarrow> (\<And>s. P s \<Longrightarrow> P' s) \<Longrightarrow> ktriple P m Q E"
  by (auto simp: ktriple_def)

lemma ktriple_post:
  "ktriple P m Q' E' \<Longrightarrow> (\<And>x s. Q' x s \<Longrightarrow> Q x s) \<Longrightarrow> (\<And>e s. E' e s \<Longrightarrow> E e s) \<Longrightarrow> ktriple P m Q E"
  by (fastforce simp: ktriple_def split: prod.splits sum.splits)

lemma ktriple_return [ktriple_rules]: "ktriple (Q x) (kreturn x) Q E"
  by (auto simp: ktriple_def kmonad_defs)

lemma ktriple_fail [ktriple_rules]: "ktriple (E e) (kfail e) Q E"
  by (auto simp: ktriple_def kmonad_defs)

lemma ktriple_get [ktriple_rules]: "ktriple (\<lambda>s. Q (f s) s) (kget f) Q E"
  by (auto simp: ktriple_def kmonad_defs)

lemma ktriple_modify [ktriple_rules]: "ktriple (\<lambda>s. Q () (f s)) (kmodify f) Q E"
  by (auto simp: ktriple_def kmonad_defs)

lemma ktriple_assert [ktriple_rules]:
  "ktriple (\<lambda>s. if b then Q () s else E PANIC s) (kassert b) Q E"
  by (auto simp: ktriple_def kmonad_defs)

lemma ktriple_bind [ktriple_rules]:
  assumes "ktriple P m R E" and "\<And>x. ktriple (R x) (f x) Q E"
  shows "ktriple P (kbind m f) Q E"
  using assms by (fastforce simp: ktriple_def kbind_def split: prod.splits sum.splits)

lemma kbind_Inr: "m s = (Inr x, s') \<Longrightarrow> kbind m f s = f x s'"
  by (simp add: kbind_def)

lemma kbind_Inl: "m s = (Inl e, s') \<Longrightarrow> kbind m f s = (Inl e, s')"
  by (simp add: kbind_def)

lemma kbind_Inr_iff:
  "kbind m f s = (Inr y, t) \<longleftrightarrow> (\<exists>x s'. m s = (Inr x, s') \<and> f x s' = (Inr y, t))"
  by (auto simp: kbind_def split: prod.splits sum.splits)

lemma kbind_Inl_iff:
  "kbind m f s = (Inl e, t) \<longleftrightarrow>
     m s = (Inl e, t) \<or> (\<exists>x s'. m s = (Inr x, s') \<and> f x s' = (Inl e, t))"
  by (auto simp: kbind_def split: prod.splits sum.splits)

lemma kbind_eq: "m s = (Inr x, s') \<Longrightarrow> f x s' = r \<Longrightarrow> kbind m f s = r"
  by (simp add: kbind_def)

lemma kbind_kget: "kbind (kget f) g s = g (f s) s"
  by (simp add: kbind_def kget_def)

text \<open>Running straight-line code: one rule per first action.\<close>

lemma krun:
  "kbind (kget h) g s = g (h s) s" "kbind (kmodify f) gu s = gu () (f s)"
  "kbind (kreturn x) gx s = gx x s" "b \<Longrightarrow> kbind (kassert b) gu s = gu () s"
  "kmodify f s = (Inr (), f s)" "kreturn x s = (Inr x, s)" "kget h s = (Inr (h s), s)"
  "b \<Longrightarrow> kassert b s = (Inr (), s)" "kbind (kfail e) ge s = (Inl e, s)" "kfail e s = (Inl e, s)"
  by (simp_all add: kmonad_defs)

lemma kreturn_bind: "kbind (kreturn x) f = f x"
  by (rule ext) (simp add: krun)

lemma kbind_assoc: "kbind (kbind m f) g s = kbind m (\<lambda>x. kbind (f x) g) s"
  by (simp add: kbind_def split: prod.splits sum.splits)

subsection \<open>Words\<close>

lemma unat_u32_less [simp]: "unat (x :: u32) < 4294967296"
  using unsigned_less [of x] by simp

lemma unat_u16_less [simp]: "unat (x :: u16) < 65536"
  using unsigned_less [of x] by simp

lemma unat_add_u32: "unat a + unat b < 4294967296 \<Longrightarrow> unat (a + b :: u32) = unat a + unat b"
  by (simp add: unat_add_lem [symmetric])

lemma unat_mult_u32: "unat a * unat b < 4294967296 \<Longrightarrow> unat (a * b :: u32) = unat a * unat b"
  by (simp add: unat_mult_lem [symmetric])

lemma unat_sub_u32: "unat b \<le> unat a \<Longrightarrow> unat (a - b :: u32) = unat a - unat b"
  by (simp add: unat_sub word_le_nat_alt)

lemma unat_of_nat_u32 [simp]: "n < 4294967296 \<Longrightarrow> unat (of_nat n :: u32) = n"
  by (simp add: unat_of_nat take_bit_nat_eq_self)

text \<open>Testing and building single bits.\<close>

lemma and_single_bit [bit_facts]: "w AND 2 ^ k = 0 \<longleftrightarrow> \<not> bit w k" for w :: "'a::len word"
proof
  assume "w AND 2 ^ k = 0"
  then have "\<not> bit (w AND 2 ^ k) k" by simp
  then show "\<not> bit w k" by (auto simp: bit_simps dest: bit_imp_le_length)
next
  assume "\<not> bit w k"
  then show "w AND 2 ^ k = 0"
    by (intro bit_word_eqI) (auto simp: bit_simps)
qed

lemma bit_beyond [simp]: "LENGTH('a) \<le> k \<Longrightarrow> \<not> bit (x :: 'a::len word) k"
  by (auto dest: bit_imp_le_length)

subsection \<open>Integer macros of lib.h\<close>

definition DIVROUNDUP :: "u32 \<Rightarrow> u32 \<Rightarrow> u32" where
  "DIVROUNDUP a b = (a + b - 1) div b"

lemma unat_DIVROUNDUP:
  assumes "unat a + unat b \<le> 2 ^ 32" and "0 < unat b"
  shows "unat (DIVROUNDUP a b) = (unat a + unat b - 1) div unat b"
proof -
  have b: "1 \<le> b" using assms(2) by (simp add: word_le_nat_alt)
  have pred: "unat (b - 1) = unat b - 1"
    using b by (simp add: unat_sub)
  have "unat (a + (b - 1)) = unat a + unat (b - 1)"
    by (subst unat_add_lem [symmetric]) (use assms pred in simp)
  then have "unat (a + b - 1) = unat a + unat b - 1"
    using assms(2) pred by (simp only: add_diff_eq [symmetric])
  then show ?thesis
    by (simp only: DIVROUNDUP_def unat_div)
qed

subsection \<open>Lists\<close>

lemma list_all_update: "list_all P xs \<Longrightarrow> P x \<Longrightarrow> list_all P (xs[i := x])"
  by (auto simp: list_all_iff dest: in_set_takeD set_update_subset_insert [THEN subsetD])

lemma nth_update_if: "i < length xs \<Longrightarrow> xs[j := x] ! i = (if i = j then x else xs ! i)"
  by simp

text \<open>The region of a buffer that starts at \<open>off\<close> and holds \<open>n\<close> bytes, and its replacement.\<close>

definition slice_at :: "nat \<Rightarrow> nat \<Rightarrow> 'a list \<Rightarrow> 'a list" where
  "slice_at off n xs = take n (drop off xs)"

definition overlay :: "nat \<Rightarrow> 'a list \<Rightarrow> 'a list \<Rightarrow> 'a list" where
  "overlay off ys xs = take off xs @ ys @ drop (off + length ys) xs"

lemma length_slice_at [simp]: "off + n \<le> length xs \<Longrightarrow> length (slice_at off n xs) = n"
  by (simp add: slice_at_def)

lemma length_overlay [simp]: "off + length ys \<le> length xs \<Longrightarrow> length (overlay off ys xs) = length xs"
  by (simp add: overlay_def)

lemma slice_overlay_same [simp]:
  "off + length ys \<le> length xs \<Longrightarrow> slice_at off (length ys) (overlay off ys xs) = ys"
  by (simp add: slice_at_def overlay_def)

lemma slice_overlay_other:
  assumes "off + length ys \<le> length xs" and "o2 + n \<le> off \<or> off + length ys \<le> o2"
  shows "slice_at o2 n (overlay off ys xs) = slice_at o2 n xs"
  using assms by (intro nth_equalityI) (auto simp: slice_at_def overlay_def nth_append)

lemma nth_overlay:
  assumes "off + length ys \<le> length xs" and "i < length xs"
  shows "overlay off ys xs ! i = (if off \<le> i \<and> i < off + length ys then ys ! (i - off) else xs ! i)"
  using assms by (auto simp: overlay_def nth_append)

end
