(* ===== verification/Libkern.thy ===== *)
theory Libkern
  imports Prelude
begin

text \<open>
  Library routines without state: byte order (\<^verbatim>\<open>kern/lib/bswap.c\<close>) and times
  (\<^verbatim>\<open>kern/lib/time.c\<close>). \<open>be_bytes\<close> is the memory image of an integer on a big-endian
  machine; swapping is specified as reversing that image. The lemmas show that
  \<open>bswap16\<close> and \<open>bswap32\<close> do so, which bytes \<open>bswap64\<close> really produces, that
  \<open>split64to32\<close> and \<open>join32to64\<close> are inverse, and that the time routines compute the
  sum and the difference of the times in nanoseconds.
\<close>

subsection \<open>bswap.c\<close>

definition bswap16 :: "u16 \<Rightarrow> u16" where
  "bswap16 val = push_bit 8 (val AND 0x00ff)
              OR drop_bit 8 (val AND 0xff00)"

definition bswap32 :: "u32 \<Rightarrow> u32" where
  "bswap32 val = push_bit 24 (val AND 0x000000ff)
              OR push_bit 8 (val AND 0x0000ff00)
              OR drop_bit 8 (val AND 0x00ff0000)
              OR drop_bit 24 (val AND 0xff000000)"

definition bswap64 :: "u64 \<Rightarrow> u64" where
  "bswap64 val = push_bit 56 (val AND 0x00000000000000ff)
              OR push_bit 40 (val AND 0x000000000000ff00)
              OR push_bit 24 (val AND 0x0000000000ff0000)
              OR push_bit 8  (val AND 0x00000000ff000000)
              OR push_bit 8  (val AND 0x000000ff00000000)
              OR push_bit 24 (val AND 0x0000ff0000000000)
              OR drop_bit 40 (val AND 0x00ff000000000000)
              OR drop_bit 56 (val AND 0xff00000000000000)"

text \<open>
  The macro \<open>TO\<close> defines \<open>ntoh*\<close> and \<open>hton*\<close> by the byte order of the host; OS/161 runs
  on big-endian machines.
\<close>

datatype byte_order = BIG_ENDIAN | LITTLE_ENDIAN

definition ntohs :: "byte_order \<Rightarrow> u16 \<Rightarrow> u16" where
  "ntohs bo val = (case bo of LITTLE_ENDIAN \<Rightarrow> bswap16 val | BIG_ENDIAN \<Rightarrow> val)"

definition ntohl :: "byte_order \<Rightarrow> u32 \<Rightarrow> u32" where
  "ntohl bo val = (case bo of LITTLE_ENDIAN \<Rightarrow> bswap32 val | BIG_ENDIAN \<Rightarrow> val)"

definition ntohll :: "byte_order \<Rightarrow> u64 \<Rightarrow> u64" where
  "ntohll bo val = (case bo of LITTLE_ENDIAN \<Rightarrow> bswap64 val | BIG_ENDIAN \<Rightarrow> val)"

definition join32to64 :: "byte_order \<Rightarrow> u32 \<Rightarrow> u32 \<Rightarrow> u64" where
  "join32to64 bo x1 x2 =
     (case bo of BIG_ENDIAN \<Rightarrow> push_bit 32 (ucast x1) OR ucast x2
               | LITTLE_ENDIAN \<Rightarrow> ucast x1 OR push_bit 32 (ucast x2))"

definition split64to32 :: "byte_order \<Rightarrow> u64 \<Rightarrow> u32 \<times> u32" where
  "split64to32 bo x =
     (case bo of BIG_ENDIAN \<Rightarrow> (ucast (drop_bit 32 x), ucast (x AND 0xffffffff))
               | LITTLE_ENDIAN \<Rightarrow> (ucast (x AND 0xffffffff), ucast (drop_bit 32 x)))"

subsection \<open>Memory images\<close>

text \<open>Byte \<open>k\<close> of an integer, counted from the least significant, and its big-endian image.\<close>

definition byte_of :: "nat \<Rightarrow> 'a::len word \<Rightarrow> u8" where
  "byte_of k w = ucast (drop_bit (8 * k) w)"

definition be_bytes :: "nat \<Rightarrow> 'a::len word \<Rightarrow> u8 list" where
  "be_bytes n w = map (\<lambda>k. byte_of k w) (rev [0..<n])"

lemma bit_byte_of [bit_facts]: "bit (byte_of k w) i \<longleftrightarrow> i < 8 \<and> bit w (8 * k + i)"
  by (auto simp: byte_of_def bit_simps)

lemma byte_of_eqI:
  "(\<And>i. i < 8 \<Longrightarrow> bit w (8 * k + i) = bit v (8 * l + i)) \<Longrightarrow> byte_of k w = byte_of l v"
  by (rule bit_word_eqI) (simp add: bit_byte_of)

lemma byte_mask:
  "(0xff :: 'a::len word) = push_bit 0 (mask 8)" "(0xff00 :: 'a word) = push_bit 8 (mask 8)"
  "(0xff0000 :: 'a word) = push_bit 16 (mask 8)" "(0xff000000 :: 'a word) = push_bit 24 (mask 8)"
  "(0xff00000000 :: 'a word) = push_bit 32 (mask 8)"
  "(0xff0000000000 :: 'a word) = push_bit 40 (mask 8)"
  "(0xff000000000000 :: 'a word) = push_bit 48 (mask 8)"
  "(0xff00000000000000 :: 'a word) = push_bit 56 (mask 8)"
  by (simp_all add: mask_eq_exp_minus_1 push_bit_eq_mult)

lemma word32_mask: "(0xffffffff :: 'a::len word) = mask 32"
  by (simp add: mask_eq_exp_minus_1)

lemmas bswap_bits = bit_facts byte_mask bit_simps

lemma bytes_bswap16:
  "byte_of 0 (bswap16 x) = byte_of 1 x" "byte_of 1 (bswap16 x) = byte_of 0 x"
  by (rule byte_of_eqI, simp add: bswap16_def bswap_bits)+

lemma bytes_bswap32:
  "byte_of 0 (bswap32 x) = byte_of 3 x" "byte_of 1 (bswap32 x) = byte_of 2 x"
  "byte_of 2 (bswap32 x) = byte_of 1 x" "byte_of 3 (bswap32 x) = byte_of 0 x"
  by (rule byte_of_eqI, simp add: bswap32_def bswap_bits)+

lemma bytes_bswap64:
  "byte_of 0 (bswap64 x) = byte_of 7 x" "byte_of 1 (bswap64 x) = byte_of 6 x"
  "byte_of 2 (bswap64 x) = 0" "byte_of 3 (bswap64 x) = 0"
  "byte_of 4 (bswap64 x) = byte_of 3 x" "byte_of 5 (bswap64 x) = byte_of 2 x OR byte_of 4 x"
  "byte_of 6 (bswap64 x) = byte_of 1 x" "byte_of 7 (bswap64 x) = byte_of 0 x"
  by (auto simp: bswap64_def bswap_bits intro!: bit_word_eqI dest: bit_imp_le_length)

lemma be_bytes_2: "be_bytes 2 w = [byte_of 1 w, byte_of 0 w]"
  and be_bytes_4: "be_bytes 4 w = [byte_of 3 w, byte_of 2 w, byte_of 1 w, byte_of 0 w]"
  and be_bytes_8: "be_bytes 8 w = [byte_of 7 w, byte_of 6 w, byte_of 5 w, byte_of 4 w,
    byte_of 3 w, byte_of 2 w, byte_of 1 w, byte_of 0 w]"
  by (simp_all add: be_bytes_def numeral_eq_Suc)

text \<open>The image determines the integer.\<close>

lemma byte_of_inject:
  fixes x y :: "'a::len word"
  assumes "LENGTH('a) \<le> 8 * n" and "\<And>k. k < n \<Longrightarrow> byte_of k x = byte_of k y"
  shows "x = y"
proof (rule bit_word_eqI)
  fix i assume i: "i < LENGTH('a)"
  with assms(1) have "i div 8 < n" by linarith
  then have "bit (byte_of (i div 8) x) (i mod 8) = bit (byte_of (i div 8) y) (i mod 8)"
    using assms(2) by simp
  then show "bit x i = bit y i" by (simp add: bit_byte_of)
qed

lemma be_bytes_inject:
  fixes x y :: "'a::len word"
  assumes "LENGTH('a) \<le> 8 * n" and "be_bytes n x = be_bytes n y"
  shows "x = y"
proof (rule byte_of_inject [OF assms(1)])
  fix k assume "k < n"
  with assms(2) show "byte_of k x = byte_of k y"
    by (auto simp: be_bytes_def)
qed

lemma be_bytes_bswap16: "be_bytes 2 (bswap16 x) = rev (be_bytes 2 x)"
  by (simp add: be_bytes_2 bytes_bswap16 del: One_nat_def)

lemma be_bytes_bswap32: "be_bytes 4 (bswap32 x) = rev (be_bytes 4 x)"
  by (simp add: be_bytes_4 bytes_bswap32 del: One_nat_def)

lemma bswap16_bswap16 [simp]: "bswap16 (bswap16 x) = x"
  by (rule be_bytes_inject [of 2]) (simp_all add: be_bytes_bswap16)

lemma bswap32_bswap32 [simp]: "bswap32 (bswap32 x) = x"
  by (rule be_bytes_inject [of 4]) (simp_all add: be_bytes_bswap32)

lemma split_join: "split64to32 bo (join32to64 bo x1 x2) = (x1, x2)"
  by (cases bo) (auto simp: split64to32_def join32to64_def word32_mask bit_simps
    intro!: bit_word_eqI dest: bit_imp_le_length)

lemma join_split: "(case split64to32 bo x of (y1, y2) \<Rightarrow> join32to64 bo y1 y2) = x"
  by (cases bo) (auto simp: split64to32_def join32to64_def word32_mask bit_simps
    intro!: bit_word_eqI dest: bit_imp_le_length)

text \<open>On the big-endian host the joined value has the two images one after the other.\<close>

lemma be_bytes_join: "be_bytes 8 (join32to64 BIG_ENDIAN x1 x2) = be_bytes 4 x1 @ be_bytes 4 x2"
  by (auto simp: be_bytes_4 be_bytes_8 join32to64_def bit_facts bit_simps
    intro!: bit_word_eqI dest: bit_imp_le_length)

subsection \<open>time.c\<close>

text \<open>
  \<open>tv_sec\<close> is a signed 64-bit and \<open>tv_nsec\<close> a signed 32-bit integer; the integers of the
  model are exact as long as the seconds stay in range, the nanoseconds always do when both
  arguments are normalised (at most \<open>2 * 10 ^ 9 - 2 < 2 ^ 31\<close>).
\<close>

record timespec =
  tv_sec :: int
  tv_nsec :: int

definition timespec_add :: "timespec \<Rightarrow> timespec \<Rightarrow> timespec" where
  "timespec_add ts1 ts2 =
     (let ret = \<lparr>tv_sec = tv_sec ts1 + tv_sec ts2, tv_nsec = tv_nsec ts1 + tv_nsec ts2\<rparr>
      in if tv_nsec ret \<ge> 1000000000
         then ret\<lparr>tv_nsec := tv_nsec ret - 1000000000, tv_sec := tv_sec ret + 1\<rparr>
         else ret)"

definition timespec_sub :: "timespec \<Rightarrow> timespec \<Rightarrow> timespec" where
  "timespec_sub ts1 ts2 =
     (let r = ts1;
          r = (if tv_nsec r < tv_nsec ts2
               then r\<lparr>tv_nsec := tv_nsec r + 1000000000, tv_sec := tv_sec r - 1\<rparr> else r)
      in r\<lparr>tv_nsec := tv_nsec r - tv_nsec ts2, tv_sec := tv_sec r - tv_sec ts2\<rparr>)"

definition normalised :: "timespec \<Rightarrow> bool" where
  "normalised ts \<longleftrightarrow> 0 \<le> tv_nsec ts \<and> tv_nsec ts < 1000000000"

definition nanoseconds :: "timespec \<Rightarrow> int" where
  "nanoseconds ts = tv_sec ts * 1000000000 + tv_nsec ts"

lemma timespec_add_correct:
  assumes "normalised a" and "normalised b"
  shows "nanoseconds (timespec_add a b) = nanoseconds a + nanoseconds b"
    and "normalised (timespec_add a b)"
  using assms by (auto simp: nanoseconds_def normalised_def timespec_add_def Let_def)

lemma timespec_sub_correct:
  assumes "normalised a" and "normalised b"
  shows "nanoseconds (timespec_sub a b) = nanoseconds a - nanoseconds b"
    and "normalised (timespec_sub a b)"
  using assms by (auto simp: nanoseconds_def normalised_def timespec_sub_def Let_def)

lemma normalised_eq:
  assumes "normalised a" and "normalised b" and "nanoseconds a = nanoseconds b"
  shows "a = (b :: timespec)"
proof -
  have "nanoseconds x div 1000000000 = tv_sec x" "nanoseconds x mod 1000000000 = tv_nsec x"
    if "normalised x" for x :: timespec
    using that by (simp_all add: normalised_def nanoseconds_def)
  with assms show ?thesis
    by (metis timespec.equality old.unit.exhaust)
qed

subsection \<open>Properties\<close>

text \<open>
  \<open>bswap16\<close> and \<open>bswap32\<close> reverse the bytes of their argument in memory and are
  their own inverses.
\<close>

theorem bswap_reverses:
  "be_bytes 2 (bswap16 x) = rev (be_bytes 2 x) \<and> bswap16 (bswap16 x) = x \<and>
   be_bytes 4 (bswap32 y) = rev (be_bytes 4 y) \<and> bswap32 (bswap32 y) = y"
  by (simp add: be_bytes_bswap16 be_bytes_bswap32)

text \<open>
  \<open>bswap64\<close> does not reverse the bytes: two of its lines shift left where a swap needs
  a right shift, so bytes 4 and 5 of the argument never reach their places (bytes 3 and 2 of
  the result are 0) and byte 4 is mixed into byte 5. Byte 5 is lost, hence two different
  arguments have the same image and no inverse exists.
\<close>

theorem bswap64_bytes:
  "be_bytes 8 (bswap64 x) =
     [byte_of 0 x, byte_of 1 x, byte_of 2 x OR byte_of 4 x, byte_of 3 x,
      0, 0, byte_of 6 x, byte_of 7 x]
   \<and> bswap64 0x0000010000000000 = bswap64 0"
  by (simp add: be_bytes_8 bytes_bswap64 del: One_nat_def) (simp add: bswap64_def)

text \<open>
  Splitting a 64-bit value into the two 32-bit words in memory order and joining them
  are inverse in both byte orders, and on the big-endian host the joined value is laid out
  as the two words one after the other.
\<close>

theorem join_split_roundtrip:
  "split64to32 bo (join32to64 bo x1 x2) = (x1, x2) \<and>
   (case split64to32 bo y of (y1, y2) \<Rightarrow> join32to64 bo y1 y2) = y \<and>
   be_bytes 8 (join32to64 BIG_ENDIAN x1 x2) = be_bytes 4 x1 @ be_bytes 4 x2"
  using split_join join_split be_bytes_join by simp

text \<open>
  On normalised times \<open>timespec_add\<close> and \<open>timespec_sub\<close> are addition and subtraction of
  nanoseconds with a normalised result, so subtracting what was added gives the time back.
\<close>

theorem timespec_add_sub:
  assumes "normalised a" and "normalised b"
  shows "nanoseconds (timespec_add a b) = nanoseconds a + nanoseconds b
    \<and> nanoseconds (timespec_sub a b) = nanoseconds a - nanoseconds b
    \<and> timespec_sub (timespec_add a b) b = a"
proof -
  have "timespec_sub (timespec_add a b) b = a"
    using assms timespec_add_correct [OF assms]
    by (intro normalised_eq) (simp_all add: timespec_sub_correct)
  then show ?thesis using assms by (simp add: timespec_add_correct timespec_sub_correct)
qed

theorem timespec_add_sub_witness:
  "timespec_add \<lparr>tv_sec = 1, tv_nsec = 600000000\<rparr> \<lparr>tv_sec = 2, tv_nsec = 500000000\<rparr>
     = \<lparr>tv_sec = 4, tv_nsec = 100000000\<rparr>
   \<and> timespec_sub \<lparr>tv_sec = 4, tv_nsec = 100000000\<rparr> \<lparr>tv_sec = 2, tv_nsec = 500000000\<rparr>
     = \<lparr>tv_sec = 1, tv_nsec = 600000000\<rparr>"
proof -
  have run: "timespec_add \<lparr>tv_sec = 1, tv_nsec = 600000000\<rparr> \<lparr>tv_sec = 2, tv_nsec = 500000000\<rparr>
     = \<lparr>tv_sec = 4, tv_nsec = 100000000\<rparr>"
    by (simp add: timespec_add_def)
  show ?thesis
    using timespec_add_sub [of "\<lparr>tv_sec = 1, tv_nsec = 600000000\<rparr>" "\<lparr>tv_sec = 2, tv_nsec = 500000000\<rparr>"]
    unfolding run by (simp add: normalised_def)
qed

end
