(* ===== verification/Bitmap.thy ===== *)
theory Bitmap
  imports Prelude
begin

text \<open>
  Fixed-size bit arrays (\<^verbatim>\<open>kern/lib/bitmap.c\<close>), used by SFS as the map of free blocks.
  A \<open>bitmap\<close> is the C struct: the number of bits and the array of 8-bit words. \<open>used\<close> is
  the abstract value, the set of marked indexes below \<open>nbits\<close>; \<open>bitmap_wf\<close> says that the
  array has the right length and that the leftover bits of its last word are marked, which
  is what lets \<open>bitmap_alloc\<close> look at whole words. The locale \<open>index_allocator\<close> is the
  contract the file system relies on; it is interpreted on the operations of the code.
  Memory exhaustion in \<open>bitmap_create\<close> is an argument (one flag per \<open>kmalloc\<close>); an access
  outside the array is \<open>UNDEFINED\<close>.
\<close>

subsection \<open>The code\<close>

definition BITS_PER_WORD :: u32 where "BITS_PER_WORD = 8"
definition WORD_ALLBITS :: u8 where "WORD_ALLBITS = 0xff"

record bitmap =
  nbits :: u32
  bm_v :: "u8 list"

text \<open>Access to one word of the array.\<close>

definition load_word :: "nat \<Rightarrow> (bitmap, u8) kernel" where
  "load_word ix b = (if ix < length (bm_v b) then Inr (bm_v b ! ix) else Inl UNDEFINED, b)"

definition store_word :: "nat \<Rightarrow> u8 \<Rightarrow> (bitmap, unit) kernel" where
  "store_word ix w b =
     (if ix < length (bm_v b) then (Inr (), b\<lparr>bm_v := (bm_v b)[ix := w]\<rparr>) else (Inl UNDEFINED, b))"

text \<open>The loop of \<open>bitmap_create\<close> that marks bits \<open>j\<close> .. 7 of the last word.\<close>

function fill_overbits :: "nat \<Rightarrow> u8 \<Rightarrow> u8" where
  "fill_overbits j w =
     (if j < unat BITS_PER_WORD then fill_overbits (Suc j) (w OR push_bit j 1) else w)"
  by pat_completeness auto
termination by (relation "measure (\<lambda>(j, w). unat BITS_PER_WORD - j)") auto

definition bitmap_create :: "bool \<Rightarrow> bool \<Rightarrow> u32 \<Rightarrow> bitmap option result" where
  "bitmap_create struct_ok words_ok n =
     (let words = DIVROUNDUP n BITS_PER_WORD
      in if \<not> struct_ok then Inr None
         else if \<not> words_ok then Inr None
         else
           let vs = replicate (unat words) 0
           in if words > n div BITS_PER_WORD then
                let ix = words - 1;
                    overbits = n - ix * BITS_PER_WORD
                in if n div BITS_PER_WORD \<noteq> words - 1 then Inl PANIC
                   else if \<not> (overbits > 0 \<and> overbits < BITS_PER_WORD) then Inl PANIC
                   else Inr (Some \<lparr>nbits = n,
                          bm_v = vs[unat ix := fill_overbits (unat overbits) (vs ! unat ix)]\<rparr>)
              else Inr (Some \<lparr>nbits = n, bm_v = vs\<rparr>))"

definition bitmap_getdata :: "bitmap \<Rightarrow> u8 list" where
  "bitmap_getdata b = bm_v b"

text \<open>The inner loop of \<open>bitmap_alloc\<close>: the first clear bit of a word.\<close>

function first_clear :: "u8 \<Rightarrow> nat \<Rightarrow> nat option" where
  "first_clear w offset =
     (if offset < unat BITS_PER_WORD
      then if w AND push_bit offset 1 = 0 then Some offset else first_clear w (Suc offset)
      else None)"
  by pat_completeness auto
termination by (relation "measure (\<lambda>(w, offset). unat BITS_PER_WORD - offset)") auto

function bitmap_alloc_from :: "u32 \<Rightarrow> nat \<Rightarrow> (bitmap, u32) kernel" where
  "bitmap_alloc_from maxix ix =
     (if ix < unat maxix then
        kbind (load_word ix) (\<lambda>w.
          if w \<noteq> WORD_ALLBITS then
            (case first_clear w 0 of
               Some offset \<Rightarrow>
                 let index = of_nat ix * BITS_PER_WORD + of_nat offset
                 in kbind (store_word ix (w OR push_bit offset 1)) (\<lambda>_.
                    kbind (kget nbits) (\<lambda>n.
                    kbind (kassert (index < n)) (\<lambda>_.
                    kreturn index)))
             | None \<Rightarrow> kfail PANIC)
          else bitmap_alloc_from maxix (Suc ix))
      else kfail ENOSPC)"
  by pat_completeness auto
termination by (relation "measure (\<lambda>(m, ix). unat m - ix)") auto

definition bitmap_alloc :: "(bitmap, u32) kernel" where
  "bitmap_alloc = kbind (kget nbits) (\<lambda>n. bitmap_alloc_from (DIVROUNDUP n BITS_PER_WORD) 0)"

definition bitmap_translate :: "u32 \<Rightarrow> nat \<times> u8" where
  "bitmap_translate bitno =
     (let ix = bitno div BITS_PER_WORD;
          offset = bitno mod BITS_PER_WORD
      in (unat ix, push_bit (unat offset) 1))"

definition bitmap_mark :: "u32 \<Rightarrow> (bitmap, unit) kernel" where
  "bitmap_mark index =
     kbind (kget nbits) (\<lambda>n.
     kbind (kassert (index < n)) (\<lambda>_.
     let (ix, mask) = bitmap_translate index
     in kbind (load_word ix) (\<lambda>w.
        kbind (kassert (w AND mask = 0)) (\<lambda>_.
        store_word ix (w OR mask)))))"

definition bitmap_unmark :: "u32 \<Rightarrow> (bitmap, unit) kernel" where
  "bitmap_unmark index =
     kbind (kget nbits) (\<lambda>n.
     kbind (kassert (index < n)) (\<lambda>_.
     let (ix, mask) = bitmap_translate index
     in kbind (load_word ix) (\<lambda>w.
        kbind (kassert (w AND mask \<noteq> 0)) (\<lambda>_.
        store_word ix (w AND NOT mask)))))"

text \<open>No range check here: the code leaves that to its callers.\<close>

definition bitmap_isset :: "u32 \<Rightarrow> (bitmap, u8) kernel" where
  "bitmap_isset index =
     (let (ix, mask) = bitmap_translate index
      in kbind (load_word ix) (\<lambda>w. kreturn (w AND mask)))"

declare fill_overbits.simps [simp del] first_clear.simps [simp del] bitmap_alloc_from.simps [simp del]

subsection \<open>The abstract value\<close>

definition bmem :: "bitmap \<Rightarrow> nat \<Rightarrow> bool" where
  "bmem b i \<longleftrightarrow> bit (bm_v b ! (i div 8)) (i mod 8)"

definition used :: "bitmap \<Rightarrow> nat set" where
  "used b = {i. i < unat (nbits b) \<and> bmem b i}"

definition bitmap_wf :: "bitmap \<Rightarrow> bool" where
  "bitmap_wf b \<longleftrightarrow>
     unat (nbits b) + 7 < 2 ^ 32 \<and>
     length (bm_v b) = (unat (nbits b) + 7) div 8 \<and>
     (\<forall>i. unat (nbits b) \<le> i \<and> i < 8 * length (bm_v b) \<longrightarrow> bmem b i)"

definition with_bit :: "bool \<Rightarrow> nat \<Rightarrow> bitmap \<Rightarrow> bitmap" where
  "with_bit x i b = b\<lparr>bm_v := (bm_v b)[i div 8 :=
     (if x then bm_v b ! (i div 8) OR push_bit (i mod 8) 1
      else bm_v b ! (i div 8) AND NOT (push_bit (i mod 8) 1))]\<rparr>"

lemma nbits_with_bit [simp]: "nbits (with_bit x i b) = nbits b"
  by (simp add: with_bit_def)

lemma length_with_bit [simp]: "length (bm_v (with_bit x i b)) = length (bm_v b)"
  by (simp add: with_bit_def)

lemma bmem_with_bit:
  assumes "i < 8 * length (bm_v b)"
  shows "bmem (with_bit x i b) j \<longleftrightarrow> (if j = i then x else bmem b j)"
proof -
  have i: "i div 8 < length (bm_v b)" using assms by linarith
  have ne: "j mod 8 \<noteq> i mod 8" if "j div 8 = i div 8" "j \<noteq> i"
    using that by (metis div_mult_mod_eq)
  show ?thesis
  proof (cases "j div 8 = i div 8")
    case True
    then show ?thesis using i ne
      by (auto simp: bmem_def with_bit_def bit_simps)
  next
    case False
    then show ?thesis using i by (auto simp: bmem_def with_bit_def)
  qed
qed

lemma used_with_bit:
  assumes "i < unat (nbits b)" and "bitmap_wf b"
  shows "used (with_bit x i b) = (if x then insert i (used b) else used b - {i})"
proof -
  have "i < 8 * length (bm_v b)" using assms by (auto simp: bitmap_wf_def)
  then show ?thesis using assms(1) by (auto simp: used_def bmem_with_bit)
qed

lemma wf_with_bit:
  assumes "i < unat (nbits b)" and "bitmap_wf b"
  shows "bitmap_wf (with_bit x i b)"
proof -
  have "i < 8 * length (bm_v b)" using assms by (auto simp: bitmap_wf_def)
  then show ?thesis using assms by (auto simp: bitmap_wf_def bmem_with_bit)
qed

lemma finite_used [simp]: "finite (used b)"
  by (rule finite_subset [of _ "{..<unat (nbits b)}"]) (auto simp: used_def)

subsection \<open>Words and bits\<close>

lemma bits_const: "unat BITS_PER_WORD = 8"
  by (simp add: BITS_PER_WORD_def)

lemma allbits_iff: "w = WORD_ALLBITS \<longleftrightarrow> (\<forall>k < 8. bit w k)"
proof -
  have all: "WORD_ALLBITS = mask 8" by (simp add: WORD_ALLBITS_def mask_eq_exp_minus_1)
  show ?thesis
    unfolding all by (auto simp: bit_simps intro!: bit_word_eqI)
qed

lemma fill_overbits_bit: "bit (fill_overbits j w) k \<longleftrightarrow> bit w k \<or> (j \<le> k \<and> k < 8)"
proof (induction j w rule: fill_overbits.induct)
  case (1 j w)
  show ?case
  proof (cases "j < 8")
    case True
    then have "bit (fill_overbits j w) k \<longleftrightarrow> bit (fill_overbits (Suc j) (w OR push_bit j 1)) k"
      by (simp add: fill_overbits.simps [of j w] bits_const)
    with True 1 show ?thesis by (auto simp: bits_const bit_simps)
  next
    case False
    then show ?thesis by (auto simp: fill_overbits.simps [of j w] bits_const)
  qed
qed

lemma first_clear_step:
  "first_clear w k = (if k < 8 then if bit w k then first_clear w (Suc k) else Some k else None)"
  by (simp add: first_clear.simps [of w k] bits_const bit_facts)

lemma first_clear_Some:
  "first_clear w k = Some j \<Longrightarrow> k \<le> j \<and> j < 8 \<and> \<not> bit w j \<and> (\<forall>i. k \<le> i \<and> i < j \<longrightarrow> bit w i)"
proof (induction w k rule: first_clear.induct)
  case (1 w k)
  show ?case
  proof (cases "k < 8 \<and> bit w k")
    case True
    with "1.prems" have "first_clear w (Suc k) = Some j" by (simp add: first_clear_step [of w k])
    with True "1.IH" have "Suc k \<le> j \<and> j < 8 \<and> \<not> bit w j \<and> (\<forall>i. Suc k \<le> i \<and> i < j \<longrightarrow> bit w i)"
      by (simp add: bits_const bit_facts)
    with True show ?thesis by (metis Suc_leD Suc_leI le_neq_implies_less)
  next
    case False
    with "1.prems" show ?thesis by (auto simp: first_clear_step [of w k] split: if_splits)
  qed
qed

lemma first_clear_None:
  "first_clear w k = None \<Longrightarrow> k \<le> i \<Longrightarrow> i < 8 \<Longrightarrow> bit w i"
proof (induction w k rule: first_clear.induct)
  case (1 w k)
  then have *: "k < 8 \<and> bit w k \<and> first_clear w (Suc k) = None"
    by (auto simp: first_clear_step [of w k] split: if_splits)
  with 1 show ?case
    by (cases "i = k") (auto simp: bits_const bit_facts)
qed

subsection \<open>Creation\<close>

lemma words_eq: "unat n + 7 < 2 ^ 32 \<Longrightarrow> unat (DIVROUNDUP n BITS_PER_WORD) = (unat n + 7) div 8"
  by (subst unat_DIVROUNDUP) (simp_all add: bits_const)

lemma div_8_roundup: "(m + 7) div 8 = (if m mod 8 = 0 then m div 8 else Suc (m div 8))" for m :: nat
proof -
  have "(r + 7) div 8 = (if r = 0 then 0 else 1)" if "r < 8" for r :: nat
    using that by (auto intro: div_nat_eqI)
  then have "(m mod 8 + 7) div 8 = (if m mod 8 = 0 then 0 else 1)" by simp
  then show ?thesis by (simp add: div_add1_eq [of m 7 8])
qed

lemma unat_sub_mult_8:
  fixes n ix :: u32
  assumes "unat ix * 8 \<le> unat n"
  shows "unat (n - ix * BITS_PER_WORD) = unat n - unat ix * 8"
proof -
  have "unat (ix * BITS_PER_WORD) = unat ix * 8"
  proof -
    have "unat ix * 8 < 4294967296" using assms unat_u32_less [of n] by linarith
    then show ?thesis using unat_mult_u32 [of ix BITS_PER_WORD] by (simp add: bits_const)
  qed
  with assms show ?thesis by (simp add: unat_sub_u32)
qed

lemma bitmap_create_correct:
  assumes "unat n + 7 < 2 ^ 32"
  shows "\<exists>b. bitmap_create True True n = Inr (Some b) \<and> nbits b = n \<and> bitmap_wf b \<and> used b = {}"
proof -
  define words where "words = DIVROUNDUP n BITS_PER_WORD"
  have uw: "unat words = (unat n + 7) div 8" using words_eq [OF assms] by (simp add: words_def)
  have nd: "unat (n div BITS_PER_WORD) = unat n div 8" by (simp add: unat_div bits_const)
  show ?thesis
  proof (cases "words > n div BITS_PER_WORD")
    case True
    then have lt: "unat n div 8 < (unat n + 7) div 8"
      using uw nd by (simp add: word_less_nat_alt)
    then have rng: "0 < unat n mod 8" "unat n mod 8 < 8"
      by (simp_all add: div_8_roundup split: if_splits)
    then have eq: "(unat n + 7) div 8 = Suc (unat n div 8)" by (simp add: div_8_roundup)
    have pos: "1 \<le> words" using uw eq by (simp add: word_le_nat_alt)
    have ix: "unat (words - 1) = unat n div 8" using pos uw eq by (simp add: unat_sub)
    then have ixw: "n div BITS_PER_WORD = words - 1" using nd by (simp add: word_unat_eq_iff)
    have ob: "unat (n - (words - 1) * BITS_PER_WORD) = unat n mod 8"
      using ix by (subst unat_sub_mult_8) (auto simp: minus_mult_div_eq_mod mult.commute)
    define b where "b = \<lparr>nbits = n, bm_v = (replicate (unat words) 0)[unat n div 8 :=
      fill_overbits (unat n mod 8) (replicate (unat words) 0 ! (unat n div 8))]\<rparr>"
    have mem: "bmem b i \<longleftrightarrow> i div 8 = unat n div 8 \<and> unat n mod 8 \<le> i mod 8"
      if "i < 8 * unat words" for i
    proof -
      have "i div 8 < unat words" "unat n div 8 < unat words" using that eq uw by linarith+
      then show ?thesis by (auto simp: b_def bmem_def nth_list_update fill_overbits_bit)
    qed
    have "unat n \<le> i" if "i div 8 = unat n div 8" "unat n mod 8 \<le> i mod 8" for i
      using that by (metis div_mult_mod_eq add_left_mono)
    moreover have "i div 8 = unat n div 8 \<and> unat n mod 8 \<le> i mod 8"
      if "unat n \<le> i" "i < 8 * unat words" for i
    proof -
      have "i div 8 < Suc (unat n div 8)" using that uw eq by linarith
      moreover have "unat n div 8 \<le> i div 8" using that(1) by (rule div_le_mono)
      ultimately have "i div 8 = unat n div 8" by simp
      then show ?thesis using that(1)
        by (metis add_le_cancel_left div_mult_mod_eq)
    qed
    ultimately have iff: "bmem b i \<longleftrightarrow> unat n \<le> i" if "i < 8 * unat words" for i
      using mem that by blast
    have len: "nbits b = n" "length (bm_v b) = unat words" by (simp_all add: b_def)
    have "unat n \<le> 8 * unat words" using uw by linarith
    then have "bitmap_wf b \<and> used b = {}"
      using assms uw iff len by (auto simp: bitmap_wf_def used_def)
    moreover have "bitmap_create True True n = Inr (Some b)"
      using True ixw ob rng ix
      by (simp add: bitmap_create_def Let_def words_def [symmetric] b_def word_less_nat_alt bits_const)
    ultimately show ?thesis by (auto simp: b_def)
  next
    case False
    then have "(unat n + 7) div 8 \<le> unat n div 8"
      using uw nd by (simp add: word_less_nat_alt not_less)
    then have "8 * unat words = unat n" using uw by linarith
    with False uw assms show ?thesis
      by (auto simp: bitmap_create_def Let_def words_def [symmetric] bitmap_wf_def used_def bmem_def)
  qed
qed

subsection \<open>Allocation\<close>

lemma store_bit:
  assumes "i < 8 * length (bm_v b)"
  shows "store_word (i div 8) (bm_v b ! (i div 8) OR 2 ^ (i mod 8)) b = (Inr (), with_bit True i b)"
    and "store_word (i div 8) (bm_v b ! (i div 8) AND NOT (2 ^ (i mod 8))) b
           = (Inr (), with_bit False i b)"
proof -
  have "i div 8 < length (bm_v b)" using assms by linarith
  then show "store_word (i div 8) (bm_v b ! (i div 8) OR 2 ^ (i mod 8)) b = (Inr (), with_bit True i b)"
    and "store_word (i div 8) (bm_v b ! (i div 8) AND NOT (2 ^ (i mod 8))) b
           = (Inr (), with_bit False i b)"
    by (simp_all add: store_word_def with_bit_def)
qed

text \<open>What a search returns: the least clear bit, or the news that there is none.\<close>

definition alloc_result :: "bitmap \<Rightarrow> u32 result \<times> bitmap" where
  "alloc_result b =
     (if \<forall>i < unat (nbits b). bmem b i then (Inl ENOSPC, b)
      else let i = LEAST i. \<not> bmem b i in (Inr (of_nat i), with_bit True i b))"

lemma alloc_result_least:
  assumes "i < unat (nbits b)" "\<not> bmem b i" "\<And>j. j < i \<Longrightarrow> bmem b j"
  shows "alloc_result b = (Inr (of_nat i), with_bit True i b)"
proof -
  have "(LEAST i. \<not> bmem b i) = i"
    using assms(2,3) by (intro Least_equality) (auto simp: not_less [symmetric])
  with assms(1,2) show ?thesis by (auto simp: alloc_result_def Let_def)
qed

lemma bitmap_alloc_from_correct:
  assumes "bitmap_wf b" and "unat maxix = length (bm_v b)" and "\<forall>j < 8 * ix. bmem b j"
  shows "bitmap_alloc_from maxix ix b = alloc_result b"
  using assms
proof (induction maxix ix rule: bitmap_alloc_from.induct)
  case (1 maxix ix)
  have nb: "unat (nbits b) \<le> 8 * length (bm_v b)" using "1.prems"(1) by (auto simp: bitmap_wf_def)
  show ?case
  proof (cases "ix < length (bm_v b)")
    case False
    then have "\<forall>i < unat (nbits b). bmem b i" using nb "1.prems"(3) by auto
    with False "1.prems"(2) show ?thesis
      by (simp add: bitmap_alloc_from.simps [of maxix ix] alloc_result_def kfail_def)
  next
    case ix: True
    define w where "w = bm_v b ! ix"
    have load: "load_word ix b = (Inr w, b)" using ix by (simp add: load_word_def w_def)
    show ?thesis
    proof (cases "w = WORD_ALLBITS")
      case True
      have "bmem b j" if "j < 8 * Suc ix" for j
      proof (cases "j < 8 * ix")
        case False
        with that have "j div 8 = ix" by (intro div_nat_eqI) auto
        with True show ?thesis by (simp add: bmem_def w_def allbits_iff)
      qed (use "1.prems"(3) in simp)
      with "1.IH" [of w] "1.prems" ix True show ?thesis
        by (simp add: bitmap_alloc_from.simps [of maxix ix] kbind_Inr load)
    next
      case False
      obtain k where k: "first_clear w 0 = Some k"
      proof (cases "first_clear w 0")
        case None
        then have "w = WORD_ALLBITS" using first_clear_None [OF None] by (simp add: allbits_iff)
        with False show ?thesis by simp
      qed blast
      define i where "i = 8 * ix + k"
      from first_clear_Some [OF k] have k': "k < 8" "\<not> bit w k" "\<forall>j < k. bit w j" by auto
      then have div: "i div 8 = ix" "i mod 8 = k" by (auto simp: i_def)
      have i8: "i < 8 * length (bm_v b)" using ix k'(1) by (simp add: i_def)
      have clear: "\<not> bmem b i" using k'(2) div by (simp add: bmem_def w_def)
      then have ilt: "i < unat (nbits b)" using "1.prems"(1) i8 by (auto simp: bitmap_wf_def not_less)
      have below: "bmem b j" if "j < i" for j
      proof (cases "j < 8 * ix")
        case False
        with that k'(1) have j: "j div 8 = ix" by (intro div_nat_eqI) (auto simp: i_def)
        with that have "j mod 8 < k" using minus_mult_div_eq_mod [of j 8] by (simp add: i_def)
        with j k'(3) show ?thesis by (simp add: bmem_def w_def)
      qed (use "1.prems"(3) in simp)
      have idx: "of_nat ix * BITS_PER_WORD + of_nat k = (of_nat i :: u32)"
        by (simp add: i_def BITS_PER_WORD_def)
      have "i < 4294967296" using ilt unat_u32_less [of "nbits b"] by linarith
      with ilt have bound: "(of_nat i :: u32) < nbits b" by (simp add: word_less_nat_alt)
      have "bitmap_alloc_from maxix ix b = (Inr (of_nat i), with_bit True i b)"
        using ix False k idx bound "1.prems"(2) store_bit(1) [OF i8] div
        by (simp add: bitmap_alloc_from.simps [of maxix ix] kbind_Inr load Let_def
            kmonad_defs w_def)
      then show ?thesis using alloc_result_least [OF ilt clear below] by simp
    qed
  qed
qed

lemma bitmap_alloc_result: "bitmap_wf b \<Longrightarrow> bitmap_alloc b = alloc_result b"
  unfolding bitmap_alloc_def
  by (subst kbind_Inr [where x = "nbits b" and s' = b])
    (auto simp: kget_def bitmap_wf_def words_eq intro!: bitmap_alloc_from_correct)

lemma least_free:
  assumes "used b \<noteq> {..<unat (nbits b)}" and "i = (LEAST i. \<not> bmem b i)"
  shows "i < unat (nbits b)" and "i \<notin> used b" and "{..<i} \<subseteq> used b"
proof -
  from assms(1) obtain j where j: "j < unat (nbits b)" "\<not> bmem b j" by (auto simp: used_def)
  have "i \<le> j" unfolding assms(2) using j(2) by (rule Least_le)
  moreover have "\<not> bmem b i"
    unfolding assms(2) using j(2) by (rule LeastI [where P = "\<lambda>i. \<not> bmem b i"])
  moreover have "bmem b k" if "k < i" for k using that assms(2) not_less_Least by blast
  ultimately show "i < unat (nbits b)" "i \<notin> used b" "{..<i} \<subseteq> used b"
    using j(1) by (auto simp: used_def)
qed

lemma bitmap_alloc_Inr:
  assumes wf: "bitmap_wf b" and r: "bitmap_alloc b = (Inr i, b')"
  shows "unat i < unat (nbits b)" and "unat i \<notin> used b" and "{..<unat i} \<subseteq> used b"
    and "used b' = insert (unat i) (used b)" and "bitmap_wf b'" and "nbits b' = nbits b"
proof -
  define k where "k = (LEAST i. \<not> bmem b i)"
  have free: "used b \<noteq> {..<unat (nbits b)}" and ik: "i = of_nat k" and b': "b' = with_bit True k b"
    using r bitmap_alloc_result [OF wf]
    by (auto simp: alloc_result_def Let_def used_def k_def split: if_splits)
  from least_free [OF free k_def] have k: "k < unat (nbits b)" "k \<notin> used b" "{..<k} \<subseteq> used b" .
  then have "k < 4294967296" using unat_u32_less [of "nbits b"] by linarith
  then have u: "unat i = k" using ik by simp
  from k u b' wf show "unat i < unat (nbits b)" "unat i \<notin> used b" "{..<unat i} \<subseteq> used b"
    "used b' = insert (unat i) (used b)" "bitmap_wf b'" "nbits b' = nbits b"
    by (simp_all add: used_with_bit wf_with_bit)
qed

lemma bitmap_alloc_Inl:
  assumes "bitmap_wf b" and "bitmap_alloc b = (Inl e, b')"
  shows "e = ENOSPC \<and> b' = b \<and> used b = {..<unat (nbits b)}"
  using assms bitmap_alloc_result [of b]
  by (auto simp: alloc_result_def Let_def used_def split: if_splits)

subsection \<open>Marking, clearing and testing one bit\<close>

lemma translate_eq: "bitmap_translate i = (unat i div 8, 2 ^ (unat i mod 8))"
  by (simp add: bitmap_translate_def Let_def unat_div unat_mod bits_const)

lemma wf_index:
  assumes "bitmap_wf b" and "i < nbits b"
  shows "unat i < 8 * length (bm_v b)" and "unat i div 8 < length (bm_v b)"
    and "load_word (unat i div 8) b = (Inr (bm_v b ! (unat i div 8)), b)"
  using assms by (auto simp: bitmap_wf_def word_less_nat_alt load_word_def)

lemma bitmap_mark_eq:
  assumes "bitmap_wf b"
  shows "bitmap_mark i b =
    (if i < nbits b \<and> unat i \<notin> used b then (Inr (), with_bit True (unat i) b) else (Inl PANIC, b))"
proof (cases "i < nbits b")
  case True
  note ix = wf_index [OF assms True]
  from True ix(3) show ?thesis
    by (auto simp: bitmap_mark_def kmonad_defs translate_eq store_bit [OF ix(1)] bit_facts
        used_def bmem_def word_less_nat_alt)
qed (simp add: bitmap_mark_def kmonad_defs)

lemma bitmap_unmark_eq:
  assumes "bitmap_wf b"
  shows "bitmap_unmark i b =
    (if unat i \<in> used b then (Inr (), with_bit False (unat i) b) else (Inl PANIC, b))"
proof (cases "i < nbits b")
  case True
  note ix = wf_index [OF assms True]
  from True ix(3) show ?thesis
    by (auto simp: bitmap_unmark_def kmonad_defs translate_eq store_bit [OF ix(1)] bit_facts
        used_def bmem_def word_less_nat_alt)
qed (simp add: bitmap_unmark_def kmonad_defs used_def word_less_nat_alt)

lemma bitmap_isset_eq:
  assumes "bitmap_wf b" and "i < nbits b"
  shows "\<exists>w. bitmap_isset i b = (Inr w, b) \<and> (w \<noteq> 0 \<longleftrightarrow> unat i \<in> used b)"
  using assms wf_index(3) [OF assms]
  by (auto simp: bitmap_isset_def kmonad_defs translate_eq bit_facts used_def bmem_def word_less_nat_alt)

subsection \<open>The contract of an index allocator\<close>

text \<open>
  What a client such as the file system relies on: the indexes \<open>used m\<close> among the first
  \<open>size m\<close>, a search that never hands out a used index and fails only when none is free,
  and the release of an index. The lemmas of the locale are proved from these laws alone.
\<close>

locale index_allocator =
  fixes alloc :: "('m, u32) kernel"
    and release :: "u32 \<Rightarrow> ('m, unit) kernel"
    and taken :: "'m \<Rightarrow> nat set"
    and capacity :: "'m \<Rightarrow> nat"
    and invar :: "'m \<Rightarrow> bool"
  assumes alloc_ok: "invar m \<Longrightarrow> alloc m = (Inr i, m') \<Longrightarrow>
      unat i < capacity m \<and> unat i \<notin> taken m \<and> taken m' = insert (unat i) (taken m)
      \<and> invar m' \<and> capacity m' = capacity m"
    and alloc_err: "invar m \<Longrightarrow> alloc m = (Inl e, m') \<Longrightarrow>
      e = ENOSPC \<and> m' = m \<and> taken m = {..<capacity m}"
    and release_ok: "invar m \<Longrightarrow> unat i \<in> taken m \<Longrightarrow>
      \<exists>m'. release i m = (Inr (), m') \<and> taken m' = taken m - {unat i} \<and> invar m'
        \<and> capacity m' = capacity m"
    and taken_bound: "taken m \<subseteq> {..<capacity m}"
begin

text \<open>Repeated allocation: the indexes handed out until the allocator gives up.\<close>

primrec alloc_many :: "nat \<Rightarrow> ('m, u32 list) kernel" where
  "alloc_many 0 = kreturn []"
| "alloc_many (Suc n) = kbind alloc (\<lambda>i. kbind (alloc_many n) (\<lambda>is. kreturn (i # is)))"

lemma finite_taken: "finite (taken m)"
  by (rule finite_subset [OF taken_bound]) simp

lemma alloc_succeeds: "invar m \<Longrightarrow> taken m \<noteq> {..<capacity m} \<Longrightarrow> \<exists>i m'. alloc m = (Inr i, m')"
  using alloc_err [of m] by (cases "alloc m"; cases "fst (alloc m)") auto

lemma alloc_release:
  assumes "invar m" and "alloc m = (Inr i, m')"
  shows "\<exists>m''. release i m' = (Inr (), m'') \<and> taken m'' = taken m \<and> invar m''"
  using alloc_ok [OF assms] release_ok [of m' i] by auto

lemma alloc_many_ok:
  assumes "invar m" and "alloc_many n m = (Inr is, m')"
  shows "distinct (map unat is) \<and> length is = n \<and> set (map unat is) \<inter> taken m = {} \<and>
    taken m' = set (map unat is) \<union> taken m \<and> invar m' \<and> capacity m' = capacity m"
  using assms
proof (induction n arbitrary: m "is")
  case 0
  then show ?case by (auto simp: kreturn_def)
next
  case (Suc n)
  from Suc.prems(2) obtain i m1 js where 1: "alloc m = (Inr i, m1)"
    and 2: "alloc_many n m1 = (Inr js, m')" and js: "is = i # js"
    by (auto simp: kbind_Inr_iff kreturn_def)
  note a = alloc_ok [OF Suc.prems(1) 1]
  with Suc.IH [OF _ 2] js show ?case by auto
qed

text \<open>As many requests succeed as there are free indexes.\<close>

lemma alloc_many_succeeds:
  assumes "invar m" and "n + card (taken m) \<le> capacity m"
  shows "\<exists>is m'. alloc_many n m = (Inr is, m')"
  using assms
proof (induction n arbitrary: m)
  case (Suc n)
  have "taken m \<noteq> {..<capacity m}"
  proof
    assume "taken m = {..<capacity m}"
    then have "card (taken m) = capacity m" by simp
    with Suc.prems(2) show False by simp
  qed
  with Suc.prems obtain i m1 where 1: "alloc m = (Inr i, m1)" using alloc_succeeds by blast
  note a = alloc_ok [OF Suc.prems(1) 1]
  then have "n + card (taken m1) \<le> capacity m1" using Suc.prems(2) finite_taken by simp
  with Suc.IH a obtain js m' where "alloc_many n m1 = (Inr js, m')" by blast
  with 1 show ?case by (auto simp: kbind_def kreturn_def)
qed (auto simp: kreturn_def)

end

interpretation freemap: index_allocator bitmap_alloc bitmap_unmark used "\<lambda>b. unat (nbits b)" bitmap_wf
proof (unfold_locales, goal_cases)
  case (1 m i m')
  then show ?case using bitmap_alloc_Inr [OF 1] by simp
next
  case (2 m e m')
  then show ?case by (rule bitmap_alloc_Inl)
next
  case (3 m i)
  then have "unat i < unat (nbits m)" by (simp add: used_def)
  with 3 show ?case by (simp add: bitmap_unmark_eq used_with_bit wf_with_bit)
next
  case (4 m)
  show ?case by (auto simp: used_def)
qed

subsection \<open>Properties\<close>

lemma with_bit_undo:
  assumes "i < 8 * length (bm_v b)" and "\<not> bmem b i"
  shows "with_bit False i (with_bit True i b) = b"
proof -
  have "i div 8 < length (bm_v b)" using assms(1) by linarith
  moreover have "(w OR 2 ^ k) AND NOT (2 ^ k) = w" if "\<not> bit w k" for w :: u8 and k
    using that by (intro bit_word_eqI) (auto simp: bit_simps)
  ultimately show ?thesis using assms(2) by (simp add: with_bit_def bmem_def)
qed

text \<open>
  On a well-formed bitmap \<open>bitmap_alloc\<close> never trips its assertions: it marks and
  returns the least clear index, leaves every other bit and the invariant alone, or returns
  \<open>ENOSPC\<close> with the bitmap unchanged, and does that only when every index is taken.
\<close>

theorem bitmap_alloc_least:
  assumes "bitmap_wf b"
  shows "case bitmap_alloc b of
      (Inr i, b') \<Rightarrow> unat i < unat (nbits b) \<and> unat i \<notin> used b \<and> {..<unat i} \<subseteq> used b
        \<and> used b' = insert (unat i) (used b) \<and> bitmap_wf b' \<and> nbits b' = nbits b
    | (Inl e, b') \<Rightarrow> e = ENOSPC \<and> b' = b \<and> used b = {..<unat (nbits b)}"
proof (cases "bitmap_alloc b")
  case (Pair r b')
  then show ?thesis
    using bitmap_alloc_Inr [OF assms, of _ b'] bitmap_alloc_Inl [OF assms, of _ b']
    by (cases r) simp_all
qed

lemma example_bitmap_wf: "bitmap_wf \<lparr>nbits = 10, bm_v = [0xff, 0xfd]\<rparr>"
proof -
  have "bmem \<lparr>nbits = 10, bm_v = [0xff, 0xfd]\<rparr> i" if "10 \<le> i" "i < 16" for i
  proof -
    have "i \<in> {10, 11, 12, 13, 14, 15}" using that by auto
    then show ?thesis by (auto simp: bmem_def)
  qed
  then show ?thesis by (simp add: bitmap_wf_def)
qed

theorem bitmap_alloc_least_witness:
  "bitmap_alloc \<lparr>nbits = 10, bm_v = [0xff, 0xfd]\<rparr> = (Inr 9, \<lparr>nbits = 10, bm_v = [0xff, 0xff]\<rparr>)
   \<and> 9 \<notin> used \<lparr>nbits = 10, bm_v = [0xff, 0xfd]\<rparr>"
proof -
  have run: "bitmap_alloc \<lparr>nbits = 10, bm_v = [0xff, 0xfd]\<rparr>
      = (Inr 9, \<lparr>nbits = 10, bm_v = [0xff, 0xff]\<rparr>)"
    by code_simp
  show ?thesis using bitmap_alloc_least [OF example_bitmap_wf] unfolding run by simp
qed

text \<open>
  Marking a clear index succeeds, and clearing it again restores the very same bitmap;
  marking a marked index or clearing a clear one stops the machine without a change.
\<close>

theorem bitmap_mark_unmark:
  assumes "bitmap_wf b" and "i < nbits b"
  shows "if unat i \<in> used b
      then bitmap_mark i b = (Inl PANIC, b) \<and> (\<exists>b'. bitmap_unmark i b = (Inr (), b') \<and> bitmap_wf b'
             \<and> used b' = used b - {unat i})
      else bitmap_unmark i b = (Inl PANIC, b) \<and> (\<exists>b'. bitmap_mark i b = (Inr (), b') \<and> bitmap_wf b'
             \<and> used b' = insert (unat i) (used b) \<and> bitmap_unmark i b' = (Inr (), b))"
proof -
  have lt: "unat i < unat (nbits b)" using assms(2) by (simp add: word_less_nat_alt)
  note with_bit = used_with_bit [OF lt assms(1)] wf_with_bit [OF lt assms(1)]
  have "with_bit False (unat i) (with_bit True (unat i) b) = b" if "unat i \<notin> used b"
    using that lt wf_index(1) [OF assms] by (intro with_bit_undo) (auto simp: used_def)
  then show ?thesis
    using assms by (simp add: bitmap_mark_eq bitmap_unmark_eq with_bit)
qed

theorem bitmap_mark_unmark_witness:
  "bitmap_mark 9 \<lparr>nbits = 10, bm_v = [0xff, 0xfd]\<rparr> = (Inr (), \<lparr>nbits = 10, bm_v = [0xff, 0xff]\<rparr>)
   \<and> bitmap_unmark 9 \<lparr>nbits = 10, bm_v = [0xff, 0xff]\<rparr> = (Inr (), \<lparr>nbits = 10, bm_v = [0xff, 0xfd]\<rparr>)"
proof -
  have run: "bitmap_mark 9 \<lparr>nbits = 10, bm_v = [0xff, 0xfd]\<rparr> = (Inr (), \<lparr>nbits = 10, bm_v = [0xff, 0xff]\<rparr>)"
    by code_simp
  have "9 \<notin> used \<lparr>nbits = 10, bm_v = [0xff, 0xfd]\<rparr>" by (simp add: used_def bmem_def)
  with bitmap_mark_unmark [OF example_bitmap_wf, of 9] run show ?thesis by simp
qed

end
