(* ===== verification/Karray.thy ===== *)
theory Karray
  imports Prelude "HOL-Library.While_Combinator"
begin

text \<open>
  Resizeable arrays of pointers (\<^verbatim>\<open>kern/lib/array.c\<close> and the inline operations of
  \<^verbatim>\<open>kern/include/array.h\<close>). The state is the C struct: the allocated block \<open>arr_v\<close> (a slot
  that was never stored to is \<open>None\<close>), the number of elements in use and the size of the
  block. \<open>kmalloc\<close> is the argument \<open>alloc_ok\<close>, which says for a size in bytes whether the
  allocation succeeds. The growth loop of \<open>array_preallocate\<close> doubles a 32-bit counter and
  need not stop, so the operations that may run it return \<open>None\<close> for "does not return";
  the lemmas show exactly when it stops, that the contents survive every operation, and
  that the block is never larger than twice what was asked for.
\<close>

subsection \<open>The code\<close>

record 'a array =
  arr_v :: "'a option list"
  arr_num :: u32
  arr_max :: u32

definition array_init :: "'a array" where
  "array_init = \<lparr>arr_v = [], arr_num = 0, arr_max = 0\<rparr>"

definition array_create :: "bool \<Rightarrow> 'a array option" where
  "array_create ok = (if ok then Some array_init else None)"

definition array_cleanup :: "('a array, unit) kernel" where
  "array_cleanup = kbind (kget arr_num) (\<lambda>n. kbind (kassert (n = 0)) (\<lambda>_.
     kmodify (\<lambda>a. a\<lparr>arr_v := []\<rparr>)))"

text \<open>\<open>array_destroy\<close> also frees the struct; nothing of it is left to model.\<close>

definition array_destroy :: "('a array, unit) kernel" where
  "array_destroy = array_cleanup"

definition array_get :: "u32 \<Rightarrow> ('a array, 'a option) kernel" where
  "array_get index a =
     (if \<not> index < arr_num a then Inl PANIC
      else if unat index < length (arr_v a) then Inr (arr_v a ! unat index) else Inl UNDEFINED, a)"

definition array_set :: "u32 \<Rightarrow> 'a \<Rightarrow> ('a array, unit) kernel" where
  "array_set index val a =
     (if \<not> index < arr_num a then (Inl PANIC, a)
      else if unat index < length (arr_v a)
        then (Inr (), a\<lparr>arr_v := (arr_v a)[unat index := Some val]\<rparr>)
      else (Inl UNDEFINED, a))"

text \<open>\<^verbatim>\<open>while (num > newmax) newmax = newmax ? newmax*2 : 4;\<close> on 32-bit integers.\<close>

definition array_growth :: "u32 \<Rightarrow> u32 \<Rightarrow> u32 option" where
  "array_growth num = while_option (\<lambda>newmax. num > newmax)
     (\<lambda>newmax. if newmax \<noteq> 0 then newmax * 2 else 4)"

definition array_preallocate ::
  "(u32 \<Rightarrow> bool) \<Rightarrow> u32 \<Rightarrow> 'a array \<Rightarrow> (unit result \<times> 'a array) option" where
  "array_preallocate alloc_ok num a =
     (if num > arr_max a then
        (case array_growth num (arr_max a) of
           None \<Rightarrow> None
         | Some newmax \<Rightarrow>
             let bytes = newmax * 4;
                 slots = unat (bytes div 4);
                 n = unat (arr_num a)
             in if \<not> alloc_ok bytes then Some (Inl ENOMEM, a)
                else if n > slots \<or> n > length (arr_v a) then Some (Inl UNDEFINED, a)
                else Some (Inr (), a\<lparr>arr_v := take n (arr_v a) @ replicate (slots - n) None,
                                    arr_max := newmax\<rparr>))
      else Some (Inr (), a))"

definition array_setsize ::
  "(u32 \<Rightarrow> bool) \<Rightarrow> u32 \<Rightarrow> 'a array \<Rightarrow> (unit result \<times> 'a array) option" where
  "array_setsize alloc_ok num a =
     (case array_preallocate alloc_ok num a of
        None \<Rightarrow> None
      | Some (Inl e, a') \<Rightarrow> Some (Inl e, a')
      | Some (Inr _, a') \<Rightarrow> Some (Inr (), a'\<lparr>arr_num := num\<rparr>))"

definition array_add ::
  "(u32 \<Rightarrow> bool) \<Rightarrow> 'a \<Rightarrow> 'a array \<Rightarrow> (u32 result \<times> 'a array) option" where
  "array_add alloc_ok val a =
     (let index = arr_num a
      in case array_setsize alloc_ok (index + 1) a of
           None \<Rightarrow> None
         | Some (Inl e, a') \<Rightarrow> Some (Inl e, a')
         | Some (Inr _, a') \<Rightarrow>
             if unat index < length (arr_v a')
             then Some (Inr index, a'\<lparr>arr_v := (arr_v a')[unat index := Some val]\<rparr>)
             else Some (Inl UNDEFINED, a'))"

definition array_remove :: "u32 \<Rightarrow> ('a array, unit) kernel" where
  "array_remove index a =
     (if \<not> arr_num a \<le> arr_max a then (Inl PANIC, a)
      else if \<not> index < arr_num a then (Inl PANIC, a)
      else
        let i = unat index;
            num_to_move = unat (arr_num a - (index + 1))
        in if i + 1 + num_to_move \<le> length (arr_v a)
           then (Inr (), a\<lparr>arr_v := overlay i (slice_at (i + 1) num_to_move (arr_v a)) (arr_v a),
                           arr_num := arr_num a - 1\<rparr>)
           else (Inl UNDEFINED, a))"

subsection \<open>The growth loop\<close>

definition grow_step :: "u32 \<Rightarrow> u32" where
  "grow_step m = (if m \<noteq> 0 then m * 2 else 4)"

lemma grow_step_unat:
  "unat m < 2147483648 \<Longrightarrow> unat (grow_step m) = (if m = 0 then 4 else 2 * unat m)"
  using unat_mult_u32 [of m 2] by (auto simp: grow_step_def)

lemma array_growth_step: "array_growth num = while_option (\<lambda>m. num > m) grow_step"
  by (simp add: array_growth_def grow_step_def [abs_def])

lemma array_growth_stops:
  assumes "unat num \<le> 2147483648"
  shows "\<exists>m. array_growth num start = Some m"
  unfolding array_growth_step
proof (rule measure_while_option_Some [where P = "\<lambda>_. True" and f = "\<lambda>m. unat num - unat m"])
  fix m assume m: "num > m"
  then have lt: "unat m < unat num" by (simp add: word_less_nat_alt)
  then have "unat (grow_step m) = (if m = 0 then 4 else 2 * unat m)"
    using assms by (intro grow_step_unat) simp
  moreover have "0 < unat m" if "m \<noteq> 0" using that by (simp add: unat_gt_0)
  ultimately have "unat m < unat (grow_step m)" by (cases "m = 0") auto
  with lt show "True \<and> unat num - unat (grow_step m) < unat num - unat m" by simp
qed simp

lemma array_growth_bounds:
  assumes num: "unat num \<le> 2147483648" and lt: "start < num" and r: "array_growth num start = Some m"
  shows "num \<le> m" and "unat m = 4 \<or> unat m < 2 * unat num"
proof -
  show "num \<le> m"
    using while_option_stop [OF r [unfolded array_growth_step]] by (simp add: not_less)
  define P where "P x \<longleftrightarrow> unat x < 2 * unat num \<or> unat x = 4" for x :: u32
  have "P m"
  proof (rule while_option_rule [where P = P, OF _ r [unfolded array_growth_step]])
    fix x assume "P x" "num > x"
    then have "unat x < unat num" by (simp add: word_less_nat_alt)
    moreover from this have "unat (grow_step x) = (if x = 0 then 4 else 2 * unat x)"
      using num by (intro grow_step_unat) simp
    ultimately show "P (grow_step x)" by (auto simp: P_def)
  next
    show "P start" using lt by (simp add: P_def word_less_nat_alt)
  qed
  then show "unat m = 4 \<or> unat m < 2 * unat num" by (auto simp: P_def)
qed

text \<open>
  Above half the address space the counter overflows to 0 and the loop starts again: the
  loop that begins with an empty array never stops. The counter stays a power of two.
\<close>

lemma array_growth_diverges:
  assumes "2147483648 < unat num"
  shows "array_growth num 0 = None"
proof (rule ccontr)
  assume "array_growth num 0 \<noteq> None"
  then obtain m where r: "array_growth num 0 = Some m" by auto
  define P where "P x \<longleftrightarrow> x = 0 \<or> (\<exists>k. 2 \<le> k \<and> k \<le> 31 \<and> unat x = 2 ^ k)" for x :: u32
  have "P m"
  proof (rule while_option_rule [where P = P, OF _ r [unfolded array_growth_step]])
    fix x :: u32 assume P: "P x"
    show "P (grow_step x)"
    proof (cases "x = 0")
      case True
      then show ?thesis by (auto simp: P_def grow_step_def intro!: exI [of _ 2])
    next
      case False
      with P obtain k where k: "2 \<le> k" "k \<le> 31" "unat x = 2 ^ k" by (auto simp: P_def)
      show ?thesis
      proof (cases "k = 31")
        case True
        have "x = word_of_nat (unat x)" by simp
        also have "unat x = 2147483648" using k(3) True by simp
        finally have "x * 2 = 0" by simp
        then show ?thesis using False by (simp add: P_def grow_step_def)
      next
        case k31: False
        then have "(2::nat) ^ k \<le> 2 ^ 30" using k(2) by (intro power_increasing) auto
        then have "unat (grow_step x) = 2 ^ Suc k"
          using k(3) False by (subst grow_step_unat) auto
        with k k31 show ?thesis by (auto simp: P_def intro!: exI [of _ "Suc k"])
      qed
    qed
  qed (simp add: P_def)
  moreover have "num \<le> m"
    using while_option_stop [OF r [unfolded array_growth_step]] by (simp add: not_less)
  moreover have "(2::nat) ^ k \<le> 2 ^ 31" if "k \<le> 31" for k using that by (intro power_increasing) auto
  ultimately show False
    using assms by (fastforce simp: P_def word_le_nat_alt)
qed

subsection \<open>The abstract value\<close>

definition contents :: "'a array \<Rightarrow> 'a option list" where
  "contents a = take (unat (arr_num a)) (arr_v a)"

definition array_wf :: "'a array \<Rightarrow> bool" where
  "array_wf a \<longleftrightarrow> unat (arr_num a) \<le> unat (arr_max a) \<and> length (arr_v a) = unat (arr_max a)
     \<and> unat (arr_max a) < 2 ^ 30"

lemma array_init_wf [simp]: "array_wf array_init" "contents array_init = []"
  by (simp_all add: array_wf_def contents_def array_init_def)

lemma length_contents: "array_wf a \<Longrightarrow> length (contents a) = unat (arr_num a)"
  by (simp add: array_wf_def contents_def)

lemma slots_eq: "unat m < 2 ^ 30 \<Longrightarrow> unat (m * 4 div 4) = unat m" for m :: u32
  using unat_mult_u32 [of m 4] by (simp add: unat_div)

lemma array_preallocate_correct:
  assumes wf: "array_wf a" and num: "unat num \<le> 2 ^ 29"
  obtains "array_preallocate alloc_ok num a = Some (Inl ENOMEM, a)" "arr_max a < num"
  | a' where "array_preallocate alloc_ok num a = Some (Inr (), a')" "array_wf a'" "num \<le> arr_max a'"
      "contents a' = contents a" "arr_num a' = arr_num a"
      "arr_max a' = arr_max a \<or> unat (arr_max a') = 4 \<or> unat (arr_max a') < 2 * unat num"
proof (cases "num > arr_max a")
  case False
  then show ?thesis using wf that(2) [of a] by (simp add: array_preallocate_def)
next
  case True
  from num have num': "unat num \<le> 2147483648" by simp
  obtain m where m: "array_growth num (arr_max a) = Some m"
    using array_growth_stops [OF num'] by blast
  note bd = array_growth_bounds [OF num' True m]
  then have "unat m < 2 ^ 30" using num by auto
  note sl = slots_eq [OF this]
  have n: "unat (arr_num a) \<le> unat m" "unat (arr_num a) \<le> length (arr_v a)"
    using wf bd(1) True by (auto simp: array_wf_def word_less_nat_alt word_le_nat_alt)
  show ?thesis
  proof (cases "alloc_ok (m * 4)")
    case False
    then show ?thesis using True m that(1) by (simp add: array_preallocate_def Let_def)
  next
    case ok: True
    define a' where "a' = a\<lparr>arr_v := take (unat (arr_num a)) (arr_v a)
        @ replicate (unat m - unat (arr_num a)) None, arr_max := m\<rparr>"
    have "array_preallocate alloc_ok num a = Some (Inr (), a')"
      using True m ok sl n by (simp add: array_preallocate_def Let_def a'_def)
    then show ?thesis
      using n bd num wf \<open>unat m < 2 ^ 30\<close> that(2) [of a']
      by (simp add: a'_def array_wf_def contents_def)
  qed
qed

lemma array_setsize_correct:
  assumes wf: "array_wf a" and num: "unat num \<le> 2 ^ 29"
  obtains "array_setsize alloc_ok num a = Some (Inl ENOMEM, a)" "arr_max a < num"
  | a' where "array_setsize alloc_ok num a = Some (Inr (), a')" "array_wf a'" "arr_num a' = num"
      "take (unat num) (contents a) = take (unat (arr_num a)) (contents a')"
      "contents (a'\<lparr>arr_num := arr_num a\<rparr>) = contents a"
proof (cases rule: array_preallocate_correct [OF wf num, of alloc_ok])
  case 1
  then show ?thesis using that(1) by (simp add: array_setsize_def)
next
  case (2 a1)
  have "take (unat num) (contents a) = take (unat (arr_num a)) (contents (a1\<lparr>arr_num := num\<rparr>))"
    using 2(4,5) by (metis (no_types, lifting) array.simps(2) array.simps(4) array.select_convs(1,2)
      array.update_convs(2) contents_def take_take min.commute array.surjective)
  moreover have "contents (a1\<lparr>arr_num := num, arr_num := arr_num a\<rparr>) = contents a"
    using 2(4,5) by (simp add: contents_def)
  ultimately show ?thesis
    using 2 that(2) [of "a1\<lparr>arr_num := num\<rparr>"]
    by (simp add: array_setsize_def array_wf_def word_le_nat_alt)
qed

lemma array_add_correct:
  assumes wf: "array_wf a" and num: "unat (arr_num a) < 2 ^ 29"
  obtains "array_add alloc_ok x a = Some (Inl ENOMEM, a)"
  | a' where "array_add alloc_ok x a = Some (Inr (arr_num a), a')" "array_wf a'"
      "contents a' = contents a @ [Some x]"
proof -
  have n1: "unat (arr_num a + 1) = unat (arr_num a) + 1"
    using num by (subst unat_add_u32) auto
  then have le: "unat (arr_num a + 1) \<le> 2 ^ 29" using num by simp
  show ?thesis
  proof (cases rule: array_setsize_correct [OF wf le, of alloc_ok])
    case 1
    then show ?thesis using that(1) by (simp add: array_add_def)
  next
    case (2 a1)
    define n where "n = unat (arr_num a)"
    define a' where "a' = a1\<lparr>arr_v := (arr_v a1)[n := Some x]\<rparr>"
    have nl: "n < length (arr_v a1)"
      using 2(2,3) n1 by (simp add: array_wf_def n_def)
    have "contents a = take n (arr_v a1)" using 2(5) by (simp add: contents_def n_def)
    moreover have "contents a' = take (Suc n) ((arr_v a1)[n := Some x])"
      using 2(3) n1 by (simp add: contents_def a'_def n_def)
    ultimately have "contents a' = contents a @ [Some x]"
      using nl by (simp add: take_Suc_conv_app_nth)
    moreover have "array_wf a'" using 2(2) by (simp add: array_wf_def a'_def)
    moreover have "array_add alloc_ok x a = Some (Inr (arr_num a), a')"
      using 2(1) nl by (simp add: array_add_def Let_def a'_def n_def)
    ultimately show ?thesis using that(2) by blast
  qed
qed

lemma array_get_correct:
  assumes "array_wf a" and "i < arr_num a"
  shows "array_get i a = (Inr (contents a ! unat i), a)"
  using assms by (auto simp: array_get_def array_wf_def contents_def word_less_nat_alt)

lemma array_set_correct:
  assumes "array_wf a" and "i < arr_num a"
  shows "\<exists>a'. array_set i x a = (Inr (), a') \<and> array_wf a' \<and>
    contents a' = (contents a)[unat i := Some x]"
  using assms
  by (auto simp: array_set_def array_wf_def contents_def word_less_nat_alt take_update_swap)

lemma overlay_remove:
  assumes "i < n" and "n \<le> length xs"
  shows "take (n - 1) (overlay i (slice_at (Suc i) (n - Suc i) xs) xs)
           = take i (take n xs) @ drop (Suc i) (take n xs)"
proof -
  have "n - 1 \<le> i \<Longrightarrow> n - 1 = i" using assms(1) by simp
  then show ?thesis using assms by (auto simp: overlay_def slice_at_def take_drop min_def)
qed

lemma array_remove_correct:
  assumes wf: "array_wf a" and i: "i < arr_num a"
  shows "\<exists>a'. array_remove i a = (Inr (), a') \<and> array_wf a' \<and>
    contents a' = take (unat i) (contents a) @ drop (Suc (unat i)) (contents a)"
proof -
  define n where "n = unat (arr_num a)"
  have lt: "unat i < n" using i by (simp add: n_def word_less_nat_alt)
  have "unat (i + 1) = unat i + 1"
    using lt unat_u32_less [of "arr_num a"] by (subst unat_add_u32) (auto simp: n_def simp del: unat_u32_less)
  then have move: "unat (arr_num a - (i + 1)) = n - Suc (unat i)"
    using lt by (subst unat_sub_u32) (auto simp: n_def)
  have len: "n \<le> length (arr_v a)" "n \<le> unat (arr_max a)"
    using wf by (auto simp: array_wf_def n_def)
  have less: "unat (arr_num a - 1) = n - 1" using lt by (subst unat_sub_u32) (auto simp: n_def)
  define a' where "a' = a\<lparr>arr_v := overlay (unat i) (slice_at (Suc (unat i)) (n - Suc (unat i)) (arr_v a)) (arr_v a),
    arr_num := arr_num a - 1\<rparr>"
  have "array_remove i a = (Inr (), a')"
    using wf i move lt len
    by (auto simp: array_remove_def Let_def a'_def array_wf_def word_le_nat_alt n_def)
  moreover have "contents a' = take (unat i) (contents a) @ drop (Suc (unat i)) (contents a)"
    using overlay_remove [OF lt len(1)] less by (simp add: contents_def a'_def n_def)
  moreover have "array_wf a'"
    using wf lt len less by (auto simp: array_wf_def a'_def)
  ultimately show ?thesis by blast
qed

lemma array_cleanup_correct:
  "array_cleanup a = (if arr_num a = 0 then (Inr (), a\<lparr>arr_v := []\<rparr>) else (Inl PANIC, a))"
  by (simp add: array_cleanup_def kmonad_defs)

subsection \<open>The contract of a sequence\<close>

text \<open>
  The kernel keeps its tables (loaded vnodes, known devices, CPUs) in such arrays and
  relies on them only as sequences: append at the end or fail without a trace, read by
  position, excise by position.
\<close>

locale sequence =
  fixes append :: "'a \<Rightarrow> 'm \<Rightarrow> (u32 result \<times> 'm) option"
    and at :: "u32 \<Rightarrow> ('m, 'a option) kernel"
    and excise :: "u32 \<Rightarrow> ('m, unit) kernel"
    and items :: "'m \<Rightarrow> 'a option list"
    and limit :: nat
    and invar :: "'m \<Rightarrow> bool"
  assumes append_law: "invar m \<Longrightarrow> length (items m) < limit \<Longrightarrow>
      append x m = Some (Inl ENOMEM, m) \<or>
      (\<exists>m'. append x m = Some (Inr (of_nat (length (items m))), m') \<and> invar m'
         \<and> items m' = items m @ [Some x])"
    and at_law: "invar m \<Longrightarrow> unat i < length (items m) \<Longrightarrow> at i m = (Inr (items m ! unat i), m)"
    and excise_law: "invar m \<Longrightarrow> unat i < length (items m) \<Longrightarrow>
      \<exists>m'. excise i m = (Inr (), m') \<and> invar m'
        \<and> items m' = take (unat i) (items m) @ drop (Suc (unat i)) (items m)"
    and limit_word: "limit < 2 ^ 32"
begin

lemma append_then_at:
  assumes "invar m" and "length (items m) < limit" and "append x m = Some (Inr i, m')"
  shows "unat i = length (items m)" and "at i m' = (Inr (Some x), m')"
proof -
  from append_law [OF assms(1,2), of x] assms(3)
  have i: "i = of_nat (length (items m))" and m': "invar m'" "items m' = items m @ [Some x]" by auto
  have "length (items m) < 4294967296" using assms(2) limit_word by simp
  with i show u: "unat i = length (items m)" by simp
  show "at i m' = (Inr (Some x), m')" using at_law [OF m'(1), of i] u m'(2) by simp
qed

lemma append_then_excise:
  assumes "invar m" and "length (items m) < limit" and "append x m = Some (Inr i, m')"
  shows "\<exists>m''. excise i m' = (Inr (), m'') \<and> items m'' = items m \<and> invar m''"
proof -
  have "unat i = length (items m)" using append_then_at(1) [OF assms] .
  moreover have "invar m'" "items m' = items m @ [Some x]"
    using append_law [OF assms(1,2), of x] assms(3) by auto
  ultimately show ?thesis using excise_law [of m' i] by auto
qed

end

interpretation karray: sequence "array_add alloc_ok" array_get array_remove contents "2 ^ 29" array_wf
  for alloc_ok
proof (unfold_locales, goal_cases)
  case (1 m x)
  then have lt: "unat (arr_num m) < 2 ^ 29" by (simp add: length_contents)
  have "word_of_nat (length (contents m)) = arr_num m"
    using length_contents [OF 1(1)] by simp
  then show ?case
    by (cases rule: array_add_correct [OF 1(1) lt, of alloc_ok x]) auto
next
  case (2 m i)
  then show ?case by (simp add: array_get_correct length_contents word_less_nat_alt)
next
  case (3 m i)
  then show ?case by (simp add: array_remove_correct length_contents word_less_nat_alt)
qed simp

subsection \<open>Properties\<close>

text \<open>
  The growth loop of \<open>array_preallocate\<close>, started on an empty array, stops exactly for
  requests of at most 2^31 elements, and then with room for the request that is less than
  twice as large; above that the 32-bit counter wraps to 0 and the loop never ends.
\<close>

theorem array_growth_stops_iff:
  "case array_growth num 0 of
     None \<Rightarrow> unat num > 2 ^ 31
   | Some m \<Rightarrow> unat num \<le> 2 ^ 31 \<and> num \<le> m \<and> (m = 0 \<or> unat m = 4 \<or> unat m < 2 * unat num)"
proof (cases "unat num \<le> 2147483648")
  case False
  then show ?thesis by (simp add: array_growth_diverges)
next
  case True
  then obtain m where m: "array_growth num 0 = Some m" using array_growth_stops by blast
  show ?thesis
  proof (cases "num = 0")
    case True
    then have "array_growth num 0 = Some 0" by (simp add: array_growth_def while_option_unfold)
    then show ?thesis using True by simp
  next
    case False
    then have "0 < num" by (simp add: word_neq_0_conv)
    with True m show ?thesis using array_growth_bounds [OF True _ m] by simp
  qed
qed

text \<open>
  Appending to a well-formed array either reports \<open>ENOMEM\<close> and leaves the array as it
  was, or appends: the index it returns is the old length, the old elements keep their
  places through any reallocation, reading the index gives the element back, and removing
  it restores the old sequence.
\<close>

theorem array_add_get_remove:
  assumes "array_wf a" and "unat (arr_num a) < 2 ^ 29"
  shows "array_add alloc_ok x a = Some (Inl ENOMEM, a) \<or>
    (\<exists>a'. array_add alloc_ok x a = Some (Inr (arr_num a), a') \<and> array_wf a' \<and>
      contents a' = contents a @ [Some x] \<and>
      array_get (arr_num a) a' = (Inr (Some x), a') \<and>
      (\<exists>a''. array_remove (arr_num a) a' = (Inr (), a'') \<and> contents a'' = contents a))"
proof (cases rule: array_add_correct [OF assms, of alloc_ok x])
  case (2 a')
  have len: "length (contents a) < 2 ^ 29" using assms by (simp add: length_contents)
  note add = 2(1)
  have "array_get (arr_num a) a' = (Inr (Some x), a')"
    by (rule karray.append_then_at(2) [OF assms(1) len add])
  moreover have "\<exists>a''. array_remove (arr_num a) a' = (Inr (), a'') \<and> contents a'' = contents a"
    using karray.append_then_excise [OF assms(1) len add] by blast
  ultimately show ?thesis using 2 by blast
qed simp

theorem array_add_get_remove_witness:
  "\<exists>a'. array_add (\<lambda>_. True) (5::nat) array_init = Some (Inr 0, a') \<and> contents a' = [Some 5]"
proof -
  have "array_add (\<lambda>_. True) (5::nat) array_init \<noteq> Some (Inl ENOMEM, array_init)"
    by (simp add: array_add_def array_setsize_def array_preallocate_def array_growth_def
        array_init_def while_option_unfold Let_def)
  then show ?thesis
    using array_add_get_remove [of array_init "\<lambda>_. True" "5::nat"]
    by (auto simp: array_init_def array_wf_def contents_def)
qed

end
