(* ===== verification/Threadlist.thy ===== *)
theory Threadlist
  imports Prelude
begin

text \<open>
  Doubly linked lists of threads (\<^verbatim>\<open>kern/thread/threadlist.c\<close>): the run queues of the CPUs,
  the wait channels and the zombie lists. Nodes are shared memory, so the model is a heap: a
  node is the bookend \<open>Head l\<close> or \<open>Tail l\<close> of the list \<open>l\<close> or the node \<open>Thr t\<close> embedded in
  the thread \<open>t\<close>, and each has its \<open>tln_prev\<close>, \<open>tln_next\<close> and \<open>tln_self\<close> fields. The
  assignments are executed one by one; following a null pointer is \<open>UNDEFINED\<close>.
  \<open>DEBUGASSERT\<close> is compiled out in the kernel's configuration and is not modelled.

  \<open>is_list h l ts\<close> says that the heap represents the list \<open>ts\<close> at \<open>l\<close>; every operation is
  proved to refine the operation on lists, and to leave every other list alone. The locale
  \<open>thread_queue\<close> is the FIFO contract the scheduler and the wait channels use.
\<close>

subsection \<open>The code\<close>

datatype tnode = Head nat | Tail nat | Thr nat

record threadlistnode =
  tln_prev :: "tnode option"
  tln_next :: "tnode option"
  tln_self :: "nat option"

record tlheap =
  node :: "tnode \<Rightarrow> threadlistnode"
  tl_count :: "nat \<Rightarrow> u32"

definition set_node :: "tnode \<Rightarrow> (threadlistnode \<Rightarrow> threadlistnode) \<Rightarrow> tlheap \<Rightarrow> tlheap" where
  "set_node n f h = h\<lparr>node := (node h)(n := f (node h n))\<rparr>"

abbreviation set_prev :: "tnode \<Rightarrow> tnode option \<Rightarrow> tlheap \<Rightarrow> tlheap" where
  "set_prev n p \<equiv> set_node n (tln_prev_update (\<lambda>_. p))"

abbreviation set_next :: "tnode \<Rightarrow> tnode option \<Rightarrow> tlheap \<Rightarrow> tlheap" where
  "set_next n p \<equiv> set_node n (tln_next_update (\<lambda>_. p))"

text \<open>Writing through a pointer.\<close>

definition store_prev :: "tnode option \<Rightarrow> tnode option \<Rightarrow> (tlheap, unit) kernel" where
  "store_prev p x h = (case p of None \<Rightarrow> (Inl UNDEFINED, h) | Some n \<Rightarrow> (Inr (), set_prev n x h))"

definition store_next :: "tnode option \<Rightarrow> tnode option \<Rightarrow> (tlheap, unit) kernel" where
  "store_next p x h = (case p of None \<Rightarrow> (Inl UNDEFINED, h) | Some n \<Rightarrow> (Inr (), set_next n x h))"

definition threadlistnode_init :: "tnode \<Rightarrow> nat option \<Rightarrow> (tlheap, unit) kernel" where
  "threadlistnode_init n t =
     kbind (kassert (t \<noteq> None)) (\<lambda>_.
     kmodify (set_node n (\<lambda>_. \<lparr>tln_prev = None, tln_next = None, tln_self = t\<rparr>)))"

definition threadlistnode_cleanup :: "tnode \<Rightarrow> (tlheap, unit) kernel" where
  "threadlistnode_cleanup n =
     kbind (kget (\<lambda>h. node h n)) (\<lambda>f.
     kbind (kassert (tln_next f = None)) (\<lambda>_.
     kbind (kassert (tln_prev f = None)) (\<lambda>_.
     kassert (tln_self f \<noteq> None))))"

definition threadlist_init :: "nat \<Rightarrow> (tlheap, unit) kernel" where
  "threadlist_init l = kmodify (\<lambda>h.
     (set_node (Tail l) (\<lambda>_. \<lparr>tln_prev = Some (Head l), tln_next = None, tln_self = None\<rparr>)
     (set_node (Head l) (\<lambda>_. \<lparr>tln_prev = None, tln_next = Some (Tail l), tln_self = None\<rparr>) h))
       \<lparr>tl_count := (tl_count h)(l := 0)\<rparr>)"

definition threadlist_isempty :: "nat \<Rightarrow> tlheap \<Rightarrow> bool" where
  "threadlist_isempty l h \<longleftrightarrow> tl_count h l = 0"

definition threadlist_cleanup :: "nat \<Rightarrow> (tlheap, unit) kernel" where
  "threadlist_cleanup l =
     kbind (kget (threadlist_isempty l)) (\<lambda>e.
     kbind (kassert e) (\<lambda>_.
     kbind (kget (\<lambda>h. tl_count h l)) (\<lambda>c. kassert (c = 0))))"

definition add_count :: "nat \<Rightarrow> u32 \<Rightarrow> (tlheap, unit) kernel" where
  "add_count l d = kmodify (\<lambda>h. h\<lparr>tl_count := (tl_count h)(l := tl_count h l + d)\<rparr>)"

definition threadlist_insertafternode :: "tnode \<Rightarrow> nat \<Rightarrow> (tlheap, unit) kernel" where
  "threadlist_insertafternode onlist t =
     (let addee = Thr t in
      kbind (kmodify (set_prev addee (Some onlist))) (\<lambda>_.
      kbind (kget (\<lambda>h. tln_next (node h onlist))) (\<lambda>nx.
      kbind (kmodify (set_next addee nx)) (\<lambda>_.
      kbind (kget (\<lambda>h. tln_prev (node h addee))) (\<lambda>p.
      kbind (store_next p (Some addee)) (\<lambda>_.
      kbind (kget (\<lambda>h. tln_next (node h addee))) (\<lambda>q.
      store_prev q (Some addee))))))))"

definition threadlist_insertbeforenode :: "nat \<Rightarrow> tnode \<Rightarrow> (tlheap, unit) kernel" where
  "threadlist_insertbeforenode t onlist =
     (let addee = Thr t in
      kbind (kget (\<lambda>h. tln_prev (node h onlist))) (\<lambda>pv.
      kbind (kmodify (set_prev addee pv)) (\<lambda>_.
      kbind (kmodify (set_next addee (Some onlist))) (\<lambda>_.
      kbind (kget (\<lambda>h. tln_prev (node h addee))) (\<lambda>p.
      kbind (store_next p (Some addee)) (\<lambda>_.
      kbind (kget (\<lambda>h. tln_next (node h addee))) (\<lambda>q.
      store_prev q (Some addee))))))))"

definition threadlist_removenode :: "tnode \<Rightarrow> (tlheap, unit) kernel" where
  "threadlist_removenode n =
     kbind (kget (\<lambda>h. tln_prev (node h n))) (\<lambda>p.
     kbind (kget (\<lambda>h. tln_next (node h n))) (\<lambda>nx.
     kbind (store_next p nx) (\<lambda>_.
     kbind (kget (\<lambda>h. tln_next (node h n))) (\<lambda>q.
     kbind (kget (\<lambda>h. tln_prev (node h n))) (\<lambda>pv.
     kbind (store_prev q pv) (\<lambda>_.
     kbind (kmodify (set_prev n None)) (\<lambda>_.
     kmodify (set_next n None))))))))"

definition threadlist_addhead :: "nat \<Rightarrow> nat \<Rightarrow> (tlheap, unit) kernel" where
  "threadlist_addhead l t = kbind (threadlist_insertafternode (Head l) t) (\<lambda>_. add_count l 1)"

definition threadlist_addtail :: "nat \<Rightarrow> nat \<Rightarrow> (tlheap, unit) kernel" where
  "threadlist_addtail l t = kbind (threadlist_insertbeforenode t (Tail l)) (\<lambda>_. add_count l 1)"

definition threadlist_remhead :: "nat \<Rightarrow> (tlheap, nat option) kernel" where
  "threadlist_remhead l =
     kbind (kget (\<lambda>h. tln_next (node h (Head l)))) (\<lambda>tln.
     case tln of
       None \<Rightarrow> kfail UNDEFINED
     | Some n \<Rightarrow>
         kbind (kget (\<lambda>h. tln_next (node h n))) (\<lambda>nx.
         if nx = None then kreturn None
         else kbind (threadlist_removenode n) (\<lambda>_.
              kbind (add_count l (- 1)) (\<lambda>_.
              kget (\<lambda>h. tln_self (node h n))))))"

definition threadlist_remtail :: "nat \<Rightarrow> (tlheap, nat option) kernel" where
  "threadlist_remtail l =
     kbind (kget (\<lambda>h. tln_prev (node h (Tail l)))) (\<lambda>tln.
     case tln of
       None \<Rightarrow> kfail UNDEFINED
     | Some n \<Rightarrow>
         kbind (kget (\<lambda>h. tln_prev (node h n))) (\<lambda>pv.
         if pv = None then kreturn None
         else kbind (threadlist_removenode n) (\<lambda>_.
              kbind (add_count l (- 1)) (\<lambda>_.
              kget (\<lambda>h. tln_self (node h n))))))"

definition threadlist_insertafter :: "nat \<Rightarrow> nat \<Rightarrow> nat \<Rightarrow> (tlheap, unit) kernel" where
  "threadlist_insertafter l onlist addee =
     kbind (threadlist_insertafternode (Thr onlist) addee) (\<lambda>_. add_count l 1)"

definition threadlist_insertbefore :: "nat \<Rightarrow> nat \<Rightarrow> nat \<Rightarrow> (tlheap, unit) kernel" where
  "threadlist_insertbefore l addee onlist =
     kbind (threadlist_insertbeforenode addee (Thr onlist)) (\<lambda>_. add_count l 1)"

definition threadlist_remove :: "nat \<Rightarrow> nat \<Rightarrow> (tlheap, unit) kernel" where
  "threadlist_remove l t = kbind (threadlist_removenode (Thr t)) (\<lambda>_. add_count l (- 1))"

subsection \<open>Representation\<close>

fun linked :: "tlheap \<Rightarrow> tnode list \<Rightarrow> bool" where
  "linked h (a # b # ns) \<longleftrightarrow>
     tln_next (node h a) = Some b \<and> tln_prev (node h b) = Some a \<and> linked h (b # ns)"
| "linked h ns \<longleftrightarrow> True"

definition spine :: "nat \<Rightarrow> nat list \<Rightarrow> tnode list" where
  "spine l ts = Head l # map Thr ts @ [Tail l]"

text \<open>The fields of the nodes of the list \<open>ts\<close> at \<open>l\<close>, without the counter.\<close>

definition is_chain :: "tlheap \<Rightarrow> nat \<Rightarrow> nat list \<Rightarrow> bool" where
  "is_chain h l ts \<longleftrightarrow>
     distinct ts \<and> linked h (spine l ts)
     \<and> tln_prev (node h (Head l)) = None \<and> tln_next (node h (Tail l)) = None
     \<and> tln_self (node h (Head l)) = None \<and> tln_self (node h (Tail l)) = None
     \<and> (\<forall>t \<in> set ts. tln_self (node h (Thr t)) = Some t)"

definition is_list :: "tlheap \<Rightarrow> nat \<Rightarrow> nat list \<Rightarrow> bool" where
  "is_list h l ts \<longleftrightarrow> is_chain h l ts \<and> tl_count h l = of_nat (length ts)"

text \<open>A thread that is on no list, as \<open>threadlistnode_init\<close> and a removal leave it.\<close>

definition detached :: "tlheap \<Rightarrow> nat \<Rightarrow> bool" where
  "detached h t \<longleftrightarrow> node h (Thr t) = \<lparr>tln_prev = None, tln_next = None, tln_self = Some t\<rparr>"

subsection \<open>Splicing a node in and out\<close>

definition link_in :: "tnode \<Rightarrow> tnode \<Rightarrow> tnode \<Rightarrow> tlheap \<Rightarrow> tlheap" where
  "link_in a n b h =
     set_prev b (Some n) (set_next a (Some n) (set_next n (Some b) (set_prev n (Some a) h)))"

definition link_out :: "tnode \<Rightarrow> tnode \<Rightarrow> tnode \<Rightarrow> tlheap \<Rightarrow> tlheap" where
  "link_out a n b h =
     set_next n None (set_prev n None (set_prev b (Some a) (set_next a (Some b) h)))"

lemmas link_defs = link_in_def link_out_def set_node_def

lemma insertafternode_eq:
  assumes "tln_next (node h a) = Some b" and "a \<noteq> Thr t" and "b \<noteq> Thr t"
  shows "threadlist_insertafternode a t h = (Inr (), link_in a (Thr t) b h)"
  using assms
  by (simp add: threadlist_insertafternode_def Let_def kmonad_defs store_next_def store_prev_def link_defs)

lemma insertbeforenode_eq:
  assumes "tln_prev (node h b) = Some a" and "a \<noteq> Thr t" and "b \<noteq> Thr t"
  shows "threadlist_insertbeforenode t b h = (Inr (), link_in a (Thr t) b h)"
  using assms
  by (simp add: threadlist_insertbeforenode_def Let_def kmonad_defs store_next_def store_prev_def link_defs)

lemma removenode_eq:
  assumes "tln_prev (node h n) = Some a" and "tln_next (node h n) = Some b"
    and "a \<noteq> n" and "b \<noteq> n"
  shows "threadlist_removenode n h = (Inr (), link_out a n b h)"
  using assms
  by (simp add: threadlist_removenode_def kmonad_defs store_next_def store_prev_def link_defs)

lemma set_tlD: "x \<in> set (tl xs) \<Longrightarrow> x \<in> set xs"
  by (cases xs) auto

lemma linked_append:
  "linked h (xs @ a # ys) \<longleftrightarrow> linked h (xs @ [a]) \<and> linked h (a # ys)"
proof (induction xs)
  case (Cons x xs)
  then show ?case by (cases xs) auto
qed simp

lemma linked_cong:
  assumes "\<forall>n \<in> set (butlast ns). tln_next (node h n) = tln_next (node h' n)"
    and "\<forall>n \<in> set (tl ns). tln_prev (node h n) = tln_prev (node h' n)"
  shows "linked h ns \<longleftrightarrow> linked h' ns"
  using assms by (induction h ns rule: linked.induct) auto

lemma linked_link_in:
  assumes "linked h (xs @ a # b # ys)" and "distinct (xs @ a # b # ys)"
    and "n \<notin> set (xs @ a # b # ys)"
  shows "linked (link_in a n b h) (xs @ a # n # b # ys)"
proof -
  let ?h = "link_in a n b h"
  from assms(1) have l: "linked h (xs @ [a])" "linked h (b # ys)"
    by (simp_all add: linked_append [of h xs a "b # ys"])
  have "linked ?h (xs @ [a])"
    using assms(2,3) by (intro linked_cong [THEN iffD1, OF _ _ l(1)]) (auto simp: link_defs dest: set_tlD)
  moreover have "linked ?h (b # ys)"
    using assms(2,3) by (intro linked_cong [THEN iffD1, OF _ _ l(2)]) (auto simp: link_defs dest: in_set_butlastD)
  moreover have "linked ?h [a, n, b]" using assms(2,3) by (simp add: link_defs)
  ultimately show ?thesis by (simp add: linked_append [of _ xs a "n # b # ys"])
qed

lemma linked_link_out:
  assumes "linked h (xs @ a # n # b # ys)" and "distinct (xs @ a # n # b # ys)"
  shows "linked (link_out a n b h) (xs @ a # b # ys)"
proof -
  let ?h = "link_out a n b h"
  from assms(1) have l: "linked h (xs @ [a])" "linked h (b # ys)"
    by (simp_all add: linked_append [of h xs a "n # b # ys"])
  have "linked ?h (xs @ [a])"
    using assms(2)
    by (intro linked_cong [THEN iffD1, OF _ _ l(1)]) (auto simp: link_defs dest: set_tlD)
  moreover have "linked ?h (b # ys)"
    using assms(2) by (intro linked_cong [THEN iffD1, OF _ _ l(2)]) (auto simp: link_defs dest: in_set_butlastD)
  moreover have "linked ?h [a, b]" using assms(2) by (auto simp: link_defs)
  ultimately show ?thesis by (simp add: linked_append [of _ xs a "b # ys"])
qed

text \<open>The neighbours of position \<open>length us\<close> of the list \<open>us @ vs\<close> at \<open>l\<close>.\<close>

definition left_of :: "nat \<Rightarrow> nat list \<Rightarrow> tnode" where
  "left_of l us = last (Head l # map Thr us)"

definition right_of :: "nat \<Rightarrow> nat list \<Rightarrow> tnode" where
  "right_of l vs = hd (map Thr vs @ [Tail l])"

lemma neighbours [simp]:
  "left_of l [] = Head l" "left_of l (us @ [t]) = Thr t"
  "right_of l [] = Tail l" "right_of l (t # vs) = Thr t"
  by (simp_all add: left_of_def right_of_def)

lemma spine_split:
  obtains xs ys where "\<And>ms. spine l (us @ ms @ vs) = xs @ left_of l us # map Thr ms @ right_of l vs # ys"
    and "Head l # map Thr us = xs @ [left_of l us]" and "map Thr vs @ [Tail l] = right_of l vs # ys"
proof
  let ?A = "Head l # map Thr us" and ?B = "map Thr vs @ [Tail l]"
  show 1: "?A = butlast ?A @ [left_of l us]" by (simp add: left_of_def)
  show 2: "?B = right_of l vs # tl ?B" by (simp add: right_of_def)
  have "spine l (us @ ms @ vs) = ?A @ map Thr ms @ ?B" for ms by (simp add: spine_def)
  also have "?A @ map Thr ms @ ?B = (butlast ?A @ [left_of l us]) @ map Thr ms @ right_of l vs # tl ?B" for ms
    by (simp only: 1 [symmetric] 2 [symmetric])
  finally show "spine l (us @ ms @ vs) = butlast ?A @ left_of l us # map Thr ms @ right_of l vs # tl ?B" for ms
    by (simp only: append_assoc append_Cons append_Nil)
qed

lemma spine_insert: "spine l (us @ t # vs) = spine l (us @ [t] @ vs)"
  by simp

lemma distinct_spine [simp]: "distinct (spine l ts) \<longleftrightarrow> distinct ts"
  by (auto simp: spine_def distinct_map inj_on_def)

lemma Thr_in_spine [simp]: "Thr t \<in> set (spine l ts) \<longleftrightarrow> t \<in> set ts"
  by (auto simp: spine_def)

lemma neighbours_in_spine:
  "left_of l us \<in> set (spine l (us @ vs))" "right_of l vs \<in> set (spine l (us @ vs))"
  by (auto simp: left_of_def right_of_def spine_def hd_append last_map hd_map)

lemma is_chain_cong:
  assumes "\<forall>n \<in> set (spine l ts). node h n = node h' n"
  shows "is_chain h l ts \<longleftrightarrow> is_chain h' l ts"
proof -
  have "linked h (spine l ts) \<longleftrightarrow> linked h' (spine l ts)"
    using assms by (intro linked_cong) (auto dest: in_set_butlastD set_tlD)
  then show ?thesis using assms by (auto simp: is_chain_def spine_def)
qed

lemma chain_neighbours:
  assumes "is_chain h l (us @ vs)"
  shows "tln_next (node h (left_of l us)) = Some (right_of l vs)"
    and "tln_prev (node h (right_of l vs)) = Some (left_of l us)"
proof -
  obtain xs ys where "\<And>ms. spine l (us @ ms @ vs) = xs @ left_of l us # map Thr ms @ right_of l vs # ys"
    using spine_split by metis
  from this [of "[]"] have "linked h (xs @ left_of l us # right_of l vs # ys)"
    using assms by (simp add: is_chain_def)
  then have "linked h (left_of l us # right_of l vs # ys)"
    using linked_append [of h xs "left_of l us" "right_of l vs # ys"] by blast
  then show "tln_next (node h (left_of l us)) = Some (right_of l vs)"
    "tln_prev (node h (right_of l vs)) = Some (left_of l us)" by simp_all
qed

lemma link_node_other:
  "n \<notin> {a, m, b} \<Longrightarrow> node (link_in a m b h) n = node h n"
  "n \<notin> {a, m, b} \<Longrightarrow> node (link_out a m b h) n = node h n"
  by (auto simp: link_defs)

lemma link_self [simp]:
  "tln_self (node (link_in a m b h) n) = tln_self (node h n)"
  "tln_self (node (link_out a m b h) n) = tln_self (node h n)"
  by (auto simp: link_defs)

lemma link_count [simp]:
  "tl_count (link_in a m b h) = tl_count h" "tl_count (link_out a m b h) = tl_count h"
  by (auto simp: link_defs)

lemma not_bookend [simp]:
  "left_of l us \<noteq> Tail k" "right_of l vs \<noteq> Head k"
  "Tail k \<noteq> left_of l us" "Head k \<noteq> right_of l vs"
  by (cases us rule: rev_cases; cases vs; simp)+

lemma link_bookends [simp]:
  "tln_prev (node (link_in (left_of l us) (Thr t) (right_of l vs) h) (Head k)) = tln_prev (node h (Head k))"
  "tln_next (node (link_in (left_of l us) (Thr t) (right_of l vs) h) (Tail k)) = tln_next (node h (Tail k))"
  "tln_prev (node (link_out (left_of l us) (Thr t) (right_of l vs) h) (Head k)) = tln_prev (node h (Head k))"
  "tln_next (node (link_out (left_of l us) (Thr t) (right_of l vs) h) (Tail k)) = tln_next (node h (Tail k))"
  by (auto simp: link_defs)

lemma chain_insert:
  assumes chain: "is_chain h l (us @ vs)" and t: "t \<notin> set (us @ vs)"
    and self: "tln_self (node h (Thr t)) = Some t"
  shows "is_chain (link_in (left_of l us) (Thr t) (right_of l vs) h) l (us @ t # vs)"
proof -
  let ?a = "left_of l us" and ?b = "right_of l vs"
  obtain xs ys where sp: "\<And>ms. spine l (us @ ms @ vs) = xs @ ?a # map Thr ms @ ?b # ys"
    using spine_split by metis
  from sp [of "[]"] have s0: "spine l (us @ vs) = xs @ ?a # ?b # ys" by simp
  from sp [of "[t]"] have s1: "spine l (us @ t # vs) = xs @ ?a # Thr t # ?b # ys" by simp
  have "distinct (spine l (us @ vs))" "Thr t \<notin> set (spine l (us @ vs))"
    using chain t by (simp_all add: is_chain_def)
  then have "linked (link_in ?a (Thr t) ?b h) (spine l (us @ t # vs))"
    using chain unfolding s0 s1 is_chain_def by (intro linked_link_in) simp_all
  then show ?thesis using chain t self by (auto simp: is_chain_def)
qed

lemma chain_remove:
  assumes chain: "is_chain h l (us @ t # vs)"
  shows "is_chain (link_out (left_of l us) (Thr t) (right_of l vs) h) l (us @ vs)"
proof -
  let ?a = "left_of l us" and ?b = "right_of l vs"
  obtain xs ys where sp: "\<And>ms. spine l (us @ ms @ vs) = xs @ ?a # map Thr ms @ ?b # ys"
    using spine_split by metis
  from sp [of "[]"] have s0: "spine l (us @ vs) = xs @ ?a # ?b # ys" by simp
  from sp [of "[t]"] have s1: "spine l (us @ t # vs) = xs @ ?a # Thr t # ?b # ys" by simp
  have "distinct (spine l (us @ t # vs))" using chain by (simp add: is_chain_def)
  then have "linked (link_out ?a (Thr t) ?b h) (spine l (us @ vs))"
    using chain unfolding s0 s1 is_chain_def by (intro linked_link_out) simp_all
  then show ?thesis using chain by (auto simp: is_chain_def)
qed

text \<open>Lists that share no thread with the one at \<open>l\<close>, and threads on no list, are untouched.\<close>

definition others_kept :: "nat \<Rightarrow> nat set \<Rightarrow> tlheap \<Rightarrow> tlheap \<Rightarrow> bool" where
  "others_kept l T h h' \<longleftrightarrow>
     (\<forall>k ts. k \<noteq> l \<longrightarrow> set ts \<inter> T = {} \<longrightarrow> is_list h k ts \<longrightarrow> is_list h' k ts)
     \<and> (\<forall>t. t \<notin> T \<longrightarrow> node h' (Thr t) = node h (Thr t))"

lemma others_keptI:
  assumes "\<And>n. n \<notin> {Head l, Tail l} \<union> Thr ` T \<Longrightarrow> node h' n = node h n"
    and "\<And>k. k \<noteq> l \<Longrightarrow> tl_count h' k = tl_count h k"
  shows "others_kept l T h h'"
proof -
  have "is_list h' k ts" if "k \<noteq> l" "set ts \<inter> T = {}" "is_list h k ts" for k ts
  proof -
    have "\<forall>n \<in> set (spine k ts). node h n = node h' n"
      using that by (intro ballI assms(1) [symmetric]) (auto simp: spine_def)
    then show ?thesis using that assms(2) [of k] is_chain_cong [of k ts h h'] by (simp add: is_list_def)
  qed
  moreover have "node h' (Thr t) = node h (Thr t)" if "t \<notin> T" for t
    using that by (intro assms(1)) auto
  ultimately show ?thesis by (simp add: others_kept_def)
qed

subsection \<open>The operations on lists\<close>

lemma is_chain_count [simp]: "is_chain (h\<lparr>tl_count := c\<rparr>) l ts \<longleftrightarrow> is_chain h l ts"
  by (rule is_chain_cong) simp

lemma add_count_eq:
  "add_count l d h = (Inr (), h\<lparr>tl_count := (tl_count h)(l := tl_count h l + d)\<rparr>)"
  by (simp add: add_count_def kmonad_defs)

lemma neighbour_ne [simp]:
  "t \<notin> set us \<Longrightarrow> left_of l us \<noteq> Thr t" "t \<notin> set vs \<Longrightarrow> right_of l vs \<noteq> Thr t"
  by (cases us rule: rev_cases; simp) (cases vs; simp)

lemma neighbour_range:
  "left_of l us \<in> {Head l} \<union> Thr ` set us" "right_of l vs \<in> {Tail l} \<union> Thr ` set vs"
  by (cases us rule: rev_cases; simp) (cases vs; simp)

lemma insert_at:
  assumes "is_list h l (us @ vs)" and "t \<notin> set (us @ vs)" and "tln_self (node h (Thr t)) = Some t"
    and h': "h' = link_in (left_of l us) (Thr t) (right_of l vs) h
      \<lparr>tl_count := (tl_count h)(l := tl_count h l + 1)\<rparr>"
  shows "is_list h' l (us @ t # vs)" and "others_kept l (insert t (set (us @ vs))) h h'"
proof -
  show "is_list h' l (us @ t # vs)"
    using assms chain_insert [of h l us vs t] by (simp add: is_list_def)
  show "others_kept l (insert t (set (us @ vs))) h h'"
  proof (rule others_keptI)
    fix n assume n: "n \<notin> {Head l, Tail l} \<union> Thr ` insert t (set (us @ vs))"
    then have "n \<notin> {left_of l us, Thr t, right_of l vs}" using neighbour_range(1) [of l us] neighbour_range(2) [of l vs] by auto
    then show "node h' n = node h n" by (simp add: h' link_node_other)
  qed (simp add: h')
qed

lemma removenode_at:
  assumes "is_list h l (us @ t # vs)"
  shows "threadlist_removenode (Thr t) h = (Inr (), link_out (left_of l us) (Thr t) (right_of l vs) h)"
    and "t \<notin> set us" and "t \<notin> set vs" and "tln_self (node h (Thr t)) = Some t"
proof -
  from assms have chain: "is_chain h l (us @ t # vs)" by (simp add: is_list_def)
  then show t: "t \<notin> set us" "t \<notin> set vs" "tln_self (node h (Thr t)) = Some t"
    by (auto simp: is_chain_def)
  have "tln_prev (node h (Thr t)) = Some (left_of l us)"
    using chain_neighbours(2) [of h l us "t # vs"] chain by simp
  moreover have "tln_next (node h (Thr t)) = Some (right_of l vs)"
    using chain_neighbours(1) [of h l "us @ [t]" vs] chain by simp
  ultimately show "threadlist_removenode (Thr t) h
      = (Inr (), link_out (left_of l us) (Thr t) (right_of l vs) h)"
    using t by (simp add: removenode_eq)
qed

lemma remove_at:
  assumes "is_list h l (us @ t # vs)"
    and h': "h' = link_out (left_of l us) (Thr t) (right_of l vs) h
      \<lparr>tl_count := (tl_count h)(l := tl_count h l + - 1)\<rparr>"
  shows "threadlist_remove l t h = (Inr (), h')" and "is_list h' l (us @ vs)"
    and "others_kept l (set (us @ t # vs)) h h'" and "detached h' t"
proof -
  from assms have chain: "is_chain h l (us @ t # vs)" by (simp add: is_list_def)
  note t = removenode_at [OF assms(1)]
  show "threadlist_remove l t h = (Inr (), h')"
    using t by (simp add: threadlist_remove_def kbind_def add_count_eq h')
  show "is_list h' l (us @ vs)"
    using assms chain_remove [OF chain] by (simp add: is_list_def)
  show "others_kept l (set (us @ t # vs)) h h'"
  proof (rule others_keptI)
    fix n assume n: "n \<notin> {Head l, Tail l} \<union> Thr ` set (us @ t # vs)"
    then have "n \<notin> {left_of l us, Thr t, right_of l vs}"
      using neighbour_range(1) [of l us] neighbour_range(2) [of l vs] by auto
    then show "node h' n = node h n" by (simp add: h' link_node_other)
  qed (simp add: h')
  show "detached h' t" using t by (auto simp: detached_def h' link_defs)
qed

text \<open>The four insertions: the list with \<open>t\<close> inserted, all other lists as before.\<close>

definition inserted :: "nat \<Rightarrow> nat \<Rightarrow> nat list \<Rightarrow> tlheap \<Rightarrow> nat list \<Rightarrow> unit result \<times> tlheap \<Rightarrow> bool" where
  "inserted l t ts h ts' r \<longleftrightarrow>
     fst r = Inr () \<and> is_list (snd r) l ts' \<and> others_kept l (insert t (set ts)) h (snd r)"

lemma insert_result:
  assumes "is_list h l (us @ vs)" and "t \<notin> set (us @ vs)" and "tln_self (node h (Thr t)) = Some t"
    and "op h = (Inr (), link_in (left_of l us) (Thr t) (right_of l vs) h)"
  shows "inserted l t (us @ vs) h (us @ t # vs) (kbind op (\<lambda>_. add_count l 1) h)"
  using insert_at [OF assms(1-3) refl] assms(4)
  by (simp add: inserted_def kbind_def add_count_eq del: fun_upd_apply)

lemma addhead_result:
  assumes "is_list h l ts" and "t \<notin> set ts" and "tln_self (node h (Thr t)) = Some t"
  shows "inserted l t ts h (t # ts) (threadlist_addhead l t h)"
proof -
  have "threadlist_insertafternode (Head l) t h = (Inr (), link_in (left_of l []) (Thr t) (right_of l ts) h)"
    using insertafternode_eq [of h "Head l" "right_of l ts" t] chain_neighbours(1) [of h l "[]" ts] assms
    by (simp add: is_list_def)
  from insert_result [of h l "[]" ts t "threadlist_insertafternode (Head l) t"] this assms show ?thesis
    by (simp add: threadlist_addhead_def)
qed

lemma addtail_result:
  assumes "is_list h l ts" and "t \<notin> set ts" and "tln_self (node h (Thr t)) = Some t"
  shows "inserted l t ts h (ts @ [t]) (threadlist_addtail l t h)"
proof -
  have "threadlist_insertbeforenode t (Tail l) h = (Inr (), link_in (left_of l ts) (Thr t) (right_of l []) h)"
    using insertbeforenode_eq [of h "Tail l" "left_of l ts" t] chain_neighbours(2) [of h l ts "[]"] assms
    by (simp add: is_list_def)
  from insert_result [of h l ts "[]" t "threadlist_insertbeforenode t (Tail l)"] this assms show ?thesis
    by (simp add: threadlist_addtail_def)
qed

lemma insertafter_result:
  assumes "is_list h l (us @ x # vs)" and "t \<notin> set (us @ x # vs)" and "tln_self (node h (Thr t)) = Some t"
  shows "inserted l t (us @ x # vs) h (us @ x # t # vs) (threadlist_insertafter l x t h)"
proof -
  have "threadlist_insertafternode (Thr x) t h
      = (Inr (), link_in (left_of l (us @ [x])) (Thr t) (right_of l vs) h)"
    using insertafternode_eq [of h "Thr x" "right_of l vs" t] chain_neighbours(1) [of h l "us @ [x]" vs] assms
    by (auto simp: is_list_def)
  from insert_result [of h l "us @ [x]" vs t "threadlist_insertafternode (Thr x) t"] this assms
  show ?thesis by (simp add: threadlist_insertafter_def)
qed

lemma insertbefore_result:
  assumes "is_list h l (us @ x # vs)" and "t \<notin> set (us @ x # vs)" and "tln_self (node h (Thr t)) = Some t"
  shows "inserted l t (us @ x # vs) h (us @ t # x # vs) (threadlist_insertbefore l t x h)"
proof -
  have "threadlist_insertbeforenode t (Thr x) h
      = (Inr (), link_in (left_of l us) (Thr t) (right_of l (x # vs)) h)"
    using insertbeforenode_eq [of h "Thr x" "left_of l us" t] chain_neighbours(2) [of h l us "x # vs"] assms
    by (auto simp: is_list_def)
  from insert_result [of h l us "x # vs" t "threadlist_insertbeforenode t (Thr x)"] this assms
  show ?thesis by (simp add: threadlist_insertbefore_def)
qed

lemma remhead_empty: "is_list h l [] \<Longrightarrow> threadlist_remhead l h = (Inr None, h)"
  using chain_neighbours(1) [of h l "[]" "[]"]
  by (auto simp: threadlist_remhead_def kmonad_defs is_list_def is_chain_def)

lemma remtail_empty: "is_list h l [] \<Longrightarrow> threadlist_remtail l h = (Inr None, h)"
  using chain_neighbours(2) [of h l "[]" "[]"]
  by (auto simp: threadlist_remtail_def kmonad_defs is_list_def is_chain_def)

lemma remhead_remove:
  assumes "is_list h l (t # ts)"
  shows "threadlist_remhead l h = (case threadlist_remove l t h of (_, h') \<Rightarrow> (Inr (Some t), h'))"
proof -
  have chain: "is_chain h l (t # ts)" using assms by (simp add: is_list_def)
  note r = removenode_at [of h l "[]" t ts]
  have "tln_next (node h (Head l)) = Some (Thr t)"
    using chain_neighbours(1) [of h l "[]" "t # ts"] chain by simp
  moreover have "tln_next (node h (Thr t)) \<noteq> None"
    using chain_neighbours(1) [of h l "[t]" ts] chain by (simp add: left_of_def)
  ultimately show ?thesis
    using r assms by (auto simp: threadlist_remhead_def threadlist_remove_def kbind_def kget_def add_count_eq)
qed

lemma remtail_remove:
  assumes "is_list h l (ts @ [t])"
  shows "threadlist_remtail l h = (case threadlist_remove l t h of (_, h') \<Rightarrow> (Inr (Some t), h'))"
proof -
  have chain: "is_chain h l (ts @ [t])" using assms by (simp add: is_list_def)
  note r = removenode_at [OF assms]
  have "tln_prev (node h (Tail l)) = Some (Thr t)"
    using chain_neighbours(2) [of h l "ts @ [t]" "[]"] chain by simp
  moreover have "tln_prev (node h (Thr t)) \<noteq> None"
    using chain_neighbours(2) [of h l ts "[t]"] chain by simp
  ultimately show ?thesis
    using r assms by (auto simp: threadlist_remtail_def threadlist_remove_def kbind_def kget_def add_count_eq)
qed

text \<open>The three removals: the list without \<open>t\<close>, all other lists as before, \<open>t\<close> on no list.\<close>

definition taken_off :: "nat \<Rightarrow> nat \<Rightarrow> nat list \<Rightarrow> tlheap \<Rightarrow> nat list \<Rightarrow> tlheap \<Rightarrow> bool" where
  "taken_off l t ts h ts' h' \<longleftrightarrow> is_list h' l ts' \<and> detached h' t \<and> others_kept l (set ts) h h'"

lemma remove_result:
  assumes "is_list h l (us @ t # vs)"
  shows "\<exists>h'. threadlist_remove l t h = (Inr (), h') \<and> taken_off l t (us @ t # vs) h (us @ vs) h'"
  using remove_at [OF assms refl] unfolding taken_off_def by blast

lemma remhead_result:
  assumes "is_list h l (t # ts)"
  shows "\<exists>h'. threadlist_remhead l h = (Inr (Some t), h') \<and> taken_off l t (t # ts) h ts h'"
  using remove_result [of h l "[]" t ts] remhead_remove [OF assms] assms by auto

lemma remtail_result:
  assumes "is_list h l (ts @ [t])"
  shows "\<exists>h'. threadlist_remtail l h = (Inr (Some t), h') \<and> taken_off l t (ts @ [t]) h ts h'"
  using remove_result [of h l ts t "[]"] remtail_remove [OF assms] assms by auto

lemma init_result:
  "\<exists>h'. threadlist_init l h = (Inr (), h') \<and> is_list h' l [] \<and> others_kept l {} h h'"
proof -
  obtain h' where h': "threadlist_init l h = (Inr (), h')" by (simp add: threadlist_init_def kmonad_defs)
  then have "is_list h' l []"
    by (auto simp: threadlist_init_def kmonad_defs is_list_def is_chain_def spine_def set_node_def)
  moreover have "others_kept l {} h h'"
    by (rule others_keptI) (use h' in \<open>auto simp: threadlist_init_def kmonad_defs set_node_def\<close>)
  ultimately show ?thesis using h' by blast
qed

subsection \<open>The contract of a thread queue\<close>

text \<open>
  What the scheduler and the wait channels rely on: \<open>put\<close> appends a thread that is on no
  queue, \<open>take\<close> gives back the thread that has waited longest and leaves it on no queue.
\<close>

locale thread_queue =
  fixes put :: "nat \<Rightarrow> ('h, unit) kernel"
    and fetch :: "('h, nat option) kernel"
    and items :: "'h \<Rightarrow> nat list \<Rightarrow> bool"
    and ready :: "'h \<Rightarrow> nat \<Rightarrow> bool"
  assumes put_ok: "items h q \<Longrightarrow> t \<notin> set q \<Longrightarrow> ready h t \<Longrightarrow>
      \<exists>h'. put t h = (Inr (), h') \<and> items h' (q @ [t])
        \<and> (\<forall>u. u \<notin> insert t (set q) \<longrightarrow> ready h u \<longrightarrow> ready h' u)"
    and fetch_ok: "items h (t # q) \<Longrightarrow>
      \<exists>h'. fetch h = (Inr (Some t), h') \<and> items h' q \<and> ready h' t
        \<and> (\<forall>u. u \<notin> set (t # q) \<longrightarrow> ready h u \<longrightarrow> ready h' u)"
    and fetch_empty: "items h [] \<Longrightarrow> fetch h = (Inr None, h)"
begin

primrec put_all :: "nat list \<Rightarrow> ('h, unit) kernel" where
  "put_all [] = kreturn ()"
| "put_all (t # ts) = kbind (put t) (\<lambda>_. put_all ts)"

primrec fetch_many :: "nat \<Rightarrow> ('h, nat option list) kernel" where
  "fetch_many 0 = kreturn []"
| "fetch_many (Suc n) = kbind fetch (\<lambda>t. kbind (fetch_many n) (\<lambda>ts. kreturn (t # ts)))"

lemma put_all_ok:
  assumes "items h q" and "distinct (q @ ts)" and "\<forall>t \<in> set ts. ready h t"
  shows "\<exists>h'. put_all ts h = (Inr (), h') \<and> items h' (q @ ts)"
  using assms
proof (induction ts arbitrary: h q)
  case (Cons t ts)
  then obtain h1 where 1: "put t h = (Inr (), h1)" "items h1 (q @ [t])"
    and r: "\<forall>u. u \<notin> insert t (set q) \<longrightarrow> ready h u \<longrightarrow> ready h1 u"
    using put_ok [of h q t] by auto
  have "\<forall>u \<in> set ts. ready h1 u" using r Cons.prems by auto
  with Cons.IH [OF 1(2)] Cons.prems(2) obtain h' where "put_all ts h1 = (Inr (), h')" "items h' (q @ t # ts)"
    by auto
  with 1 show ?case by (auto simp: kbind_def)
qed (simp add: kreturn_def)

lemma fetch_many_ok:
  assumes "items h q" and "n \<le> length q"
  shows "\<exists>h'. fetch_many n h = (Inr (map Some (take n q)), h') \<and> items h' (drop n q)"
  using assms
proof (induction n arbitrary: h q)
  case (Suc n)
  then obtain t q' where q: "q = t # q'" by (cases q) auto
  with Suc.prems obtain h1 where "fetch h = (Inr (Some t), h1)" "items h1 q'"
    using fetch_ok [of h t q'] by auto
  with Suc.IH [of h1 q'] Suc.prems q show ?case by (auto simp: kbind_def kreturn_def)
qed (simp add: kreturn_def)

text \<open>First in, first out: whatever was queued before, a batch comes out in its order.\<close>

lemma fifo:
  assumes "items h q" and "distinct (q @ ts)" and "\<forall>t \<in> set ts. ready h t"
  shows "\<exists>h'. kbind (put_all ts) (\<lambda>_. fetch_many (length (q @ ts))) h = (Inr (map Some (q @ ts)), h')
    \<and> items h' []"
proof -
  from put_all_ok [OF assms] obtain h1 where 1: "put_all ts h = (Inr (), h1)" "items h1 (q @ ts)" by blast
  with fetch_many_ok [of h1 "q @ ts" "length (q @ ts)"] show ?thesis by (auto simp: kbind_def)
qed

end

lemma others_kept_detached:
  "others_kept l T h h' \<Longrightarrow> t \<notin> T \<Longrightarrow> detached h t \<Longrightarrow> detached h' t"
  by (simp add: others_kept_def detached_def)

interpretation runqueue: thread_queue "threadlist_addtail l" "threadlist_remhead l"
  "\<lambda>h. is_list h l" detached for l
proof (unfold_locales, goal_cases)
  case (1 h q t)
  then have "inserted l t q h (q @ [t]) (threadlist_addtail l t h)"
    by (intro addtail_result) (simp_all add: detached_def)
  then show ?case
    by (cases "threadlist_addtail l t h") (auto simp: inserted_def others_kept_detached)
next
  case (2 h t q)
  from remhead_result [OF this] show ?case
    by (auto simp: taken_off_def intro: others_kept_detached)
next
  case (3 h)
  then show ?case by (rule remhead_empty)
qed

subsection \<open>Properties\<close>

text \<open>
  The four insertions put the thread where they promise, count it, and leave every list
  that shares no thread with this one as it was; none follows a null pointer.
\<close>

theorem threadlist_insertions:
  assumes "is_list h l (us @ x # vs)" and "t \<notin> set (us @ x # vs)" and "tln_self (node h (Thr t)) = Some t"
  shows "inserted l t (us @ x # vs) h (t # us @ x # vs) (threadlist_addhead l t h)
    \<and> inserted l t (us @ x # vs) h (us @ x # vs @ [t]) (threadlist_addtail l t h)
    \<and> inserted l t (us @ x # vs) h (us @ x # t # vs) (threadlist_insertafter l x t h)
    \<and> inserted l t (us @ x # vs) h (us @ t # x # vs) (threadlist_insertbefore l t x h)"
  using addhead_result [OF assms] addtail_result [OF assms] insertafter_result [OF assms]
    insertbefore_result [OF assms] by simp

definition example_heap :: tlheap where
  "example_heap = snd (kbind (threadlist_init 0) (\<lambda>_. kbind (threadlist_addtail 0 7) (\<lambda>_.
     threadlist_addtail 0 8))
     \<lparr>node = (\<lambda>n. \<lparr>tln_prev = None, tln_next = None,
        tln_self = (case n of Thr t \<Rightarrow> Some t | _ \<Rightarrow> None)\<rparr>), tl_count = (\<lambda>_. 0)\<rparr>)"

lemmas run_defs = threadlist_addtail_def threadlist_insertbeforenode_def Let_def threadlist_init_def
  store_next_def store_prev_def set_node_def add_count_eq kmonad_defs

lemma example_heap: "is_list example_heap 0 [7, 8]" "detached example_heap 9"
  by (simp_all add: example_heap_def run_defs is_list_def is_chain_def spine_def detached_def)

theorem threadlist_insertions_witness:
  "inserted 0 9 [7, 8] example_heap [7, 9, 8] (threadlist_insertafter 0 7 9 example_heap)"
  using threadlist_insertions [of example_heap 0 "[]" 7 "[8]" 9] example_heap
  by (simp add: detached_def)

text \<open>
  Removal from either end takes the thread at that end and a removal in the middle the
  named thread, which is left on no list; the other lists are as before, and the two ends of
  an empty list answer \<open>NULL\<close> and change nothing.
\<close>

theorem threadlist_removals:
  "(is_list h l (t # ts) \<longrightarrow>
      (\<exists>h'. threadlist_remhead l h = (Inr (Some t), h') \<and> taken_off l t (t # ts) h ts h'))
   \<and> (is_list h l (ts @ [t]) \<longrightarrow>
      (\<exists>h'. threadlist_remtail l h = (Inr (Some t), h') \<and> taken_off l t (ts @ [t]) h ts h'))
   \<and> (is_list h l (us @ t # vs) \<longrightarrow>
      (\<exists>h'. threadlist_remove l t h = (Inr (), h') \<and> taken_off l t (us @ t # vs) h (us @ vs) h'))
   \<and> (is_list h l [] \<longrightarrow> threadlist_remhead l h = (Inr None, h) \<and> threadlist_remtail l h = (Inr None, h))"
  using remhead_result [of h l t ts] remtail_result [of h l ts t] remove_result [of h l us t vs]
    remhead_empty [of h l] remtail_empty [of h l] by simp

theorem threadlist_removals_witness:
  "\<exists>h'. threadlist_remhead 0 example_heap = (Inr (Some 7), h') \<and> taken_off 0 7 [7, 8] example_heap [8] h'"
  using threadlist_removals [of example_heap 0 7 "[8]" "[]" "[]"] example_heap by simp

text \<open>
  A queue of threads is first in, first out: threads appended to a list come off its
  head after those already there, in the order they were added, and leave it empty.
\<close>

theorem threadlist_fifo:
  assumes "is_list h l q" and "distinct (q @ ts)" and "\<forall>t \<in> set ts. detached h t"
  shows "\<exists>h'. kbind (runqueue.put_all l ts) (\<lambda>_. runqueue.fetch_many l (length (q @ ts))) h
      = (Inr (map Some (q @ ts)), h') \<and> is_list h' l []"
  using assms by (rule runqueue.fifo)

theorem threadlist_fifo_witness:
  "\<exists>h'. kbind (runqueue.put_all 0 [9]) (\<lambda>_. runqueue.fetch_many 0 3) example_heap
      = (Inr [Some 7, Some 8, Some 9], h') \<and> is_list h' 0 []"
  using threadlist_fifo [of example_heap 0 "[7, 8]" "[9]"] example_heap by (simp add: numeral_3_eq_3)

end
