(* ===== verification/Hangman.thy ===== *)
theory Hangman
  imports Prelude
begin

text \<open>
  The deadlock detector (\<^verbatim>\<open>kern/thread/hangman.c\<close>). An actor (a CPU or a thread) waits for
  at most one lockable, a lockable is held by at most one actor; the two maps are the C
  fields \<open>a_waiting\<close> and \<open>l_holding\<close>. Each operation runs under \<open>hangman_lock\<close>, so it is one
  atomic step; the lockable inside \<open>hangman_lock\<close> itself is number 0 and is skipped by the
  code. The two loops follow pointers and have no bound: they are partial functions, \<open>None\<close>
  meaning that they do not end. The names and the text of the report are left out, the
  actors and lockables it lists are kept.

  Shown: in every reachable state the waits-for graph has no cycle and the search ends; a
  request panics exactly when it would close a cycle, and the report then follows the cycle
  without meeting a null pointer.
\<close>

subsection \<open>The code\<close>

record hangman =
  a_waiting :: "nat \<Rightarrow> nat option"
  l_holding :: "nat \<Rightarrow> nat option"

definition hangman_lock :: nat where "hangman_lock = 0"

partial_function (option) check_from :: "hangman \<Rightarrow> nat option \<Rightarrow> nat \<Rightarrow> bool option" where
  "check_from h cur target =
     (case cur of None \<Rightarrow> Some False
      | Some c \<Rightarrow>
          if c = target then Some True
          else (case a_waiting h c of None \<Rightarrow> Some False
                | Some l \<Rightarrow> check_from h (l_holding h l) target))"

text \<open>The report: the holders and what they wait for, up to \<open>target\<close>.\<close>

partial_function (option) report ::
  "hangman \<Rightarrow> nat option \<Rightarrow> nat \<Rightarrow> (nat \<times> nat option) list result option" where
  "report h cur target =
     (case cur of None \<Rightarrow> Some (Inl UNDEFINED)
      | Some c \<Rightarrow>
          if c = target then Some (Inr [(c, None)])
          else (case a_waiting h c of None \<Rightarrow> Some (Inl UNDEFINED)
                | Some l \<Rightarrow>
                    Option.bind (report h (l_holding h l) target) (\<lambda>r.
                      Some (map_sum id (Cons (c, Some l)) r))))"

definition hangman_check :: "hangman \<Rightarrow> nat \<Rightarrow> nat \<Rightarrow> unit result option" where
  "hangman_check h start target =
     Option.bind (check_from h (l_holding h start) target) (\<lambda>found.
       if \<not> found then Some (Inr ())
       else Option.bind (report h (l_holding h start) target) (\<lambda>r.
         case r of Inl e \<Rightarrow> Some (Inl e) | Inr _ \<Rightarrow> Some (Inl PANIC)))"

definition hangman_wait :: "nat \<Rightarrow> nat \<Rightarrow> hangman \<Rightarrow> (unit result \<times> hangman) option" where
  "hangman_wait a l h =
     (if l = hangman_lock then Some (Inr (), h)
      else if a_waiting h a \<noteq> None then Some (Inl PANIC, h)
      else Option.bind (hangman_check h l a) (\<lambda>r.
        case r of Inl e \<Rightarrow> Some (Inl e, h)
        | Inr _ \<Rightarrow> Some (Inr (), h\<lparr>a_waiting := (a_waiting h)(a := Some l)\<rparr>)))"

definition hangman_acquire :: "nat \<Rightarrow> nat \<Rightarrow> (hangman, unit) kernel" where
  "hangman_acquire a l h =
     (if l = hangman_lock then (Inr (), h)
      else if a_waiting h a \<noteq> Some l then (Inl PANIC, h)
      else if l_holding h l \<noteq> None then (Inl PANIC, h)
      else (Inr (), h\<lparr>l_holding := (l_holding h)(l := Some a), a_waiting := (a_waiting h)(a := None)\<rparr>))"

definition hangman_release :: "nat \<Rightarrow> nat \<Rightarrow> (hangman, unit) kernel" where
  "hangman_release a l h =
     (if l = hangman_lock then (Inr (), h)
      else if a_waiting h a \<noteq> None then (Inl PANIC, h)
      else if l_holding h l \<noteq> Some a then (Inl PANIC, h)
      else (Inr (), h\<lparr>l_holding := (l_holding h)(l := None)\<rparr>))"

subsection \<open>Runs\<close>

definition hangman_init :: hangman where
  "hangman_init = \<lparr>a_waiting = (\<lambda>_. None), l_holding = (\<lambda>_. None)\<rparr>"

inductive hangman_step :: "hangman \<Rightarrow> hangman \<Rightarrow> bool" where
  wait: "hangman_wait a l h = Some (Inr (), h') \<Longrightarrow> hangman_step h h'"
| acquire: "hangman_acquire a l h = (Inr (), h') \<Longrightarrow> hangman_step h h'"
| release: "hangman_release a l h = (Inr (), h') \<Longrightarrow> hangman_step h h'"

inductive hangman_reachable :: "hangman \<Rightarrow> bool" where
  start: "hangman_reachable hangman_init"
| step: "hangman_reachable h \<Longrightarrow> hangman_step h h' \<Longrightarrow> hangman_reachable h'"

inductive_cases hangman_stepE: "hangman_step h h'"

subsection \<open>The waits-for graph\<close>

definition waits_for :: "hangman \<Rightarrow> (nat \<times> nat) set" where
  "waits_for h = {(a, b). \<exists>l. a_waiting h a = Some l \<and> l_holding h l = Some b}"

text \<open>The edge that a request of \<open>a\<close> for \<open>l\<close> adds.\<close>

definition request_edge :: "hangman \<Rightarrow> nat \<Rightarrow> nat \<Rightarrow> (nat \<times> nat) set" where
  "request_edge h a l = {(a, b) | b. l_holding h l = Some b}"

definition hangman_ok :: "hangman \<Rightarrow> bool" where
  "hangman_ok h \<longleftrightarrow> finite {a. a_waiting h a \<noteq> None} \<and> acyclic (waits_for h)"

lemma waits_for_wf:
  assumes "hangman_ok h"
  shows "wf ((waits_for h)\<inverse>)"
proof (rule finite_acyclic_wf_converse)
  have "waits_for h \<subseteq> (\<lambda>a. (a, the (l_holding h (the (a_waiting h a))))) ` {a. a_waiting h a \<noteq> None}"
    by (auto simp: waits_for_def image_iff)
  then show "finite (waits_for h)"
    using assms by (auto simp: hangman_ok_def intro: finite_subset)
qed (use assms in \<open>simp add: hangman_ok_def\<close>)

lemma waits_for_unique: "(a, b) \<in> waits_for h \<Longrightarrow> (a, c) \<in> waits_for h \<Longrightarrow> b = c"
  by (auto simp: waits_for_def)

lemma reaches_unfold:
  "(c, t) \<in> (waits_for h)\<^sup>* \<longleftrightarrow>
     c = t \<or> (\<exists>l d. a_waiting h c = Some l \<and> l_holding h l = Some d \<and> (d, t) \<in> (waits_for h)\<^sup>*)"
  (is "_ \<longleftrightarrow> ?R")
proof
  assume "(c, t) \<in> (waits_for h)\<^sup>*" then show ?R
    by (cases rule: converse_rtranclE) (auto simp: waits_for_def)
qed (auto simp: waits_for_def intro: converse_rtrancl_into_rtrancl)

lemma check_from_correct:
  assumes "hangman_ok h"
  shows "check_from h cur t = Some (\<exists>c. cur = Some c \<and> (c, t) \<in> (waits_for h)\<^sup>*)"
proof (cases cur)
  case None
  then show ?thesis by (simp add: check_from.simps)
next
  case (Some c)
  have "check_from h (Some c) t = Some ((c, t) \<in> (waits_for h)\<^sup>*)"
  proof (induction c rule: wf_induct_rule [OF waits_for_wf [OF assms]])
    case (1 c)
    show ?case
    proof (cases "c \<noteq> t \<and> a_waiting h c \<noteq> None")
      case True
      then obtain l where l: "a_waiting h c = Some l" by blast
      show ?thesis
      proof (cases "l_holding h l")
        case None
        with l True show ?thesis
          by (simp add: check_from.simps [of h "Some c"] check_from.simps [of h None] reaches_unfold [of c])
      next
        case (Some d)
        with l have "(d, c) \<in> (waits_for h)\<inverse>" by (simp add: waits_for_def)
        from 1 [OF this] l Some True show ?thesis
          by (simp add: check_from.simps [of h "Some c"] reaches_unfold [of c])
      qed
    next
      case False
      then show ?thesis by (auto simp: check_from.simps [of h "Some c"] reaches_unfold [of c])
    qed
  qed
  with Some show ?thesis by simp
qed

text \<open>When the search has found the target, the report reaches it too.\<close>

lemma report_ends:
  assumes "hangman_ok h" and "(c, t) \<in> (waits_for h)\<^sup>*"
  shows "\<exists>ls. report h (Some c) t = Some (Inr ls)"
  using assms(2)
proof (induction rule: converse_rtrancl_induct)
  case base
  show ?case by (simp add: report.simps)
next
  case (step c d)
  then obtain l ls where "a_waiting h c = Some l" "l_holding h l = Some d"
    "report h (Some d) t = Some (Inr ls)" by (auto simp: waits_for_def)
  then show ?case by (subst report.simps) auto
qed

lemma hangman_check_correct:
  assumes "hangman_ok h"
  shows "hangman_check h l a =
    Some (if \<exists>b. l_holding h l = Some b \<and> (b, a) \<in> (waits_for h)\<^sup>* then Inl PANIC else Inr ())"
proof (cases "\<exists>b. l_holding h l = Some b \<and> (b, a) \<in> (waits_for h)\<^sup>*")
  case True
  then obtain b where b: "l_holding h l = Some b" "(b, a) \<in> (waits_for h)\<^sup>*" by blast
  from report_ends [OF assms b(2)] obtain ls where "report h (Some b) a = Some (Inr ls)" by blast
  with b show ?thesis by (simp add: hangman_check_def check_from_correct [OF assms])
qed (simp add: hangman_check_def check_from_correct [OF assms])

lemma acyclic_request:
  "acyclic (waits_for h) \<Longrightarrow>
    acyclic (waits_for h \<union> request_edge h a l) \<longleftrightarrow>
      \<not> (\<exists>b. l_holding h l = Some b \<and> (b, a) \<in> (waits_for h)\<^sup>*)"
proof (cases "l_holding h l")
  case (Some b)
  then have "waits_for h \<union> request_edge h a l = insert (a, b) (waits_for h)"
    by (auto simp: request_edge_def)
  with Some show "acyclic (waits_for h) \<Longrightarrow> ?thesis" by simp
qed (simp add: request_edge_def)

subsection \<open>The invariant\<close>

lemma hangman_wait_result:
  assumes "hangman_ok h" and "l \<noteq> hangman_lock" and "a_waiting h a = None"
  shows "hangman_wait a l h =
    Some (if acyclic (waits_for h \<union> request_edge h a l)
      then (Inr (), h\<lparr>a_waiting := (a_waiting h)(a := Some l)\<rparr>) else (Inl PANIC, h))"
proof -
  have "acyclic (waits_for h)" using assms(1) by (simp add: hangman_ok_def)
  then show ?thesis
    using assms(2,3) acyclic_request [of h a l]
    by (simp add: hangman_wait_def hangman_check_correct [OF assms(1)])
qed

lemma waits_for_wait:
  "a_waiting h a = None \<Longrightarrow>
    waits_for (h\<lparr>a_waiting := (a_waiting h)(a := Some l)\<rparr>) = waits_for h \<union> request_edge h a l"
  by (auto simp: waits_for_def request_edge_def split: if_splits)

lemma ok_wait:
  assumes "hangman_ok h" and "hangman_wait a l h = Some (Inr (), h')"
  shows "hangman_ok h'"
proof (cases "l = hangman_lock")
  case False
  with assms(2) have idle: "a_waiting h a = None"
    by (auto simp: hangman_wait_def split: if_splits)
  from assms(2) have h': "h' = h\<lparr>a_waiting := (a_waiting h)(a := Some l)\<rparr>"
    and ac: "acyclic (waits_for h \<union> request_edge h a l)"
    by (auto simp: hangman_wait_result [OF assms(1) False idle] split: if_splits)
  have "{b. a_waiting h' b \<noteq> None} \<subseteq> insert a {b. a_waiting h b \<noteq> None}" by (auto simp: h')
  then have "finite {b. a_waiting h' b \<noteq> None}"
    using assms(1) by (auto simp: hangman_ok_def intro: finite_subset)
  with ac show ?thesis by (simp add: hangman_ok_def h' waits_for_wait [OF idle])
qed (use assms in \<open>simp add: hangman_wait_def\<close>)

text \<open>Edges into a node that no edge leaves close no cycle.\<close>

lemma acyclic_into_sink:
  assumes "acyclic r" and sink: "\<And>y. (a, y) \<notin> r" "a \<notin> S"
  shows "acyclic (r \<union> {(b, a) | b. b \<in> S})"
proof -
  let ?r = "r \<union> {(b, a) | b. b \<in> S}"
  have no_out: "(a, y) \<notin> ?r" for y using sink by auto
  have old: "(x, y) \<in> r\<^sup>+" if "(x, y) \<in> ?r\<^sup>+" and "y \<noteq> a" for x y
    using that
  proof (induction rule: trancl_induct)
    case (step y z)
    then have "y \<noteq> a" using no_out by auto
    with step show ?case by (auto intro: trancl_into_trancl)
  qed auto
  have "(x, x) \<notin> ?r\<^sup>+" for x
  proof
    assume c: "(x, x) \<in> ?r\<^sup>+"
    then have "x \<noteq> a" using no_out by (blast dest: tranclD)
    from old [OF c this] show False using assms(1) by (simp add: acyclic_def)
  qed
  then show ?thesis by (simp add: acyclic_def)
qed

lemma ok_acquire:
  assumes "hangman_ok h" and "hangman_acquire a l h = (Inr (), h')"
  shows "hangman_ok h'"
proof (cases "l = hangman_lock")
  case False
  then have h': "h' = h\<lparr>l_holding := (l_holding h)(l := Some a), a_waiting := (a_waiting h)(a := None)\<rparr>"
    using assms(2) by (auto simp: hangman_acquire_def split: if_splits)
  let ?r = "{e \<in> waits_for h. fst e \<noteq> a}" and ?S = "{b. a_waiting h b = Some l \<and> b \<noteq> a}"
  have "acyclic ?r" using assms(1) by (auto simp: hangman_ok_def intro: acyclic_subset)
  then have "acyclic (?r \<union> {(b, a) | b. b \<in> ?S})" by (rule acyclic_into_sink) simp_all
  moreover have "waits_for h' \<subseteq> ?r \<union> {(b, a) | b. b \<in> ?S}"
    by (auto simp: waits_for_def h' split: if_splits)
  ultimately have "acyclic (waits_for h')" by (rule acyclic_subset)
  moreover have "{b. a_waiting h' b \<noteq> None} \<subseteq> {b. a_waiting h b \<noteq> None}" by (auto simp: h')
  ultimately show ?thesis using assms(1) by (auto simp: hangman_ok_def intro: finite_subset)
qed (use assms in \<open>simp add: hangman_acquire_def\<close>)

lemma ok_release:
  assumes "hangman_ok h" and "hangman_release a l h = (Inr (), h')"
  shows "hangman_ok h'"
proof (cases "l = hangman_lock")
  case False
  then have h': "h' = h\<lparr>l_holding := (l_holding h)(l := None)\<rparr>"
    using assms(2) by (auto simp: hangman_release_def split: if_splits)
  have "waits_for h' \<subseteq> waits_for h" by (auto simp: waits_for_def h' split: if_splits)
  then show ?thesis using assms(1) by (auto simp: hangman_ok_def h' intro: acyclic_subset)
qed (use assms in \<open>simp add: hangman_release_def\<close>)

lemma ok_step: "hangman_step h h' \<Longrightarrow> hangman_ok h \<Longrightarrow> hangman_ok h'"
  by (cases rule: hangman_step.cases) (auto intro: ok_wait ok_acquire ok_release)

lemma ok_reachable: "hangman_reachable h \<Longrightarrow> hangman_ok h"
proof (induction rule: hangman_reachable.induct)
  case start
  show ?case by (simp add: hangman_ok_def hangman_init_def waits_for_def acyclic_def)
qed (rule ok_step)

subsection \<open>Properties\<close>

text \<open>
  C18: However the actors request, acquire and release, no state with a cycle in the waits-for
  graph is ever reached, and the unbounded pointer chase of the detector always ends.
\<close>

theorem hangman_no_deadlock:
  assumes "hangman_reachable h"
  shows "acyclic (waits_for h) \<and> hangman_check h l a \<noteq> None"
  using ok_reachable [OF assms] by (simp add: hangman_ok_def hangman_check_correct)

text \<open>Two actors that hold a lock each, the first waiting for the second's.\<close>

definition two_actors :: hangman where
  "two_actors = \<lparr>a_waiting = (\<lambda>_. None)(1 := Some 6), l_holding = (\<lambda>_. None)(5 := Some 1, 6 := Some 2)\<rparr>"

lemma two_actors_reachable: "hangman_reachable two_actors"
proof -
  define s1 where "s1 = hangman_init\<lparr>a_waiting := (\<lambda>_. None)(1 := Some 5)\<rparr>"
  define s2 where "s2 = hangman_init\<lparr>l_holding := (\<lambda>_. None)(5 := Some 1)\<rparr>"
  define s3 where "s3 = s2\<lparr>a_waiting := (\<lambda>_. None)(2 := Some 6)\<rparr>"
  define s4 where "s4 = s2\<lparr>l_holding := (\<lambda>_. None)(5 := Some 1, 6 := Some 2)\<rparr>"
  have w1: "hangman_wait 1 5 hangman_init = Some (Inr (), s1)"
    by (simp add: hangman_wait_def hangman_check_def check_from.simps hangman_init_def hangman_lock_def s1_def)
  have a1: "hangman_acquire 1 5 s1 = (Inr (), s2)"
    by (simp add: hangman_acquire_def hangman_init_def hangman_lock_def s1_def s2_def)
  have w2: "hangman_wait 2 6 s2 = Some (Inr (), s3)"
    by (simp add: hangman_wait_def hangman_check_def check_from.simps hangman_init_def hangman_lock_def s2_def s3_def)
  have a2: "hangman_acquire 2 6 s3 = (Inr (), s4)"
    by (simp add: hangman_acquire_def hangman_init_def hangman_lock_def s2_def s3_def s4_def)
  have w3: "hangman_wait 1 6 s4 = Some (Inr (), two_actors)"
    by (simp add: hangman_wait_def hangman_check_def check_from.simps hangman_init_def hangman_lock_def
        s2_def s4_def two_actors_def)
  show ?thesis
    by (rule hangman_reachable.step [OF _ hangman_step.wait [OF w3]],
        rule hangman_reachable.step [OF _ hangman_step.acquire [OF a2]],
        rule hangman_reachable.step [OF _ hangman_step.wait [OF w2]],
        rule hangman_reachable.step [OF _ hangman_step.acquire [OF a1]],
        rule hangman_reachable.step [OF _ hangman_step.wait [OF w1]],
        rule hangman_reachable.start)
qed

theorem hangman_no_deadlock_witness:
  "acyclic (waits_for two_actors) \<and> hangman_check two_actors 5 2 \<noteq> None"
  using hangman_no_deadlock [OF two_actors_reachable] by simp

text \<open>
  C21: In a reachable state an idle actor's request for a lockable stops the machine exactly
  when waiting for it would close a cycle; otherwise the request is recorded.
\<close>

theorem hangman_wait_iff_cycle:
  assumes "hangman_reachable h" and "l \<noteq> hangman_lock" and "a_waiting h a = None"
  shows "hangman_wait a l h =
    Some (if acyclic (waits_for h \<union> request_edge h a l)
      then (Inr (), h\<lparr>a_waiting := (a_waiting h)(a := Some l)\<rparr>) else (Inl PANIC, h))"
  using ok_reachable [OF assms(1)] assms(2,3) by (rule hangman_wait_result)

theorem hangman_wait_iff_cycle_witness:
  "hangman_wait 2 5 two_actors = Some (Inl PANIC, two_actors)"
proof -
  have idle: "a_waiting two_actors 2 = None" by (simp add: two_actors_def)
  have "(1, 2) \<in> waits_for two_actors" "l_holding two_actors 5 = Some 1"
    by (auto simp: waits_for_def two_actors_def)
  then have "\<not> acyclic (waits_for two_actors \<union> request_edge two_actors 2 5)"
    using acyclic_request [of two_actors 2 5] ok_reachable [OF two_actors_reachable]
    by (auto simp: hangman_ok_def)
  then show ?thesis
    using hangman_wait_iff_cycle [OF two_actors_reachable _ idle, of 5] by (simp add: hangman_lock_def)
qed

end
