(* ===== verification/Uio.thy ===== *)
theory Uio
  imports Prelude
begin

text \<open>
  Moving data between kernel buffers and user memory: \<^verbatim>\<open>kern/vm/copyinout.c\<close> and
  \<^verbatim>\<open>kern/lib/uio.c\<close>.

  \<^item> \<open>umem\<close> is the memory a transfer refers to, a byte per 32-bit address; touching an address
    with \<open>um_bad\<close> faults, and the fault handler makes the copy return \<open>EFAULT\<close>
    (\<open>copyfail\<close> and \<open>setjmp\<close>). A copy that faults has stored the bytes below the fault.
  \<^item> A \<open>uio\<close> is the C struct; the memory its segment refers to is part of it
    (\<open>uio_mem\<close>): the current user address space, or the kernel buffer for \<open>UIO_SYSSPACE\<close>.
    \<open>uio_offset\<close> is a 64-bit file position and an \<open>int\<close> here.
  \<^item> \<open>uiomove\<close> gets the contents of the kernel buffer at \<open>ptr\<close> and returns its new contents.

  Shown: what \<open>copycheck\<close> accepts, with the wrap-around of its address arithmetic; that
  \<open>uiomove\<close> moves exactly the next \<open>n\<close> bytes of the scattered region and advances; that it
  conserves \<open>uio_offset + uio_resid\<close> even when it fails.
\<close>

subsection \<open>User memory\<close>

record umem =
  um_byte :: "u32 \<Rightarrow> u8"
  um_bad :: "u32 \<Rightarrow> bool"

definition USERSPACETOP :: u32 where "USERSPACETOP = 0x80000000"

definition copycheck :: "u32 \<Rightarrow> u32 \<Rightarrow> u32 result" where
  "copycheck userptr len =
     (let lo = userptr;
          hi = lo + len - 1
      in if hi < lo then Inl EFAULT
         else if lo \<ge> USERSPACETOP then Inl EFAULT
         else if hi \<ge> USERSPACETOP then Inr (USERSPACETOP - lo)
         else Inr len)"

definition addrs :: "u32 \<Rightarrow> nat \<Rightarrow> u32 list" where
  "addrs base n = map (\<lambda>k. base + of_nat k) [0..<n]"

definition peek :: "u32 list \<Rightarrow> umem \<Rightarrow> u8 list" where
  "peek as m = map (um_byte m) as"

fun poke :: "u32 list \<Rightarrow> u8 list \<Rightarrow> umem \<Rightarrow> umem" where
  "poke (a # as) (b # bs) m = poke as bs (m\<lparr>um_byte := (um_byte m)(a := b)\<rparr>)"
| "poke _ _ m = m"

definition copyin :: "u32 \<Rightarrow> u32 \<Rightarrow> umem \<Rightarrow> u8 list result" where
  "copyin usersrc len m =
     (case copycheck usersrc len of
        Inl e \<Rightarrow> Inl e
      | Inr stoplen \<Rightarrow>
          if stoplen \<noteq> len then Inl EFAULT
          else if list_ex (um_bad m) (addrs usersrc (unat len)) then Inl EFAULT
          else Inr (peek (addrs usersrc (unat len)) m))"

definition copyout :: "u8 list \<Rightarrow> u32 \<Rightarrow> u32 \<Rightarrow> (umem, unit) kernel" where
  "copyout src userdest len m =
     (case copycheck userdest len of
        Inl e \<Rightarrow> (Inl e, m)
      | Inr stoplen \<Rightarrow>
          let as = addrs userdest (unat len) in
          if stoplen \<noteq> len then (Inl EFAULT, m)
          else if list_ex (um_bad m) as
            then (Inl EFAULT, poke (takeWhile (\<lambda>a. \<not> um_bad m a) as) src m)
          else (Inr (), poke as src m))"

text \<open>
  \<open>copystr\<close>: \<open>src i\<close> and \<open>dst_bad i\<close> describe the two buffers (\<open>None\<close> and \<open>True\<close> are
  faults); the bytes stored in the destination are returned with the result, which is
  \<open>gotlen\<close> on success.
\<close>

function copystr_from ::
  "(nat \<Rightarrow> u8 option) \<Rightarrow> (nat \<Rightarrow> bool) \<Rightarrow> nat \<Rightarrow> nat \<Rightarrow> nat \<Rightarrow> nat result \<times> u8 list" where
  "copystr_from src dst_bad maxlen stoplen i =
     (if i < maxlen \<and> i < stoplen then
        (case src i of
           None \<Rightarrow> (Inl EFAULT, [])
         | Some c \<Rightarrow>
             if dst_bad i then (Inl EFAULT, [])
             else if c = 0 then (Inr (i + 1), [c])
             else (case copystr_from src dst_bad maxlen stoplen (Suc i) of
                     (r, cs) \<Rightarrow> (r, c # cs)))
      else if stoplen < maxlen then (Inl EFAULT, [])
      else (Inl ENAMETOOLONG, []))"
  by pat_completeness auto
termination by (relation "measure (\<lambda>(_, _, maxlen, _, i). maxlen - i)") auto

declare copystr_from.simps [simp del]

definition copyinstr :: "u32 \<Rightarrow> u32 \<Rightarrow> umem \<Rightarrow> nat result \<times> u8 list" where
  "copyinstr usersrc len m =
     (case copycheck usersrc len of
        Inl e \<Rightarrow> (Inl e, [])
      | Inr stoplen \<Rightarrow>
          copystr_from
            (\<lambda>i. let a = usersrc + of_nat i in if um_bad m a then None else Some (um_byte m a))
            (\<lambda>_. False) (unat len) (unat stoplen) 0)"

text \<open>\<open>src\<close> holds the characters of the kernel string, without its terminator.\<close>

definition copyoutstr :: "u8 list \<Rightarrow> u32 \<Rightarrow> u32 \<Rightarrow> (umem, nat) kernel" where
  "copyoutstr src userdest len m =
     (case copycheck userdest len of
        Inl e \<Rightarrow> (Inl e, m)
      | Inr stoplen \<Rightarrow>
          (case copystr_from (\<lambda>i. Some (if i < length src then src ! i else 0))
             (\<lambda>i. um_bad m (userdest + of_nat i)) (unat len) (unat stoplen) 0 of
             (r, cs) \<Rightarrow> (r, poke (addrs userdest (length cs)) cs m)))"

subsection \<open>uio\<close>

datatype uio_rw = UIO_READ | UIO_WRITE
datatype uio_seg = UIO_USERISPACE | UIO_USERSPACE | UIO_SYSSPACE

record iovec =
  iov_base :: u32
  iov_len :: u32

record uio =
  uio_iov :: "iovec list"
  uio_offset :: int
  uio_resid :: u32
  uio_segflg :: uio_seg
  uio_rw :: uio_rw
  uio_mem :: umem

text \<open>One copy of \<open>sz\<close> bytes to or from the first \<open>iovec\<close>.\<close>

definition move_chunk :: "u32 \<Rightarrow> u8 list \<Rightarrow> u32 \<Rightarrow> (uio, u8 list) kernel" where
  "move_chunk base ptr sz u =
     (case uio_segflg u of
        UIO_SYSSPACE \<Rightarrow>
          let as = addrs base (unat sz) in
          (case uio_rw u of
             UIO_READ \<Rightarrow> (Inr (take (unat sz) ptr), u\<lparr>uio_mem := poke as ptr (uio_mem u)\<rparr>)
           | UIO_WRITE \<Rightarrow> (Inr (peek as (uio_mem u)), u))
      | _ \<Rightarrow>
          (case uio_rw u of
             UIO_READ \<Rightarrow>
               (case copyout ptr base sz (uio_mem u) of
                  (r, m) \<Rightarrow> (map_sum id (\<lambda>_. take (unat sz) ptr) r, u\<lparr>uio_mem := m\<rparr>))
           | UIO_WRITE \<Rightarrow> (copyin base sz (uio_mem u), u)))"

function uiomove :: "u8 list \<Rightarrow> u32 \<Rightarrow> (uio, u8 list) kernel" where
  "uiomove ptr n u =
     (if n > 0 \<and> uio_resid u > 0 then
        (case uio_iov u of
           [] \<Rightarrow> (Inl UNDEFINED, u)
         | iov # rest \<Rightarrow>
             let sz = min (iov_len iov) n in
             if sz = 0 then
               (if rest = [] then (Inl PANIC, u\<lparr>uio_iov := rest\<rparr>)
                else uiomove ptr n (u\<lparr>uio_iov := rest\<rparr>))
             else
               (case move_chunk (iov_base iov) ptr sz u of
                  (Inl e, u') \<Rightarrow> (Inl e, u')
                | (Inr bs, u') \<Rightarrow>
                    (case uiomove (drop (unat sz) ptr) (n - sz)
                       (u'\<lparr>uio_iov := \<lparr>iov_base = iov_base iov + sz, iov_len = iov_len iov - sz\<rparr> # rest,
                          uio_resid := uio_resid u' - sz,
                          uio_offset := uio_offset u' + int (unat sz)\<rparr>) of
                       (Inr cs, u'') \<Rightarrow> (Inr (bs @ cs), u'')
                     | (Inl e, u'') \<Rightarrow> (Inl e, u''))))
      else (Inr ptr, u))"
  by pat_completeness auto
termination
proof (relation "measure (\<lambda>(ptr, n, u). unat n + length (uio_iov u))", goal_cases)
  case (3 ptr n u iov rest sz r u' bs)
  have "sz \<le> n" "0 < unat sz" using 3 by (auto simp: unat_gt_0)
  then have "unat (n - sz) < unat n" by (simp add: unat_sub word_le_nat_alt)
  with 3 show ?case by simp
qed auto

declare uiomove.simps [simp del]

text \<open>\<open>uiomovezeros\<close> sends its 16-byte block of zeros until \<open>n\<close> bytes have gone.\<close>

function movezeros_loop :: "u32 \<Rightarrow> (uio, unit) kernel" where
  "movezeros_loop n u =
     (if n > 0 then
        let amt = min 16 n in
        (case uiomove (replicate (unat amt) 0) amt u of
           (Inl e, u') \<Rightarrow> (Inl e, u')
         | (Inr _, u') \<Rightarrow> movezeros_loop (n - amt) u')
      else (Inr (), u))"
  by pat_completeness auto
termination
proof (relation "measure (\<lambda>(n, u). unat n)", goal_cases)
  case (2 n u amt r u' b)
  have "amt \<le> n" "0 < unat amt" using 2 by (auto simp: unat_gt_0 min_def)
  then show ?case by (simp add: unat_sub word_le_nat_alt)
qed auto

declare movezeros_loop.simps [simp del]

definition uiomovezeros :: "u32 \<Rightarrow> (uio, unit) kernel" where
  "uiomovezeros n = kbind (kget uio_rw) (\<lambda>rw. kbind (kassert (rw = UIO_READ)) (\<lambda>_. movezeros_loop n))"

text \<open>The kernel buffer of \<open>uio_kinit\<close> lies at \<open>kbuf\<close> in the memory \<open>m\<close>.\<close>

definition uio_kinit :: "u32 \<Rightarrow> u32 \<Rightarrow> int \<Rightarrow> uio_rw \<Rightarrow> umem \<Rightarrow> uio" where
  "uio_kinit kbuf len pos rw m =
     \<lparr>uio_iov = [\<lparr>iov_base = kbuf, iov_len = len\<rparr>], uio_offset = pos, uio_resid = len,
      uio_segflg = UIO_SYSSPACE, uio_rw = rw, uio_mem = m\<rparr>"

definition uio_uinit :: "u32 \<Rightarrow> u32 \<Rightarrow> int \<Rightarrow> uio_rw \<Rightarrow> umem \<Rightarrow> uio" where
  "uio_uinit ubuf len pos rw m =
     \<lparr>uio_iov = [\<lparr>iov_base = ubuf, iov_len = len\<rparr>], uio_offset = pos, uio_resid = len,
      uio_segflg = UIO_USERSPACE, uio_rw = rw, uio_mem = m\<rparr>"

subsection \<open>What copycheck accepts\<close>

lemma unat_top:
  assumes "len \<noteq> 0"
  shows "unat (lo + len - 1 :: u32) =
    (if unat lo + unat len \<le> 2 ^ 32 then unat lo + unat len - 1 else unat lo + unat len - 1 - 2 ^ 32)"
proof -
  have len: "0 < unat len" using assms by (simp add: unat_gt_0)
  then have l1: "unat (len - 1) = unat len - 1" by (simp add: unat_sub word_le_nat_alt)
  have "x + (y - 1) < 8589934592" if "x < 4294967296" "y < 4294967296" for x y :: nat
    using that by linarith
  from this [OF unat_u32_less unat_u32_less, of lo len]
  have b: "unat lo + (unat len - 1) < 8589934592" .
  have "unat (lo + len - 1) = (unat lo + (unat len - 1)) mod 2 ^ 32"
    by (simp only: add_diff_eq [symmetric] unat_word_ariths l1) simp
  then show ?thesis using len b by (auto simp: mod_if)
qed

lemma copycheck_eq:
  "copycheck p len =
    (if len = 0 then (if p = 0 then Inr USERSPACETOP else Inl EFAULT)
     else if unat p + unat len > 2 ^ 32 \<or> unat p \<ge> 2 ^ 31 then Inl EFAULT
     else if unat p + unat len > 2 ^ 31 then Inr (USERSPACETOP - p) else Inr len)"
proof (cases "len = 0")
  case True
  have "p - 1 < p" if "p \<noteq> 0" using that by (simp add: word_less_nat_alt unat_minus_one unat_gt_0)
  moreover have "\<not> (- 1 :: u32) < 0" by simp
  ultimately show ?thesis
    using True by (auto simp: copycheck_def Let_def USERSPACETOP_def word_le_nat_alt unsigned_minus_1_eq_mask mask_eq_exp_minus_1)
next
  case False
  then have "0 < unat len" by (simp add: unat_gt_0)
  moreover have "x + y - 1 - 4294967296 < x" if "4294967296 < x + y" "y < 4294967296" for x y :: nat
    using that by linarith
  from this [OF _ unat_u32_less, of "unat p" len]
  have "unat p + unat len - 1 - 4294967296 < unat p" if "4294967296 < unat p + unat len" using that .
  ultimately have top: "unat (p + len - 1) < unat p \<longleftrightarrow> 4294967296 < unat p + unat len"
    "unat p + unat len \<le> 4294967296 \<Longrightarrow>
      2147483648 \<le> unat (p + len - 1) \<longleftrightarrow> 2147483648 < unat p + unat len"
    using unat_top [OF False, of p] by auto
  then show ?thesis
    using False by (auto simp: copycheck_def Let_def USERSPACETOP_def word_le_nat_alt word_less_nat_alt)
qed

lemma copycheck_bound: "copycheck p len = Inr stop \<Longrightarrow> unat p + unat stop \<le> 2 ^ 31"
proof -
  assume r: "copycheck p len = Inr stop"
  have "unat (USERSPACETOP - p) = 2 ^ 31 - unat p" if "unat p < 2 ^ 31"
    using that by (simp add: USERSPACETOP_def unat_sub word_le_nat_alt)
  with r show ?thesis
    by (auto simp: copycheck_eq USERSPACETOP_def split: if_splits)
qed

lemma length_addrs [simp]: "length (addrs p n) = n"
  by (simp add: addrs_def)

lemma addrs_below:
  assumes "unat p + n \<le> 2 ^ 31" and "a \<in> set (addrs p n)"
  shows "a < USERSPACETOP"
proof -
  from assms(2) obtain k where k: "k < n" "a = p + of_nat k" by (auto simp: addrs_def)
  then have "unat a = unat p + k"
    using assms(1) by (simp add: unat_add_u32)
  then show ?thesis using assms(1) k(1) by (simp add: USERSPACETOP_def word_less_nat_alt)
qed

lemma poke_bad [simp]: "um_bad (poke as bs m) = um_bad m"
  by (induction as bs m rule: poke.induct) simp_all

lemma poke_other: "a \<notin> set as \<Longrightarrow> um_byte (poke as bs m) a = um_byte m a"
  by (induction as bs m rule: poke.induct) simp_all

text \<open>Two memories that a user program cannot tell apart.\<close>

definition same_user :: "umem \<Rightarrow> umem \<Rightarrow> bool" where
  "same_user m m' \<longleftrightarrow>
     (\<forall>a. a < USERSPACETOP \<longrightarrow> um_byte m a = um_byte m' a \<and> um_bad m a = um_bad m' a)"

lemma copyin_same:
  assumes "same_user m m'"
  shows "copyin p len m = copyin p len m'"
proof (cases "copycheck p len")
  case (Inr stop)
  have same: "um_byte m a = um_byte m' a" "um_bad m a = um_bad m' a"
    if "a \<in> set (addrs p (unat stop))" for a
    using addrs_below [OF copycheck_bound [OF Inr] that] assms by (auto simp: same_user_def)
  show ?thesis
  proof (cases "stop = len")
    case True
    with same have "list_ex (um_bad m) (addrs p (unat len)) = list_ex (um_bad m') (addrs p (unat len))"
      "peek (addrs p (unat len)) m = peek (addrs p (unat len)) m'"
      by (auto simp: list_ex_iff peek_def)
    then show ?thesis by (simp add: copyin_def Inr)
  qed (simp add: copyin_def Inr)
qed (simp add: copyin_def)

lemma copystr_from_cong:
  assumes "\<forall>k < stoplen. src k = src' k \<and> dst k = dst' k"
  shows "copystr_from src dst maxlen stoplen i = copystr_from src' dst' maxlen stoplen i"
  using assms
proof (induction src dst maxlen stoplen i rule: copystr_from.induct)
  case (1 src dst maxlen stoplen i)
  then show ?case
    by (auto simp: copystr_from.simps [of src dst] copystr_from.simps [of src' dst'] split: option.splits)
qed

lemma copystr_from_length: "length (snd (copystr_from src dst maxlen stoplen i)) \<le> stoplen - i"
proof (induction src dst maxlen stoplen i rule: copystr_from.induct)
  case (1 src dst maxlen stoplen i)
  show ?case
  proof (cases "i < maxlen \<and> i < stoplen \<and> src i \<noteq> None \<and> \<not> dst i \<and> src i \<noteq> Some 0")
    case True
    then obtain c where c: "src i = Some c" by auto
    with True have "length (snd (copystr_from src dst maxlen stoplen (Suc i))) \<le> stoplen - Suc i"
      by (intro 1) auto
    with True c show ?thesis
      by (subst copystr_from.simps) (auto split: prod.splits)
  qed (subst copystr_from.simps, auto split: option.splits)
qed

lemma copyinstr_same:
  assumes "same_user m m'"
  shows "copyinstr p len m = copyinstr p len m'"
proof (cases "copycheck p len")
  case (Inr stop)
  have "p + of_nat k < USERSPACETOP" if "k < unat stop" for k
    using that by (intro addrs_below [OF copycheck_bound [OF Inr]]) (auto simp: addrs_def)
  then show ?thesis
    using assms by (auto simp: copyinstr_def Inr same_user_def Let_def intro!: copystr_from_cong)
qed (simp add: copyinstr_def)

lemma copyout_confined:
  assumes "USERSPACETOP \<le> a"
  shows "um_byte (snd (copyout bs p len m)) a = um_byte m a"
proof (cases "copycheck p len")
  case (Inr stop)
  have "a \<notin> set (addrs p (unat len))" if "stop = len"
    using that copycheck_bound [OF Inr] addrs_below [of p "unat len" a] assms by (auto simp: not_less)
  then show ?thesis
    using poke_other [of a] by (auto simp: copyout_def Inr Let_def dest: set_takeWhileD)
qed (simp add: copyout_def)

lemma copyoutstr_confined:
  assumes "USERSPACETOP \<le> a"
  shows "um_byte (snd (copyoutstr s p len m)) a = um_byte m a"
proof (cases "copycheck p len")
  case (Inr stop)
  let ?r = "copystr_from (\<lambda>i. Some (if i < length s then s ! i else 0))
             (\<lambda>i. um_bad m (p + of_nat i)) (unat len) (unat stop) 0"
  have "length (snd ?r) \<le> unat stop" using copystr_from_length [of _ _ _ "unat stop" 0] by simp
  then have "unat p + length (snd ?r) \<le> 2 ^ 31" using copycheck_bound [OF Inr] by linarith
  then have "a \<notin> set (addrs p (length (snd ?r)))"
    using addrs_below [of p "length (snd ?r)" a] assms by (auto simp: not_less)
  moreover obtain r cs where "?r = (r, cs)" by (cases ?r)
  ultimately show ?thesis by (simp add: copyoutstr_def Inr poke_other)
qed (simp add: copyoutstr_def)

subsection \<open>Strings\<close>

lemma copystr_Inr_iff:
  "copystr_from src dst maxlen stoplen i = (Inr n, cs) \<longleftrightarrow>
     i < n \<and> n \<le> maxlen \<and> n \<le> stoplen \<and> src (n - 1) = Some 0
     \<and> (\<forall>k \<in> {i..<n - 1}. src k \<noteq> None \<and> src k \<noteq> Some 0) \<and> (\<forall>k \<in> {i..<n}. \<not> dst k)
     \<and> cs = map (the \<circ> src) [i..<n]"
proof (induction src dst maxlen stoplen i arbitrary: cs rule: copystr_from.induct)
  case (1 src dst maxlen stoplen i)
  show ?case
  proof (cases "i < maxlen \<and> i < stoplen \<and> src i \<noteq> None \<and> \<not> dst i")
    case False
    have "n = Suc i \<or> i \<in> {i..<n - 1}" if "i < n" using that by auto
    then have "\<not> (src i = None \<and> i < n \<and> src (n - 1) = Some 0 \<and> (\<forall>k \<in> {i..<n - 1}. src k \<noteq> None))"
      by auto
    with False show ?thesis
      by (subst copystr_from.simps) (auto split: option.splits)
  next
    case True
    then obtain c where c: "src i = Some c" by auto
    show ?thesis
    proof (cases "c = 0")
      case 0: True
      have "copystr_from src dst maxlen stoplen i = (Inr (i + 1), [0])"
        using True c 0 by (subst copystr_from.simps) simp
      moreover have "n = Suc i" if "i < n" "\<forall>k \<in> {i..<n - 1}. src k \<noteq> Some 0"
        using that c 0 by (cases "n - 1 = i") auto
      ultimately show ?thesis using True c 0 by auto
    next
      case nz: False
      define r where "r = copystr_from src dst maxlen stoplen (Suc i)"
      have run: "copystr_from src dst maxlen stoplen i = (fst r, c # snd r)"
        using True c nz by (subst copystr_from.simps) (auto simp: r_def split: prod.splits)
      have IH: "r = (Inr n, ds) \<longleftrightarrow> Suc i < n \<and> n \<le> maxlen \<and> n \<le> stoplen \<and> src (n - 1) = Some 0
          \<and> (\<forall>k \<in> {Suc i..<n - 1}. src k \<noteq> None \<and> src k \<noteq> Some 0) \<and> (\<forall>k \<in> {Suc i..<n}. \<not> dst k)
          \<and> ds = map (the \<circ> src) [Suc i..<n]" for ds
        unfolding r_def by (rule 1) (use True c nz in simp_all)
      have split: "{i..<n - 1} = insert i {Suc i..<n - 1}" "{i..<n} = insert i {Suc i..<n}"
        "[i..<n] = i # [Suc i..<n]" if "Suc i < n"
        using that by (auto simp: upt_rec)
      have later: "Suc i < n" if "i < n" "src (n - 1) = Some 0"
        using that c nz by (cases "n = Suc i") auto
      have "(copystr_from src dst maxlen stoplen i = (Inr n, cs)) \<longleftrightarrow> (\<exists>ds. r = (Inr n, ds) \<and> cs = c # ds)"
        unfolding run by (cases r) auto
      also have "\<dots> \<longleftrightarrow> Suc i < n \<and> n \<le> maxlen \<and> n \<le> stoplen \<and> src (n - 1) = Some 0
          \<and> (\<forall>k \<in> {Suc i..<n - 1}. src k \<noteq> None \<and> src k \<noteq> Some 0) \<and> (\<forall>k \<in> {Suc i..<n}. \<not> dst k)
          \<and> cs = c # map (the \<circ> src) [Suc i..<n]"
        unfolding IH by simp
      also have "\<dots> \<longleftrightarrow> i < n \<and> n \<le> maxlen \<and> n \<le> stoplen \<and> src (n - 1) = Some 0
          \<and> (\<forall>k \<in> {i..<n - 1}. src k \<noteq> None \<and> src k \<noteq> Some 0) \<and> (\<forall>k \<in> {i..<n}. \<not> dst k)
          \<and> cs = map (the \<circ> src) [i..<n]"
      proof (cases "Suc i < n")
        case lt: True
        show ?thesis unfolding split [OF lt] using True c nz lt by simp
      qed (use later in blast)
      finally show ?thesis .
    qed
  qed
qed

lemma distinct_addrs: "n \<le> 2 ^ 32 \<Longrightarrow> distinct (addrs p n)"
proof -
  assume n: "n \<le> 2 ^ 32"
  have "i = j" if "i < n" "j < n" "p + of_nat i = p + of_nat j" for i j
  proof -
    have "(of_nat i :: u32) = of_nat j" using that(3) by simp
    then have "unat (of_nat i :: u32) = unat (of_nat j :: u32)" by (rule arg_cong)
    moreover have "unat (of_nat i :: u32) = i" "unat (of_nat j :: u32) = j" using that(1,2) n by simp_all
    ultimately show "i = j" by (simp only:)
  qed
  then show ?thesis by (auto simp: addrs_def distinct_map inj_on_def)
qed

lemma peek_poke: "distinct as \<Longrightarrow> length as = length bs \<Longrightarrow> peek as (poke as bs m) = bs"
proof (induction as arbitrary: bs m)
  case (Cons a as)
  then obtain b bs' where bs: "bs = b # bs'" by (cases bs) auto
  with Cons show ?case by (simp add: peek_def poke_other)
qed (simp add: peek_def)

lemma nth_addrs [simp]: "k < n \<Longrightarrow> addrs p n ! k = p + of_nat k"
  by (simp add: addrs_def)

lemma copyoutstr_copyinstr_raw:
  assumes out: "copyoutstr s p len m = (Inr n, m')" and nul: "0 \<notin> set s"
  shows "n = length s + 1 \<and> copyinstr p len m' = (Inr n, s @ [0])"
proof -
  let ?src = "\<lambda>i. Some (if i < length s then s ! i else 0)" and ?bad = "\<lambda>i. um_bad m (p + of_nat i)"
  obtain stop cs where stop: "copycheck p len = Inr stop"
    and run: "copystr_from ?src ?bad (unat len) (unat stop) 0 = (Inr n, cs)"
    and m': "m' = poke (addrs p (length cs)) cs m"
    using out by (auto simp: copyoutstr_def split: sum.splits prod.splits)
  note c = run [unfolded copystr_Inr_iff]
  from c have n: "0 < n" "n \<le> unat len" "n \<le> unat stop" and cs: "cs = map (the \<circ> ?src) [0..<n]"
    and last: "?src (n - 1) = Some 0"
    by blast+
  from c have nz: "?src k \<noteq> Some 0" if "k < n - 1" for k using that by auto
  from c have ok: "\<not> ?bad k" if "k < n" for k using that by auto
  have "n - 1 \<le> length s" using nz [of "length s"] by force
  moreover have "length s \<le> n - 1"
  proof (rule ccontr)
    assume "\<not> length s \<le> n - 1"
    then have lt: "n - 1 < length s" by simp
    then have "s ! (n - 1) \<in> set s" by (rule nth_mem)
    moreover have "s ! (n - 1) = 0" using last lt by simp
    ultimately show False using nul by metis
  qed
  ultimately have len_s: "n = length s + 1" using n(1) by simp
  have cs': "cs = s @ [0]" unfolding cs len_s by (intro nth_equalityI) (auto simp: nth_append)
  have "n < 2 ^ 32" using le_less_trans [OF n(2) unat_u32_less] by simp
  then have "peek (addrs p (length (s @ [0]))) m' = s @ [0]"
    unfolding m' cs' len_s by (intro peek_poke distinct_addrs) simp_all
  then have "peek (addrs p n) m' = s @ [0]" by (simp add: len_s)
  then have byte: "um_byte m' (p + of_nat k) = (s @ [0]) ! k" if "k < n" for k
    using that nth_map [of k "addrs p n" "um_byte m'"] by (simp add: peek_def)
  have nz_s: "s ! k \<noteq> 0" if "k < length s" for k using nth_mem [OF that] nul by metis
  have "copyinstr p len m' = (Inr n, map (\<lambda>k. um_byte m' (p + of_nat k)) [0..<n])"
    unfolding copyinstr_def stop sum.case copystr_Inr_iff
    using n ok byte nz_s by (auto simp: m' len_s nth_append)
  also have "map (\<lambda>k. um_byte m' (p + of_nat k)) [0..<n] = s @ [0]"
    using byte len_s by (intro nth_equalityI) (auto simp: nth_append less_Suc_eq simp del: upt_Suc)
  finally show ?thesis using len_s by simp
qed

subsection \<open>What uiomove moves\<close>

text \<open>The addresses of the region that are still to be transferred, in order.\<close>

definition targets :: "uio \<Rightarrow> u32 list" where
  "targets u = concat (map (\<lambda>i. addrs (iov_base i) (unat (iov_len i))) (uio_iov u))"

text \<open>The region is accessible and large enough for the residue.\<close>

definition iov_ok :: "umem \<Rightarrow> iovec \<Rightarrow> bool" where
  "iov_ok m i \<longleftrightarrow> unat (iov_base i) + unat (iov_len i) \<le> 2 ^ 31
     \<and> (\<forall>a \<in> set (addrs (iov_base i) (unat (iov_len i))). \<not> um_bad m a)"

definition uio_ok :: "uio \<Rightarrow> bool" where
  "uio_ok u \<longleftrightarrow>
     (uio_segflg u = UIO_SYSSPACE \<or> (\<forall>i \<in> set (uio_iov u). iov_ok (uio_mem u) i))
     \<and> unat (uio_resid u) \<le> length (targets u)"

text \<open>\<open>n\<close> bytes have moved: \<open>buf\<close> went in, \<open>buf'\<close> came out of the kernel buffer.\<close>

definition uio_moved :: "nat \<Rightarrow> u8 list \<Rightarrow> uio \<Rightarrow> u8 list \<Rightarrow> uio \<Rightarrow> bool" where
  "uio_moved n buf u buf' u' \<longleftrightarrow>
     (case uio_rw u of
        UIO_READ \<Rightarrow> buf' = buf \<and> uio_mem u' = poke (take n (targets u)) buf (uio_mem u)
      | UIO_WRITE \<Rightarrow> buf' = peek (take n (targets u)) (uio_mem u) \<and> uio_mem u' = uio_mem u)
     \<and> uio_offset u' = uio_offset u + int n \<and> unat (uio_resid u') + n = unat (uio_resid u)
     \<and> targets u' = drop n (targets u) \<and> uio_segflg u' = uio_segflg u \<and> uio_rw u' = uio_rw u"

lemma addrs_add: "addrs p (a + b) = addrs p a @ addrs (p + of_nat a) b"
proof -
  have "map (\<lambda>k. p + of_nat k) [a..<a + b] = map (\<lambda>k. p + of_nat (a + k)) [0..<b]"
    by (intro nth_equalityI) simp_all
  then show ?thesis by (simp add: addrs_def upt_add_eq_append [of 0 a b] add.assoc)
qed

lemma poke_append:
  "length as = length bs \<Longrightarrow> poke (as @ as') (bs @ bs') m = poke as' bs' (poke as bs m)"
  by (induction as bs m rule: poke.induct) simp_all

lemma poke_take: "poke as (take (length as) bs) m = poke as bs m"
  by (induction as bs m rule: poke.induct) simp_all

lemma copyin_ok:
  assumes "0 < unat len" and "unat p + unat len \<le> 2 ^ 31"
    and "\<forall>a \<in> set (addrs p (unat len)). \<not> um_bad m a"
  shows "copyin p len m = Inr (peek (addrs p (unat len)) m)"
    and "copyout bs p len m = (Inr (), poke (addrs p (unat len)) bs m)"
proof -
  have "len \<noteq> 0" "unat p < 2 ^ 31" using assms(1,2) by auto
  then have "copycheck p len = Inr len" using assms(2) by (simp add: copycheck_eq)
  with assms(3) show "copyin p len m = Inr (peek (addrs p (unat len)) m)"
    "copyout bs p len m = (Inr (), poke (addrs p (unat len)) bs m)"
    by (auto simp: copyin_def copyout_def list_ex_iff Let_def)
qed

lemma move_chunk_ok:
  assumes "uio_segflg u = UIO_SYSSPACE \<or>
      unat base + unat sz \<le> 2 ^ 31 \<and> (\<forall>a \<in> set (addrs base (unat sz)). \<not> um_bad (uio_mem u) a)"
    and "0 < unat sz"
  shows "move_chunk base ptr sz u =
    (case uio_rw u of
       UIO_READ \<Rightarrow> (Inr (take (unat sz) ptr), u\<lparr>uio_mem := poke (addrs base (unat sz)) ptr (uio_mem u)\<rparr>)
     | UIO_WRITE \<Rightarrow> (Inr (peek (addrs base (unat sz)) (uio_mem u)), u))"
  using assms copyin_ok [of sz base "uio_mem u"]
  by (cases "uio_segflg u"; cases "uio_rw u") (auto simp: move_chunk_def Let_def)

lemma targets_unfold:
  "uio_iov u = i # rest \<Longrightarrow>
    targets u = addrs (iov_base i) (unat (iov_len i)) @ targets (u\<lparr>uio_iov := rest\<rparr>)"
  by (simp add: targets_def)

text \<open>The first \<open>iovec\<close> after a chunk of \<open>sz\<close> bytes, and the \<open>uio\<close> around it.\<close>

definition advance_iov :: "u32 \<Rightarrow> iovec \<Rightarrow> iovec list \<Rightarrow> uio \<Rightarrow> uio" where
  "advance_iov sz i rest u =
     u\<lparr>uio_iov := \<lparr>iov_base = iov_base i + sz, iov_len = iov_len i - sz\<rparr> # rest,
       uio_resid := uio_resid u - sz, uio_offset := uio_offset u + int (unat sz)\<rparr>"

lemma advance_iov_ok:
  assumes ok: "uio_ok u" and iov: "uio_iov u = i # rest" and sz: "sz \<le> iov_len i" "sz \<le> uio_resid u"
    and m: "um_bad m = um_bad (uio_mem u)"
  shows "targets u = addrs (iov_base i) (unat sz) @ targets (advance_iov sz i rest u)"
    and "uio_ok (advance_iov sz i rest (u\<lparr>uio_mem := m\<rparr>))"
    and "uio_segflg u = UIO_SYSSPACE \<or> unat (iov_base i) + unat sz \<le> 2 ^ 31
      \<and> (\<forall>a \<in> set (addrs (iov_base i) (unat sz)). \<not> um_bad (uio_mem u) a)"
proof -
  let ?b = "iov_base i" and ?l = "iov_len i"
  have len: "unat ?l = unat sz + unat (?l - sz)" and resid: "unat (uio_resid u - sz) = unat (uio_resid u) - unat sz"
    using sz by (simp_all add: unat_sub word_le_nat_alt)
  have split: "addrs ?b (unat ?l) = addrs ?b (unat sz) @ addrs (?b + sz) (unat (?l - sz))"
    by (simp add: len addrs_add)
  show t: "targets u = addrs ?b (unat sz) @ targets (advance_iov sz i rest u)"
    using iov split by (simp add: targets_def advance_iov_def)
  show "uio_segflg u = UIO_SYSSPACE \<or> unat ?b + unat sz \<le> 2 ^ 31
      \<and> (\<forall>a \<in> set (addrs ?b (unat sz)). \<not> um_bad (uio_mem u) a)"
    using ok iov split len by (auto simp: uio_ok_def iov_ok_def)
  have "iov_ok m \<lparr>iov_base = ?b + sz, iov_len = ?l - sz\<rparr>" if "iov_ok (uio_mem u) i"
  proof -
    have "unat ?b + unat ?l \<le> 2 ^ 31" using that by (simp add: iov_ok_def)
    then have "unat ?b + unat sz \<le> 2 ^ 31" using len by linarith
    then have "unat (?b + sz) = unat ?b + unat sz" by (intro unat_add_u32) simp
    with that len split m show ?thesis by (auto simp: iov_ok_def)
  qed
  moreover have "length (targets u) = unat sz + length (targets (advance_iov sz i rest u))"
    by (simp add: t)
  ultimately show "uio_ok (advance_iov sz i rest (u\<lparr>uio_mem := m\<rparr>))"
    using ok iov m resid by (auto simp: uio_ok_def advance_iov_def targets_def iov_ok_def)
qed

lemma uio_moved_append:
  assumes iov: "targets u = as @ targets ua" and ua: "uio_rw ua = uio_rw u" "uio_segflg ua = uio_segflg u"
      "uio_offset ua = uio_offset u + int k" "unat (uio_resid ua) + k = unat (uio_resid u)"
    and k: "length as = k" "k \<le> length ptr" "k \<le> n"
    and chunk: "case uio_rw u of UIO_READ \<Rightarrow> bs = take k ptr \<and> uio_mem ua = poke as ptr (uio_mem u)
      | UIO_WRITE \<Rightarrow> bs = peek as (uio_mem u) \<and> uio_mem ua = uio_mem u"
    and rest: "uio_moved (n - k) (drop k ptr) ua cs ub"
  shows "uio_moved n ptr u (bs @ cs) ub"
proof -
  have tk: "take n (targets u) = as @ take (n - k) (targets ua)" "drop n (targets u) = drop (n - k) (targets ua)"
    using iov k by auto
  have "poke (as @ ts) ptr m = poke ts (drop k ptr) (poke as ptr m)" for ts m
    using poke_append [of as "take k ptr" ts "drop k ptr" m] k poke_take [of as ptr m] by simp
  then show ?thesis
    using ua k chunk rest tk by (cases "uio_rw u") (auto simp: uio_moved_def peek_def)
qed

lemma uiomove_ok:
  assumes "uio_ok u" and "n \<le> uio_resid u" and "length ptr = unat n"
  shows "\<exists>buf' u'. uiomove ptr n u = (Inr buf', u') \<and> uio_moved (unat n) ptr u buf' u' \<and> uio_ok u'"
  using assms
proof (induction ptr n u rule: uiomove.induct)
  case (1 ptr n u)
  show ?case
  proof (cases "n > 0")
    case False
    then have "unat n = 0" "ptr = []" using 1 by (simp_all add: word_gt_0)
    moreover have "uiomove ptr n u = (Inr ptr, u)" using False by (subst uiomove.simps) simp
    ultimately show ?thesis
      using 1(3) by (intro exI [of _ ptr] exI [of _ u]) (simp add: uio_moved_def peek_def split: uio_rw.split)
  next
    case True
    then have n: "0 < unat n" by (simp add: word_less_nat_alt)
    with 1 have resid: "uio_resid u > 0" by (auto simp: word_le_nat_alt word_less_nat_alt)
    with 1(3) have "targets u \<noteq> []" by (auto simp: uio_ok_def word_less_nat_alt)
    then obtain i rest where iov: "uio_iov u = i # rest" by (cases "uio_iov u") (auto simp: targets_def)
    define sz where "sz = min (iov_len i) n"
    show ?thesis
    proof (cases "sz = 0")
      case z: True
      then have len0: "iov_len i = 0" using True by (auto simp: sz_def min_def split: if_splits)
      then have t: "targets u = targets (u\<lparr>uio_iov := rest\<rparr>)"
        using iov by (simp add: targets_unfold addrs_def)
      then have rest: "rest \<noteq> []" using \<open>targets u \<noteq> []\<close> by (auto simp: targets_def)
      have ok: "uio_ok (u\<lparr>uio_iov := rest\<rparr>)" using 1(3) iov t by (auto simp: uio_ok_def)
      have run: "uiomove ptr n u = uiomove ptr n (u\<lparr>uio_iov := rest\<rparr>)"
        using True resid iov rest z by (simp add: uiomove.simps [of ptr n u] sz_def Let_def)
      have "\<exists>buf' u'. uiomove ptr n (u\<lparr>uio_iov := rest\<rparr>) = (Inr buf', u')
          \<and> uio_moved (unat n) ptr (u\<lparr>uio_iov := rest\<rparr>) buf' u' \<and> uio_ok u'"
        using 1(1) [of i rest] True resid iov z rest ok 1(4,5) by (simp add: sz_def)
      moreover have "uio_moved (unat n) ptr (u\<lparr>uio_iov := rest\<rparr>) b u2 = uio_moved (unat n) ptr u b u2" for b u2
        by (cases "uio_rw u") (simp_all add: uio_moved_def t [symmetric])
      ultimately show ?thesis unfolding run by simp
    next
      case nz: False
      let ?as = "addrs (iov_base i) (unat sz)"
      have le: "sz \<le> iov_len i" "sz \<le> n" by (simp_all add: sz_def)
      then have le': "sz \<le> uio_resid u" "unat sz \<le> unat n" using 1(4) by (auto simp: word_le_nat_alt)
      have "0 < unat sz" using nz by (simp add: unat_gt_0)
      note adv = advance_iov_ok [OF 1(3) iov le(1) le'(1)]
      define bs where "bs = (case uio_rw u of UIO_READ \<Rightarrow> take (unat sz) ptr | UIO_WRITE \<Rightarrow> peek ?as (uio_mem u))"
      define m where "m = (case uio_rw u of UIO_READ \<Rightarrow> poke ?as ptr (uio_mem u) | UIO_WRITE \<Rightarrow> uio_mem u)"
      define u1 where "u1 = advance_iov sz i rest (u\<lparr>uio_mem := m\<rparr>)"
      have chunk: "move_chunk (iov_base i) ptr sz u = (Inr bs, u\<lparr>uio_mem := m\<rparr>)"
        using move_chunk_ok [OF adv(3) \<open>0 < unat sz\<close>] by (simp add: bs_def m_def split: uio_rw.split)
      have bad: "um_bad m = um_bad (uio_mem u)" by (simp add: m_def split: uio_rw.split)
      have u1: "targets u1 = targets (advance_iov sz i rest u)" "uio_rw u1 = uio_rw u"
        "uio_segflg u1 = uio_segflg u" "uio_mem u1 = m" "uio_offset u1 = uio_offset u + int (unat sz)"
        "uio_resid u1 = uio_resid u - sz"
        by (simp_all add: u1_def advance_iov_def targets_def)
      have len: "unat (n - sz) = unat n - unat sz" "unat (uio_resid u - sz) = unat (uio_resid u) - unat sz"
        using le le' by (simp_all add: unat_sub)
      have "\<exists>cs u2. uiomove (drop (unat sz) ptr) (n - sz) u1 = (Inr cs, u2)
          \<and> uio_moved (unat (n - sz)) (drop (unat sz) ptr) u1 cs u2 \<and> uio_ok u2"
        unfolding u1_def advance_iov_def
        using adv(2) [OF bad] le le' 1(4,5) len
        by (intro 1(2) [OF conjI [OF True resid] iov sz_def nz chunk [symmetric] refl])
          (simp_all add: advance_iov_def word_le_nat_alt)
      then obtain cs u2 where r: "uiomove (drop (unat sz) ptr) (n - sz) u1 = (Inr cs, u2)"
        and moved: "uio_moved (unat (n - sz)) (drop (unat sz) ptr) u1 cs u2" and ok2: "uio_ok u2" by blast
      have "uiomove ptr n u = (Inr (bs @ cs), u2)"
        using True resid iov nz chunk r by (simp add: uiomove.simps [of ptr n u] sz_def Let_def u1_def advance_iov_def)
      moreover have "uio_moved (unat n) ptr u (bs @ cs) u2"
        using moved adv(1) [OF refl] u1 len le' 1(5)
        by (intro uio_moved_append [where u = u and ua = u1 and as = ?as and k = "unat sz"])
          (auto simp: bs_def m_def word_le_nat_alt split: uio_rw.split)
      ultimately show ?thesis using ok2 by blast
    qed
  qed
qed

text \<open>Two moves in a row are one move of the concatenation.\<close>

lemma uio_moved_trans:
  assumes "uio_moved a p u b ua" and "uio_moved c q ua d ub" and "length p = a" and "a \<le> length (targets u)"
  shows "uio_moved (a + c) (p @ q) u (b @ d) ub"
proof -
  have t: "take (a + c) (targets u) = take a (targets u) @ take c (drop a (targets u))"
    by (simp add: take_add)
  have "poke (take (a + c) (targets u)) (p @ q) m
      = poke (take c (drop a (targets u))) q (poke (take a (targets u)) p m)" for m
    unfolding t using assms(3,4) by (intro poke_append) simp
  moreover have "peek (take (a + c) (targets u)) m = peek (take a (targets u)) m @ peek (take c (drop a (targets u))) m" for m
    unfolding t by (simp add: peek_def)
  ultimately show ?thesis
    using assms(1,2) by (cases "uio_rw u") (auto simp: uio_moved_def add.commute)
qed

lemma movezeros_loop_ok:
  assumes "uio_ok u" and "n \<le> uio_resid u" and "uio_rw u = UIO_READ"
  shows "\<exists>u'. movezeros_loop n u = (Inr (), u')
    \<and> uio_moved (unat n) (replicate (unat n) 0) u (replicate (unat n) 0) u' \<and> uio_ok u'"
  using assms
proof (induction n u rule: movezeros_loop.induct)
  case (1 n u)
  show ?case
  proof (cases "n > 0")
    case False
    then have "unat n = 0" by (simp add: word_gt_0)
    moreover have "movezeros_loop n u = (Inr (), u)" using False by (subst movezeros_loop.simps) simp
    ultimately show ?thesis using 1(2,4) by (simp add: uio_moved_def)
  next
    case True
    define amt where "amt = min 16 n"
    have amt: "amt \<le> n" "amt \<le> uio_resid u"
      using order_trans [OF min.cobounded2 1(3)] by (simp_all add: amt_def)
    obtain b ua where run: "uiomove (replicate (unat amt) 0) amt u = (Inr b, ua)"
      and moved: "uio_moved (unat amt) (replicate (unat amt) 0) u b ua" and ok: "uio_ok ua"
      using uiomove_ok [OF 1(2) amt(2), of "replicate (unat amt) 0"] by auto
    have ua: "uio_rw ua = UIO_READ" "unat (uio_resid ua) + unat amt = unat (uio_resid u)"
      "b = replicate (unat amt) 0"
      using moved 1(4) by (auto simp: uio_moved_def)
    have n: "unat (n - amt) = unat n - unat amt" "unat amt \<le> unat n" "unat n \<le> unat (uio_resid u)"
      using amt 1(3) by (simp_all add: unat_sub word_le_nat_alt)
    then have le: "n - amt \<le> uio_resid ua" using ua(2) by (simp add: word_le_nat_alt)
    obtain ub where ub: "movezeros_loop (n - amt) ua = (Inr (), ub)"
      "uio_moved (unat (n - amt)) (replicate (unat (n - amt)) 0) ua (replicate (unat (n - amt)) 0) ub"
      "uio_ok ub"
      using 1(1) [OF True amt_def run [symmetric] refl ok le ua(1)] by blast
    have "movezeros_loop n u = (Inr (), ub)"
      using True run ub(1) by (simp add: movezeros_loop.simps [of n u] amt_def Let_def)
    moreover have "unat amt \<le> length (targets u)" using n 1(2) by (auto simp: uio_ok_def)
    then have "uio_moved (unat amt + unat (n - amt)) (replicate (unat amt) 0 @ replicate (unat (n - amt)) 0) u
        (b @ replicate (unat (n - amt)) 0) ub"
      by (intro uio_moved_trans [OF moved ub(2)]) simp_all
    then have "uio_moved (unat n) (replicate (unat n) 0) u (replicate (unat n) 0) ub"
      using n ua(3) by (simp add: replicate_add [symmetric])
    ultimately show ?thesis using ub(3) by blast
  qed
qed

lemma uiomovezeros_ok:
  assumes "uio_ok u" and "n \<le> uio_resid u" and "uio_rw u = UIO_READ"
  shows "\<exists>u'. uiomovezeros n u = (Inr (), u')
    \<and> uio_moved (unat n) (replicate (unat n) 0) u (replicate (unat n) 0) u' \<and> uio_ok u'"
  using movezeros_loop_ok [OF assms] assms(3) by (simp add: uiomovezeros_def kmonad_defs)

subsection \<open>What uiomove keeps when it fails\<close>

lemma move_chunk_cases:
  assumes "move_chunk base ptr sz u = (r, u')"
  shows "u' = u\<lparr>uio_mem := uio_mem u'\<rparr>" and "r = Inl e \<Longrightarrow> e = EFAULT"
proof -
  have in_err: "copyin p l m = Inl e \<Longrightarrow> e = EFAULT" for p l m e
    by (auto simp: copyin_def copycheck_eq split: sum.splits if_splits)
  have out_err: "copyout bs p l m = (Inl e, m') \<Longrightarrow> e = EFAULT" for bs p l m e m'
    by (auto simp: copyout_def copycheck_eq Let_def split: sum.splits if_splits)
  obtain r' m' where out: "copyout ptr base sz (uio_mem u) = (r', m')" by (cases "copyout ptr base sz (uio_mem u)")
  show "u' = u\<lparr>uio_mem := uio_mem u'\<rparr>"
    using assms by (cases "uio_segflg u"; cases "uio_rw u") (auto simp: move_chunk_def Let_def out)
  show "r = Inl e \<Longrightarrow> e = EFAULT"
    using assms in_err out_err out
    by (cases "uio_segflg u"; cases "uio_rw u"; cases r') (auto simp: move_chunk_def Let_def)
qed

lemma uiomove_keeps:
  assumes "uiomove ptr n u = (r, u')" and "n \<le> uio_resid u"
  shows "uio_offset u' + int (unat (uio_resid u')) = uio_offset u + int (unat (uio_resid u))
    \<and> uio_resid u' \<le> uio_resid u \<and> uio_segflg u' = uio_segflg u \<and> uio_rw u' = uio_rw u
    \<and> (unat (uio_resid u) \<le> length (targets u) \<longrightarrow> r \<in> {Inl EFAULT} \<union> range Inr)"
  using assms
proof (induction ptr n u arbitrary: r u' rule: uiomove.induct)
  case (1 ptr n u)
  show ?case
  proof (cases "n > 0 \<and> uio_resid u > 0")
    case False
    then have "r = Inr ptr" "u' = u" using 1(3) by (auto simp: uiomove.simps [of ptr n u] split: if_splits)
    then show ?thesis by simp
  next
    case pos: True
    show ?thesis
    proof (cases "uio_iov u")
      case Nil
      then have "r = Inl UNDEFINED" "u' = u" using 1(3) pos by (auto simp: uiomove.simps [of ptr n u])
      then show ?thesis using Nil pos by (auto simp: targets_def word_less_nat_alt)
    next
      case (Cons i rest)
      define sz where "sz = min (iov_len i) n"
      show ?thesis
      proof (cases "sz = 0")
        case z: True
        then have len0: "iov_len i = 0" using pos by (auto simp: sz_def min_def split: if_splits)
        then have t: "targets u = targets (u\<lparr>uio_iov := rest\<rparr>)"
          using Cons by (simp add: targets_unfold addrs_def)
        show ?thesis
        proof (cases "rest = []")
          case True
          then have "r = Inl PANIC" "u' = u\<lparr>uio_iov := rest\<rparr>"
            using 1(3) pos z Cons by (auto simp: uiomove.simps [of ptr n u] sz_def Let_def)
          moreover have "targets u = []" unfolding t using True by (simp add: targets_def)
          ultimately show ?thesis using True pos by (auto simp: word_less_nat_alt)
        next
          case False
          then have "uiomove ptr n (u\<lparr>uio_iov := rest\<rparr>) = (r, u')"
            using 1(3) pos z Cons by (simp add: uiomove.simps [of ptr n u] sz_def Let_def)
          from 1(1) [OF pos Cons sz_def z False this] 1(4) t show ?thesis by simp
        qed
      next
        case nz: False
        obtain c uc where chunk: "move_chunk (iov_base i) ptr sz u = (c, uc)"
          by (cases "move_chunk (iov_base i) ptr sz u")
        note mc = move_chunk_cases [OF chunk]
        have le: "sz \<le> iov_len i" "sz \<le> n" by (simp_all add: sz_def)
        then have le': "sz \<le> uio_resid u" using 1(4) by simp
        show ?thesis
        proof (cases c)
          case (Inl e)
          then have "r = c" "u' = uc"
            using 1(3) pos nz Cons chunk by (auto simp: uiomove.simps [of ptr n u] sz_def Let_def)
          moreover have "e = EFAULT" using mc(2) Inl by simp
          moreover have "uio_offset uc = uio_offset u" "uio_resid uc = uio_resid u"
            "uio_segflg uc = uio_segflg u" "uio_rw uc = uio_rw u"
            by (subst mc(1), simp)+
          ultimately show ?thesis using Inl by simp
        next
          case (Inr bs)
          define u1 where "u1 = advance_iov sz i rest uc"
          obtain r1 where run: "uiomove (drop (unat sz) ptr) (n - sz) u1 = (r1, u')"
            and r: "r = (case r1 of Inr cs \<Rightarrow> Inr (bs @ cs) | Inl e \<Rightarrow> Inl e)"
            using 1(3) pos nz Cons chunk Inr
            by (auto simp: uiomove.simps [of ptr n u] sz_def [symmetric] Let_def u1_def advance_iov_def
                split: prod.splits sum.splits)
          have u1: "uio_offset u1 = uio_offset u + int (unat sz)" "uio_resid u1 = uio_resid u - sz"
            "uio_segflg u1 = uio_segflg u" "uio_rw u1 = uio_rw u"
            unfolding u1_def advance_iov_def by (subst mc(1), simp)+
          have t: "length (targets u) = unat sz + length (targets u1)"
          proof -
            have "unat (iov_len i) = unat sz + unat (iov_len i - sz)"
              using le(1) by (simp add: unat_sub word_le_nat_alt)
            then show ?thesis by (simp add: targets_def Cons u1_def advance_iov_def)
          qed
          have res: "unat (uio_resid u1) = unat (uio_resid u) - unat sz" "unat sz \<le> unat (uio_resid u)"
            using le' by (simp_all add: u1(2) unat_sub word_le_nat_alt)
          then have sum: "uint sz + uint (uio_resid u - sz) = uint (uio_resid u)"
            unfolding u1(2) uint_nat by linarith
          have "n - sz \<le> uio_resid u1"
            using 1(4) le(2) le' by (simp add: u1(2) word_le_nat_alt unat_sub)
          from 1(2) [OF pos Cons sz_def nz chunk [symmetric] Inr, folded advance_iov_def u1_def, OF run this]
          show ?thesis using u1 res sum t r by (auto simp: word_le_nat_alt split: sum.splits)
        qed
      qed
    qed
  qed
qed

subsection \<open>Properties\<close>

text \<open>
  C25: Copies between user and kernel cannot be turned on the kernel: \<open>copyin\<close> and
  \<open>copyinstr\<close> give the same answer whatever lies at or above \<open>USERSPACETOP\<close>, and \<open>copyout\<close>
  and \<open>copyoutstr\<close> change nothing there, for every pointer and length a program may pass,
  wrapping ones included.
\<close>

theorem user_copies_confined:
  "(same_user m m' \<longrightarrow> copyin p len m = copyin p len m' \<and> copyinstr p len m = copyinstr p len m')
   \<and> (USERSPACETOP \<le> a \<longrightarrow>
        um_byte (snd (copyout bs p len m)) a = um_byte m a
        \<and> um_byte (snd (copyoutstr bs p len m)) a = um_byte m a)"
  using copyin_same copyinstr_same copyout_confined copyoutstr_confined by blast

definition example_mem :: umem where
  "example_mem = \<lparr>um_byte = (\<lambda>a. ucast a), um_bad = (\<lambda>a. a \<ge> 0x3000)\<rparr>"

theorem user_copies_confined_witness:
  "um_byte (snd (copyout [1, 2] 0xfffffffe 4 example_mem)) 0xffffffff = 0xff
   \<and> copyin 0x10 2 example_mem = copyin 0x10 2 (example_mem\<lparr>um_byte := (um_byte example_mem)(0x90000000 := 7)\<rparr>)"
proof -
  have same: "same_user example_mem (example_mem\<lparr>um_byte := (um_byte example_mem)(0x90000000 := 7)\<rparr>)"
    by (auto simp: same_user_def USERSPACETOP_def)
  have "USERSPACETOP \<le> 0xffffffff" by (simp add: USERSPACETOP_def)
  then show ?thesis
    using user_copies_confined [of example_mem "example_mem\<lparr>um_byte := (um_byte example_mem)(0x90000000 := 7)\<rparr>"
        "0x10" 2 "0xffffffff" "[1, 2]"] same
      user_copies_confined [of example_mem example_mem "0xfffffffe" 4 "0xffffffff" "[1, 2]"]
    by (simp add: example_mem_def)
qed

text \<open>
  A string that \<open>copyoutstr\<close> delivers is read back by \<open>copyinstr\<close> with the same limit,
  character for character with its terminator, and both report the same length.
\<close>

theorem copyoutstr_copyinstr:
  assumes "copyoutstr s p len m = (Inr n, m')" and "0 \<notin> set s"
  shows "n = length s + 1 \<and> copyinstr p len m' = (Inr n, s @ [0])"
  using assms by (rule copyoutstr_copyinstr_raw)

theorem copyoutstr_copyinstr_witness:
  "copyinstr 0x2000 10 (snd (copyoutstr [104, 105] 0x2000 10 example_mem)) = (Inr 3, [104, 105, 0])"
proof -
  have run: "fst (copyoutstr [104, 105] 0x2000 10 example_mem) = Inr 3" by code_simp
  show ?thesis
    using copyoutstr_copyinstr [of "[104, 105]" "0x2000" 10 example_mem 3
        "snd (copyoutstr [104, 105] 0x2000 10 example_mem)"] run
    by (simp add: prod_eq_iff)
qed

text \<open>
  On an accessible region \<open>uiomove\<close> succeeds and moves exactly the next \<open>n\<close> bytes of the
  scattered buffers, in order and without touching any other byte, advances \<open>uio_offset\<close> and
  \<open>uio_resid\<close> by \<open>n\<close> and leaves the rest of the region to the next call; \<open>uiomovezeros\<close> does
  the same with \<open>n\<close> zeros.
\<close>

theorem uiomove_transfers:
  assumes "uio_ok u" and "n \<le> uio_resid u" and "length ptr = unat n"
  shows "(\<exists>buf u'. uiomove ptr n u = (Inr buf, u') \<and> uio_moved (unat n) ptr u buf u' \<and> uio_ok u')
    \<and> (uio_rw u = UIO_READ \<longrightarrow> (\<exists>u'. uiomovezeros n u = (Inr (), u')
        \<and> uio_moved (unat n) (replicate (unat n) 0) u (replicate (unat n) 0) u' \<and> uio_ok u'))"
  using uiomove_ok [OF assms] uiomovezeros_ok [OF assms(1,2)] by blast

definition example_uio :: uio where
  "example_uio = \<lparr>uio_iov = [\<lparr>iov_base = 0x1000, iov_len = 2\<rparr>, \<lparr>iov_base = 0x2000, iov_len = 3\<rparr>],
     uio_offset = 100, uio_resid = 5, uio_segflg = UIO_USERSPACE, uio_rw = UIO_READ, uio_mem = example_mem\<rparr>"

lemma example_uio_ok: "uio_ok example_uio" "targets example_uio = [0x1000, 0x1001, 0x2000, 0x2001, 0x2002]"
proof -
  have "addrs 0x1000 2 = [0x1000, 0x1001]" "addrs 0x2000 3 = [0x2000, 0x2001, 0x2002]" by code_simp+
  then show "uio_ok example_uio" "targets example_uio = [0x1000, 0x1001, 0x2000, 0x2001, 0x2002]"
    by (simp_all add: uio_ok_def iov_ok_def targets_def example_uio_def example_mem_def)
qed

lemma example_uio_fields [simp]:
    "uio_rw example_uio = UIO_READ" "uio_offset example_uio = 100" "uio_resid example_uio = 5"
    "uio_mem example_uio = example_mem"
  by (simp_all add: example_uio_def)

theorem uiomove_transfers_witness:
  "\<exists>u'. uiomove [1, 2, 3] 3 example_uio = (Inr [1, 2, 3], u') \<and> uio_offset u' = 103
     \<and> um_byte (uio_mem u') 0x2000 = 3 \<and> um_byte (uio_mem u') 0x2001 = 1"
proof -
  have n: "3 \<le> uio_resid example_uio" by (simp add: example_uio_def)
  have "\<exists>buf u'. uiomove [1, 2, 3] 3 example_uio = (Inr buf, u') \<and> uio_moved 3 [1, 2, 3] example_uio buf u'"
    using uiomove_transfers [OF example_uio_ok(1) n, of "[1, 2, 3]"] by auto
  then obtain buf u' where r: "uiomove [1, 2, 3] 3 example_uio = (Inr buf, u')"
    and moved: "uio_moved 3 [1, 2, 3] example_uio buf u'" by blast
  have "buf = [1, 2, 3] \<and> uio_offset u' = 103 \<and> uio_mem u' = poke [0x1000, 0x1001, 0x2000] [1, 2, 3] example_mem"
    using moved by (simp add: uio_moved_def example_uio_ok)
  moreover have "um_byte example_mem 0x2001 = 1" by (simp add: example_mem_def)
  ultimately show ?thesis using r by simp
qed

text \<open>
  Whatever happens, faults included, \<open>uiomove\<close> conserves the sum of \<open>uio_offset\<close> and
  \<open>uio_resid\<close> and never raises the residue; if the region is as large as the residue says, it
  never runs out of buffers and fails with \<open>EFAULT\<close> only.
\<close>

theorem uiomove_conserves:
  assumes "uiomove ptr n u = (r, u')" and "n \<le> uio_resid u"
  shows "uio_offset u' + int (unat (uio_resid u')) = uio_offset u + int (unat (uio_resid u))
    \<and> uio_resid u' \<le> uio_resid u \<and> uio_segflg u' = uio_segflg u \<and> uio_rw u' = uio_rw u
    \<and> (unat (uio_resid u) \<le> length (targets u) \<longrightarrow> r \<in> {Inl EFAULT} \<union> range Inr)"
  using assms by (rule uiomove_keeps)

theorem uiomove_conserves_witness:
  "case uiomove [1, 2, 3] 3 (example_uio\<lparr>uio_iov := [\<lparr>iov_base = 0x2fff, iov_len = 5\<rparr>]\<rparr>) of (r, u') \<Rightarrow>
     r = Inl EFAULT \<and> uio_offset u' + int (unat (uio_resid u')) = 105"
proof -
  let ?u = "example_uio\<lparr>uio_iov := [\<lparr>iov_base = 0x2fff, iov_len = 5\<rparr>]\<rparr>"
  have run: "fst (uiomove [1, 2, 3] 3 ?u) = Inl EFAULT" by code_simp
  have n: "3 \<le> uio_resid ?u" by (simp add: example_uio_def)
  show ?thesis
    using uiomove_conserves [OF _ n, of "[1, 2, 3]" "Inl EFAULT" "snd (uiomove [1, 2, 3] 3 ?u)"] run
    by (cases "uiomove [1, 2, 3] 3 ?u") (simp add: example_uio_def)
qed

end
