(* ===== verification/SfsDisk.thy ===== *)
theory SfsDisk
  imports Libkern Bitmap Uio "HOL-Library.Signed_Division"
begin

text \<open>
  The on-disk format of SFS (\<^verbatim>\<open>kern/include/kern/sfs.h\<close>), the LAMEbus disk driver
  (\<^verbatim>\<open>kern/dev/lamebus/lhd.c\<close>) and the block I/O of \<^verbatim>\<open>kern/fs/sfs/sfs_io.c\<close>.

  \<^item> A block is a list of 512 bytes. The structures the code casts blocks to are records with
    their big-endian images; \<open>decode\<close> is what the cast reads, and both directions are exact.
  \<^item> \<open>device\<close> is the disk with its sectors, its on-card buffer and the values that its status
    register is going to show at the next interrupts; once they are used up every operation
    succeeds. A failed operation leaves the sector alone.
  \<^item> \<open>sfs_fs\<close> is the mounted volume of the C struct, with the nesting depth at which the
    running thread holds the VFS big lock, the vnodes in memory by address, and the outcomes
    of the coming \<open>kmalloc\<close> calls.
\<close>

subsection \<open>Integers in memory\<close>

fun be_word :: "u8 list \<Rightarrow> 'a::len word" where
  "be_word bs = fold (\<lambda>b w. push_bit 8 w OR ucast b) bs 0"

declare be_word.simps [simp del]

fun words_of :: "u8 list \<Rightarrow> u32 list" where
  "words_of (a # b # c # d # bs) = be_word [a, b, c, d] # words_of bs"
| "words_of _ = []"

definition bytes_of_words :: "u32 list \<Rightarrow> u8 list" where
  "bytes_of_words ws = concat (map (be_bytes 4) ws)"

lemma be_word_snoc: "be_word (bs @ [b]) = push_bit 8 (be_word bs) OR ucast b"
  by (simp add: be_word.simps)

lemma bit_be_word:
  "bit (be_word bs :: 'a::len word) j \<longleftrightarrow>
     j < LENGTH('a) \<and> j div 8 < length bs \<and> bit (rev bs ! (j div 8)) (j mod 8)"
proof (induction bs arbitrary: j rule: rev_induct)
  case (snoc b bs)
  show ?case
  proof (cases "j < 8")
    case True
    then show ?thesis by (auto simp: be_word_snoc bit_simps)
  next
    case False
    then obtain i where i: "j = i + 8" by (metis add.commute le_Suc_ex not_less)
    have "bit (be_word (bs @ [b]) :: 'a word) j \<longleftrightarrow> j < LENGTH('a) \<and> bit (be_word bs :: 'a word) i"
      by (auto simp: be_word_snoc bit_simps i)
    also have "\<dots> \<longleftrightarrow> j < LENGTH('a) \<and> i div 8 < length bs \<and> bit (rev bs ! (i div 8)) (i mod 8)"
      unfolding snoc using i by auto
    moreover have "(i + 8) div 8 = Suc (i div 8)" by simp
    ultimately show ?thesis by (simp add: i)
  qed
qed (simp add: be_word.simps)

lemma nth_be_bytes: "k < n \<Longrightarrow> rev (be_bytes n w) ! k = byte_of k w"
  by (simp add: be_bytes_def rev_map [symmetric])

lemma length_be_bytes [simp]: "length (be_bytes n w) = n"
  by (simp add: be_bytes_def)

lemma be_word_be_bytes:
  fixes w :: "'a::len word"
  assumes "LENGTH('a) \<le> 8 * n"
  shows "be_word (be_bytes n w) = w"
proof (rule bit_word_eqI)
  fix j assume j: "j < LENGTH('a)"
  then have "j div 8 < n" using assms by linarith
  with j show "bit (be_word (be_bytes n w) :: 'a word) j \<longleftrightarrow> bit w j"
    by (simp add: bit_be_word nth_be_bytes bit_byte_of)
qed

lemma be_bytes_be_word:
  assumes "length bs = n" and "8 * n \<le> LENGTH('a)"
  shows "be_bytes n (be_word bs :: 'a::len word) = bs"
proof -
  have "rev (be_bytes n (be_word bs :: 'a word)) = rev bs"
  proof (rule nth_equalityI)
    fix k assume "k < length (rev (be_bytes n (be_word bs :: 'a word)))"
    then have k: "k < n" by simp
    have "byte_of k (be_word bs :: 'a word) = rev bs ! k"
    proof (rule bit_word_eqI)
      fix i :: nat assume "i < LENGTH(8)"
      then have i: "i < 8" by simp
      then have "8 * k + i < LENGTH('a)" using k assms(2) by linarith
      with i k assms(1) show "bit (byte_of k (be_word bs :: 'a word)) i \<longleftrightarrow> bit (rev bs ! k) i"
        by (simp add: bit_byte_of bit_be_word)
    qed
    with k show "rev (be_bytes n (be_word bs :: 'a word)) ! k = rev bs ! k" by (simp add: nth_be_bytes)
  qed (use assms in simp)
  then show ?thesis by simp
qed

lemma be_word4 [simp]: "be_word (be_bytes 4 w) = (w :: u32)"
  by (rule be_word_be_bytes) simp

lemma be_word2 [simp]: "be_word (be_bytes 2 w) = (w :: u16)"
  by (rule be_word_be_bytes) simp

lemma length_bytes_of_words [simp]: "length (bytes_of_words ws) = 4 * length ws"
  by (induction ws) (simp_all add: bytes_of_words_def)

lemma words_of_append: "words_of (be_bytes 4 w @ bs) = w # words_of bs"
  using be_word4 [of w] by (simp add: be_bytes_4)

lemma words_of_bytes [simp]: "words_of (bytes_of_words ws) = ws"
proof (induction ws)
  case (Cons w ws)
  then show ?case by (simp add: bytes_of_words_def words_of_append)
qed (simp add: bytes_of_words_def)

lemma not_4n: "Suc 0 \<noteq> 4 * n" "Suc (Suc 0) \<noteq> 4 * n" "Suc (Suc (Suc 0)) \<noteq> 4 * n"
  by presburger+

lemma bytes_of_words_words_of: "length bs = 4 * n \<Longrightarrow> bytes_of_words (words_of bs) = bs"
proof (induction bs arbitrary: n rule: words_of.induct)
  case (1 a b c d bs)
  then have "bytes_of_words (words_of bs) = bs" by (cases n) auto
  moreover have "be_bytes 4 (be_word [a, b, c, d] :: u32) = [a, b, c, d]"
    by (rule be_bytes_be_word) simp_all
  ultimately show ?case by (simp add: bytes_of_words_def)
qed (auto simp: bytes_of_words_def not_4n)

lemma length_words_of: "length bs = 4 * n \<Longrightarrow> length (words_of bs) = n"
proof (induction bs arbitrary: n rule: words_of.induct)
  case (1 a b c d bs)
  then show ?case by (cases n) auto
qed (auto simp: not_4n)

subsection \<open>The on-disk structures\<close>

abbreviation SFS_BLOCKSIZE :: nat where "SFS_BLOCKSIZE \<equiv> 512"
abbreviation SFS_NDIRECT :: nat where "SFS_NDIRECT \<equiv> 15"
abbreviation SFS_DBPERIDB :: nat where "SFS_DBPERIDB \<equiv> 128"
abbreviation SFS_NAMELEN :: nat where "SFS_NAMELEN \<equiv> 60"

definition SFS_MAGIC :: u32 where "SFS_MAGIC = 0xabadf001"
definition SFS_NINDIRECT :: u32 where "SFS_NINDIRECT = 1"
definition SFS_NOINO :: u32 where "SFS_NOINO = 0"
definition SFS_ROOTDIR_INO :: u32 where "SFS_ROOTDIR_INO = 1"
definition SFS_SUPER_BLOCK :: u32 where "SFS_SUPER_BLOCK = 0"
definition SFS_FREEMAP_START :: u32 where "SFS_FREEMAP_START = 2"
definition SFS_TYPE_INVAL :: u16 where "SFS_TYPE_INVAL = 0"
definition SFS_TYPE_FILE :: u16 where "SFS_TYPE_FILE = 1"
definition SFS_TYPE_DIR :: u16 where "SFS_TYPE_DIR = 2"

record sfs_superblock =
  sb_magic :: u32
  sb_nblocks :: u32
  sb_volname :: "u8 list"
  sb_reserved :: "u32 list"

record sfs_dinode =
  sfi_size :: u32
  sfi_type :: u16
  sfi_linkcount :: u16
  sfi_direct :: "u32 list"
  sfi_indirect :: u32
  sfi_waste :: "u32 list"

record sfs_direntry =
  sfd_ino :: u32
  sfd_name :: "u8 list"

definition encode_super :: "sfs_superblock \<Rightarrow> u8 list" where
  "encode_super sb = be_bytes 4 (sb_magic sb) @ be_bytes 4 (sb_nblocks sb) @ sb_volname sb
     @ bytes_of_words (sb_reserved sb)"

definition decode_super :: "u8 list \<Rightarrow> sfs_superblock" where
  "decode_super bs = \<lparr>sb_magic = be_word (slice_at 0 4 bs), sb_nblocks = be_word (slice_at 4 4 bs),
     sb_volname = slice_at 8 32 bs, sb_reserved = words_of (slice_at 40 472 bs)\<rparr>"

definition encode_dinode :: "sfs_dinode \<Rightarrow> u8 list" where
  "encode_dinode i = be_bytes 4 (sfi_size i) @ be_bytes 2 (sfi_type i) @ be_bytes 2 (sfi_linkcount i)
     @ bytes_of_words (sfi_direct i) @ be_bytes 4 (sfi_indirect i) @ bytes_of_words (sfi_waste i)"

definition decode_dinode :: "u8 list \<Rightarrow> sfs_dinode" where
  "decode_dinode bs = \<lparr>sfi_size = be_word (slice_at 0 4 bs), sfi_type = be_word (slice_at 4 2 bs),
     sfi_linkcount = be_word (slice_at 6 2 bs), sfi_direct = words_of (slice_at 8 60 bs),
     sfi_indirect = be_word (slice_at 68 4 bs), sfi_waste = words_of (slice_at 72 440 bs)\<rparr>"

definition encode_direntry :: "sfs_direntry \<Rightarrow> u8 list" where
  "encode_direntry d = be_bytes 4 (sfd_ino d) @ sfd_name d"

definition decode_direntry :: "u8 list \<Rightarrow> sfs_direntry" where
  "decode_direntry bs = \<lparr>sfd_ino = be_word (slice_at 0 4 bs), sfd_name = slice_at 4 60 bs\<rparr>"

text \<open>The sizes the C declarations fix.\<close>

definition super_wf :: "sfs_superblock \<Rightarrow> bool" where
  "super_wf sb \<longleftrightarrow> length (sb_volname sb) = 32 \<and> length (sb_reserved sb) = 118"

definition dinode_wf :: "sfs_dinode \<Rightarrow> bool" where
  "dinode_wf i \<longleftrightarrow> length (sfi_direct i) = SFS_NDIRECT \<and> length (sfi_waste i) = 110"

definition direntry_wf :: "sfs_direntry \<Rightarrow> bool" where
  "direntry_wf d \<longleftrightarrow> length (sfd_name d) = SFS_NAMELEN"

lemma slice_append_left: "off + n \<le> length xs \<Longrightarrow> slice_at off n (xs @ ys) = slice_at off n xs"
  by (simp add: slice_at_def)

lemma slice_append_right: "length xs \<le> off \<Longrightarrow> slice_at off n (xs @ ys) = slice_at (off - length xs) n ys"
  by (simp add: slice_at_def)

lemma slice_all: "n = length xs \<Longrightarrow> slice_at 0 n xs = xs"
  by (simp add: slice_at_def)

lemmas slice_simps = slice_append_left slice_append_right slice_all

lemma slice_add: "slice_at off (m + n) xs = slice_at off m xs @ slice_at (off + m) n xs"
  by (simp add: slice_at_def take_add add.commute)

lemma encode_super_length: "super_wf sb \<Longrightarrow> length (encode_super sb) = SFS_BLOCKSIZE"
  by (simp add: super_wf_def encode_super_def)

lemma encode_dinode_length: "dinode_wf i \<Longrightarrow> length (encode_dinode i) = SFS_BLOCKSIZE"
  by (simp add: dinode_wf_def encode_dinode_def)

lemma encode_direntry_length: "direntry_wf d \<Longrightarrow> length (encode_direntry d) = 64"
  by (simp add: direntry_wf_def encode_direntry_def)

lemma decode_encode_super: "super_wf sb \<Longrightarrow> decode_super (encode_super sb) = sb"
  by (simp add: super_wf_def encode_super_def decode_super_def slice_simps)

lemma decode_encode_dinode: "dinode_wf i \<Longrightarrow> decode_dinode (encode_dinode i) = i"
  by (simp add: dinode_wf_def encode_dinode_def decode_dinode_def slice_simps)

lemma decode_encode_direntry: "direntry_wf d \<Longrightarrow> decode_direntry (encode_direntry d) = d"
  by (simp add: direntry_wf_def encode_direntry_def decode_direntry_def slice_simps)

lemma be_bytes_slice:
  "off + 4 \<le> length bs \<Longrightarrow> be_bytes 4 (be_word (slice_at off 4 bs) :: u32) = slice_at off 4 bs"
  "off + 2 \<le> length bs \<Longrightarrow> be_bytes 2 (be_word (slice_at off 2 bs) :: u16) = slice_at off 2 bs"
  by (rule be_bytes_be_word; simp)+

lemma slice_words:
  "off + 4 * n \<le> length bs \<Longrightarrow> bytes_of_words (words_of (slice_at off (4 * n) bs)) = slice_at off (4 * n) bs"
  by (rule bytes_of_words_words_of [of _ n]) simp

lemma encode_decode_dinode:
  assumes "length bs = SFS_BLOCKSIZE"
  shows "encode_dinode (decode_dinode bs) = bs" and "dinode_wf (decode_dinode bs)"
proof -
  have "encode_dinode (decode_dinode bs) = slice_at 0 (4 + 2 + 2 + 60 + 4 + 440) bs"
    unfolding slice_add encode_dinode_def decode_dinode_def
    using assms be_bytes_slice [of _ bs] slice_words [of 8 15 bs] slice_words [of 72 110 bs] by simp
  then show "encode_dinode (decode_dinode bs) = bs" using assms by (simp add: slice_all)
  show "dinode_wf (decode_dinode bs)"
    using assms by (simp add: dinode_wf_def decode_dinode_def length_words_of [of _ 15] length_words_of [of _ 110])
qed

lemma encode_decode_direntry:
  assumes "length bs = 64"
  shows "encode_direntry (decode_direntry bs) = bs" and "direntry_wf (decode_direntry bs)"
proof -
  have "encode_direntry (decode_direntry bs) = slice_at 0 (4 + 60) bs"
    unfolding slice_add encode_direntry_def decode_direntry_def using assms be_bytes_slice [of 0 bs] by simp
  then show "encode_direntry (decode_direntry bs) = bs" using assms by (simp add: slice_all)
  show "direntry_wf (decode_direntry bs)" using assms by (simp add: direntry_wf_def decode_direntry_def)
qed

lemma encode_decode_super:
  assumes "length bs = SFS_BLOCKSIZE"
  shows "encode_super (decode_super bs) = bs" and "super_wf (decode_super bs)"
proof -
  have "encode_super (decode_super bs) = slice_at 0 (4 + 4 + 32 + 472) bs"
    unfolding slice_add encode_super_def decode_super_def
    using assms be_bytes_slice [of _ bs] slice_words [of 40 118 bs] by simp
  then show "encode_super (decode_super bs) = bs" using assms by (simp add: slice_all)
  show "super_wf (decode_super bs)"
    using assms by (simp add: super_wf_def decode_super_def length_words_of [of _ 118])
qed

subsection \<open>The disk driver\<close>

definition LHD_OK :: u32 where "LHD_OK = 4"
definition LHD_INVSECT :: u32 where "LHD_INVSECT = 12"
definition LHD_MEDIA :: u32 where "LHD_MEDIA = 20"
definition LHD_STATEMASK :: u32 where "LHD_STATEMASK = 0x1d"

record device =
  lh_disk :: "u8 list list"
  lh_status :: "u32 list"
  lh_buf :: "u8 list"
  d_blocks :: u32

text \<open>\<open>None\<close> stands for the return value 0.\<close>

definition lhd_code_to_errno :: "u32 \<Rightarrow> error option" where
  "lhd_code_to_errno code =
     (let c = code AND LHD_STATEMASK
      in if c = LHD_OK then None else if c = LHD_INVSECT then Some EINVAL
         else if c = LHD_MEDIA then Some EIO else Some EAGAIN)"

text \<open>The interrupts up to the one that reports completion, each reading the status register.\<close>

fun lhd_irq :: "u32 list \<Rightarrow> error option \<times> u32 list" where
  "lhd_irq [] = (None, [])"
| "lhd_irq (val # vals) =
     (let c = val AND LHD_STATEMASK
      in if c = LHD_OK \<or> c = LHD_INVSECT \<or> c = LHD_MEDIA then (lhd_code_to_errno val, vals)
         else lhd_irq vals)"

text \<open>The hardware operation on one sector.\<close>

definition lhd_operate :: "bool \<Rightarrow> nat \<Rightarrow> device \<Rightarrow> error option \<times> device" where
  "lhd_operate write ix d =
     (case lhd_irq (lh_status d) of
        (Some e, st) \<Rightarrow> (Some e, d\<lparr>lh_status := st\<rparr>)
      | (None, st) \<Rightarrow>
          if length (lh_disk d) \<le> ix then (Some EINVAL, d\<lparr>lh_status := st\<rparr>)
          else if write then (None, d\<lparr>lh_status := st, lh_disk := (lh_disk d)[ix := lh_buf d]\<rparr>)
          else (None, d\<lparr>lh_status := st, lh_buf := lh_disk d ! ix\<rparr>))"

function lhd_sectors :: "u32 \<Rightarrow> nat \<Rightarrow> nat \<Rightarrow> (device \<times> uio, unit) kernel" where
  "lhd_sectors sector len i (d, u) =
     (if i < len then
        let write = (uio_rw u = UIO_WRITE) in
        (case (if write then uiomove (lh_buf d) 512 u else (Inr (lh_buf d), u)) of
           (Inl e, u1) \<Rightarrow> (Inl e, d, u1)
         | (Inr buf, u1) \<Rightarrow>
             (case lhd_operate write (unat (sector + of_nat i)) (d\<lparr>lh_buf := buf\<rparr>) of
                (Some e, d1) \<Rightarrow> (Inl e, d1, u1)
              | (None, d1) \<Rightarrow>
                  if write then lhd_sectors sector len (Suc i) (d1, u1)
                  else (case uiomove (lh_buf d1) 512 u1 of
                          (Inl e, u2) \<Rightarrow> (Inl e, d1, u2)
                        | (Inr _, u2) \<Rightarrow> lhd_sectors sector len (Suc i) (d1, u2))))
      else (Inr (), d, u))"
  by pat_completeness auto
termination by (relation "measure (\<lambda>(_, len, i, _). len - i)") auto

declare lhd_sectors.simps [simp del]

definition lhd_io :: "(device \<times> uio, unit) kernel" where
  "lhd_io = (\<lambda>(d, u).
     let sector = word_of_int (uio_offset u sdiv 512) :: u32;
         sectoff = word_of_int (uio_offset u smod 512) :: u32;
         len = uio_resid u div 512;
         lenoff = uio_resid u mod 512
     in if sectoff \<noteq> 0 \<or> lenoff \<noteq> 0 then (Inl EINVAL, d, u)
        else if sector + len > d_blocks d then (Inl EINVAL, d, u)
        else lhd_sectors sector (unat len) 0 (d, u))"

subsection \<open>The volume\<close>

record sfs_vnode =
  sv_i :: sfs_dinode
  sv_ino :: u32
  sv_dirty :: bool
  vn_refcount :: int
  vn_opencount :: int
  vn_dirops :: bool

record sfs_fs =
  sfs_sb :: sfs_superblock
  sfs_superdirty :: bool
  sfs_device :: device
  sfs_vnodes :: "nat list"
  sfs_freemap :: bitmap
  sfs_freemapdirty :: bool
  biglock_depth :: nat
  sfs_mem :: "nat \<Rightarrow> sfs_vnode option"
  sfs_next :: nat
  sfs_kmalloc :: "bool list"

definition vfs_biglock_acquire :: "(sfs_fs, unit) kernel" where
  "vfs_biglock_acquire = kmodify (\<lambda>s. s\<lparr>biglock_depth := Suc (biglock_depth s)\<rparr>)"

definition vfs_biglock_release :: "(sfs_fs, unit) kernel" where
  "vfs_biglock_release =
     kbind (kget (\<lambda>s. biglock_depth s)) (\<lambda>n.
     kbind (kassert (n > 0)) (\<lambda>_.
     kmodify (\<lambda>s. s\<lparr>biglock_depth := n - 1\<rparr>)))"

definition vfs_biglock_do_i_hold :: "sfs_fs \<Rightarrow> bool" where
  "vfs_biglock_do_i_hold s \<longleftrightarrow> biglock_depth s > 0"

subsection \<open>Block I/O\<close>

text \<open>\<open>DEVOP_IO\<close> on the volume's device.\<close>

definition devop_io :: "(sfs_fs \<times> uio, unit) kernel" where
  "devop_io = (\<lambda>(s, u). case lhd_io (sfs_device s, u) of (r, d, u') \<Rightarrow> (r, s\<lparr>sfs_device := d\<rparr>, u'))"

function rwblock_retry :: "nat \<Rightarrow> (sfs_fs \<times> uio, unit) kernel" where
  "rwblock_retry tries st =
     (case devop_io st of
        (Inl EINVAL, st') \<Rightarrow> (Inl PANIC, st')
      | (Inl EIO, st') \<Rightarrow> if tries < 10 then rwblock_retry (Suc tries) st' else (Inl EIO, st')
      | (r, st') \<Rightarrow> (r, st'))"
  by pat_completeness auto
termination by (relation "measure (\<lambda>(tries, _). 10 - tries)") auto

declare rwblock_retry.simps [simp del]

definition sfs_rwblock :: "(sfs_fs \<times> uio, unit) kernel" where
  "sfs_rwblock = kbind (kget (\<lambda>(s, _). vfs_biglock_do_i_hold s)) (\<lambda>h.
     kbind (kassert h) (\<lambda>_. rwblock_retry 0))"

text \<open>A kernel buffer as the memory of a \<open>UIO_SYSSPACE\<close> transfer, at address 0.\<close>

definition buffer_mem :: "u8 list \<Rightarrow> umem" where
  "buffer_mem bs = \<lparr>um_byte = (\<lambda>a. if unat a < length bs then bs ! unat a else 0), um_bad = (\<lambda>_. False)\<rparr>"

text \<open>\<open>SFSUIO\<close>, and the contents of the buffer of \<open>len\<close> bytes after the transfer.\<close>

definition SFSUIO :: "u8 list \<Rightarrow> daddr \<Rightarrow> uio_rw \<Rightarrow> uio" where
  "SFSUIO data block rw = uio_kinit 0 512 (int (unat block) * 512) rw (buffer_mem data)"

definition sfs_readblock :: "daddr \<Rightarrow> nat \<Rightarrow> (sfs_fs, u8 list) kernel" where
  "sfs_readblock block len s =
     (if len \<noteq> SFS_BLOCKSIZE then (Inl PANIC, s)
      else case sfs_rwblock (s, SFSUIO (replicate len 0) block UIO_READ) of
             (Inl e, s', u) \<Rightarrow> (Inl e, s')
           | (Inr _, s', u) \<Rightarrow> (Inr (peek (addrs 0 len) (uio_mem u)), s'))"

definition sfs_writeblock :: "daddr \<Rightarrow> u8 list \<Rightarrow> (sfs_fs, unit) kernel" where
  "sfs_writeblock block data s =
     (if length data \<noteq> SFS_BLOCKSIZE then (Inl PANIC, s)
      else case sfs_rwblock (s, SFSUIO data block UIO_WRITE) of (r, s', u) \<Rightarrow> (r, s'))"

subsection \<open>What the driver does with one block\<close>

text \<open>
  A disk with all its sectors, whose status register never shows \<open>LHD_INVSECT\<close> (the
  hardware shows it for a sector number out of range only).
\<close>

definition dev_wf :: "device \<Rightarrow> bool" where
  "dev_wf d \<longleftrightarrow> length (lh_disk d) = unat (d_blocks d) \<and> (\<forall>b \<in> set (lh_disk d). length b = SFS_BLOCKSIZE)
     \<and> length (lh_buf d) = SFS_BLOCKSIZE \<and> (\<forall>v \<in> set (lh_status d). v AND LHD_STATEMASK \<noteq> LHD_INVSECT)"

lemma lhd_irq_cases:
  assumes "lhd_irq st = (r, st')" and "\<forall>v \<in> set st. v AND LHD_STATEMASK \<noteq> LHD_INVSECT"
  shows "r = None \<or> r = Some EIO" and "set st' \<subseteq> set st"
  using assms
  by (induction st rule: lhd_irq.induct)
    (auto simp: Let_def lhd_code_to_errno_def LHD_OK_def LHD_MEDIA_def LHD_INVSECT_def split: if_splits)

lemma SFSUIO_simps [simp]:
  "uio_rw (SFSUIO data block rw) = rw" "uio_resid (SFSUIO data block rw) = 512"
  "uio_offset (SFSUIO data block rw) = int (unat block) * 512" "uio_segflg (SFSUIO data block rw) = UIO_SYSSPACE"
  "targets (SFSUIO data block rw) = addrs 0 512" "uio_mem (SFSUIO data block rw) = buffer_mem data"
  by (simp_all add: SFSUIO_def uio_kinit_def targets_def)

lemma SFSUIO_ok: "uio_ok (SFSUIO data block rw)"
  by (simp add: uio_ok_def)

lemma peek_buffer: "length data = 512 \<Longrightarrow> peek (addrs 0 512) (buffer_mem data) = data"
  by (intro nth_equalityI) (simp_all add: peek_def buffer_mem_def)

lemma uiomove_block:
  assumes "length buf = 512"
  shows "\<exists>buf' u'. uiomove buf 512 (SFSUIO data block rw) = (Inr buf', u')
    \<and> uio_resid u' = 0 \<and> uio_offset u' = (int (unat block) + 1) * 512 \<and> uio_rw u' = rw
    \<and> (rw = UIO_READ \<longrightarrow> uio_mem u' = poke (addrs 0 512) buf (buffer_mem data))
    \<and> (rw = UIO_WRITE \<longrightarrow> length data = 512 \<longrightarrow> buf' = data)"
proof -
  obtain buf' u' where run: "uiomove buf 512 (SFSUIO data block rw) = (Inr buf', u')"
    and m: "uio_moved 512 buf (SFSUIO data block rw) buf' u'"
    using uiomove_ok [OF SFSUIO_ok, of 512 data block rw buf] assms by auto
  from m have "unat (uio_resid u') = 0" by (simp add: uio_moved_def)
  then have "uio_resid u' = 0" by (simp add: unat_eq_0)
  with run m show ?thesis by (cases rw) (auto simp: uio_moved_def peek_buffer)
qed

lemma truncating_nonneg:
  "0 \<le> a \<Longrightarrow> a sdiv 512 = a div 512" "0 \<le> a \<Longrightarrow> a smod 512 = a mod 512" for a :: int
  by (simp_all add: signed_divide_int_def signed_modulo_int_def sgn_if)

lemma lhd_address:
  fixes b :: u32
  assumes "b < n"
  shows "(word_of_int (int (unat b) * 512 sdiv 512) :: u32) = b"
    and "(word_of_int (int (unat b) * 512 smod 512) :: u32) = 0" and "\<not> b + 1 > n"
proof -
  show "(word_of_int (int (unat b) * 512 sdiv 512) :: u32) = b"
    by (simp add: truncating_nonneg)
  show "(word_of_int (int (unat b) * 512 smod 512) :: u32) = 0"
    by (simp add: truncating_nonneg)
  show "\<not> b + 1 > n" using assms by (simp add: inc_le not_less)
qed

lemma lhd_read:
  assumes wf: "dev_wf d" and b: "block < d_blocks d" and irq: "lhd_irq (lh_status d) = (r, st)"
  shows "\<exists>u'. lhd_io (d, SFSUIO data block UIO_READ) =
    (case r of
       Some e \<Rightarrow> (Inl e, d\<lparr>lh_status := st\<rparr>, SFSUIO data block UIO_READ)
     | None \<Rightarrow> (Inr (), d\<lparr>lh_status := st, lh_buf := lh_disk d ! unat block\<rparr>, u'))
    \<and> peek (addrs 0 512) (uio_mem u') = lh_disk d ! unat block"
proof -
  let ?u = "SFSUIO data block UIO_READ" and ?d = "d\<lparr>lh_status := st, lh_buf := lh_disk d ! unat block\<rparr>"
  have ix: "unat block < length (lh_disk d)" using wf b by (simp add: dev_wf_def word_less_nat_alt)
  then have len: "length (lh_disk d ! unat block) = 512" using wf by (simp add: dev_wf_def)
  obtain buf' u' where move: "uiomove (lh_disk d ! unat block) 512 ?u = (Inr buf', u')"
    and mem: "uio_mem u' = poke (addrs 0 512) (lh_disk d ! unat block) (buffer_mem data)"
    using uiomove_block [OF len, of data block UIO_READ] by auto
  have op: "lhd_operate False (unat block) d = (r, case r of Some e \<Rightarrow> d\<lparr>lh_status := st\<rparr> | None \<Rightarrow> ?d)"
    using irq ix by (cases r) (simp_all add: lhd_operate_def)
  have "lhd_io (d, ?u) = lhd_sectors block 1 0 (d, ?u)"
    using lhd_address [OF b] by (simp add: lhd_io_def Let_def)
  also have "\<dots> = (case r of Some e \<Rightarrow> (Inl e, d\<lparr>lh_status := st\<rparr>, ?u) | None \<Rightarrow> (Inr (), ?d, u'))"
    using op move by (cases r) (simp_all add: lhd_sectors.simps)
  finally show ?thesis
    using mem peek_poke [OF distinct_addrs [of 512 0], of "lh_disk d ! unat block" "buffer_mem data"] len
    by (intro exI [of _ u']) simp
qed

lemma lhd_write:
  assumes wf: "dev_wf d" and b: "block < d_blocks d" and irq: "lhd_irq (lh_status d) = (r, st)"
    and data: "length data = 512"
  shows "\<exists>u'. lhd_io (d, SFSUIO data block UIO_WRITE) =
    (case r of
       Some e \<Rightarrow> (Inl e, d\<lparr>lh_status := st, lh_buf := data\<rparr>, u')
     | None \<Rightarrow> (Inr (), d\<lparr>lh_status := st, lh_buf := data, lh_disk := (lh_disk d)[unat block := data]\<rparr>, u'))
    \<and> uio_resid u' = 0 \<and> uio_offset u' = (int (unat block) + 1) * 512 \<and> uio_rw u' = UIO_WRITE"
proof -
  let ?u = "SFSUIO data block UIO_WRITE"
  have ix: "unat block < length (lh_disk d)" and buf: "length (lh_buf d) = 512"
    using wf b by (simp_all add: dev_wf_def word_less_nat_alt)
  obtain buf' u' where move: "uiomove (lh_buf d) 512 ?u = (Inr buf', u')" "buf' = data"
    and u': "uio_resid u' = 0" "uio_offset u' = (int (unat block) + 1) * 512" "uio_rw u' = UIO_WRITE"
    using uiomove_block [OF buf, of data block UIO_WRITE] data by auto
  have "lhd_io (d, ?u) = lhd_sectors block 1 0 (d, ?u)"
    using lhd_address [OF b] by (simp add: lhd_io_def Let_def)
  also have "\<dots> = (case r of
       Some e \<Rightarrow> (Inl e, d\<lparr>lh_status := st, lh_buf := data\<rparr>, u')
     | None \<Rightarrow> (Inr (), d\<lparr>lh_status := st, lh_buf := data, lh_disk := (lh_disk d)[unat block := data]\<rparr>, u'))"
    using irq ix move u'(3) by (cases r) (simp_all add: lhd_sectors.simps lhd_operate_def)
  finally show ?thesis using u' by blast
qed

text \<open>A transfer whose residue is used up does nothing and succeeds.\<close>

lemma lhd_nothing_left:
  assumes "uio_resid u = 0" and "uio_offset u = (int (unat block) + 1) * 512" and "block < d_blocks d"
  shows "lhd_io (d, u) = (Inr (), d, u)"
proof -
  have "unat block + 1 \<le> unat (d_blocks d)" using assms(3) by (simp add: word_less_nat_alt)
  then have "unat block + 1 < 4294967296" using unat_u32_less [of "d_blocks d"] by linarith
  then have next_block: "unat (block + 1) = unat block + 1" by (simp add: unat_add_u32)
  then have "int (unat (block + 1)) = int (unat block) + 1" by linarith
  then have "uio_offset u = int (unat (block + 1)) * 512" using assms(2) by simp
  then have "(word_of_int (uio_offset u sdiv 512) :: u32) = block + 1" "(word_of_int (uio_offset u smod 512) :: u32) = 0"
    by (simp_all add: truncating_nonneg)
  moreover have "\<not> block + 1 > d_blocks d" using assms(3) by (simp add: inc_le not_less)
  ultimately show ?thesis using assms(1) by (simp add: lhd_io_def Let_def lhd_sectors.simps)
qed

subsection \<open>Reading and writing a block\<close>

text \<open>
  The attempts of \<open>sfs_rwblock\<close>: the result of the first that does not report a media
  error, or of the eleventh.
\<close>

function io_attempts :: "nat \<Rightarrow> u32 list \<Rightarrow> error option \<times> u32 list" where
  "io_attempts tries st =
     (case lhd_irq st of
        (None, st') \<Rightarrow> (None, st')
      | (Some e, st') \<Rightarrow> if tries < 10 then io_attempts (Suc tries) st' else (Some e, st'))"
  by pat_completeness auto
termination by (relation "measure (\<lambda>(tries, _). 10 - tries)") auto

declare io_attempts.simps [simp del]

definition with_device :: "(device \<Rightarrow> device) \<Rightarrow> sfs_fs \<Rightarrow> sfs_fs" where
  "with_device f s = s\<lparr>sfs_device := f (sfs_device s)\<rparr>"

lemma io_attempts_cases:
  assumes "io_attempts tries st = (r, st')" and "\<forall>v \<in> set st. v AND LHD_STATEMASK \<noteq> LHD_INVSECT"
  shows "(r = None \<or> r = Some EIO) \<and> set st' \<subseteq> set st"
  using assms
proof (induction tries st arbitrary: r st' rule: io_attempts.induct)
  case (1 tries st)
  obtain q st1 where irq: "lhd_irq st = (q, st1)" by (cases "lhd_irq st")
  note c = lhd_irq_cases [OF irq 1(3)]
  show ?case
  proof (cases "q = None \<or> \<not> tries < 10")
    case True
    then show ?thesis using irq c 1(2) by (cases q) (auto simp: io_attempts.simps [of tries])
  next
    case False
    then obtain e where q: "q = Some e" by auto
    have "io_attempts (Suc tries) st1 = (r, st')"
      using irq 1(2) q False by (simp add: io_attempts.simps [of tries])
    moreover have "\<forall>v \<in> set st1. v AND LHD_STATEMASK \<noteq> LHD_INVSECT" using 1(3) c(2) by blast
    ultimately have "(r = None \<or> r = Some EIO) \<and> set st' \<subseteq> set st1"
      using False q irq by (intro 1(1) [OF irq [symmetric] q]) auto
    with c(2) show ?thesis by blast
  qed
qed

lemma dev_wf_status:
  "dev_wf d \<Longrightarrow> set st \<subseteq> set (lh_status d) \<Longrightarrow> dev_wf (d\<lparr>lh_status := st\<rparr>)"
  by (auto simp: dev_wf_def)

lemma retry_read:
  assumes "dev_wf (sfs_device s)" and "block < d_blocks (sfs_device s)"
    and "io_attempts tries (lh_status (sfs_device s)) = (r, st)"
  shows "\<exists>u'. rwblock_retry tries (s, SFSUIO data block UIO_READ) =
    (case r of
       Some e \<Rightarrow> (Inl EIO, with_device (lh_status_update (\<lambda>_. st)) s, SFSUIO data block UIO_READ)
     | None \<Rightarrow> (Inr (), with_device (\<lambda>d. d\<lparr>lh_status := st, lh_buf := lh_disk d ! unat block\<rparr>) s, u'))
    \<and> peek (addrs 0 512) (uio_mem u') = lh_disk (sfs_device s) ! unat block"
  using assms
proof (induction "10 - tries" arbitrary: tries s)
  case (0 tries s)
  obtain q st1 where irq: "lhd_irq (lh_status (sfs_device s)) = (q, st1)" by (cases "lhd_irq (lh_status (sfs_device s))")
  have q: "q = None \<or> q = Some EIO" "r = q" "st = st1"
    using lhd_irq_cases [OF irq] 0 irq by (auto simp: dev_wf_def io_attempts.simps [of tries] split: option.splits)
  obtain u' where u': "peek (addrs 0 512) (uio_mem u') = lh_disk (sfs_device s) ! unat block"
    "lhd_io (sfs_device s, SFSUIO data block UIO_READ) =
      (case q of Some e \<Rightarrow> (Inl e, (sfs_device s)\<lparr>lh_status := st1\<rparr>, SFSUIO data block UIO_READ)
       | None \<Rightarrow> (Inr (), (sfs_device s)\<lparr>lh_status := st1, lh_buf := lh_disk (sfs_device s) ! unat block\<rparr>, u'))"
    using lhd_read [OF 0(2,3) irq, of data] by blast
  from 0(1) u' q show ?case
    by (intro exI [of _ u']) (auto simp: rwblock_retry.simps [of tries] devop_io_def with_device_def)
next
  case (Suc k tries s)
  obtain q st1 where irq: "lhd_irq (lh_status (sfs_device s)) = (q, st1)" by (cases "lhd_irq (lh_status (sfs_device s))")
  have c: "q = None \<or> q = Some EIO" "set st1 \<subseteq> set (lh_status (sfs_device s))"
    using lhd_irq_cases [OF irq] Suc(3) by (auto simp: dev_wf_def)
  obtain u' where u': "peek (addrs 0 512) (uio_mem u') = lh_disk (sfs_device s) ! unat block"
    "lhd_io (sfs_device s, SFSUIO data block UIO_READ) =
      (case q of Some e \<Rightarrow> (Inl e, (sfs_device s)\<lparr>lh_status := st1\<rparr>, SFSUIO data block UIO_READ)
       | None \<Rightarrow> (Inr (), (sfs_device s)\<lparr>lh_status := st1, lh_buf := lh_disk (sfs_device s) ! unat block\<rparr>, u'))"
    using lhd_read [OF Suc(3,4) irq, of data] by blast
  show ?case
  proof (cases q)
    case None
    with u' irq Suc(5) show ?thesis
      by (intro exI [of _ u']) (auto simp: rwblock_retry.simps [of tries] devop_io_def with_device_def io_attempts.simps [of tries])
  next
    case (Some e)
    then have e: "q = Some EIO" using c by simp
    let ?s = "with_device (lh_status_update (\<lambda>_. st1)) s"
    have tries: "tries < 10" "k = 10 - Suc tries" using Suc(2) by auto
    have "dev_wf (sfs_device ?s)" "block < d_blocks (sfs_device ?s)"
      "io_attempts (Suc tries) (lh_status (sfs_device ?s)) = (r, st)"
      using Suc(3-5) dev_wf_status [OF _ c(2)] irq e tries
      by (auto simp: with_device_def io_attempts.simps [of tries])
    from Suc(1) [OF tries(2) this] u' e tries show ?thesis
      by (auto simp: rwblock_retry.simps [of tries] devop_io_def with_device_def split: option.split)
  qed
qed

lemma sfs_readblock_eq:
  assumes "dev_wf (sfs_device s)" and "block < d_blocks (sfs_device s)" and "biglock_depth s > 0"
  shows "sfs_readblock block 512 s =
    (case io_attempts 0 (lh_status (sfs_device s)) of
       (Some e, st) \<Rightarrow> (Inl EIO, with_device (lh_status_update (\<lambda>_. st)) s)
     | (None, st) \<Rightarrow> (Inr (lh_disk (sfs_device s) ! unat block),
         with_device (\<lambda>d. d\<lparr>lh_status := st, lh_buf := lh_disk d ! unat block\<rparr>) s))"
proof -
  obtain r st where io: "io_attempts 0 (lh_status (sfs_device s)) = (r, st)"
    by (cases "io_attempts 0 (lh_status (sfs_device s))")
  from retry_read [OF assms(1,2) io, of "replicate 512 0"] assms(3) io show ?thesis
    by (cases r) (auto simp: sfs_readblock_def sfs_rwblock_def kmonad_defs vfs_biglock_do_i_hold_def)
qed

lemma sfs_writeblock_eq:
  assumes "dev_wf (sfs_device s)" and "block < d_blocks (sfs_device s)" and "biglock_depth s > 0"
    and "length data = 512"
  shows "sfs_writeblock block data s =
    (case lhd_irq (lh_status (sfs_device s)) of
       (Some e, st) \<Rightarrow> (Inr (), with_device (\<lambda>d. d\<lparr>lh_status := st, lh_buf := data\<rparr>) s)
     | (None, st) \<Rightarrow> (Inr (), with_device (\<lambda>d. d\<lparr>lh_status := st, lh_buf := data,
         lh_disk := (lh_disk d)[unat block := data]\<rparr>) s))"
proof -
  obtain r st where irq: "lhd_irq (lh_status (sfs_device s)) = (r, st)"
    by (cases "lhd_irq (lh_status (sfs_device s))")
  have r: "r = None \<or> r = Some EIO"
    using lhd_irq_cases(1) [OF irq] assms(1) by (auto simp: dev_wf_def)
  obtain u' where u': "uio_resid u' = 0" "uio_offset u' = (int (unat block) + 1) * 512"
    and io: "lhd_io (sfs_device s, SFSUIO data block UIO_WRITE) =
    (case r of
       Some e \<Rightarrow> (Inl e, (sfs_device s)\<lparr>lh_status := st, lh_buf := data\<rparr>, u')
     | None \<Rightarrow> (Inr (), (sfs_device s)\<lparr>lh_status := st, lh_buf := data,
         lh_disk := (lh_disk (sfs_device s))[unat block := data]\<rparr>, u'))"
    using lhd_write [OF assms(1,2) irq assms(4)] by blast
  let ?s = "with_device (\<lambda>d. d\<lparr>lh_status := st, lh_buf := data\<rparr>) s"
  have again: "lhd_io (sfs_device ?s, u') = (Inr (), sfs_device ?s, u')"
    using u' assms(2) by (intro lhd_nothing_left) (auto simp: with_device_def)
  show ?thesis
  proof (cases r)
    case None
    with io irq assms(3,4) show ?thesis
      by (simp add: sfs_writeblock_def sfs_rwblock_def kmonad_defs vfs_biglock_do_i_hold_def
          rwblock_retry.simps [of 0] devop_io_def with_device_def)
  next
    case (Some e)
    with r have e: "r = Some EIO" by simp
    have "rwblock_retry (Suc 0) (?s, u') = (Inr (), ?s, u')"
      using again by (simp add: rwblock_retry.simps [of "Suc 0"] devop_io_def with_device_def)
    with io irq e assms(3,4) show ?thesis
      by (simp add: sfs_writeblock_def sfs_rwblock_def kmonad_defs vfs_biglock_do_i_hold_def
          rwblock_retry.simps [of 0] devop_io_def with_device_def)
  qed
qed

text \<open>A volume whose device works, under the big lock; everything but the device.\<close>

definition vol_ok :: "sfs_fs \<Rightarrow> bool" where
  "vol_ok s \<longleftrightarrow> dev_wf (sfs_device s) \<and> biglock_depth s > 0"

definition blocks_of :: "sfs_fs \<Rightarrow> u8 list list" where
  "blocks_of s = lh_disk (sfs_device s)"

definition no_device :: device where
  "no_device = \<lparr>lh_disk = [], lh_status = [], lh_buf = [], d_blocks = 0\<rparr>"

definition sans_device :: "sfs_fs \<Rightarrow> sfs_fs" where
  "sans_device s = s\<lparr>sfs_device := no_device\<rparr>"

lemma sans_device_with_device [simp]: "sans_device (with_device f s) = sans_device s"
  by (simp add: sans_device_def with_device_def)

subsection \<open>The contract of the block device\<close>

text \<open>
  What the file system can rely on: a read returns the block or \<open>EIO\<close> and changes no block;
  a write may be lost, but otherwise stores exactly this block. Nothing else of the state
  changes.
\<close>

locale block_device =
  fixes rd :: "u32 \<Rightarrow> ('s, u8 list) kernel"
    and wr :: "u32 \<Rightarrow> u8 list \<Rightarrow> ('s, unit) kernel"
    and blocks :: "'s \<Rightarrow> u8 list list"
    and others :: "'s \<Rightarrow> 'r"
    and ok :: "'s \<Rightarrow> bool"
  assumes rd_ok: "ok s \<Longrightarrow> unat b < length (blocks s) \<Longrightarrow>
      \<exists>s'. ok s' \<and> blocks s' = blocks s \<and> others s' = others s
        \<and> (rd b s = (Inr (blocks s ! unat b), s') \<or> rd b s = (Inl EIO, s'))"
    and wr_ok: "ok s \<Longrightarrow> unat b < length (blocks s) \<Longrightarrow> length data = SFS_BLOCKSIZE \<Longrightarrow>
      \<exists>s'. ok s' \<and> others s' = others s \<and> wr b data s = (Inr (), s')
        \<and> (blocks s' = (blocks s)[unat b := data] \<or> blocks s' = blocks s)"
    and block_size: "ok s \<Longrightarrow> \<forall>b \<in> set (blocks s). length b = SFS_BLOCKSIZE"
begin

text \<open>The read-modify-write that replaces \<open>data\<close> at \<open>off\<close> of a block.\<close>

definition modify :: "u32 \<Rightarrow> nat \<Rightarrow> u8 list \<Rightarrow> ('s, unit) kernel" where
  "modify b off data = kbind (rd b) (\<lambda>old. wr b (overlay off data old))"

lemma modify_ok:
  assumes "ok s" and "unat b < length (blocks s)" and "off + length data \<le> SFS_BLOCKSIZE"
  shows "\<exists>s'. ok s' \<and> others s' = others s
    \<and> (modify b off data s = (Inl EIO, s') \<and> blocks s' = blocks s
       \<or> modify b off data s = (Inr (), s')
         \<and> (blocks s' = (blocks s)[unat b := overlay off data (blocks s ! unat b)] \<or> blocks s' = blocks s))"
proof -
  obtain s1 where s1: "ok s1" "blocks s1 = blocks s" "others s1 = others s"
    and rd: "rd b s = (Inr (blocks s ! unat b), s1) \<or> rd b s = (Inl EIO, s1)"
    using rd_ok [OF assms(1,2)] by blast
  have "length (blocks s ! unat b) = SFS_BLOCKSIZE" using block_size [OF assms(1)] assms(2) by simp
  then have "length (overlay off data (blocks s ! unat b)) = SFS_BLOCKSIZE" using assms(3) by simp
  then obtain s2 where s2: "ok s2" "others s2 = others s1"
    "wr b (overlay off data (blocks s ! unat b)) s1 = (Inr (), s2)"
    "blocks s2 = (blocks s)[unat b := overlay off data (blocks s ! unat b)] \<or> blocks s2 = blocks s"
    using wr_ok [OF s1(1), of b "overlay off data (blocks s ! unat b)"] assms(2) s1(2) by auto
  show ?thesis
  proof (cases "rd b s = (Inl EIO, s1)")
    case True
    then show ?thesis using s1 by (auto simp: modify_def kbind_def)
  next
    case False
    with rd s2(3) have "modify b off data s = (Inr (), s2)" by (simp add: modify_def kbind_def)
    then show ?thesis using s1(3) s2 by auto
  qed
qed

text \<open>Reading back the part of the block that was not replaced.\<close>

lemma modify_other_part:
  assumes "ok s" and "unat b < length (blocks s)" and "off + length data \<le> SFS_BLOCKSIZE"
    and "modify b off data s = (r, s')" and "o2 + n \<le> off \<or> off + length data \<le> o2"
  shows "slice_at o2 n (blocks s' ! unat b) = slice_at o2 n (blocks s ! unat b)"
proof -
  have "length (blocks s ! unat b) = SFS_BLOCKSIZE" using block_size [OF assms(1)] assms(2) by simp
  with modify_ok [OF assms(1-3)] assms(2-5) show ?thesis
    by (auto simp: slice_overlay_other)
qed

end

interpretation lhd: block_device "\<lambda>b. sfs_readblock b SFS_BLOCKSIZE" sfs_writeblock blocks_of sans_device vol_ok
proof (unfold_locales, goal_cases)
  case (1 s b)
  then have wf: "dev_wf (sfs_device s)" "b < d_blocks (sfs_device s)" "biglock_depth s > 0"
    by (auto simp: vol_ok_def blocks_of_def dev_wf_def word_less_nat_alt)
  then have len: "length (lh_disk (sfs_device s) ! unat b) = 512"
    by (simp add: dev_wf_def word_less_nat_alt)
  obtain r st where io: "io_attempts 0 (lh_status (sfs_device s)) = (r, st)"
    by (cases "io_attempts 0 (lh_status (sfs_device s))")
  then have "set st \<subseteq> set (lh_status (sfs_device s))"
    using io_attempts_cases [OF io] wf(1) by (auto simp: dev_wf_def)
  then have "vol_ok (with_device (lh_status_update (\<lambda>_. st)) s)"
    "vol_ok (with_device (\<lambda>d. d\<lparr>lh_status := st, lh_buf := lh_disk d ! unat b\<rparr>) s)"
    using 1 len by (auto simp: vol_ok_def with_device_def dev_wf_def)
  moreover have "blocks_of (with_device (lh_status_update (\<lambda>_. st)) s) = blocks_of s"
    "blocks_of (with_device (\<lambda>d. d\<lparr>lh_status := st, lh_buf := lh_disk d ! unat b\<rparr>) s) = blocks_of s"
    by (simp_all add: blocks_of_def with_device_def)
  ultimately show ?case
    unfolding sfs_readblock_eq [OF wf] io prod.case
    by (cases r) (auto simp: blocks_of_def)
next
  case (2 s b data)
  then have wf: "dev_wf (sfs_device s)" "b < d_blocks (sfs_device s)" "biglock_depth s > 0"
    by (auto simp: vol_ok_def blocks_of_def dev_wf_def word_less_nat_alt)
  obtain r st where irq: "lhd_irq (lh_status (sfs_device s)) = (r, st)"
    by (cases "lhd_irq (lh_status (sfs_device s))")
  then have "set st \<subseteq> set (lh_status (sfs_device s))"
    using lhd_irq_cases(2) [OF irq] wf(1) by (auto simp: dev_wf_def)
  then have "vol_ok (with_device (\<lambda>d. d\<lparr>lh_status := st, lh_buf := data\<rparr>) s)"
    "vol_ok (with_device (\<lambda>d. d\<lparr>lh_status := st, lh_buf := data, lh_disk := (lh_disk d)[unat b := data]\<rparr>) s)"
    using 2 by (auto simp: vol_ok_def with_device_def dev_wf_def dest!: set_update_subset_insert [THEN subsetD])
  moreover have "blocks_of (with_device (\<lambda>d. d\<lparr>lh_status := st, lh_buf := data\<rparr>) s) = blocks_of s"
    "blocks_of (with_device (\<lambda>d. d\<lparr>lh_status := st, lh_buf := data,
        lh_disk := (lh_disk d)[unat b := data]\<rparr>) s) = (blocks_of s)[unat b := data]"
    by (simp_all add: blocks_of_def with_device_def)
  ultimately show ?case
    unfolding sfs_writeblock_eq [OF wf 2(3)] irq prod.case
    by (cases r) auto
next
  case (3 s)
  then show ?case by (simp add: vol_ok_def dev_wf_def blocks_of_def)
qed

subsection \<open>Properties\<close>



text \<open>
  C28: A block read returns the contents of the block unless all of eleven attempts fail with a
  media error, then \<open>EIO\<close>; it changes no block and nothing else of the volume.
\<close>

theorem sfs_readblock_retries:
  assumes "dev_wf (sfs_device s)" and "block < d_blocks (sfs_device s)" and "biglock_depth s > 0"
  shows "\<exists>s'. sfs_readblock block SFS_BLOCKSIZE s =
      ((case fst (io_attempts 0 (lh_status (sfs_device s))) of
          None \<Rightarrow> Inr (lh_disk (sfs_device s) ! unat block) | Some e \<Rightarrow> Inl EIO), s')
    \<and> lh_disk (sfs_device s') = lh_disk (sfs_device s) \<and> sans_device s' = sans_device s"
  unfolding sfs_readblock_eq [OF assms]
  by (cases "io_attempts 0 (lh_status (sfs_device s))"; cases "fst (io_attempts 0 (lh_status (sfs_device s)))")
    (auto simp: with_device_def sans_device_def)

text \<open>A volume on a disk of two blocks with the given status values to come.\<close>

definition example_vol :: "u32 list \<Rightarrow> sfs_fs" where
  "example_vol st =
     \<lparr>sfs_sb = \<lparr>sb_magic = SFS_MAGIC, sb_nblocks = 2, sb_volname = replicate 32 0, sb_reserved = replicate 118 0\<rparr>,
      sfs_superdirty = False,
      sfs_device = \<lparr>lh_disk = [replicate 512 1, replicate 512 2], lh_status = st,
        lh_buf = replicate 512 0, d_blocks = 2\<rparr>,
      sfs_vnodes = [], sfs_freemap = \<lparr>nbits = 2, bm_v = [0xff]\<rparr>, sfs_freemapdirty = False,
      biglock_depth = 1, sfs_mem = (\<lambda>_. None), sfs_next = 0, sfs_kmalloc = []\<rparr>"

lemma example_vol: "\<forall>v \<in> set st. v AND LHD_STATEMASK \<noteq> LHD_INVSECT \<Longrightarrow> dev_wf (sfs_device (example_vol st))"
  "1 < d_blocks (sfs_device (example_vol st))" "biglock_depth (example_vol st) > 0"
  "lh_disk (sfs_device (example_vol st)) = [replicate 512 1, replicate 512 2]"
  "lh_status (sfs_device (example_vol st)) = st"
  by (simp_all add: example_vol_def dev_wf_def)

theorem sfs_readblock_retries_witness:
  "fst (sfs_readblock 1 SFS_BLOCKSIZE (example_vol [20, 1, 20, 4])) = Inr (replicate 512 2)"
proof -
  have wf: "dev_wf (sfs_device (example_vol [20, 1, 20, 4]))"
    by (rule example_vol(1)) (simp add: LHD_STATEMASK_def LHD_INVSECT_def)
  have "io_attempts 0 [20, 1, 20, 4] = (None, [])" by code_simp
  then show ?thesis
    using sfs_readblock_retries [OF wf example_vol(2,3)] by (auto simp: example_vol(4,5))
qed

text \<open>
  C15: A block write always reports success. It stores the block only if the first attempt
  succeeds: the retry after a media error finds the transfer used up, transfers nothing and
  succeeds, so that the data are lost without an error.
\<close>

theorem sfs_writeblock_always_succeeds:
  assumes "dev_wf (sfs_device s)" and "block < d_blocks (sfs_device s)" and "biglock_depth s > 0"
    and "length data = SFS_BLOCKSIZE"
  shows "\<exists>s'. sfs_writeblock block data s = (Inr (), s') \<and> sans_device s' = sans_device s
    \<and> lh_disk (sfs_device s') =
        (case fst (lhd_irq (lh_status (sfs_device s))) of
           None \<Rightarrow> (lh_disk (sfs_device s))[unat block := data]
         | Some e \<Rightarrow> lh_disk (sfs_device s))"
  unfolding sfs_writeblock_eq [OF assms]
  by (cases "lhd_irq (lh_status (sfs_device s))"; cases "fst (lhd_irq (lh_status (sfs_device s)))")
    (auto simp: with_device_def sans_device_def)

theorem sfs_writeblock_always_succeeds_witness:
  "\<exists>s'. sfs_writeblock 1 (replicate 512 9) (example_vol [20]) = (Inr (), s')
     \<and> lh_disk (sfs_device s') = [replicate 512 1, replicate 512 2]"
proof -
  have wf: "dev_wf (sfs_device (example_vol [20]))"
    by (rule example_vol(1)) (simp add: LHD_STATEMASK_def LHD_INVSECT_def)
  have "fst (lhd_irq [20]) = Some EIO" by code_simp
  then show ?thesis
    using sfs_writeblock_always_succeeds [OF wf example_vol(2,3), of "replicate 512 9"]
    by (auto simp: example_vol(4,5))
qed

end
