(* ===== verification/SfsBmap.thy ===== *)
theory SfsBmap
  imports SfsDisk
begin

text \<open>
  Block allocation (\<^verbatim>\<open>kern/fs/sfs/sfs_balloc.c\<close>) and the block map of an inode
  (\<^verbatim>\<open>kern/fs/sfs/sfs_bmap.c\<close>). A \<open>struct sfs_vnode *\<close> is an address into \<open>sfs_mem\<close>. The
  static buffer \<open>idbuf\<close> is a local value: every call fills it before use.

  \<open>file_block\<close> is the abstract map from file block numbers to disk blocks that an inode and
  its indirect block represent; \<open>sfs_bmap\<close> looks it up and extends it at one point,
  \<open>sfs_itrunc\<close> cuts it off.
\<close>

subsection \<open>Access to vnodes\<close>

definition get_sv :: "nat \<Rightarrow> (sfs_fs, sfs_vnode) kernel" where
  "get_sv p s = (case sfs_mem s p of None \<Rightarrow> Inl UNDEFINED | Some sv \<Rightarrow> Inr sv, s)"

definition upd_sv :: "nat \<Rightarrow> (sfs_vnode \<Rightarrow> sfs_vnode) \<Rightarrow> (sfs_fs, unit) kernel" where
  "upd_sv p f s =
     (case sfs_mem s p of
        None \<Rightarrow> (Inl UNDEFINED, s)
      | Some sv \<Rightarrow> (Inr (), s\<lparr>sfs_mem := (sfs_mem s)(p := Some (f sv))\<rparr>))"

definition on_freemap :: "(bitmap, 'a) kernel \<Rightarrow> (sfs_fs, 'a) kernel" where
  "on_freemap m s = (case m (sfs_freemap s) of (r, b) \<Rightarrow> (r, s\<lparr>sfs_freemap := b\<rparr>))"

definition dirty_inode :: "(sfs_dinode \<Rightarrow> sfs_dinode) \<Rightarrow> sfs_vnode \<Rightarrow> sfs_vnode" where
  "dirty_inode f sv = sv\<lparr>sv_i := f (sv_i sv), sv_dirty := True\<rparr>"

subsection \<open>sfs_balloc.c\<close>

definition sfs_clearblock :: "daddr \<Rightarrow> (sfs_fs, unit) kernel" where
  "sfs_clearblock block = sfs_writeblock block (replicate SFS_BLOCKSIZE 0)"

definition sfs_balloc :: "(sfs_fs, daddr) kernel" where
  "sfs_balloc =
     kbind (on_freemap bitmap_alloc) (\<lambda>diskblock.
     kbind (kmodify (\<lambda>s. s\<lparr>sfs_freemapdirty := True\<rparr>)) (\<lambda>_.
     kbind (kget (\<lambda>s. sb_nblocks (sfs_sb s))) (\<lambda>nblocks.
     if diskblock \<ge> nblocks then kfail PANIC
     else
       kbind (ktry (sfs_clearblock diskblock)) (\<lambda>result.
       case result of
         Inl e \<Rightarrow> kbind (on_freemap (bitmap_unmark diskblock)) (\<lambda>_. kfail e)
       | Inr _ \<Rightarrow> kreturn diskblock))))"

definition sfs_bfree :: "daddr \<Rightarrow> (sfs_fs, unit) kernel" where
  "sfs_bfree diskblock =
     kbind (on_freemap (bitmap_unmark diskblock)) (\<lambda>_.
     kmodify (\<lambda>s. s\<lparr>sfs_freemapdirty := True\<rparr>))"

definition sfs_bused :: "daddr \<Rightarrow> (sfs_fs, bool) kernel" where
  "sfs_bused diskblock =
     kbind (kget (\<lambda>s. sb_nblocks (sfs_sb s))) (\<lambda>nblocks.
     if diskblock \<ge> nblocks then kfail PANIC
     else kbind (on_freemap (bitmap_isset diskblock)) (\<lambda>w. kreturn (w \<noteq> 0)))"

subsection \<open>sfs_bmap.c\<close>

text \<open>The end of both branches: a mapped block must be marked in the free map.\<close>

definition hand_back :: "daddr \<Rightarrow> (sfs_fs, daddr) kernel" where
  "hand_back block =
     (if block \<noteq> 0 then kbind (sfs_bused block) (\<lambda>b. if b then kreturn block else kfail PANIC)
      else kreturn block)"

text \<open>A direct block.\<close>

definition map_direct :: "nat \<Rightarrow> nat \<Rightarrow> daddr \<Rightarrow> bool \<Rightarrow> (sfs_fs, daddr) kernel" where
  "map_direct p fileblock block doalloc =
     kbind (if block = 0 \<and> doalloc then
              kbind sfs_balloc (\<lambda>b.
              kbind (upd_sv p (dirty_inode (\<lambda>i. i\<lparr>sfi_direct := (sfi_direct i)[fileblock := b]\<rparr>)))
                (\<lambda>_. kreturn b))
            else kreturn block)
       hand_back"

text \<open>The number of the indirect block and its contents in \<open>idbuf\<close>.\<close>

definition load_idblock :: "nat \<Rightarrow> daddr \<Rightarrow> (sfs_fs, daddr \<times> u32 list) kernel" where
  "load_idblock p idblock =
     (if idblock = 0 then
        kbind sfs_balloc (\<lambda>b.
        kbind (upd_sv p (dirty_inode (\<lambda>i. i\<lparr>sfi_indirect := b\<rparr>))) (\<lambda>_.
        kreturn (b, replicate SFS_DBPERIDB 0)))
      else kbind (sfs_readblock idblock SFS_BLOCKSIZE) (\<lambda>data. kreturn (idblock, words_of data)))"

text \<open>An entry of the indirect block.\<close>

definition map_indirect :: "nat \<Rightarrow> bool \<Rightarrow> daddr \<times> u32 list \<Rightarrow> (sfs_fs, daddr) kernel" where
  "map_indirect idoff doalloc = (\<lambda>(idblock, idbuf).
     let block = idbuf ! idoff in
     kbind (if block = 0 \<and> doalloc then
              kbind sfs_balloc (\<lambda>b.
              kbind (sfs_writeblock idblock (bytes_of_words (idbuf[idoff := b]))) (\<lambda>_.
              kreturn b))
            else kreturn block)
       hand_back)"

definition sfs_bmap :: "nat \<Rightarrow> u32 \<Rightarrow> bool \<Rightarrow> (sfs_fs, daddr) kernel" where
  "sfs_bmap p fileblock doalloc =
     kbind (kget vfs_biglock_do_i_hold) (\<lambda>h. kbind (kassert h) (\<lambda>_.
     kbind (get_sv p) (\<lambda>sv.
     if fileblock < 15 then
       map_direct p (unat fileblock) (sfi_direct (sv_i sv) ! unat fileblock) doalloc
     else
       let fileblock = fileblock - 15;
           idnum = fileblock div 128;
           idoff = fileblock mod 128;
           idblock = sfi_indirect (sv_i sv)
       in if idnum \<ge> SFS_NINDIRECT then kfail EFBIG
          else if idblock = 0 \<and> \<not> doalloc then kreturn 0
          else kbind (load_idblock p idblock) (map_indirect (unat idoff) doalloc))))"

text \<open>The first loop of \<open>sfs_itrunc\<close>: the direct blocks from \<open>i\<close> on.\<close>

function itrunc_direct :: "nat \<Rightarrow> u32 \<Rightarrow> nat \<Rightarrow> (sfs_fs, unit) kernel" where
  "itrunc_direct p blocklen i =
     (if i < SFS_NDIRECT then
        kbind (get_sv p) (\<lambda>sv.
        let block = sfi_direct (sv_i sv) ! i in
        kbind (if of_nat i \<ge> blocklen \<and> block \<noteq> 0 then
                 kbind (sfs_bfree block) (\<lambda>_.
                 upd_sv p (dirty_inode (\<lambda>ino. ino\<lparr>sfi_direct := (sfi_direct ino)[i := 0]\<rparr>)))
               else kreturn ())
          (\<lambda>_. itrunc_direct p blocklen (Suc i)))
      else kreturn ())"
  by pat_completeness auto
termination by (relation "measure (\<lambda>(_, _, i). SFS_NDIRECT - i)") auto

declare itrunc_direct.simps [simp del]

text \<open>The second loop, over the indirect block: the new \<open>idbuf\<close> and \<open>iddirty\<close>.\<close>

function itrunc_indirect :: "u32 \<Rightarrow> nat \<Rightarrow> u32 list \<Rightarrow> bool \<Rightarrow> (sfs_fs, u32 list \<times> bool) kernel" where
  "itrunc_indirect blocklen j idbuf iddirty =
     (if j < SFS_DBPERIDB then
        if blocklen < 15 + of_nat j \<and> idbuf ! j \<noteq> 0 then
          kbind (sfs_bfree (idbuf ! j)) (\<lambda>_. itrunc_indirect blocklen (Suc j) (idbuf[j := 0]) True)
        else itrunc_indirect blocklen (Suc j) idbuf iddirty
      else kreturn (idbuf, iddirty))"
  by pat_completeness auto
termination by (relation "measure (\<lambda>(_, j, _, _). SFS_DBPERIDB - j)") auto

declare itrunc_indirect.simps [simp del]

text \<open>The part of \<open>sfs_itrunc\<close> that handles the indirect block.\<close>

definition itrunc_idblock :: "nat \<Rightarrow> u32 \<Rightarrow> daddr \<Rightarrow> (sfs_fs, unit) kernel" where
  "itrunc_idblock p blocklen idblock =
     kbind (ktry (sfs_readblock idblock SFS_BLOCKSIZE)) (\<lambda>r.
     case r of
       Inl e \<Rightarrow> kbind vfs_biglock_release (\<lambda>_. kfail e)
     | Inr data \<Rightarrow>
         kbind (itrunc_indirect blocklen 0 (words_of data) False) (\<lambda>(idbuf, iddirty).
         if list_all (\<lambda>b. b = 0) idbuf then
           kbind (sfs_bfree idblock) (\<lambda>_. upd_sv p (dirty_inode (\<lambda>i. i\<lparr>sfi_indirect := 0\<rparr>)))
         else if iddirty then
           kbind (ktry (sfs_writeblock idblock (bytes_of_words idbuf))) (\<lambda>r.
           case r of
             Inl e \<Rightarrow> kbind vfs_biglock_release (\<lambda>_. kfail e)
           | Inr _ \<Rightarrow> kreturn ())
         else kreturn ()))"

definition sfs_itrunc :: "nat \<Rightarrow> int \<Rightarrow> (sfs_fs, unit) kernel" where
  "sfs_itrunc p len =
     (let blocklen = word_of_int ((len + 512 - 1) sdiv 512) :: u32;
          highblock = 15 + 128 - 1 :: u32
      in kbind vfs_biglock_acquire (\<lambda>_.
         kbind (itrunc_direct p blocklen 0) (\<lambda>_.
         kbind (get_sv p) (\<lambda>sv.
         let idblock = sfi_indirect (sv_i sv) in
         kbind (if blocklen < highblock \<and> idblock \<noteq> 0 then itrunc_idblock p blocklen idblock
                else kreturn ()) (\<lambda>_.
         kbind (upd_sv p (dirty_inode (\<lambda>i. i\<lparr>sfi_size := word_of_int len\<rparr>))) (\<lambda>_.
         vfs_biglock_release))))))"

subsection \<open>A consistent volume\<close>

definition nblocks :: "sfs_fs \<Rightarrow> nat" where
  "nblocks s = unat (sb_nblocks (sfs_sb s))"

definition in_use :: "sfs_fs \<Rightarrow> nat set" where
  "in_use s = used (sfs_freemap s)"

text \<open>
  A volume under the big lock, on a disk that works, with a free map that covers the volume
  and marks the superblock and everything behind the last block.
\<close>

definition vol_healthy :: "sfs_fs \<Rightarrow> bool" where
  "vol_healthy s \<longleftrightarrow> vol_ok s \<and> lh_status (sfs_device s) = [] \<and> bitmap_wf (sfs_freemap s)
     \<and> sb_nblocks (sfs_sb s) \<le> d_blocks (sfs_device s) \<and> sb_nblocks (sfs_sb s) \<le> nbits (sfs_freemap s)
     \<and> (\<forall>i. nblocks s \<le> i \<longrightarrow> i < unat (nbits (sfs_freemap s)) \<longrightarrow> i \<in> in_use s) \<and> 0 \<in> in_use s"

lemma healthy_ok: "vol_healthy s \<Longrightarrow> vol_ok s"
  by (simp add: vol_healthy_def)

lemma healthy_bound: "vol_healthy s \<Longrightarrow> unat b < nblocks s \<Longrightarrow> b < d_blocks (sfs_device s)"
  by (auto simp: vol_healthy_def nblocks_def word_less_nat_alt word_le_nat_alt)

lemma healthy_length: "vol_healthy s \<Longrightarrow> unat b < nblocks s \<Longrightarrow> unat b < length (blocks_of s)"
  for b :: u32
  using healthy_bound [of s b] by (auto simp: vol_healthy_def vol_ok_def dev_wf_def blocks_of_def word_less_nat_alt)

lemma lhd_idle [simp]: "lhd_irq [] = (None, [])" "io_attempts tries [] = (None, [])"
  by (simp_all add: io_attempts.simps)

text \<open>Reads and writes of a healthy volume.\<close>

lemma healthy_read:
  assumes "vol_healthy s" and "unat b < nblocks s"
  shows "sfs_readblock b 512 s
    = (Inr (blocks_of s ! unat b), with_device (\<lambda>d. d\<lparr>lh_buf := blocks_of s ! unat b\<rparr>) s)"
proof -
  have "dev_wf (sfs_device s)" "biglock_depth s > 0" "lh_status (sfs_device s) = []"
    using assms(1) by (auto simp: vol_healthy_def vol_ok_def)
  from sfs_readblock_eq [OF this(1) healthy_bound [OF assms] this(2)] this(3) show ?thesis
    by (simp add: blocks_of_def with_device_def)
qed

lemma healthy_write:
  assumes "vol_healthy s" and "unat b < nblocks s" and "length data = 512"
  shows "sfs_writeblock b data s
    = (Inr (), with_device (\<lambda>d. d\<lparr>lh_buf := data, lh_disk := (lh_disk d)[unat b := data]\<rparr>) s)"
proof -
  have "dev_wf (sfs_device s)" "biglock_depth s > 0" "lh_status (sfs_device s) = []"
    using assms(1) by (auto simp: vol_healthy_def vol_ok_def)
  from sfs_writeblock_eq [OF this(1) healthy_bound [OF assms(1,2)] this(2) assms(3)] this(3) show ?thesis
    by (simp add: with_device_def)
qed

text \<open>The volume after a transfer: \<open>s'\<close> differs from \<open>s\<close> only in the device.\<close>

definition dev_step :: "sfs_fs \<Rightarrow> u8 list list \<Rightarrow> sfs_fs \<Rightarrow> bool" where
  "dev_step s bs s' \<longleftrightarrow> sans_device s' = sans_device s \<and> blocks_of s' = bs \<and> vol_healthy s'"

lemma sans_device_fields:
  assumes "sans_device s' = sans_device s"
  shows "sfs_sb s' = sfs_sb s" "sfs_freemap s' = sfs_freemap s" "sfs_mem s' = sfs_mem s"
    "biglock_depth s' = biglock_depth s" "sfs_vnodes s' = sfs_vnodes s" "sfs_freemapdirty s' = sfs_freemapdirty s"
    "sfs_superdirty s' = sfs_superdirty s" "sfs_next s' = sfs_next s" "sfs_kmalloc s' = sfs_kmalloc s"
    "nblocks s' = nblocks s" "in_use s' = in_use s"
proof -
  have "f (sans_device s') = f (sans_device s)" for f :: "sfs_fs \<Rightarrow> 'a" using assms by simp
  from this [of sfs_sb] this [of sfs_freemap] this [of sfs_mem] this [of biglock_depth] this [of sfs_vnodes]
    this [of sfs_freemapdirty] this [of sfs_superdirty] this [of sfs_next] this [of sfs_kmalloc]
  show "sfs_sb s' = sfs_sb s" "sfs_freemap s' = sfs_freemap s" "sfs_mem s' = sfs_mem s"
    "biglock_depth s' = biglock_depth s" "sfs_vnodes s' = sfs_vnodes s" "sfs_freemapdirty s' = sfs_freemapdirty s"
    "sfs_superdirty s' = sfs_superdirty s" "sfs_next s' = sfs_next s" "sfs_kmalloc s' = sfs_kmalloc s"
    "nblocks s' = nblocks s" "in_use s' = in_use s"
    by (simp_all add: sans_device_def nblocks_def in_use_def)
qed

lemma dev_stepI:
  assumes "vol_healthy s" and "vol_ok s'" and "s' = with_device f s" and "lh_status (f (sfs_device s)) = []"
    and "d_blocks (f (sfs_device s)) = d_blocks (sfs_device s)" and "blocks_of s' = bs"
  shows "dev_step s bs s'"
  using assms by (auto simp: dev_step_def vol_healthy_def with_device_def in_use_def nblocks_def sans_device_def)

lemma read_step:
  assumes "vol_healthy s" and "unat b < nblocks s"
  shows "\<exists>s'. sfs_readblock b 512 s = (Inr (blocks_of s ! unat b), s') \<and> dev_step s (blocks_of s) s'"
proof -
  let ?s = "with_device (\<lambda>d. d\<lparr>lh_buf := blocks_of s ! unat b\<rparr>) s"
  have "vol_ok ?s"
    using assms healthy_length [OF assms] by (auto simp: vol_healthy_def vol_ok_def dev_wf_def with_device_def blocks_of_def)
  then have "dev_step s (blocks_of s) ?s"
    using assms(1) by (intro dev_stepI [where f = "\<lambda>d. d\<lparr>lh_buf := blocks_of s ! unat b\<rparr>"]) (auto simp: vol_healthy_def blocks_of_def with_device_def)
  with healthy_read [OF assms] show ?thesis by blast
qed

lemma write_step:
  assumes "vol_healthy s" and "unat b < nblocks s" and "length data = 512"
  shows "\<exists>s'. sfs_writeblock b data s = (Inr (), s') \<and> dev_step s ((blocks_of s)[unat b := data]) s'"
proof -
  let ?s = "with_device (\<lambda>d. d\<lparr>lh_buf := data, lh_disk := (lh_disk d)[unat b := data]\<rparr>) s"
  have "vol_ok ?s"
    using assms by (auto simp: vol_healthy_def vol_ok_def dev_wf_def with_device_def
        dest!: set_update_subset_insert [THEN subsetD])
  then have "dev_step s ((blocks_of s)[unat b := data]) ?s"
    using assms(1)
    by (intro dev_stepI [where f = "\<lambda>d. d\<lparr>lh_buf := data, lh_disk := (lh_disk d)[unat b := data]\<rparr>"]) (auto simp: vol_healthy_def blocks_of_def with_device_def)
  with healthy_write [OF assms] show ?thesis by blast
qed

subsection \<open>Allocation\<close>

text \<open>\<open>s'\<close> is \<open>s\<close> with the free block \<open>b\<close> allocated and zeroed.\<close>

definition allocated :: "sfs_fs \<Rightarrow> daddr \<Rightarrow> sfs_fs \<Rightarrow> bool" where
  "allocated s b s' \<longleftrightarrow> unat b < nblocks s \<and> unat b \<notin> in_use s \<and> b \<noteq> 0
     \<and> in_use s' = insert (unat b) (in_use s) \<and> blocks_of s' = (blocks_of s)[unat b := replicate 512 0]
     \<and> sfs_mem s' = sfs_mem s \<and> sfs_sb s' = sfs_sb s \<and> biglock_depth s' = biglock_depth s
     \<and> sfs_vnodes s' = sfs_vnodes s \<and> sfs_freemapdirty s' \<and> vol_healthy s'"

lemma balloc_ok:
  assumes "vol_healthy s"
  shows "case sfs_balloc s of
      (Inr b, s') \<Rightarrow> allocated s b s'
    | (Inl e, s') \<Rightarrow> e = ENOSPC \<and> s' = s \<and> {..<nblocks s} \<subseteq> in_use s"
proof -
  have wf: "bitmap_wf (sfs_freemap s)" using assms by (simp add: vol_healthy_def)
  obtain r bm where al: "bitmap_alloc (sfs_freemap s) = (r, bm)" by (cases "bitmap_alloc (sfs_freemap s)")
  show ?thesis
  proof (cases r)
    case (Inl e)
    then have e: "e = ENOSPC" "bm = sfs_freemap s" "in_use s = {..<unat (nbits (sfs_freemap s))}"
      using freemap.alloc_err [OF wf, of e bm] al by (auto simp: in_use_def)
    have "nblocks s \<le> unat (nbits (sfs_freemap s))"
      using assms by (simp add: vol_healthy_def nblocks_def word_le_nat_alt)
    with e Inl al show ?thesis by (auto simp: sfs_balloc_def kmonad_defs on_freemap_def)
  next
    case (Inr b)
    then have b: "unat b < unat (nbits (sfs_freemap s))" "unat b \<notin> in_use s" "used bm = insert (unat b) (in_use s)"
      "bitmap_wf bm" "nbits bm = nbits (sfs_freemap s)"
      using freemap.alloc_ok [OF wf, of b bm] al by (auto simp: in_use_def unsigned_word_eqI)
    then have lt: "unat b < nblocks s" using assms by (auto simp: vol_healthy_def not_le)
    define s1 where "s1 = s\<lparr>sfs_freemap := bm, sfs_freemapdirty := True\<rparr>"
    have h1: "vol_healthy s1"
      using assms b by (auto simp: vol_healthy_def s1_def vol_ok_def nblocks_def in_use_def)
    have "unat b < nblocks s1" using lt by (simp add: s1_def nblocks_def)
    from write_step [OF h1 this, of "replicate 512 0"] obtain s2 where
      s2: "sfs_writeblock b (replicate 512 0) s1 = (Inr (), s2)"
      and step: "dev_step s1 ((blocks_of s1)[unat b := replicate 512 0]) s2" by auto
    have "\<not> b \<ge> sb_nblocks (sfs_sb s)" using lt by (simp add: nblocks_def word_less_nat_alt not_le)
    then have run: "sfs_balloc s = (Inr b, s2)"
      using al Inr s2
      by (simp add: sfs_balloc_def kmonad_defs on_freemap_def sfs_clearblock_def s1_def)
    have "b \<noteq> 0" using b(2) assms by (auto simp: vol_healthy_def)
    then have "allocated s b s2"
      using step b lt sans_device_fields [of s2 s1]
      by (auto simp: allocated_def dev_step_def in_use_def s1_def blocks_of_def)
    with run show ?thesis by simp
  qed
qed

lemma bfree_ok:
  assumes "vol_healthy s" and "unat b \<in> in_use s" and "unat b < nblocks s" and "b \<noteq> 0"
  shows "\<exists>s'. sfs_bfree b s = (Inr (), s') \<and> vol_healthy s' \<and> in_use s' = in_use s - {unat b}
    \<and> blocks_of s' = blocks_of s \<and> sfs_mem s' = sfs_mem s \<and> sfs_sb s' = sfs_sb s
    \<and> biglock_depth s' = biglock_depth s \<and> sfs_vnodes s' = sfs_vnodes s"
proof -
  have wf: "bitmap_wf (sfs_freemap s)" using assms by (simp add: vol_healthy_def)
  from freemap.release_ok [OF wf, of b] assms(2) obtain bm where
    bm: "bitmap_unmark b (sfs_freemap s) = (Inr (), bm)" "used bm = in_use s - {unat b}" "bitmap_wf bm"
    "unat (nbits bm) = unat (nbits (sfs_freemap s))"
    by (auto simp: in_use_def)
  then have "nbits bm = nbits (sfs_freemap s)" by (simp add: unsigned_word_eqI)
  moreover have "0 \<noteq> unat b" using assms(4) by (simp add: unat_eq_0)
  ultimately show ?thesis
    using assms bm
    by (auto simp: sfs_bfree_def kmonad_defs on_freemap_def vol_healthy_def vol_ok_def in_use_def nblocks_def blocks_of_def)
qed

lemma bused_ok:
  assumes "vol_healthy s" and "unat b < nblocks s"
  shows "sfs_bused b s = (Inr (unat b \<in> in_use s), s)"
proof -
  have "b < nbits (sfs_freemap s)" "\<not> b \<ge> sb_nblocks (sfs_sb s)" "bitmap_wf (sfs_freemap s)"
    using assms by (auto simp: vol_healthy_def nblocks_def word_less_nat_alt word_le_nat_alt)
  with bitmap_isset_eq [of "sfs_freemap s" b] show ?thesis
    by (auto simp: sfs_bused_def kmonad_defs on_freemap_def in_use_def)
qed

lemma hand_back_ok:
  assumes "vol_healthy s" and "b = 0 \<or> unat b < nblocks s \<and> unat b \<in> in_use s"
  shows "hand_back b s = (Inr b, s)"
  using assms bused_ok [OF assms(1), of b] by (auto simp: hand_back_def kmonad_defs)

subsection \<open>The block map of an inode\<close>

text \<open>All block pointers of an inode: the direct ones, the indirect one, and those in its block.\<close>

definition indirect_words :: "sfs_fs \<Rightarrow> sfs_dinode \<Rightarrow> u32 list" where
  "indirect_words s i =
     (if sfi_indirect i = 0 then replicate SFS_DBPERIDB 0 else words_of (blocks_of s ! unat (sfi_indirect i)))"

definition slots :: "sfs_fs \<Rightarrow> sfs_dinode \<Rightarrow> u32 list" where
  "slots s i = sfi_direct i @ sfi_indirect i # indirect_words s i"

definition slot_of :: "nat \<Rightarrow> nat" where
  "slot_of k = (if k < SFS_NDIRECT then k else Suc k)"

text \<open>The largest number of data blocks of a file: 15 direct ones and 128 in the indirect block.\<close>

definition max_blocks :: nat where "max_blocks = 143"

definition file_block :: "sfs_fs \<Rightarrow> sfs_dinode \<Rightarrow> nat \<Rightarrow> u32" where
  "file_block s i k = (if k < max_blocks then slots s i ! slot_of k else 0)"

definition mapped :: "sfs_fs \<Rightarrow> sfs_dinode \<Rightarrow> u32 list" where
  "mapped s i = filter (\<lambda>b. b \<noteq> 0) (slots s i)"

definition inode_ok :: "sfs_fs \<Rightarrow> sfs_dinode \<Rightarrow> bool" where
  "inode_ok s i \<longleftrightarrow> dinode_wf i \<and> length (indirect_words s i) = SFS_DBPERIDB \<and> distinct (mapped s i)
     \<and> (\<forall>b \<in> set (mapped s i). unat b < nblocks s \<and> unat b \<in> in_use s)"

lemma words_of_zeros: "words_of (replicate 512 0) = replicate SFS_DBPERIDB 0"
proof -
  have zero: "be_bytes 4 (0 :: u32) = [0, 0, 0, 0]" "replicate 4 (0 :: u8) = [0, 0, 0, 0]"
    by (simp add: be_bytes_4 byte_of_def) (simp add: numeral_eq_Suc)
  have "bytes_of_words (replicate n 0) = replicate (4 * n) 0" for n
    by (induction n) (simp_all add: bytes_of_words_def zero replicate_add)
  from this [of 128] have "replicate 512 0 = bytes_of_words (replicate 128 0)" by simp
  then show ?thesis by simp
qed

lemma slots_length: "inode_ok s i \<Longrightarrow> length (slots s i) = 144"
  by (simp add: slots_def inode_ok_def dinode_wf_def)

lemma slots_nth:
  assumes "dinode_wf i"
  shows "k < 15 \<Longrightarrow> slots s i ! k = sfi_direct i ! k" and "slots s i ! 15 = sfi_indirect i"
    and "slots s i ! (16 + k) = indirect_words s i ! k"
  using assms by (auto simp: slots_def dinode_wf_def nth_append)

lemma slot_used: "inode_ok s i \<Longrightarrow> k < 144 \<Longrightarrow> slots s i ! k \<noteq> 0 \<Longrightarrow>
    unat (slots s i ! k) < nblocks s \<and> unat (slots s i ! k) \<in> in_use s"
  using slots_length [of s i] by (auto simp: inode_ok_def mapped_def)

lemma filter_update:
  assumes "k < length xs" and "\<not> P (xs ! k)" and "P b" and "distinct (filter P xs)" and "b \<notin> set xs"
  shows "distinct (filter P (xs[k := b]))" and "set (filter P (xs[k := b])) = insert b (set (filter P xs))"
proof -
  have xs: "xs = take k xs @ xs ! k # drop (Suc k) xs" using assms(1) by (rule id_take_nth_drop)
  have f: "filter P xs = filter P (take k xs) @ filter P (drop (Suc k) xs)"
    using assms(2) by (subst xs) (simp del: append_take_drop_id)
  have g: "filter P (xs[k := b]) = filter P (take k xs) @ b # filter P (drop (Suc k) xs)"
    using assms(1,3) by (simp add: upd_conv_take_nth_drop)
  have "b \<notin> set (take k xs)" "b \<notin> set (drop (Suc k) xs)"
    using assms(5) by (auto dest: in_set_takeD in_set_dropD)
  with assms(4) f g show "distinct (filter P (xs[k := b]))" by auto
  from f g show "set (filter P (xs[k := b])) = insert b (set (filter P xs))" by auto
qed

text \<open>A pointer slot that was empty now points to a fresh block.\<close>

lemma inode_ok_extend:
  assumes ok: "inode_ok s i" and fresh: "unat b < nblocks s" "unat b \<notin> in_use s" "b \<noteq> 0"
    and slots': "slots s' i' = (slots s i)[k := b]" "slots s i ! k = 0" "k < 144"
    and wf: "dinode_wf i'" "length (indirect_words s' i') = SFS_DBPERIDB"
    and s': "nblocks s' = nblocks s" "in_use s' = insert (unat b) (in_use s)"
  shows "inode_ok s' i'"
proof -
  have new: "b \<notin> set (slots s i)"
  proof
    assume "b \<in> set (slots s i)"
    then have "b \<in> set (mapped s i)" using fresh(3) by (simp add: mapped_def)
    with ok fresh(2) show False by (simp add: inode_ok_def)
  qed
  have "k < length (slots s i)" using slots_length [OF ok] slots'(3) by simp
  from filter_update [OF this, of "\<lambda>b. b \<noteq> 0" b] ok slots'(2) fresh(3) new
  have "distinct (mapped s' i')" "set (mapped s' i') = insert b (set (mapped s i))"
    unfolding mapped_def slots'(1) by (auto simp: inode_ok_def mapped_def)
  with ok wf s' fresh(1) show ?thesis by (auto simp: inode_ok_def)
qed

lemma indirect_words_frame:
  assumes "sfi_indirect i' = sfi_indirect i"
    and "sfi_indirect i \<noteq> 0 \<Longrightarrow> blocks_of s' ! unat (sfi_indirect i) = blocks_of s ! unat (sfi_indirect i)"
  shows "indirect_words s' i' = indirect_words s i"
  using assms by (simp add: indirect_words_def)

lemma file_block_cong: "slots s' i' = slots s i \<Longrightarrow> file_block s' i' = file_block s i"
  by (simp add: file_block_def fun_eq_iff)

lemma file_block_update:
  assumes "slots s' i' = (slots s i)[slot_of fb := b]" and "length (slots s i) = 144" and "fb < max_blocks"
  shows "file_block s' i' = (file_block s i)(fb := b)"
  using assms by (auto simp: file_block_def fun_eq_iff slot_of_def max_blocks_def)

subsection \<open>sfs_bmap implements the map\<close>

text \<open>
  What an extension of the map leaves: the rest of the inode, the other vnodes, the contents
  of every block in use but the inode's own indirect block, the nesting of the big lock.
\<close>

definition frame_ok :: "sfs_fs \<Rightarrow> nat \<Rightarrow> sfs_vnode \<Rightarrow> sfs_fs \<Rightarrow> sfs_vnode \<Rightarrow> bool" where
  "frame_ok s p sv s' sv' \<longleftrightarrow>
     sfs_mem s' = (sfs_mem s)(p := Some sv') \<and> vol_healthy s' \<and> inode_ok s' (sv_i sv')
     \<and> sv_i sv' = (sv_i sv)\<lparr>sfi_direct := sfi_direct (sv_i sv'), sfi_indirect := sfi_indirect (sv_i sv')\<rparr>
     \<and> sv_ino sv' = sv_ino sv \<and> vn_refcount sv' = vn_refcount sv
     \<and> in_use s \<subseteq> in_use s' \<and> sfs_sb s' = sfs_sb s \<and> biglock_depth s' = biglock_depth s
     \<and> sfs_vnodes s' = sfs_vnodes s
     \<and> (\<forall>x \<in> in_use s. sfi_indirect (sv_i sv) = 0 \<or> x \<noteq> unat (sfi_indirect (sv_i sv)) \<longrightarrow>
          blocks_of s' ! x = blocks_of s ! x)"

lemma frame_ok_same:
  assumes "dev_step s (blocks_of s) s'" and "sfs_mem s p = Some sv" and "inode_ok s (sv_i sv)"
  shows "frame_ok s p sv s' sv" and "slots s' (sv_i sv) = slots s (sv_i sv)"
proof -
  note f = sans_device_fields [of s' s]
  have b: "blocks_of s' = blocks_of s" using assms(1) by (simp add: dev_step_def)
  then have iw: "indirect_words s' i = indirect_words s i" for i by (simp add: indirect_words_def)
  then show sl: "slots s' (sv_i sv) = slots s (sv_i sv)" by (simp add: slots_def)
  show "frame_ok s p sv s' sv"
    using assms f b iw sl by (auto simp: frame_ok_def dev_step_def inode_ok_def mapped_def fun_upd_idem)
qed

lemma balloc_frame:
  assumes "allocated s b s1" and "x \<in> in_use s"
  shows "blocks_of s1 ! x = blocks_of s ! x"
proof -
  have "unat b \<noteq> x" using assms by (auto simp: allocated_def)
  then show ?thesis using assms(1) by (simp add: allocated_def)
qed

lemma direct_alloc_ok:
  assumes vol: "vol_healthy s" and sv: "sfs_mem s p = Some sv" and ok: "inode_ok s (sv_i sv)"
    and fb: "fb < 15" and empty: "sfi_direct (sv_i sv) ! fb = 0"
  shows "\<exists>r s' sv'. map_direct p fb 0 True s = (r, s') \<and> frame_ok s p sv s' sv' \<and>
    (case r of
       Inl e \<Rightarrow> e = ENOSPC \<and> slots s' (sv_i sv') = slots s (sv_i sv)
     | Inr b \<Rightarrow> b \<noteq> 0 \<and> unat b \<notin> in_use s \<and> slots s' (sv_i sv') = (slots s (sv_i sv))[fb := b]
         \<and> blocks_of s' ! unat b = replicate 512 0)"
proof -
  obtain r s1 where al: "sfs_balloc s = (r, s1)" by (cases "sfs_balloc s")
  show ?thesis
  proof (cases r)
    case (Inl e)
    then have e: "e = ENOSPC" "s1 = s" using balloc_ok [OF vol] al by auto
    have "dev_step s (blocks_of s) s" using vol by (simp add: dev_step_def)
    from frame_ok_same(1) [OF this sv ok] al Inl e show ?thesis
      by (intro exI [of _ "Inl ENOSPC"] exI [of _ s] exI [of _ sv]) (simp add: map_direct_def kmonad_defs)
  next
    case (Inr b)
    then have a: "allocated s b s1" using balloc_ok [OF vol] al by auto
    define i where "i = (sv_i sv)\<lparr>sfi_direct := (sfi_direct (sv_i sv))[fb := b]\<rparr>"
    define sv' where "sv' = sv\<lparr>sv_i := i, sv_dirty := True\<rparr>"
    define s2 where "s2 = s1\<lparr>sfs_mem := (sfs_mem s1)(p := Some sv')\<rparr>"
    have s2: "vol_healthy s2" "in_use s2 = insert (unat b) (in_use s)" "nblocks s2 = nblocks s"
      "blocks_of s2 = (blocks_of s)[unat b := replicate 512 0]"
      using a by (auto simp: s2_def allocated_def vol_healthy_def vol_ok_def in_use_def nblocks_def blocks_of_def)
    have ind: "blocks_of s2 ! unat (sfi_indirect (sv_i sv)) = blocks_of s ! unat (sfi_indirect (sv_i sv))"
      if "sfi_indirect (sv_i sv) \<noteq> 0"
      using slot_used [OF ok, of 15] slots_nth(2) [of "sv_i sv" s] ok that
        balloc_frame [OF a, of "unat (sfi_indirect (sv_i sv))"] a
      by (simp add: inode_ok_def s2(4) allocated_def)
    then have iw: "indirect_words s2 i = indirect_words s (sv_i sv)"
      by (intro indirect_words_frame) (simp_all add: i_def)
    have len: "length (sfi_direct (sv_i sv)) = 15" using ok by (simp add: inode_ok_def dinode_wf_def)
    have sl: "slots s2 i = (slots s (sv_i sv))[fb := b]"
      using fb len iw by (simp add: slots_def i_def list_update_append)
    have wf: "dinode_wf i" "length (indirect_words s2 i) = 128"
      using ok iw by (simp_all add: inode_ok_def i_def dinode_wf_def)
    have z: "slots s (sv_i sv) ! fb = 0" using empty fb slots_nth(1) ok by (simp add: inode_ok_def)
    have "inode_ok s2 i"
      using a fb z by (intro inode_ok_extend [OF ok _ _ _ sl _ _ wf s2(3,2)]) (auto simp: allocated_def)
    then have fr: "frame_ok s p sv s2 sv'"
      using s2 a balloc_frame [OF a] by (auto simp: frame_ok_def sv'_def i_def s2_def allocated_def blocks_of_def)
    have "hand_back b s2 = (Inr b, s2)"
      using a s2 by (intro hand_back_ok) (auto simp: allocated_def)
    then have "map_direct p fb 0 True s = (Inr b, s2)"
      using al Inr sv a
      by (simp add: map_direct_def kmonad_defs upd_sv_def allocated_def dirty_inode_def s2_def sv'_def i_def)
    moreover have "unat b < length (blocks_of s)" using a healthy_length [OF vol] by (simp add: allocated_def)
    ultimately show ?thesis
      using fr sl a s2(4) by (intro exI [of _ "Inr b"] exI [of _ s2] exI [of _ sv']) (auto simp: sv'_def allocated_def)
  qed
qed

lemma frame_ok_block:
  "frame_ok s p sv s' sv' \<Longrightarrow> x \<in> in_use s \<Longrightarrow> sfi_indirect (sv_i sv) = 0 \<or> x \<noteq> unat (sfi_indirect (sv_i sv)) \<Longrightarrow>
    blocks_of s' ! x = blocks_of s ! x"
  unfolding frame_ok_def by blast

lemma frame_ok_trans:
  assumes a: "frame_ok s p sv s1 sv1" and b: "frame_ok s1 p sv1 s2 sv2"
    and ind: "sfi_indirect (sv_i sv1) = sfi_indirect (sv_i sv) \<or> unat (sfi_indirect (sv_i sv1)) \<notin> in_use s"
  shows "frame_ok s p sv s2 sv2"
proof -
  have "blocks_of s2 ! x = blocks_of s ! x"
    if "x \<in> in_use s" "sfi_indirect (sv_i sv) = 0 \<or> x \<noteq> unat (sfi_indirect (sv_i sv))" for x
  proof -
    have "x \<in> in_use s1" using a that by (auto simp: frame_ok_def)
    moreover have "sfi_indirect (sv_i sv1) = 0 \<or> x \<noteq> unat (sfi_indirect (sv_i sv1))" using ind that by auto
    ultimately have "blocks_of s2 ! x = blocks_of s1 ! x" by (rule frame_ok_block [OF b])
    then show ?thesis using frame_ok_block [OF a that] by simp
  qed
  moreover have "sv_i sv2 = (sv_i sv)\<lparr>sfi_direct := sfi_direct (sv_i sv2), sfi_indirect := sfi_indirect (sv_i sv2)\<rparr>"
  proof -
    have "sv_i sv2 = ((sv_i sv)\<lparr>sfi_direct := sfi_direct (sv_i sv1), sfi_indirect := sfi_indirect (sv_i sv1)\<rparr>)
        \<lparr>sfi_direct := sfi_direct (sv_i sv2), sfi_indirect := sfi_indirect (sv_i sv2)\<rparr>"
      using a b unfolding frame_ok_def by metis
    then show ?thesis by simp
  qed
  ultimately show ?thesis using a b by (auto simp: frame_ok_def)
qed

lemma indirect_in_use:
  assumes "inode_ok s i" and "sfi_indirect i \<noteq> 0"
  shows "unat (sfi_indirect i) < nblocks s" and "unat (sfi_indirect i) \<in> in_use s"
  using slot_used [OF assms(1), of 15] slots_nth(2) [of i s] assms by (auto simp: inode_ok_def)

lemma load_idblock_ok:
  assumes vol: "vol_healthy s" and sv: "sfs_mem s p = Some sv" and ok: "inode_ok s (sv_i sv)"
  shows "\<exists>r s' sv'. load_idblock p (sfi_indirect (sv_i sv)) s = (r, s') \<and> frame_ok s p sv s' sv' \<and>
    (case r of
       Inl e \<Rightarrow> e = ENOSPC \<and> slots s' (sv_i sv') = slots s (sv_i sv)
     | Inr (idb, buf) \<Rightarrow> idb = sfi_indirect (sv_i sv') \<and> idb \<noteq> 0 \<and> buf = indirect_words s' (sv_i sv')
         \<and> slots s' (sv_i sv') = (slots s (sv_i sv))[15 := idb]
         \<and> (idb = sfi_indirect (sv_i sv) \<or> unat idb \<notin> in_use s))"
proof (cases "sfi_indirect (sv_i sv) = 0")
  case False
  note iu = indirect_in_use [OF ok False]
  from read_step [OF vol iu(1)] obtain s' where
    r: "sfs_readblock (sfi_indirect (sv_i sv)) 512 s = (Inr (blocks_of s ! unat (sfi_indirect (sv_i sv))), s')"
    and step: "dev_step s (blocks_of s) s'" by blast
  note f = frame_ok_same [OF step sv ok]
  have "blocks_of s' = blocks_of s" using step by (simp add: dev_step_def)
  then have "words_of (blocks_of s ! unat (sfi_indirect (sv_i sv))) = indirect_words s' (sv_i sv)"
    using False by (simp add: indirect_words_def)
  moreover have "(slots s (sv_i sv))[15 := sfi_indirect (sv_i sv)] = slots s (sv_i sv)"
    using slots_nth(2) [of "sv_i sv" s] ok by (metis inode_ok_def list_update_id)
  ultimately show ?thesis
    using f r False
    by (intro exI [of _ "Inr (sfi_indirect (sv_i sv), indirect_words s' (sv_i sv))"] exI [of _ s'] exI [of _ sv])
      (simp add: load_idblock_def kmonad_defs)
next
  case True
  obtain r s1 where al: "sfs_balloc s = (r, s1)" by (cases "sfs_balloc s")
  show ?thesis
  proof (cases r)
    case (Inl e)
    then have e: "e = ENOSPC" "s1 = s" using balloc_ok [OF vol] al by auto
    have "dev_step s (blocks_of s) s" using vol by (simp add: dev_step_def)
    from frame_ok_same(1) [OF this sv ok] al Inl e True show ?thesis
      by (intro exI [of _ "Inl ENOSPC"] exI [of _ s] exI [of _ sv]) (simp add: load_idblock_def kmonad_defs)
  next
    case (Inr b)
    then have a: "allocated s b s1" using balloc_ok [OF vol] al by auto
    define i where "i = (sv_i sv)\<lparr>sfi_indirect := b\<rparr>"
    define sv' where "sv' = sv\<lparr>sv_i := i, sv_dirty := True\<rparr>"
    define s2 where "s2 = s1\<lparr>sfs_mem := (sfs_mem s1)(p := Some sv')\<rparr>"
    have s2: "vol_healthy s2" "in_use s2 = insert (unat b) (in_use s)" "nblocks s2 = nblocks s"
      "blocks_of s2 = (blocks_of s)[unat b := replicate 512 0]"
      using a by (auto simp: s2_def allocated_def vol_healthy_def vol_ok_def in_use_def nblocks_def blocks_of_def)
    have "unat b < length (blocks_of s)" using a healthy_length [OF vol] by (simp add: allocated_def)
    then have iw: "indirect_words s2 i = replicate 128 0"
      using a by (simp add: indirect_words_def i_def s2(4) words_of_zeros allocated_def)
    then have "indirect_words s2 i = indirect_words s (sv_i sv)" using True by (simp add: indirect_words_def)
    moreover have "length (sfi_direct (sv_i sv)) = 15" using ok by (simp add: inode_ok_def dinode_wf_def)
    ultimately have sl: "slots s2 i = (slots s (sv_i sv))[15 := b]"
      by (simp add: slots_def i_def list_update_append)
    have wf: "dinode_wf i" "length (indirect_words s2 i) = 128"
      using ok iw by (simp_all add: inode_ok_def i_def dinode_wf_def)
    have z: "slots s (sv_i sv) ! 15 = 0" using True slots_nth(2) ok by (simp add: inode_ok_def)
    have "inode_ok s2 i"
      using a z by (intro inode_ok_extend [OF ok _ _ _ sl _ _ wf s2(3,2)]) (auto simp: allocated_def)
    then have fr: "frame_ok s p sv s2 sv'"
      using s2 a balloc_frame [OF a] by (auto simp: frame_ok_def sv'_def i_def s2_def allocated_def blocks_of_def)
    have "load_idblock p (sfi_indirect (sv_i sv)) s = (Inr (b, replicate 128 0), s2)"
      using al Inr sv a True
      by (simp add: load_idblock_def kmonad_defs upd_sv_def allocated_def dirty_inode_def s2_def sv'_def i_def)
    then show ?thesis
      using fr sl a iw
      by (intro exI [of _ "Inr (b, replicate 128 0)"] exI [of _ s2] exI [of _ sv'])
        (auto simp: sv'_def i_def allocated_def)
  qed
qed

lemma map_indirect_alloc_ok:
  assumes vol: "vol_healthy s" and sv: "sfs_mem s p = Some sv" and ok: "inode_ok s (sv_i sv)"
    and id: "sfi_indirect (sv_i sv) \<noteq> 0" and off: "off < 128" and empty: "indirect_words s (sv_i sv) ! off = 0"
  shows "\<exists>r s'. map_indirect off True (sfi_indirect (sv_i sv), indirect_words s (sv_i sv)) s = (r, s')
    \<and> frame_ok s p sv s' sv \<and>
    (case r of
       Inl e \<Rightarrow> e = ENOSPC \<and> slots s' (sv_i sv) = slots s (sv_i sv)
     | Inr b \<Rightarrow> b \<noteq> 0 \<and> unat b \<notin> in_use s \<and> slots s' (sv_i sv) = (slots s (sv_i sv))[16 + off := b]
         \<and> blocks_of s' ! unat b = replicate 512 0)"
proof -
  let ?i = "sv_i sv" and ?id = "sfi_indirect (sv_i sv)" and ?buf = "indirect_words s (sv_i sv)"
  note iu = indirect_in_use [OF ok id]
  obtain r s1 where al: "sfs_balloc s = (r, s1)" by (cases "sfs_balloc s")
  show ?thesis
  proof (cases r)
    case (Inl e)
    then have e: "e = ENOSPC" "s1 = s" using balloc_ok [OF vol] al by auto
    have "dev_step s (blocks_of s) s" using vol by (simp add: dev_step_def)
    from frame_ok_same(1) [OF this sv ok] al Inl e empty show ?thesis
      by (intro exI [of _ "Inl ENOSPC"] exI [of _ s]) (simp add: map_indirect_def kmonad_defs)
  next
    case (Inr b)
    then have a: "allocated s b s1" using balloc_ok [OF vol] al by auto
    have len: "length ?buf = 128" using ok by (simp add: inode_ok_def)
    have v1: "vol_healthy s1" "unat ?id < nblocks s1" using a iu by (auto simp: allocated_def nblocks_def)
    from write_step [OF v1, of "bytes_of_words (?buf[off := b])"] len obtain s2 where
      w: "sfs_writeblock ?id (bytes_of_words (?buf[off := b])) s1 = (Inr (), s2)"
      and step: "dev_step s1 ((blocks_of s1)[unat ?id := bytes_of_words (?buf[off := b])]) s2" by auto
    note f = sans_device_fields [of s2 s1]
    have s2: "vol_healthy s2" "in_use s2 = insert (unat b) (in_use s)" "nblocks s2 = nblocks s"
      "blocks_of s2 = (blocks_of s1)[unat ?id := bytes_of_words (?buf[off := b])]" "sfs_mem s2 = sfs_mem s"
      "sfs_sb s2 = sfs_sb s" "biglock_depth s2 = biglock_depth s" "sfs_vnodes s2 = sfs_vnodes s"
      using step f a by (auto simp: dev_step_def allocated_def nblocks_def)
    have idl: "unat ?id < length (blocks_of s1)" using healthy_length [OF v1] .
    have iw: "indirect_words s2 ?i = ?buf[off := b]"
      using id idl by (simp add: indirect_words_def s2(4) words_of_bytes)
    have dl: "length (sfi_direct ?i) = 15" using ok by (simp add: inode_ok_def dinode_wf_def)
    have sl: "slots s2 ?i = (slots s ?i)[16 + off := b]"
      using dl iw by (simp add: slots_def list_update_append)
    have z: "slots s ?i ! (16 + off) = 0" using empty slots_nth(3) ok by (simp add: inode_ok_def)
    have wf: "dinode_wf ?i" "length (indirect_words s2 ?i) = 128" using ok iw by (simp_all add: inode_ok_def)
    have ok2: "inode_ok s2 ?i"
      using a z off by (intro inode_ok_extend [OF ok _ _ _ sl _ _ wf s2(3,2)]) (auto simp: allocated_def)
    have "blocks_of s2 ! x = blocks_of s ! x" if "x \<in> in_use s" "x \<noteq> unat ?id" for x
      using balloc_frame [OF a that(1)] that(2) by (simp add: s2(4))
    then have fr: "frame_ok s p sv s2 sv" using s2 ok2 sv id by (auto simp: frame_ok_def fun_upd_idem)
    have "hand_back b s2 = (Inr b, s2)"
      using a s2 by (intro hand_back_ok) (auto simp: allocated_def)
    then have run: "map_indirect off True (?id, ?buf) s = (Inr b, s2)"
      using al Inr w empty by (simp add: map_indirect_def kmonad_defs)
    have "unat ?id \<noteq> unat b" using iu(2) a by (auto simp: allocated_def)
    moreover have "unat b < length (blocks_of s)" using a healthy_length [OF vol] by (simp add: allocated_def)
    ultimately have "blocks_of s2 ! unat b = replicate 512 0"
      using a by (simp add: s2(4) allocated_def)
    with run fr sl a show ?thesis
      by (intro exI [of _ "Inr b"] exI [of _ s2]) (simp add: allocated_def)
  qed
qed

lemma bmap_index:
  assumes "\<not> (fb :: u32) < 15"
  shows "(fb - 15) div 128 \<ge> SFS_NINDIRECT \<longleftrightarrow> \<not> unat fb < max_blocks"
    and "unat fb < max_blocks \<Longrightarrow> unat ((fb - 15) mod 128) = unat fb - 15"
proof -
  have u: "unat (fb - 15) = unat fb - 15"
    using assms by (simp add: unat_sub word_less_nat_alt word_le_nat_alt)
  have ge: "15 \<le> unat fb" using assms by (simp add: word_less_nat_alt)
  have "(fb - 15) div 128 \<ge> SFS_NINDIRECT \<longleftrightarrow> 1 \<le> (unat fb - 15) div 128"
    by (simp add: SFS_NINDIRECT_def word_le_nat_alt unat_div u)
  also have "\<dots> \<longleftrightarrow> 143 \<le> unat fb" using ge by (simp add: le_div_geq div_greater_zero_iff Suc_le_eq) linarith
  finally show "(fb - 15) div 128 \<ge> SFS_NINDIRECT \<longleftrightarrow> \<not> unat fb < max_blocks"
    by (simp add: max_blocks_def not_less)
  show "unat fb < max_blocks \<Longrightarrow> unat ((fb - 15) mod 128) = unat fb - 15"
    using ge by (simp add: unat_mod u max_blocks_def)
qed

lemma bmap_unfold:
  assumes "vol_healthy s" and "sfs_mem s p = Some sv"
  shows "sfs_bmap p fb doalloc s =
    (if fb < 15 then map_direct p (unat fb) (sfi_direct (sv_i sv) ! unat fb) doalloc s
     else if \<not> unat fb < max_blocks then (Inl EFBIG, s)
     else if sfi_indirect (sv_i sv) = 0 \<and> \<not> doalloc then (Inr 0, s)
     else kbind (load_idblock p (sfi_indirect (sv_i sv))) (map_indirect (unat fb - 15) doalloc) s)"
  using assms bmap_index [of fb]
  by (auto simp: sfs_bmap_def kmonad_defs get_sv_def vfs_biglock_do_i_hold_def vol_healthy_def vol_ok_def Let_def)

lemma bmap_lookup_ok:
  assumes vol: "vol_healthy s" and sv: "sfs_mem s p = Some sv" and ok: "inode_ok s (sv_i sv)"
    and fb: "unat fb < max_blocks" and look: "\<not> doalloc \<or> file_block s (sv_i sv) (unat fb) \<noteq> 0"
  shows "\<exists>s'. sfs_bmap p fb doalloc s = (Inr (file_block s (sv_i sv) (unat fb)), s')
    \<and> dev_step s (blocks_of s) s'"
proof (cases "fb < 15")
  case True
  then have k: "unat fb < 15" by (simp add: word_less_nat_alt)
  define b where "b = sfi_direct (sv_i sv) ! unat fb"
  have b: "file_block s (sv_i sv) (unat fb) = b" "slots s (sv_i sv) ! unat fb = b"
    using k fb ok slots_nth(1) by (simp_all add: file_block_def slot_of_def b_def inode_ok_def)
  then have "b = 0 \<or> unat b < nblocks s \<and> unat b \<in> in_use s"
    using slot_used [OF ok, of "unat fb"] k by auto
  then have "hand_back b s = (Inr b, s)" by (rule hand_back_ok [OF vol])
  moreover have "b = 0 \<Longrightarrow> \<not> doalloc" using look b by auto
  ultimately have "sfs_bmap p fb doalloc s = (Inr b, s)"
    using True by (cases "b = 0") (simp_all add: bmap_unfold [OF vol sv] map_direct_def kmonad_defs b_def [symmetric])
  then show ?thesis using b vol by (auto simp: dev_step_def)
next
  case False
  define off where "off = unat fb - 15"
  have off: "off < 128" "unat fb = 15 + off" using False fb by (auto simp: off_def max_blocks_def word_less_nat_alt)
  define b where "b = indirect_words s (sv_i sv) ! off"
  have b: "file_block s (sv_i sv) (unat fb) = b" "slots s (sv_i sv) ! (16 + off) = b"
    using fb ok slots_nth(3) off by (simp_all add: file_block_def slot_of_def b_def inode_ok_def)
  show ?thesis
  proof (cases "sfi_indirect (sv_i sv) = 0")
    case True
    then have "b = 0" using off by (simp add: b_def indirect_words_def)
    with look b have "\<not> doalloc" by simp
    with True False fb b \<open>b = 0\<close> vol show ?thesis
      by (auto simp: bmap_unfold [OF vol sv] dev_step_def)
  next
    case ind: False
    note iu = indirect_in_use [OF ok ind]
    from read_step [OF vol iu(1)] obtain s' where
      r: "sfs_readblock (sfi_indirect (sv_i sv)) 512 s = (Inr (blocks_of s ! unat (sfi_indirect (sv_i sv))), s')"
      and step: "dev_step s (blocks_of s) s'" by blast
    have "b = 0 \<or> unat b < nblocks s' \<and> unat b \<in> in_use s'"
      using slot_used [OF ok, of "16 + off"] off b sans_device_fields [of s' s] step by (auto simp: dev_step_def)
    then have hb: "hand_back b s' = (Inr b, s')" using step by (intro hand_back_ok) (auto simp: dev_step_def)
    have bw: "words_of (blocks_of s ! unat (sfi_indirect (sv_i sv))) ! off = b"
      using ind by (simp add: b_def indirect_words_def)
    have "b = 0 \<Longrightarrow> \<not> doalloc" using look b by auto
    with r hb bw ind False fb have "sfs_bmap p fb doalloc s = (Inr b, s')"
      by (cases "b = 0") (simp_all add: bmap_unfold [OF vol sv] load_idblock_def map_indirect_def kmonad_defs off_def [symmetric] Let_def)
    with b step show ?thesis by auto
  qed
qed

text \<open>Extension of the map at an empty place.\<close>

definition bmap_extends :: "sfs_fs \<Rightarrow> sfs_vnode \<Rightarrow> nat \<Rightarrow> daddr result \<Rightarrow> sfs_fs \<Rightarrow> sfs_vnode \<Rightarrow> bool" where
  "bmap_extends s sv fb r s' sv' \<longleftrightarrow>
     (case r of
        Inl e \<Rightarrow> e = ENOSPC \<and> file_block s' (sv_i sv') = file_block s (sv_i sv)
      | Inr b \<Rightarrow> b \<noteq> 0 \<and> unat b \<notin> in_use s \<and> file_block s' (sv_i sv') = (file_block s (sv_i sv))(fb := b)
          \<and> blocks_of s' ! unat b = replicate 512 0)"

lemma bmap_alloc_ok:
  assumes vol: "vol_healthy s" and sv: "sfs_mem s p = Some sv" and ok: "inode_ok s (sv_i sv)"
    and fb: "unat fb < max_blocks" and empty: "file_block s (sv_i sv) (unat fb) = 0"
  shows "\<exists>r s' sv'. sfs_bmap p fb True s = (r, s') \<and> frame_ok s p sv s' sv' \<and> bmap_extends s sv (unat fb) r s' sv'"
proof (cases "fb < 15")
  case True
  then have k: "unat fb < 15" by (simp add: word_less_nat_alt)
  have z: "sfi_direct (sv_i sv) ! unat fb = 0"
    using empty k fb ok slots_nth(1) by (simp add: file_block_def slot_of_def inode_ok_def)
  obtain r s' sv' where m: "map_direct p (unat fb) 0 True s = (r, s')" "frame_ok s p sv s' sv'"
    "case r of Inl e \<Rightarrow> e = ENOSPC \<and> slots s' (sv_i sv') = slots s (sv_i sv)
     | Inr b \<Rightarrow> b \<noteq> 0 \<and> unat b \<notin> in_use s \<and> slots s' (sv_i sv') = (slots s (sv_i sv))[unat fb := b]
         \<and> blocks_of s' ! unat b = replicate 512 0"
    using direct_alloc_ok [OF vol sv ok k z] by blast
  have "slot_of (unat fb) = unat fb" using k by (simp add: slot_of_def)
  then have upd: "file_block s' (sv_i sv') = (file_block s (sv_i sv))(unat fb := b)"
    if "slots s' (sv_i sv') = (slots s (sv_i sv))[unat fb := b]" for b
    using that slots_length [OF ok] fb by (intro file_block_update) simp_all
  have "bmap_extends s sv (unat fb) r s' sv'"
    using m(3) upd file_block_cong [of s' "sv_i sv'" s "sv_i sv"]
    by (cases r) (simp_all add: bmap_extends_def)
  with m True z show ?thesis by (auto simp: bmap_unfold [OF vol sv])
next
  case False
  define off where "off = unat fb - 15"
  have off: "off < 128" "unat fb = 15 + off" using False fb by (auto simp: off_def max_blocks_def word_less_nat_alt)
  obtain r s1 sv1 where l: "load_idblock p (sfi_indirect (sv_i sv)) s = (r, s1)" "frame_ok s p sv s1 sv1"
    "case r of
       Inl e \<Rightarrow> e = ENOSPC \<and> slots s1 (sv_i sv1) = slots s (sv_i sv)
     | Inr (idb, buf) \<Rightarrow> idb = sfi_indirect (sv_i sv1) \<and> idb \<noteq> 0 \<and> buf = indirect_words s1 (sv_i sv1)
         \<and> slots s1 (sv_i sv1) = (slots s (sv_i sv))[15 := idb]
         \<and> (idb = sfi_indirect (sv_i sv) \<or> unat idb \<notin> in_use s)"
    using load_idblock_ok [OF vol sv ok] by blast
  show ?thesis
  proof (cases r)
    case (Inl e)
    then have "sfs_bmap p fb True s = (Inl e, s1)" using False fb l(1) by (simp add: bmap_unfold [OF vol sv] kbind_def)
    with l Inl show ?thesis
      by (intro exI [of _ "Inl e"] exI [of _ s1] exI [of _ sv1]) (auto simp: bmap_extends_def intro: file_block_cong)
  next
    case (Inr q)
    obtain idb buf where q: "q = (idb, buf)" by (cases q)
    with Inr l(3) have idb: "idb = sfi_indirect (sv_i sv1)" "idb \<noteq> 0" "buf = indirect_words s1 (sv_i sv1)"
      and sl1: "slots s1 (sv_i sv1) = (slots s (sv_i sv))[15 := idb]"
      and old: "idb = sfi_indirect (sv_i sv) \<or> unat idb \<notin> in_use s" by auto
    have s1: "vol_healthy s1" "sfs_mem s1 p = Some sv1" "inode_ok s1 (sv_i sv1)" "in_use s \<subseteq> in_use s1"
      using l(2) by (auto simp: frame_ok_def)
    have sl: "length (slots s (sv_i sv)) = 144" by (rule slots_length [OF ok])
    have fb1: "file_block s1 (sv_i sv1) = file_block s (sv_i sv)"
      using sl by (auto simp: file_block_def sl1 slot_of_def fun_eq_iff)
    have z: "indirect_words s1 (sv_i sv1) ! off = 0"
      using empty fb off s1(3) slots_nth(3) [of "sv_i sv1" s1 off]
      by (simp add: fb1 [symmetric] file_block_def slot_of_def inode_ok_def)
    obtain r2 s2 where m: "map_indirect off True (sfi_indirect (sv_i sv1), indirect_words s1 (sv_i sv1)) s1 = (r2, s2)"
      "frame_ok s1 p sv1 s2 sv1"
      "case r2 of Inl e \<Rightarrow> e = ENOSPC \<and> slots s2 (sv_i sv1) = slots s1 (sv_i sv1)
       | Inr b \<Rightarrow> b \<noteq> 0 \<and> unat b \<notin> in_use s1 \<and> slots s2 (sv_i sv1) = (slots s1 (sv_i sv1))[16 + off := b]
           \<and> blocks_of s2 ! unat b = replicate 512 0"
      using map_indirect_alloc_ok [OF s1(1-3) idb(2) [unfolded idb(1)] off(1) z] by (elim exE conjE)
    have "frame_ok s p sv s2 sv1" using old idb(1) by (intro frame_ok_trans [OF l(2) m(2)]) auto
    moreover have "slot_of (unat fb) = 16 + off" using off by (simp add: slot_of_def)
    then have upd: "file_block s2 (sv_i sv1) = (file_block s1 (sv_i sv1))(unat fb := b)"
      if "slots s2 (sv_i sv1) = (slots s1 (sv_i sv1))[16 + off := b]" for b
      using that slots_length [OF s1(3)] fb by (intro file_block_update) simp_all
    have "bmap_extends s1 sv1 (unat fb) r2 s2 sv1"
      using m(3) upd file_block_cong [of s2 "sv_i sv1" s1 "sv_i sv1"]
      by (cases r2) (simp_all add: bmap_extends_def)
    then have "bmap_extends s sv (unat fb) r2 s2 sv1"
      using s1(4) by (auto simp: bmap_extends_def fb1 split: sum.splits)
    moreover have "sfs_bmap p fb True s = (r2, s2)"
      using False fb l(1) Inr q idb m(1) by (simp add: bmap_unfold [OF vol sv] kbind_def off_def [symmetric])
    ultimately show ?thesis by blast
  qed
qed

subsection \<open>sfs_itrunc cuts the map\<close>

lemma distinct_filter_nth:
  "distinct (filter P xs) \<longleftrightarrow>
     (\<forall>i j. i < j \<longrightarrow> j < length xs \<longrightarrow> P (xs ! i) \<longrightarrow> P (xs ! j) \<longrightarrow> xs ! i \<noteq> xs ! j)"
proof (induction xs)
  case (Cons x xs)
  have "(\<forall>i j. i < j \<longrightarrow> j < length (x # xs) \<longrightarrow> P ((x # xs) ! i) \<longrightarrow> P ((x # xs) ! j) \<longrightarrow> (x # xs) ! i \<noteq> (x # xs) ! j)
    \<longleftrightarrow> (P x \<longrightarrow> (\<forall>j < length xs. P (xs ! j) \<longrightarrow> x \<noteq> xs ! j))
      \<and> (\<forall>i j. i < j \<longrightarrow> j < length xs \<longrightarrow> P (xs ! i) \<longrightarrow> P (xs ! j) \<longrightarrow> xs ! i \<noteq> xs ! j)"
    (is "?L \<longleftrightarrow> ?R")
  proof
    assume L: ?L
    have "\<forall>j < length xs. P x \<longrightarrow> P (xs ! j) \<longrightarrow> x \<noteq> xs ! j" using L [rule_format, of 0 "Suc _"] by auto
    moreover have "\<forall>i j. i < j \<longrightarrow> j < length xs \<longrightarrow> P (xs ! i) \<longrightarrow> P (xs ! j) \<longrightarrow> xs ! i \<noteq> xs ! j"
      using L [rule_format, of "Suc _" "Suc _"] by auto
    ultimately show ?R by blast
  next
    assume ?R then show ?L by (auto simp: nth_Cons split: nat.splits)
  qed
  with Cons show ?case by (auto simp: in_set_conv_nth)
qed simp

text \<open>The list with the places in \<open>K\<close> emptied.\<close>

definition zero_at :: "nat set \<Rightarrow> u32 list \<Rightarrow> u32 list" where
  "zero_at K xs = map (\<lambda>k. if k \<in> K then 0 else xs ! k) [0..<length xs]"

lemma zero_at_simps [simp]:
  "length (zero_at K xs) = length xs" "k < length xs \<Longrightarrow> zero_at K xs ! k = (if k \<in> K then 0 else xs ! k)"
  by (simp_all add: zero_at_def)

lemma in_mapped: "b \<in> set (mapped s i) \<longleftrightarrow> b \<noteq> 0 \<and> (\<exists>k < length (slots s i). slots s i ! k = b)"
  by (auto simp: mapped_def in_set_conv_nth)

text \<open>The pointers in the places \<open>K\<close> are dropped and their blocks are free.\<close>

lemma inode_ok_cut:
  assumes ok: "inode_ok s i" and sl: "slots s' i' = zero_at K (slots s i)"
    and wf: "dinode_wf i'" "length (indirect_words s' i') = SFS_DBPERIDB" and nb: "nblocks s' = nblocks s"
    and iu: "in_use s' = in_use s - unat ` {b. b \<noteq> 0 \<and> (\<exists>k \<in> K. k < 144 \<and> slots s i ! k = b)}"
  shows "inode_ok s' i'" and "set (mapped s' i') \<subseteq> set (mapped s i)"
    and "in_use s' = in_use s - unat ` (set (mapped s i) - set (mapped s' i'))"
proof -
  have len: "length (slots s i) = 144" by (rule slots_length [OF ok])
  have uniq: "k = l" if "k < 144" "l < 144" "slots s i ! k = slots s i ! l" "slots s i ! k \<noteq> 0" for k l
    using ok len that unfolding inode_ok_def mapped_def distinct_filter_nth by (metis linorder_neqE_nat)
  have kept: "b \<in> set (mapped s' i') \<longleftrightarrow> b \<noteq> 0 \<and> (\<exists>k < 144. k \<notin> K \<and> slots s i ! k = b)" for b
    using len by (auto simp: in_mapped sl)
  show sub: "set (mapped s' i') \<subseteq> set (mapped s i)"
  proof
    fix b assume "b \<in> set (mapped s' i')"
    then show "b \<in> set (mapped s i)" using kept [of b] in_mapped [of b s i] len by auto
  qed
  have lost: "set (mapped s i) - set (mapped s' i') = {b. b \<noteq> 0 \<and> (\<exists>k \<in> K. k < 144 \<and> slots s i ! k = b)}"
    (is "?A = ?B")
  proof
    show "?A \<subseteq> ?B"
    proof
      fix b assume b: "b \<in> ?A"
      then obtain k where k: "b \<noteq> 0" "k < 144" "slots s i ! k = b" using in_mapped [of b s i] len by auto
      then have "k \<in> K" using kept [of b] b by blast
      with k show "b \<in> ?B" by blast
    qed
    show "?B \<subseteq> ?A"
    proof
      fix b assume "b \<in> ?B"
      then obtain k where k: "b \<noteq> 0" "k \<in> K" "k < 144" "slots s i ! k = b" by blast
      then have "b \<in> set (mapped s i)" using in_mapped [of b s i] len by auto
      moreover have "b \<notin> set (mapped s' i')"
      proof
        assume "b \<in> set (mapped s' i')"
        then obtain l where "l < 144" "l \<notin> K" "slots s i ! l = b" using kept [of b] by blast
        with uniq [of l k] k show False by simp
      qed
      ultimately show "b \<in> ?A" by blast
    qed
  qed
  then show "in_use s' = in_use s - unat ` (set (mapped s i) - set (mapped s' i'))" using iu by simp
  have "distinct (mapped s' i')"
    unfolding mapped_def distinct_filter_nth sl
  proof (intro allI impI)
    fix k l assume kl: "k < l" "l < length (zero_at K (slots s i))" "zero_at K (slots s i) ! k \<noteq> 0" "zero_at K (slots s i) ! l \<noteq> 0"
    then have "k \<notin> K" "l \<notin> K" using len by (auto split: if_splits)
    with kl len uniq [of k l] show "zero_at K (slots s i) ! k \<noteq> zero_at K (slots s i) ! l" by auto
  qed
  moreover have "unat b < nblocks s' \<and> unat b \<in> in_use s'" if b: "b \<in> set (mapped s' i')" for b
  proof -
    have "b \<in> set (mapped s i)" using b sub by blast
    then have "unat b < nblocks s" "unat b \<in> in_use s" using ok by (auto simp: inode_ok_def)
    moreover have "unat b \<notin> unat ` {b. b \<noteq> 0 \<and> (\<exists>k \<in> K. k < 144 \<and> slots s i ! k = b)}"
      unfolding lost [symmetric] using b by (auto dest: unsigned_word_eqI)
    ultimately show ?thesis using iu nb by simp
  qed
  ultimately show "inode_ok s' i'" using wf by (simp add: inode_ok_def)
qed

text \<open>What a truncation keeps, and that it frees exactly the blocks it unmaps.\<close>

definition cut_ok :: "sfs_fs \<Rightarrow> nat \<Rightarrow> sfs_vnode \<Rightarrow> sfs_fs \<Rightarrow> sfs_vnode \<Rightarrow> bool" where
  "cut_ok s p sv s' sv' \<longleftrightarrow>
     sfs_mem s' = (sfs_mem s)(p := Some sv') \<and> vol_healthy s' \<and> inode_ok s' (sv_i sv')
     \<and> set (mapped s' (sv_i sv')) \<subseteq> set (mapped s (sv_i sv))
     \<and> in_use s' = in_use s - unat ` (set (mapped s (sv_i sv)) - set (mapped s' (sv_i sv')))
     \<and> sfs_sb s' = sfs_sb s \<and> biglock_depth s' = biglock_depth s \<and> sfs_vnodes s' = sfs_vnodes s
     \<and> sv_ino sv' = sv_ino sv \<and> vn_refcount sv' = vn_refcount sv
     \<and> sfi_linkcount (sv_i sv') = sfi_linkcount (sv_i sv) \<and> sfi_type (sv_i sv') = sfi_type (sv_i sv)"

lemma cut_ok_trans:
  assumes "cut_ok s p sv s1 sv1" and "cut_ok s1 p sv1 s2 sv2"
  shows "cut_ok s p sv s2 sv2"
proof -
  let ?M = "set (mapped s (sv_i sv))" and ?M1 = "set (mapped s1 (sv_i sv1))" and ?M2 = "set (mapped s2 (sv_i sv2))"
  have "?M2 \<subseteq> ?M1" "?M1 \<subseteq> ?M" using assms by (auto simp: cut_ok_def)
  then have "?M - ?M2 = (?M - ?M1) \<union> (?M1 - ?M2)" by blast
  then have "in_use s2 = in_use s - unat ` (?M - ?M2)"
    using assms by (auto simp: cut_ok_def)
  then show ?thesis using assms by (auto simp: cut_ok_def)
qed

text \<open>Freeing one block and clearing the pointer to it.\<close>

lemma drop_slot_ok:
  assumes vol: "vol_healthy s" and sv: "sfs_mem s p = Some sv" and ok: "inode_ok s (sv_i sv)"
    and k: "k < 144" and b: "slots s (sv_i sv) ! k = b" "b \<noteq> 0"
    and i': "dinode_wf (f (sv_i sv))" "sfi_linkcount (f (sv_i sv)) = sfi_linkcount (sv_i sv)"
      "sfi_type (f (sv_i sv)) = sfi_type (sv_i sv)"
    and iw: "\<And>t. blocks_of t = blocks_of s \<Longrightarrow> slots t (f (sv_i sv)) = zero_at {k} (slots s (sv_i sv))"
      "\<And>t. blocks_of t = blocks_of s \<Longrightarrow> length (indirect_words t (f (sv_i sv))) = SFS_DBPERIDB"
  shows "\<exists>s'. kbind (sfs_bfree b) (\<lambda>_. upd_sv p (dirty_inode f)) s = (Inr (), s')
    \<and> cut_ok s p sv s' (dirty_inode f sv)
    \<and> slots s' (f (sv_i sv)) = zero_at {k} (slots s (sv_i sv)) \<and> blocks_of s' = blocks_of s"
proof -
  have u: "unat b < nblocks s" "unat b \<in> in_use s" using slot_used [OF ok k] b by auto
  obtain s1 where s1: "sfs_bfree b s = (Inr (), s1)" "vol_healthy s1" "in_use s1 = in_use s - {unat b}"
    "blocks_of s1 = blocks_of s" "sfs_mem s1 = sfs_mem s" "sfs_sb s1 = sfs_sb s"
    "biglock_depth s1 = biglock_depth s" "sfs_vnodes s1 = sfs_vnodes s"
    using bfree_ok [OF vol u(2,1) b(2)] by blast
  define s2 where "s2 = s1\<lparr>sfs_mem := (sfs_mem s1)(p := Some (dirty_inode f sv))\<rparr>"
  have s2: "vol_healthy s2" "in_use s2 = in_use s - {unat b}" "blocks_of s2 = blocks_of s" "nblocks s2 = nblocks s"
    "sfs_sb s2 = sfs_sb s" "biglock_depth s2 = biglock_depth s" "sfs_vnodes s2 = sfs_vnodes s"
    using s1 by (auto simp: s2_def vol_healthy_def vol_ok_def in_use_def nblocks_def blocks_of_def)
  have "{c. c \<noteq> 0 \<and> (\<exists>l \<in> {k}. l < 144 \<and> slots s (sv_i sv) ! l = c)} = {b}" using b k by auto
  then have "in_use s2 = in_use s - unat ` {c. c \<noteq> 0 \<and> (\<exists>l \<in> {k}. l < 144 \<and> slots s (sv_i sv) ! l = c)}"
    by (simp add: s2(2))
  note cut = inode_ok_cut [OF ok iw(1) [OF s2(3)] i'(1) iw(2) [OF s2(3)] s2(4) this]
  have "cut_ok s p sv s2 (dirty_inode f sv)"
    using s2 s1(5) i' cut by (simp add: cut_ok_def dirty_inode_def s2_def)
  moreover have "kbind (sfs_bfree b) (\<lambda>_. upd_sv p (dirty_inode f)) s = (Inr (), s2)"
    using s1 sv by (simp add: kbind_def upd_sv_def s2_def)
  ultimately show ?thesis using iw(1) [OF s2(3)] s2(3) by blast
qed

lemma zero_at_step:
  "zero_at K (zero_at {i} xs) = zero_at (insert i K) xs"
  by (intro nth_equalityI) auto

lemma itrunc_direct_ok:
  assumes "vol_healthy s" and "sfs_mem s p = Some sv" and "inode_ok s (sv_i sv)" and "i \<le> 15"
  shows "\<exists>s' sv'. itrunc_direct p B i s = (Inr (), s') \<and> cut_ok s p sv s' sv'
    \<and> slots s' (sv_i sv') = zero_at {k. i \<le> k \<and> k < 15 \<and> unat B \<le> k} (slots s (sv_i sv))
    \<and> sfi_indirect (sv_i sv') = sfi_indirect (sv_i sv) \<and> blocks_of s' = blocks_of s"
  using assms
proof (induction "15 - i" arbitrary: i s sv)
  case 0
  then have "itrunc_direct p B i s = (Inr (), s)" by (simp add: itrunc_direct.simps kreturn_def)
  moreover have "zero_at {k. i \<le> k \<and> k < 15 \<and> unat B \<le> k} (slots s (sv_i sv)) = slots s (sv_i sv)"
    using 0 by (intro nth_equalityI) auto
  moreover have "cut_ok s p sv s sv" using 0 by (auto simp: cut_ok_def fun_upd_idem)
  ultimately show ?case by metis
next
  case (Suc n)
  let ?K = "{k. i \<le> k \<and> k < 15 \<and> unat B \<le> k}" and ?K' = "{k. Suc i \<le> k \<and> k < 15 \<and> unat B \<le> k}"
  have i: "i < 15" "n = 15 - Suc i" using Suc(2) by auto
  have wf: "dinode_wf (sv_i sv)" using Suc(5) by (simp add: inode_ok_def)
  define b where "b = sfi_direct (sv_i sv) ! i"
  have b: "slots s (sv_i sv) ! i = b" using slots_nth(1) [OF wf i(1)] by (simp add: b_def)
  have le: "of_nat i \<ge> B \<longleftrightarrow> unat B \<le> i" using i(1) by (simp add: word_le_nat_alt)
  have len: "length (slots s (sv_i sv)) = 144" by (rule slots_length [OF Suc(5)])
  show ?case
  proof (cases "unat B \<le> i \<and> b \<noteq> 0")
    case True
    let ?f = "\<lambda>ino. ino\<lparr>sfi_direct := (sfi_direct ino)[i := 0]\<rparr>"
    have dl: "length (sfi_direct (sv_i sv)) = 15" using wf by (simp add: dinode_wf_def)
    have iw: "indirect_words t (?f (sv_i sv)) = indirect_words s (sv_i sv)" if "blocks_of t = blocks_of s" for t
      using that by (simp add: indirect_words_def)
    have sl: "slots t (?f (sv_i sv)) = zero_at {i} (slots s (sv_i sv))" if "blocks_of t = blocks_of s" for t
      using dl i(1) iw [OF that] by (intro nth_equalityI) (auto simp: slots_def nth_append nth_Cons split: nat.split)
    obtain s1 where s1: "kbind (sfs_bfree b) (\<lambda>_. upd_sv p (dirty_inode ?f)) s = (Inr (), s1)"
      "cut_ok s p sv s1 (dirty_inode ?f sv)"
      "slots s1 (?f (sv_i sv)) = zero_at {i} (slots s (sv_i sv))" "blocks_of s1 = blocks_of s"
    proof -
      have "length (indirect_words s (sv_i sv)) = 128" using Suc(5) by (simp add: inode_ok_def)
      then show thesis
        using drop_slot_ok [where f = ?f and k = i and b = b and s = s and p = p and sv = sv]
          Suc(3-5) b i(1) True wf iw sl that by (auto simp: dinode_wf_def)
    qed
    have pre: "vol_healthy s1" "sfs_mem s1 p = Some (dirty_inode ?f sv)" "inode_ok s1 (sv_i (dirty_inode ?f sv))"
      "Suc i \<le> 15"
      using s1(2) i(1) by (auto simp: cut_ok_def)
    obtain s' sv' where r: "itrunc_direct p B (Suc i) s1 = (Inr (), s')" "cut_ok s1 p (dirty_inode ?f sv) s' sv'"
      "slots s' (sv_i sv') = zero_at ?K' (zero_at {i} (slots s (sv_i sv)))"
      "sfi_indirect (sv_i sv') = sfi_indirect (sv_i sv)" "blocks_of s' = blocks_of s"
      using Suc(1) [OF i(2) pre] s1(3,4) by (auto simp: dirty_inode_def)
    have "insert i ?K' = ?K" using i(1) True by auto
    then have "slots s' (sv_i sv') = zero_at ?K (slots s (sv_i sv))" by (simp add: r(3) zero_at_step)
    moreover have "itrunc_direct p B i s = (Inr (), s')"
      using i(1) True le Suc(4) s1(1) r(1)
      by (simp add: itrunc_direct.simps [of p B i] kbind_def get_sv_def b_def [symmetric] Let_def)
    ultimately show ?thesis using cut_ok_trans [OF s1(2) r(2)] r(4,5) by blast
  next
    case False
    obtain s' sv' where r: "itrunc_direct p B (Suc i) s = (Inr (), s')" "cut_ok s p sv s' sv'"
      "slots s' (sv_i sv') = zero_at ?K' (slots s (sv_i sv))"
      "sfi_indirect (sv_i sv') = sfi_indirect (sv_i sv)" "blocks_of s' = blocks_of s"
      using Suc(1) [OF i(2) Suc(3-5)] i(1) by auto
    have "zero_at ?K' (slots s (sv_i sv)) = zero_at ?K (slots s (sv_i sv))"
      using False b i(1) by (intro nth_equalityI) (auto simp: not_less_eq_eq le_Suc_eq)
    moreover have "itrunc_direct p B i s = (Inr (), s')"
      using i(1) False le Suc(4) r(1)
      by (auto simp add: itrunc_direct.simps [of p B i] kbind_def kreturn_def get_sv_def b_def [symmetric] Let_def)
    ultimately show ?thesis using r by auto
  qed
qed

text \<open>The entries of the indirect block the second loop looks at.\<close>

definition cut_entries :: "u32 \<Rightarrow> nat \<Rightarrow> nat set" where
  "cut_entries B j = {k. j \<le> k \<and> k < SFS_DBPERIDB \<and> unat B < 15 + k}"

lemma cut_entries_step:
  "j < 128 \<Longrightarrow> cut_entries B j = (if unat B < 15 + j then insert j (cut_entries B (Suc j)) else cut_entries B (Suc j))"
  by (auto simp: cut_entries_def not_less_eq_eq le_Suc_eq)

lemma itrunc_indirect_ok:
  assumes "vol_healthy s" and "length buf = 128" and "j \<le> 128"
    and "\<And>k l. k < 128 \<Longrightarrow> l < 128 \<Longrightarrow> buf ! k = buf ! l \<Longrightarrow> buf ! k \<noteq> 0 \<Longrightarrow> k = l"
    and "\<And>k. k \<in> cut_entries B j \<Longrightarrow> buf ! k \<noteq> 0 \<Longrightarrow> unat (buf ! k) < nblocks s \<and> unat (buf ! k) \<in> in_use s"
  shows "\<exists>s'. itrunc_indirect B j buf d s =
      (Inr (zero_at (cut_entries B j) buf, d \<or> (\<exists>k \<in> cut_entries B j. buf ! k \<noteq> 0)), s')
    \<and> vol_healthy s' \<and> sfs_mem s' = sfs_mem s \<and> blocks_of s' = blocks_of s \<and> sfs_sb s' = sfs_sb s
    \<and> biglock_depth s' = biglock_depth s \<and> sfs_vnodes s' = sfs_vnodes s
    \<and> in_use s' = in_use s - unat ` ((!) buf ` cut_entries B j - {0})"
  using assms
proof (induction "128 - j" arbitrary: j buf d s)
  case 0
  then have "cut_entries B j = {}" by (auto simp: cut_entries_def)
  moreover have "zero_at {} buf = buf" by (intro nth_equalityI) auto
  ultimately show ?case using 0 by (auto simp: itrunc_indirect.simps kreturn_def)
next
  case (Suc n)
  let ?K = "cut_entries B j" and ?K' = "cut_entries B (Suc j)"
  have j: "j < 128" "n = 128 - Suc j" "j < length buf" "Suc j \<le> 128" using Suc(2,4) by auto
  have lt: "B < 15 + of_nat j \<longleftrightarrow> unat B < 15 + j" using j(1) by (simp add: word_less_nat_alt unat_add_u32)
  show ?case
  proof (cases "unat B < 15 + j \<and> buf ! j \<noteq> 0")
    case False
    have K: "zero_at ?K buf = zero_at ?K' buf" "(\<exists>k \<in> ?K. buf ! k \<noteq> 0) = (\<exists>k \<in> ?K'. buf ! k \<noteq> 0)"
      "(!) buf ` ?K - {0} = (!) buf ` ?K' - {0}" "?K' \<subseteq> ?K"
      using False cut_entries_step [OF j(1), of B] by (auto intro!: nth_equalityI)
    have "itrunc_indirect B j buf d s = itrunc_indirect B (Suc j) buf d s"
      using j lt False by (auto simp: itrunc_indirect.simps [of B j])
    with Suc(1) [OF j(2) Suc(3,4) j(4) Suc(6), of d] Suc(7) K(4) show ?thesis
      unfolding K(1-3) by (auto simp only: subset_iff)
  next
    case True
    define b where "b = buf ! j"
    let ?buf = "buf[j := 0]"
    have K: "?K = insert j ?K'" "j \<notin> ?K'" using True cut_entries_step [OF j(1), of B] by (auto simp: cut_entries_def)
    have b: "b \<noteq> 0" "unat b < nblocks s" "unat b \<in> in_use s" using True Suc(7) [of j] K by (auto simp: b_def)
    obtain s1 where s1: "sfs_bfree b s = (Inr (), s1)" "vol_healthy s1" "in_use s1 = in_use s - {unat b}"
      "blocks_of s1 = blocks_of s" "sfs_mem s1 = sfs_mem s" "sfs_sb s1 = sfs_sb s"
      "biglock_depth s1 = biglock_depth s" "sfs_vnodes s1 = sfs_vnodes s"
      using bfree_ok [OF Suc(3) b(3,2,1)] by blast
    have same: "?buf ! k = buf ! k" if "k \<in> ?K'" for k
      using K(2) that by (cases "k = j") simp_all
    have len: "length ?buf = 128" using Suc(4) by simp
    have uniq: "k = l" if "k < 128" "l < 128" "?buf ! k = ?buf ! l" "?buf ! k \<noteq> 0" for k l
      using that Suc(6) [of k l] j(3) by (cases "k = j"; cases "l = j") simp_all
    have use: "unat (?buf ! k) < nblocks s1 \<and> unat (?buf ! k) \<in> in_use s1"
      if k: "k \<in> ?K'" "?buf ! k \<noteq> 0" for k
    proof -
      have "k < 128" using k by (simp add: cut_entries_def)
      then have "buf ! k \<noteq> b" using Suc(6) [of k j] k same [OF k(1)] K(2) j(1) b(1) by (auto simp: b_def)
      then have "unat (buf ! k) \<noteq> unat b" by (auto dest: unsigned_word_eqI)
      then show ?thesis using Suc(7) [of k] k same [OF k(1)] K(1) s1(3,6) by (simp add: nblocks_def)
    qed
    obtain s' where r: "itrunc_indirect B (Suc j) ?buf True s1 =
        (Inr (zero_at ?K' ?buf, True \<or> (\<exists>k \<in> ?K'. ?buf ! k \<noteq> 0)), s')"
      "vol_healthy s'" "sfs_mem s' = sfs_mem s1" "blocks_of s' = blocks_of s1" "sfs_sb s' = sfs_sb s1"
      "biglock_depth s' = biglock_depth s1" "sfs_vnodes s' = sfs_vnodes s1"
      "in_use s' = in_use s1 - unat ` ((!) ?buf ` ?K' - {0})"
      using Suc(1) [OF j(2) s1(2) len j(4) uniq use, of True] by blast
    have "zero_at ?K' ?buf = zero_at ?K buf" using j(3) K by (intro nth_equalityI) (auto simp: nth_list_update)
    moreover have "(!) ?buf ` ?K' = (!) buf ` ?K'" using same by (intro image_cong) auto
    then have "in_use s' = in_use s - unat ` ((!) buf ` ?K - {0})"
      using r(8) s1(3) b(1) by (auto simp: K(1) b_def)
    moreover have "itrunc_indirect B j buf d s = itrunc_indirect B (Suc j) ?buf True s1"
      using j lt True s1(1) by (simp add: itrunc_indirect.simps [of B j] kbind_def b_def)
    ultimately show ?thesis using r s1 True K(1) by (auto simp: b_def)
  qed
qed

text \<open>What the part for the indirect block leaves.\<close>

definition cut_indirect :: "u32 \<Rightarrow> sfs_fs \<Rightarrow> sfs_dinode \<Rightarrow> sfs_fs \<Rightarrow> sfs_dinode \<Rightarrow> bool" where
  "cut_indirect B s i s' i' \<longleftrightarrow>
     (\<exists>z. slots s' i' = zero_at ((\<lambda>k. 16 + k) ` cut_entries B 0 \<union> z) (slots s i)
        \<and> z \<subseteq> {15})
     \<and> sfi_direct i' = sfi_direct i
     \<and> (\<forall>x. x \<noteq> unat (sfi_indirect i) \<longrightarrow> blocks_of s' ! x = blocks_of s ! x)"

lemma indirect_slot: "inode_ok s i \<Longrightarrow> slots s i ! (16 + k) = indirect_words s i ! k"
  by (simp add: inode_ok_def slots_nth(3))

lemma slots_inj:
  assumes "inode_ok s i" and "k < 144" and "l < 144" and "slots s i ! k = slots s i ! l" and "slots s i ! k \<noteq> 0"
  shows "k = l"
  using assms slots_length [OF assms(1)] unfolding inode_ok_def mapped_def distinct_filter_nth
  by (metis linorder_neqE_nat)

lemma cut_image:
  assumes ok: "inode_ok s i"
  shows "{b. b \<noteq> 0 \<and> (\<exists>k \<in> (\<lambda>k. 16 + k) ` cut_entries B 0. k < 144 \<and> slots s i ! k = b)}
    = (!) (indirect_words s i) ` cut_entries B 0 - {0}"
proof -
  have "slots s i ! (16 + k) = indirect_words s i ! k" "16 + k < 144 \<longleftrightarrow> k < 128" for k
    using indirect_slot [OF ok] by auto
  then show ?thesis by (auto simp: cut_entries_def)
qed

lemma cut_slots:
  assumes ok: "inode_ok s i" and d: "sfi_direct i' = sfi_direct i"
    and w: "indirect_words s' i' = zero_at (cut_entries B 0) (indirect_words s i)"
    and id: "sfi_indirect i' = (if 15 \<in> z then 0 else sfi_indirect i)" and z: "z \<subseteq> {15}"
  shows "slots s' i' = zero_at ((\<lambda>k. 16 + k) ` cut_entries B 0 \<union> z) (slots s i)"
proof (rule nth_equalityI)
  have len: "length (sfi_direct i) = 15" "length (indirect_words s i) = 128"
    using ok by (simp_all add: inode_ok_def dinode_wf_def)
  then show "length (slots s' i') = length (zero_at ((\<lambda>k. 16 + k) ` cut_entries B 0 \<union> z) (slots s i))"
    by (simp add: slots_def d w)
  fix k assume "k < length (slots s' i')"
  then have k: "k < 144" using len by (simp add: slots_def d w)
  have "k < 15 \<or> k = 15 \<or> k = 16 + (k - 16) \<and> k - 16 < 128" using k by linarith
  then consider "k < 15" | "k = 15" | l where "k = 16 + l" "l < 128" by blast
  then show "slots s' i' ! k = zero_at ((\<lambda>k. 16 + k) ` cut_entries B 0 \<union> z) (slots s i) ! k"
    using len z by cases (auto simp: slots_def d w id nth_append)
qed

text \<open>Reading the indirect block and the loop over it.\<close>

lemma itrunc_load_ok:
  assumes vol: "vol_healthy s" and ok: "inode_ok s i" and id: "sfi_indirect i \<noteq> 0"
  shows "\<exists>s1 s2. sfs_readblock (sfi_indirect i) 512 s = (Inr (blocks_of s ! unat (sfi_indirect i)), s1)
    \<and> words_of (blocks_of s ! unat (sfi_indirect i)) = indirect_words s i
    \<and> itrunc_indirect B 0 (indirect_words s i) False s1 =
      (Inr (zero_at (cut_entries B 0) (indirect_words s i), \<exists>k \<in> cut_entries B 0. indirect_words s i ! k \<noteq> 0), s2)
    \<and> vol_healthy s2 \<and> sfs_mem s2 = sfs_mem s \<and> blocks_of s2 = blocks_of s \<and> sfs_sb s2 = sfs_sb s
    \<and> biglock_depth s2 = biglock_depth s \<and> sfs_vnodes s2 = sfs_vnodes s
    \<and> in_use s2 = in_use s - unat ` ((!) (indirect_words s i) ` cut_entries B 0 - {0})"
proof -
  let ?id = "sfi_indirect i" and ?K = "cut_entries B 0"
  define buf where "buf = indirect_words s i"
  note iu = indirect_in_use [OF ok id]
  have len: "length buf = 128" using ok by (simp add: buf_def inode_ok_def)
  have bs: "slots s i ! (16 + k) = buf ! k" for k by (simp add: buf_def indirect_slot [OF ok])
  from read_step [OF vol iu(1)] obtain s1 where
    rd: "sfs_readblock ?id 512 s = (Inr (blocks_of s ! unat ?id), s1)" and st1: "dev_step s (blocks_of s) s1" by blast
  note f1 = sans_device_fields [of s1 s]
  have s1: "vol_healthy s1" "blocks_of s1 = blocks_of s" "in_use s1 = in_use s" "nblocks s1 = nblocks s"
    "sfs_mem s1 = sfs_mem s" "sfs_sb s1 = sfs_sb s" "biglock_depth s1 = biglock_depth s" "sfs_vnodes s1 = sfs_vnodes s"
    using st1 f1 by (auto simp: dev_step_def)
  have uniq: "k = l" if "k < 128" "l < 128" "buf ! k = buf ! l" "buf ! k \<noteq> 0" for k l
    using slots_inj [OF ok, of "16 + k" "16 + l"] that by (simp add: bs)
  have use: "unat (buf ! k) < nblocks s1 \<and> unat (buf ! k) \<in> in_use s1" if "k \<in> ?K" "buf ! k \<noteq> 0" for k
    using slot_used [OF ok, of "16 + k"] that by (simp add: bs s1 cut_entries_def)
  have wo: "words_of (blocks_of s ! unat ?id) = buf" using id by (simp add: buf_def indirect_words_def)
  from itrunc_indirect_ok [where d = False, OF s1(1) len le0 uniq use] rd s1 wo show ?thesis
    by (simp only: buf_def [symmetric] simp_thms) blast
qed

lemma itrunc_idblock_ok:
  assumes vol: "vol_healthy s" and sv: "sfs_mem s p = Some sv" and ok: "inode_ok s (sv_i sv)"
    and id: "sfi_indirect (sv_i sv) \<noteq> 0"
  shows "\<exists>s' sv'. itrunc_idblock p B (sfi_indirect (sv_i sv)) s = (Inr (), s') \<and> cut_ok s p sv s' sv'
    \<and> cut_indirect B s (sv_i sv) s' (sv_i sv')"
proof -
  let ?i = "sv_i sv" and ?id = "sfi_indirect (sv_i sv)" and ?K = "cut_entries B 0"
  define buf where "buf = indirect_words s ?i"
  note iu = indirect_in_use [OF ok id]
  have len: "length buf = 128" using ok by (simp add: buf_def inode_ok_def)
  have wf: "dinode_wf ?i" using ok by (simp add: inode_ok_def)
  have bs: "slots s ?i ! (16 + k) = buf ! k" for k by (simp add: buf_def indirect_slot [OF ok])
  have ids: "slots s ?i ! 15 = ?id" by (rule slots_nth(2) [OF wf])
  obtain s1 s2 where rd: "sfs_readblock ?id 512 s = (Inr (blocks_of s ! unat ?id), s1)"
    and wo: "words_of (blocks_of s ! unat ?id) = buf"
    and lp: "itrunc_indirect B 0 buf False s1 = (Inr (zero_at ?K buf, \<exists>k \<in> ?K. buf ! k \<noteq> 0), s2)"
    and s2: "vol_healthy s2" "sfs_mem s2 = sfs_mem s" "blocks_of s2 = blocks_of s" "sfs_sb s2 = sfs_sb s"
      "biglock_depth s2 = biglock_depth s" "sfs_vnodes s2 = sfs_vnodes s" "in_use s2 = in_use s - unat ` ((!) buf ` ?K - {0})"
    using itrunc_load_ok [OF vol ok id, of B, folded buf_def] by blast
  have nb2: "nblocks s2 = nblocks s" using s2(4) by (simp add: nblocks_def)
  show ?thesis
  proof (cases "list_all (\<lambda>b. b = 0) (zero_at ?K buf)")
    case True
    let ?f = "\<lambda>i. i\<lparr>sfi_indirect := 0\<rparr>"
    have "k \<notin> ?K" if "k < 128" "buf ! k = ?id" for k
      using slots_inj [OF ok, of "16 + k" 15] that id by (simp add: bs ids)
    then have "?id \<notin> (!) buf ` ?K - {0}" by (auto simp: cut_entries_def)
    then have "unat ?id \<in> in_use s2" using iu(2) s2(7) by (auto dest: unsigned_word_eqI)
    then obtain s3 where s3: "sfs_bfree ?id s2 = (Inr (), s3)" "vol_healthy s3" "in_use s3 = in_use s2 - {unat ?id}"
      "blocks_of s3 = blocks_of s2" "sfs_mem s3 = sfs_mem s2" "sfs_sb s3 = sfs_sb s2"
      "biglock_depth s3 = biglock_depth s2" "sfs_vnodes s3 = sfs_vnodes s2"
      using bfree_ok [OF s2(1), of ?id] iu nb2 id by auto
    define s4 where "s4 = s3\<lparr>sfs_mem := (sfs_mem s3)(p := Some (dirty_inode ?f sv))\<rparr>"
    have s4: "vol_healthy s4" "in_use s4 = in_use s2 - {unat ?id}" "blocks_of s4 = blocks_of s" "nblocks s4 = nblocks s"
      using s3 s2 by (auto simp: s4_def vol_healthy_def vol_ok_def in_use_def nblocks_def blocks_of_def)
    have "zero_at ?K buf = replicate 128 0"
      using True len by (intro nth_equalityI) (auto simp: list_all_length)
    then have sl: "slots s4 (?f ?i) = zero_at ((\<lambda>k. 16 + k) ` ?K \<union> {15}) (slots s ?i)"
      by (intro cut_slots [OF ok]) (simp_all add: indirect_words_def [of s4] buf_def)
    have "{b. b \<noteq> 0 \<and> (\<exists>k \<in> (\<lambda>k. 16 + k) ` ?K \<union> {15}. k < 144 \<and> slots s ?i ! k = b)}
        = insert ?id ((!) buf ` ?K - {0})"
      unfolding buf_def cut_image [OF ok, of B, symmetric] using id ids by auto
    then have iu4: "in_use s4 = in_use s - unat ` {b. b \<noteq> 0 \<and> (\<exists>k \<in> (\<lambda>k. 16 + k) ` ?K \<union> {15}. k < 144 \<and> slots s ?i ! k = b)}"
      using s4(2) s2(7) by auto
    have "dinode_wf (?f ?i)" "length (indirect_words s4 (?f ?i)) = 128"
      using wf by (simp_all add: dinode_wf_def indirect_words_def)
    note cut = inode_ok_cut [OF ok sl this s4(4) iu4]
    have "cut_ok s p sv s4 (dirty_inode ?f sv)"
      using s4 s3 s2 cut by (simp add: cut_ok_def dirty_inode_def s4_def)
    moreover have "cut_indirect B s ?i s4 (?f ?i)"
      unfolding cut_indirect_def using sl s4(3) by (intro conjI exI [of _ "{15}"]) simp_all
    moreover have "itrunc_idblock p B ?id s = (Inr (), s4)"
      using rd lp True s3(1) sv s2(2) s3(5) by (simp add: itrunc_idblock_def kmonad_defs wo upd_sv_def s4_def)
    ultimately show ?thesis by (intro exI [of _ s4] exI [of _ "dirty_inode ?f sv"]) (simp add: dirty_inode_def)
  next
    case False
    let ?dirty = "\<exists>k \<in> ?K. buf ! k \<noteq> 0"
    obtain s3 where run: "itrunc_idblock p B ?id s = (Inr (), s3)" and st: "dev_step s2 (blocks_of s3) s3"
      and b3: "blocks_of s3 = (blocks_of s)[unat ?id := bytes_of_words (zero_at ?K buf)]
        \<or> \<not> ?dirty \<and> blocks_of s3 = blocks_of s"
    proof (cases ?dirty)
      case True
      have "unat ?id < nblocks s2" using iu(1) nb2 by simp
      from write_step [OF s2(1) this, of "bytes_of_words (zero_at ?K buf)"] len obtain s3 where
        w: "sfs_writeblock ?id (bytes_of_words (zero_at ?K buf)) s2 = (Inr (), s3)"
          "dev_step s2 ((blocks_of s2)[unat ?id := bytes_of_words (zero_at ?K buf)]) s3" by auto
      then have "itrunc_idblock p B ?id s = (Inr (), s3)"
        using rd lp False True by (simp add: itrunc_idblock_def kmonad_defs wo)
      with w s2(3) that [of s3] show thesis by (auto simp: dev_step_def)
    next
      case clean: False
      then have "itrunc_idblock p B ?id s = (Inr (), s2)"
        using rd lp False by (auto simp add: itrunc_idblock_def kmonad_defs wo)
      with s2(1,3) clean that [of s2] show thesis by (auto simp: dev_step_def)
    qed
    note f3 = sans_device_fields [of s3 s2]
    have s3: "vol_healthy s3" "in_use s3 = in_use s2" "nblocks s3 = nblocks s" "sfs_mem s3 = sfs_mem s"
      "sfs_sb s3 = sfs_sb s" "biglock_depth s3 = biglock_depth s" "sfs_vnodes s3 = sfs_vnodes s"
      using st f3 s2 nb2 by (auto simp: dev_step_def)
    have w3: "indirect_words s3 ?i = zero_at ?K buf"
    proof (cases "blocks_of s3 = blocks_of s")
      case True
      show ?thesis
      proof (cases ?dirty)
        case False
        then have "zero_at ?K buf = buf" by (intro nth_equalityI) auto
        then show ?thesis using True by (simp add: indirect_words_def buf_def)
      next
        case dirty: True
        then have "blocks_of s3 ! unat ?id = bytes_of_words (zero_at ?K buf)"
          using b3 healthy_length [OF vol iu(1)] by auto
        then show ?thesis using id by (simp add: indirect_words_def words_of_bytes)
      qed
    next
      case False
      then have "blocks_of s3 ! unat ?id = bytes_of_words (zero_at ?K buf)"
        using b3 healthy_length [OF vol iu(1)] by auto
      then show ?thesis using id by (simp add: indirect_words_def words_of_bytes)
    qed
    have sl: "slots s3 ?i = zero_at ((\<lambda>k. 16 + k) ` ?K \<union> {}) (slots s ?i)"
      using w3 by (intro cut_slots [OF ok]) (simp_all add: buf_def)
    then have sl': "slots s3 ?i = zero_at ((\<lambda>k. 16 + k) ` ?K) (slots s ?i)" by simp
    have iu3: "in_use s3 = in_use s - unat ` {b. b \<noteq> 0 \<and> (\<exists>k \<in> (\<lambda>k. 16 + k) ` ?K. k < 144 \<and> slots s ?i ! k = b)}"
      unfolding cut_image [OF ok] s3(2) s2(7) buf_def ..
    have "length (indirect_words s3 ?i) = 128" using w3 len by simp
    note cut = inode_ok_cut [OF ok sl' wf this s3(3) iu3]
    have "cut_ok s p sv s3 sv" using s3 sv cut by (simp add: cut_ok_def fun_upd_idem)
    moreover have "cut_indirect B s ?i s3 ?i"
      unfolding cut_indirect_def using sl b3 by (intro conjI exI [of _ "{}"]) auto
    ultimately show ?thesis using run by blast
  qed
qed

text \<open>The volume with one more nesting of the big lock, as the body of \<open>sfs_itrunc\<close> sees it.\<close>

definition under_lock :: "sfs_fs \<Rightarrow> sfs_fs" where
  "under_lock s = s\<lparr>biglock_depth := Suc (biglock_depth s)\<rparr>"

lemma under_lock_simps [simp]:
  "sfs_mem (under_lock s) = sfs_mem s" "in_use (under_lock s) = in_use s" "blocks_of (under_lock s) = blocks_of s"
  "slots (under_lock s) i = slots s i" "nblocks (under_lock s) = nblocks s" "sfs_vnodes (under_lock s) = sfs_vnodes s"
  by (simp_all add: under_lock_def in_use_def blocks_of_def nblocks_def slots_def indirect_words_def)

lemma unlock:
  assumes "biglock_depth t = Suc n"
  shows "\<exists>s'. vfs_biglock_release t = (Inr (), s') \<and> under_lock s' = t \<and> biglock_depth s' = n"
  using assms by (auto simp: vfs_biglock_release_def kmonad_defs under_lock_def split: if_splits)

lemma trunc_blocks:
  assumes "0 \<le> len" and "len < 2 ^ 32"
  shows "unat (word_of_int ((len + 512 - 1) sdiv 512) :: u32) = (nat len + 511) div 512"
proof -
  have "(len + 512 - 1) sdiv 512 = (len + 511) div 512" using assms by (simp add: truncating_nonneg)
  moreover have "(len + 511) div 512 = int ((nat len + 511) div 512)" using assms by (simp add: zdiv_int)
  moreover have "(nat len + 511) div 512 < 2 ^ 32" using assms by (auto simp: div_less_iff_less_mult)
  ultimately show ?thesis by (simp add: of_nat_inverse)
qed

text \<open>
  The file blocks a truncation to \<open>n\<close> blocks removes: the direct ones from \<open>n\<close> on, but of the
  ones behind the indirect block only those after \<open>n\<close>.
\<close>

definition cut_file_block :: "nat \<Rightarrow> nat \<Rightarrow> bool" where
  "cut_file_block n k \<longleftrightarrow> (if k < SFS_NDIRECT then n \<le> k else n < k)"

lemma cut_file_blocks:
  assumes len: "length (slots s i) = 144"
    and sl: "slots s' i' = zero_at ((\<lambda>k. 16 + k) ` cut_entries B 0 \<union> z) (zero_at {k. 0 \<le> k \<and> k < 15 \<and> unat B \<le> k} (slots s i))"
    and z: "z \<subseteq> {15}"
  shows "file_block s' i' k = (if cut_file_block (unat B) k then 0 else file_block s i k)"
proof (cases "k < 15")
  case True
  then show ?thesis using len z by (auto simp: file_block_def slot_of_def sl cut_file_block_def max_blocks_def)
next
  case False
  then obtain l where l: "k = 15 + l" using le_Suc_ex by (auto simp: not_less)
  have "16 + l \<in> (\<lambda>k. 16 + k) ` cut_entries B 0 \<longleftrightarrow> l < 128 \<and> unat B < 15 + l"
    by (auto simp: cut_entries_def)
  then show ?thesis
    using len z by (auto simp: file_block_def slot_of_def sl cut_file_block_def max_blocks_def l)
qed

lemma itrunc_ok:
  assumes vol: "vol_healthy s" and sv: "sfs_mem s p = Some sv" and ok: "inode_ok s (sv_i sv)"
  shows "\<exists>s1 s2 sv1 sv2. itrunc_direct p B 0 s = (Inr (), s1) \<and> sfs_mem s1 p = Some sv1
    \<and> (if B < 142 \<and> sfi_indirect (sv_i sv1) \<noteq> 0 then itrunc_idblock p B (sfi_indirect (sv_i sv1)) else kreturn ()) s1
        = (Inr (), s2)
    \<and> cut_ok s p sv s2 sv2
    \<and> (\<forall>k. file_block s2 (sv_i sv2) k = (if cut_file_block (unat B) k then 0 else file_block s (sv_i sv) k))
    \<and> (\<forall>x. x \<noteq> unat (sfi_indirect (sv_i sv)) \<longrightarrow> blocks_of s2 ! x = blocks_of s ! x)"
proof -
  have sl: "length (slots s (sv_i sv)) = 144" by (rule slots_length [OF ok])
  obtain s1 sv1 where d: "itrunc_direct p B 0 s = (Inr (), s1)" "cut_ok s p sv s1 sv1"
    "slots s1 (sv_i sv1) = zero_at {k. 0 \<le> k \<and> k < 15 \<and> unat B \<le> k} (slots s (sv_i sv))"
    "sfi_indirect (sv_i sv1) = sfi_indirect (sv_i sv)" "blocks_of s1 = blocks_of s"
    using itrunc_direct_ok [OF vol sv ok le0] by blast
  have s1: "vol_healthy s1" "sfs_mem s1 p = Some sv1" "inode_ok s1 (sv_i sv1)" using d(2) by (simp_all add: cut_ok_def)
  show ?thesis
  proof (cases "B < 142 \<and> sfi_indirect (sv_i sv1) \<noteq> 0")
    case True
    obtain s2 sv2 where i: "itrunc_idblock p B (sfi_indirect (sv_i sv1)) s1 = (Inr (), s2)"
      "cut_ok s1 p sv1 s2 sv2" "cut_indirect B s1 (sv_i sv1) s2 (sv_i sv2)"
      using itrunc_idblock_ok [OF s1] True by blast
    then obtain z where z: "slots s2 (sv_i sv2) = zero_at ((\<lambda>k. 16 + k) ` cut_entries B 0 \<union> z) (slots s1 (sv_i sv1))"
      "z \<subseteq> {15}"
      by (auto simp: cut_indirect_def)
    have "\<forall>x. x \<noteq> unat (sfi_indirect (sv_i sv)) \<longrightarrow> blocks_of s2 ! x = blocks_of s ! x"
      using i(3) d(4,5) by (simp add: cut_indirect_def)
    with d(1) s1(2) i(1) True cut_ok_trans [OF d(2) i(2)] cut_file_blocks [OF sl z(1) [unfolded d(3)] z(2)]
    show ?thesis by (intro exI [of _ s1] exI [of _ s2] exI [of _ sv1] exI [of _ sv2]) simp
  next
    case False
    have "unat B < 142 \<longrightarrow> indirect_words s1 (sv_i sv1) = replicate 128 0"
      using False by (auto simp: indirect_words_def word_less_nat_alt)
    then have "file_block s1 (sv_i sv1) k = 0" if "15 \<le> k" "unat B < k" for k
      using that indirect_slot [OF s1(3), of "k - 15"] by (auto simp: file_block_def slot_of_def max_blocks_def)
    moreover have "file_block s1 (sv_i sv1) k = file_block s (sv_i sv) k" if "15 \<le> k" for k
      using that sl by (auto simp: file_block_def slot_of_def max_blocks_def d(3))
    moreover have "file_block s1 (sv_i sv1) k = (if unat B \<le> k then 0 else file_block s (sv_i sv) k)" if "k < 15" for k
      using that sl by (auto simp: file_block_def slot_of_def max_blocks_def d(3))
    ultimately have "file_block s1 (sv_i sv1) k = (if cut_file_block (unat B) k then 0 else file_block s (sv_i sv) k)" for k
      by (auto simp: cut_file_block_def)
    with d s1(2) False show ?thesis
      by (intro exI [of _ s1] exI [of _ s1] exI [of _ sv1] exI [of _ sv1]) (auto simp: kreturn_def)
  qed
qed

subsection \<open>Properties\<close>

text \<open>
  A volume of eight blocks on a disk that works. Block 4 is an indirect block with block 5 as
  its first entry; blocks 6 and 7 are free.
\<close>

definition example_inode :: sfs_dinode where
  "example_inode = \<lparr>sfi_size = 8000, sfi_type = 1, sfi_linkcount = 1,
     sfi_direct = 2 # 3 # replicate 13 0, sfi_indirect = 4, sfi_waste = replicate 110 0\<rparr>"

definition example_sv :: sfs_vnode where
  "example_sv = \<lparr>sv_i = example_inode, sv_ino = 1, sv_dirty = False, vn_refcount = 1, vn_opencount = 0, vn_dirops = False\<rparr>"

definition example_fs :: sfs_fs where
  "example_fs =
     \<lparr>sfs_sb = \<lparr>sb_magic = SFS_MAGIC, sb_nblocks = 8, sb_volname = replicate 32 0, sb_reserved = replicate 118 0\<rparr>,
      sfs_superdirty = False,
      sfs_device = \<lparr>lh_disk = (replicate 8 (replicate 512 0))[4 := bytes_of_words (5 # replicate 127 0)],
        lh_status = [], lh_buf = replicate 512 0, d_blocks = 8\<rparr>,
      sfs_vnodes = [], sfs_freemap = \<lparr>nbits = 8, bm_v = [0x3f]\<rparr>, sfs_freemapdirty = False,
      biglock_depth = 1, sfs_mem = [100 \<mapsto> example_sv], sfs_next = 101, sfs_kmalloc = []\<rparr>"

lemma example_fs_fields [simp]:
  "sb_nblocks (sfs_sb example_fs) = 8" "sfs_freemap example_fs = \<lparr>nbits = 8, bm_v = [0x3f]\<rparr>"
  "sfs_mem example_fs = [100 \<mapsto> example_sv]" "biglock_depth example_fs = 1" "d_blocks (sfs_device example_fs) = 8"
  "lh_status (sfs_device example_fs) = []" "lh_buf (sfs_device example_fs) = replicate 512 0"
  "lh_disk (sfs_device example_fs) = (replicate 8 (replicate 512 0))[4 := bytes_of_words (5 # replicate 127 0)]"
  "sv_i example_sv = example_inode" "nblocks example_fs = 8"
  by (simp_all add: example_fs_def example_sv_def nblocks_def)

lemma example_fs_in_use: "in_use example_fs = {0, 1, 2, 3, 4, 5}"
proof -
  have "in_use example_fs = set (filter (bit (0x3f :: u8)) [0..<8])"
    by (auto simp: in_use_def used_def bmem_def)
  also have "\<dots> = {0, 1, 2, 3, 4, 5}" by code_simp
  finally show ?thesis .
qed

lemma example_fs_healthy: "vol_healthy example_fs"
proof -
  have "dev_wf (sfs_device example_fs)"
    by (auto simp: dev_wf_def dest!: set_update_subset_insert [THEN subsetD])
  moreover have "bitmap_wf (sfs_freemap example_fs)" by (auto simp: bitmap_wf_def)
  ultimately show ?thesis using example_fs_in_use by (simp add: vol_healthy_def vol_ok_def)
qed

lemma example_fs_slots:
  "slots example_fs example_inode = [2, 3] @ replicate 13 0 @ [4, 5] @ replicate 127 0"
proof -
  have "indirect_words example_fs example_inode = 5 # replicate 127 0"
    by (simp add: indirect_words_def example_inode_def blocks_of_def words_of_bytes)
  then show ?thesis by (simp add: slots_def) (simp add: example_inode_def)
qed

lemma example_fs_inode: "inode_ok example_fs example_inode"
proof -
  have "mapped example_fs example_inode = [2, 3, 4, 5]" by (simp add: mapped_def example_fs_slots)
  moreover have "length (slots example_fs example_inode) = 144" by (simp add: example_fs_slots)
  then have "length (indirect_words example_fs example_inode) = 128" by (simp add: slots_def example_inode_def)
  ultimately show ?thesis
    by (simp add: inode_ok_def example_fs_in_use) (simp add: dinode_wf_def example_inode_def)
qed

text \<open>
  C29: A block allocation hands out a free block of the volume, marks exactly that block, fills it
  with zeros and keeps the rest of the volume; freeing it again restores the free map. It fails
  with \<open>ENOSPC\<close>, and changes nothing, exactly when every block of the volume is in use.
\<close>

theorem sfs_balloc_bfree:
  assumes "vol_healthy s"
  shows "case sfs_balloc s of
      (Inr b, s') \<Rightarrow> allocated s b s' \<and> (\<exists>t. sfs_bfree b s' = (Inr (), t) \<and> in_use t = in_use s \<and> vol_healthy t)
    | (Inl e, s') \<Rightarrow> e = ENOSPC \<and> s' = s \<and> {..<nblocks s} \<subseteq> in_use s"
proof -
  obtain r s' where al: "sfs_balloc s = (r, s')" by (cases "sfs_balloc s")
  show ?thesis
  proof (cases r)
    case (Inr b)
    then have a: "allocated s b s'" using balloc_ok [OF assms] al by simp
    then have "\<exists>t. sfs_bfree b s' = (Inr (), t) \<and> vol_healthy t \<and> in_use t = in_use s' - {unat b}"
      using bfree_ok [of s' b] by (auto simp: allocated_def nblocks_def)
    moreover have "in_use s' - {unat b} = in_use s" using a by (auto simp: allocated_def)
    ultimately show ?thesis using a al Inr by auto
  qed (use balloc_ok [OF assms] al in auto)
qed

theorem sfs_balloc_bfree_witness:
  "\<exists>b s' t. sfs_balloc example_fs = (Inr b, s') \<and> unat b \<in> {6, 7}
     \<and> sfs_bfree b s' = (Inr (), t) \<and> in_use t = {0, 1, 2, 3, 4, 5}"
proof -
  obtain r s' where al: "sfs_balloc example_fs = (r, s')" by (cases "sfs_balloc example_fs")
  note p = sfs_balloc_bfree [OF example_fs_healthy, unfolded al prod.case]
  show ?thesis
  proof (cases r)
    case (Inl e)
    then have "{..<nblocks example_fs} \<subseteq> in_use example_fs" using p by simp
    then have "6 \<in> in_use example_fs" by (rule subsetD) simp
    then show ?thesis by (simp add: example_fs_in_use)
  next
    case (Inr b)
    with p al show ?thesis by (auto simp: example_fs_in_use allocated_def)
  qed
qed

text \<open>
  C22: Looking up a file block returns its disk block (0 for a hole) and changes no block and
  nothing else of the volume; a block behind the last one an inode can map is \<open>EFBIG\<close>.
\<close>

theorem sfs_bmap_looks_up:
  assumes "vol_healthy s" and "sfs_mem s p = Some sv" and "inode_ok s (sv_i sv)"
    and "\<not> doalloc \<or> file_block s (sv_i sv) (unat fb) \<noteq> 0 \<or> max_blocks \<le> unat fb"
  shows "\<exists>s'. sfs_bmap p fb doalloc s =
      (if unat fb < max_blocks then Inr (file_block s (sv_i sv) (unat fb)) else Inl EFBIG, s')
    \<and> dev_step s (blocks_of s) s'"
proof (cases "unat fb < max_blocks")
  case True
  then show ?thesis using bmap_lookup_ok [OF assms(1-3) True] assms(4) by auto
next
  case False
  then have "\<not> fb < 15" by (auto simp: max_blocks_def word_less_nat_alt)
  with False assms(1) show ?thesis by (auto simp: bmap_unfold [OF assms(1,2)] dev_step_def)
qed

theorem sfs_bmap_looks_up_witness:
  "fst (sfs_bmap 100 15 False example_fs) = Inr 5 \<and> fst (sfs_bmap 100 2 False example_fs) = Inr 0
     \<and> fst (sfs_bmap 100 143 True example_fs) = Inl EFBIG"
proof -
  have "file_block example_fs example_inode 15 = 5" "file_block example_fs example_inode 2 = 0"
    by (simp_all add: file_block_def max_blocks_def slot_of_def example_fs_slots nth_append)
  then show ?thesis
    using sfs_bmap_looks_up [of example_fs 100 example_sv False 15]
      sfs_bmap_looks_up [of example_fs 100 example_sv False 2]
      sfs_bmap_looks_up [of example_fs 100 example_sv True 143]
      example_fs_healthy example_fs_inode
    by (auto simp: max_blocks_def)
qed

text \<open>
  C19: Extending the map at a hole gives the file a fresh block of zeros there and changes no other
  entry of the map, no other block in use, and no other vnode; the inode stays consistent (no
  block mapped twice, every mapped block marked in use). When the volume is full the map stays.
\<close>

theorem sfs_bmap_fills_hole:
  assumes "vol_healthy s" and "sfs_mem s p = Some sv" and "inode_ok s (sv_i sv)"
    and "unat fb < max_blocks" and "file_block s (sv_i sv) (unat fb) = 0"
  shows "\<exists>r s' sv'. sfs_bmap p fb True s = (r, s') \<and> frame_ok s p sv s' sv' \<and>
    (case r of
       Inl e \<Rightarrow> e = ENOSPC \<and> file_block s' (sv_i sv') = file_block s (sv_i sv)
     | Inr b \<Rightarrow> b \<noteq> 0 \<and> unat b \<notin> in_use s \<and> file_block s' (sv_i sv') = (file_block s (sv_i sv))(unat fb := b)
         \<and> blocks_of s' ! unat b = replicate 512 0)"
  using bmap_alloc_ok [OF assms] by (simp add: bmap_extends_def)

theorem sfs_bmap_fills_hole_witness:
  "\<exists>r s' sv'. sfs_bmap 100 2 True example_fs = (r, s') \<and> sfs_mem s' 100 = Some sv'
     \<and> (r = Inl ENOSPC \<or> (\<exists>b. r = Inr b \<and> b \<noteq> 0 \<and> file_block s' (sv_i sv') 2 = b))"
proof -
  have two: "unat (2 :: u32) = 2" by simp
  have "file_block example_fs example_inode 2 = 0"
    by (simp add: file_block_def max_blocks_def slot_of_def example_fs_slots nth_append)
  then have "\<exists>r s' sv'. sfs_bmap 100 2 True example_fs = (r, s') \<and> frame_ok example_fs 100 example_sv s' sv' \<and>
    (case r of
       Inl e \<Rightarrow> e = ENOSPC \<and> file_block s' (sv_i sv') = file_block example_fs example_inode
     | Inr b \<Rightarrow> b \<noteq> 0 \<and> unat b \<notin> in_use example_fs \<and> file_block s' (sv_i sv') = (file_block example_fs example_inode)(2 := b)
         \<and> blocks_of s' ! unat b = replicate 512 0)"
    using sfs_bmap_fills_hole [of example_fs 100 example_sv 2, unfolded two example_fs_fields] example_fs_healthy example_fs_inode
    by (simp add: max_blocks_def)
  then show ?thesis by (elim exE conjE) (rename_tac r s' sv', case_tac r, auto simp: frame_ok_def)
qed

text \<open>
  C11: A truncation succeeds, sets the size, and drops from the map exactly the file blocks from
  the new end on, except that of the blocks behind the indirect block the one just past the end
  stays mapped; the blocks it drops are free afterwards and no others, the inode stays
  consistent, no data block is written, and the big lock is released.
\<close>

theorem sfs_itrunc_cuts:
  assumes "vol_healthy (under_lock s)" and "sfs_mem s p = Some sv" and "inode_ok s (sv_i sv)"
    and "0 \<le> len" and "len < 2 ^ 32"
  shows "\<exists>s' sv'. sfs_itrunc p len s = (Inr (), s') \<and> cut_ok (under_lock s) p sv (under_lock s') sv'
    \<and> sfi_size (sv_i sv') = word_of_int len \<and> sv_dirty sv'
    \<and> (\<forall>k. file_block s' (sv_i sv') k =
         (if cut_file_block ((nat len + 511) div 512) k then 0 else file_block s (sv_i sv) k))
    \<and> (\<forall>x. x \<noteq> unat (sfi_indirect (sv_i sv)) \<longrightarrow> blocks_of s' ! x = blocks_of s ! x)"
proof -
  define B where "B = (word_of_int ((len + 512 - 1) sdiv 512) :: u32)"
  have B: "unat B = (nat len + 511) div 512" unfolding B_def by (rule trunc_blocks [OF assms(4,5)])
  have fb: "file_block (under_lock t) i = file_block t i" for t i by (simp add: file_block_def fun_eq_iff)
  have ok: "inode_ok (under_lock s) (sv_i sv)"
    using assms(3) by (cases "sfi_indirect (sv_i sv) = 0") (simp_all add: inode_ok_def mapped_def indirect_words_def)
  have mem: "sfs_mem (under_lock s) p = Some sv" using assms(2) by simp
  obtain s1 s2 sv1 sv2 where r: "itrunc_direct p B 0 (under_lock s) = (Inr (), s1)" "sfs_mem s1 p = Some sv1"
    "(if B < 142 \<and> sfi_indirect (sv_i sv1) \<noteq> 0 then itrunc_idblock p B (sfi_indirect (sv_i sv1)) else kreturn ()) s1
        = (Inr (), s2)"
    and cut: "cut_ok (under_lock s) p sv s2 sv2"
    and res: "\<And>k. file_block s2 (sv_i sv2) k = (if cut_file_block (unat B) k then 0 else file_block s (sv_i sv) k)"
      "\<And>x. x \<noteq> unat (sfi_indirect (sv_i sv)) \<Longrightarrow> blocks_of s2 ! x = blocks_of s ! x"
    using itrunc_ok [OF assms(1) mem ok, of B] by (auto simp: fb)
  let ?f = "\<lambda>i. i\<lparr>sfi_size := word_of_int len\<rparr>"
  define s3 where "s3 = s2\<lparr>sfs_mem := (sfs_mem s2)(p := Some (dirty_inode ?f sv2))\<rparr>"
  have "sfs_mem s2 p = Some sv2" using cut by (simp add: cut_ok_def)
  then have u: "upd_sv p (dirty_inode ?f) s2 = (Inr (), s3)" by (simp add: upd_sv_def s3_def)
  have sl: "slots s3 (sv_i (dirty_inode ?f sv2)) = slots s2 (sv_i sv2)"
    by (simp add: slots_def indirect_words_def s3_def dirty_inode_def blocks_of_def)
  have "blocks_of s3 = blocks_of s2" "nblocks s3 = nblocks s2" "in_use s3 = in_use s2" "vol_healthy s3 = vol_healthy s2"
    by (simp_all add: s3_def blocks_of_def nblocks_def in_use_def vol_healthy_def vol_ok_def)
  moreover from this have "mapped s3 (sv_i (dirty_inode ?f sv2)) = mapped s2 (sv_i sv2)"
    "inode_ok s3 (sv_i (dirty_inode ?f sv2)) = inode_ok s2 (sv_i sv2)"
    by (simp_all add: mapped_def sl inode_ok_def) (simp add: dinode_wf_def dirty_inode_def indirect_words_def)
  ultimately have c3: "cut_ok (under_lock s) p sv s3 (dirty_inode ?f sv2)"
    using cut by (simp add: cut_ok_def) (simp add: s3_def dirty_inode_def)
  have "biglock_depth s3 = Suc (biglock_depth s)" using c3 by (simp add: cut_ok_def under_lock_def)
  from unlock [OF this] obtain s' where s': "vfs_biglock_release s3 = (Inr (), s')" "under_lock s' = s3" by blast
  have "file_block s' (sv_i (dirty_inode ?f sv2)) k =
      (if cut_file_block ((nat len + 511) div 512) k then 0 else file_block s (sv_i sv) k)" for k
    using res(1) [of k] B file_block_cong [OF sl] by (simp add: fb [of s', symmetric] s'(2))
  moreover have "blocks_of s' = blocks_of s2"
    using s'(2) under_lock_simps(3) [of s'] by (simp add: s3_def blocks_of_def)
  moreover have "sfs_itrunc p len s = (Inr (), s')"
    unfolding sfs_itrunc_def Let_def B_def [symmetric] using r s' u
    by (cases "B < 142 \<and> sfi_indirect (sv_i sv1) \<noteq> 0")
      (auto simp: kbind_def vfs_biglock_acquire_def kmodify_def get_sv_def under_lock_def kreturn_def)
  ultimately show ?thesis
    using c3 s'(2) res(2) by (intro exI [of _ s'] exI [of _ "dirty_inode ?f sv2"]) (simp add: dirty_inode_def)
qed

text \<open>Cutting the example to 15 blocks leaves its block number 15, disk block 5, in use.\<close>

theorem sfs_itrunc_cuts_witness:
  "\<exists>s' sv'. sfs_itrunc 100 7680 example_fs = (Inr (), s') \<and> sfs_mem s' 100 = Some sv'
     \<and> sfi_size (sv_i sv') = 7680 \<and> file_block s' (sv_i sv') 15 = 5"
proof -
  have "file_block example_fs example_inode 15 = 5" "\<not> cut_file_block 15 15"
    by (simp_all add: file_block_def max_blocks_def slot_of_def example_fs_slots nth_append cut_file_block_def)
  moreover have "vol_healthy (under_lock example_fs)"
    using example_fs_healthy by (simp add: vol_healthy_def vol_ok_def under_lock_def nblocks_def in_use_def)
  moreover have "(nat 7680 + 511) div 512 = 15" by simp
  ultimately show ?thesis
    using sfs_itrunc_cuts [of example_fs 100 example_sv 7680] example_fs_inode
    by (auto simp: cut_ok_def)
qed

end
