(* ===== verification/SfsIo.thy ===== *)
theory SfsIo
  imports SfsBmap
begin

text \<open>
  File-level I/O, \<^verbatim>\<open>kern/fs/sfs/sfs_io.c\<close>: \<open>sfs_io\<close> cuts a transfer into partial and whole blocks;
  \<open>sfs_metaio\<close> reads and writes small objects in the kernel. The state of a file transfer is the volume
  together with the \<open>uio\<close>. The static buffers are local values: every call fills them before use.
  \<open>file_byte\<close> is the abstract contents of a file: the bytes of its mapped blocks, and 0 in the holes.
\<close>

subsection \<open>Transfers\<close>

definition on_fs :: "(sfs_fs, 'a) kernel \<Rightarrow> (sfs_fs \<times> uio, 'a) kernel" where
  "on_fs m = (\<lambda>(s, u). case m s of (r, s') \<Rightarrow> (r, s', u))"

definition on_uio :: "(uio, 'a) kernel \<Rightarrow> (sfs_fs \<times> uio, 'a) kernel" where
  "on_uio m = (\<lambda>(s, u). case m u of (r, u') \<Rightarrow> (r, s, u'))"

definition the_uio :: "(sfs_fs \<times> uio, uio) kernel" where
  "the_uio = kget snd"

text \<open>The block of the file the transfer is at: \<open>uint32_t fileblock = uio_offset / SFS_BLOCKSIZE\<close>.\<close>

definition uio_fileblock :: "uio \<Rightarrow> u32" where
  "uio_fileblock u = word_of_int (uio_offset u sdiv 512)"

text \<open>Part of a block: \<open>len\<close> bytes from \<open>skipstart\<close> on.\<close>

definition sfs_partialio :: "nat \<Rightarrow> u32 \<Rightarrow> u32 \<Rightarrow> (sfs_fs \<times> uio, unit) kernel" where
  "sfs_partialio p skipstart len =
     kbind the_uio (\<lambda>u.
     let doalloc = (uio_rw u = UIO_WRITE) in
     kbind (kassert (skipstart + len \<le> 512)) (\<lambda>_.
     kbind (on_fs (kget vfs_biglock_do_i_hold)) (\<lambda>h. kbind (kassert h) (\<lambda>_.
     kbind (on_fs (sfs_bmap p (uio_fileblock u) doalloc)) (\<lambda>diskblock.
     kbind (if diskblock = 0 then kbind (kassert (uio_rw u = UIO_READ)) (\<lambda>_. kreturn (replicate SFS_BLOCKSIZE 0))
            else on_fs (sfs_readblock diskblock SFS_BLOCKSIZE)) (\<lambda>iobuf.
     kbind (on_uio (uiomove (slice_at (unat skipstart) (unat len) iobuf) len)) (\<lambda>part.
     if uio_rw u = UIO_WRITE then on_fs (sfs_writeblock diskblock (overlay (unat skipstart) part iobuf))
     else kreturn ())))))))"

text \<open>
  A whole block, straight between the device and the region. \<open>diskoff\<close> is a 32-bit product.
  The offset and the residue are those of the device during the transfer and restored after it.
\<close>

definition sfs_blockio :: "nat \<Rightarrow> (sfs_fs \<times> uio, unit) kernel" where
  "sfs_blockio p =
     kbind the_uio (\<lambda>u.
     let doalloc = (uio_rw u = UIO_WRITE) in
     kbind (on_fs (sfs_bmap p (uio_fileblock u) doalloc)) (\<lambda>diskblock.
     if diskblock = 0 then
       kbind (kassert (uio_rw u = UIO_READ)) (\<lambda>_. on_uio (uiomovezeros 512))
     else
       let saveoff = uio_offset u;
           diskoff = int (unat (diskblock * 512)) in
       kbind (on_uio (kmodify (\<lambda>u. u\<lparr>uio_offset := diskoff\<rparr>))) (\<lambda>_.
       kbind (kassert (uio_resid u \<ge> 512)) (\<lambda>_.
       let saveres = int (unat (uio_resid u)) in
       kbind (on_uio (kmodify (\<lambda>u. u\<lparr>uio_resid := 512\<rparr>))) (\<lambda>_.
       kbind (ktry sfs_rwblock) (\<lambda>result.
       kbind (on_uio (kmodify (\<lambda>u. u\<lparr>uio_offset := (uio_offset u - diskoff) + saveoff,
         uio_resid := word_of_int ((int (unat (uio_resid u)) - 512) + saveres)\<rparr>))) (\<lambda>_.
       case result of Inl e \<Rightarrow> kfail e | Inr _ \<Rightarrow> kreturn ())))))))"

fun blockio_loop :: "nat \<Rightarrow> nat \<Rightarrow> (sfs_fs \<times> uio, unit) kernel" where
  "blockio_loop p 0 = kreturn ()"
| "blockio_loop p (Suc n) = kbind (sfs_blockio p) (\<lambda>_. blockio_loop p n)"

text \<open>The three phases of \<open>sfs_io\<close>, up to the label \<open>out\<close>.\<close>

definition io_phases :: "nat \<Rightarrow> (sfs_fs \<times> uio, unit) kernel" where
  "io_phases p =
     kbind the_uio (\<lambda>u.
     let blkoff = word_of_int (uio_offset u smod 512) :: u32 in
     kbind (if blkoff \<noteq> 0 then sfs_partialio p blkoff (min (512 - blkoff) (uio_resid u)) else kreturn ()) (\<lambda>_.
     kbind the_uio (\<lambda>u.
     if uio_resid u = 0 then kreturn ()
     else
       kbind (kassert (uio_offset u smod 512 = 0)) (\<lambda>_.
       kbind (blockio_loop p (unat (uio_resid u div 512))) (\<lambda>_.
       kbind the_uio (\<lambda>u.
       kbind (kassert (uio_resid u < 512)) (\<lambda>_.
       if uio_resid u > 0 then sfs_partialio p 0 (uio_resid u) else kreturn ())))))))"

text \<open>The code at \<open>out\<close>.\<close>

definition io_out :: "nat \<Rightarrow> u32 \<Rightarrow> u32 \<Rightarrow> (sfs_fs \<times> uio, unit) kernel" where
  "io_out p origresid extraresid =
     kbind the_uio (\<lambda>u.
     kbind (on_fs (get_sv p)) (\<lambda>sv.
     kbind (if uio_resid u \<noteq> origresid \<and> uio_rw u = UIO_WRITE \<and> uio_offset u > int (unat (sfi_size (sv_i sv)))
            then on_fs (upd_sv p (dirty_inode (\<lambda>i. i\<lparr>sfi_size := word_of_int (uio_offset u)\<rparr>)))
            else kreturn ()) (\<lambda>_.
     on_uio (kmodify (\<lambda>u. u\<lparr>uio_resid := uio_resid u + extraresid\<rparr>)))))"

definition sfs_io :: "nat \<Rightarrow> (sfs_fs \<times> uio, unit) kernel" where
  "sfs_io p =
     kbind the_uio (\<lambda>u.
     kbind (on_fs (get_sv p)) (\<lambda>sv.
     let origresid = uio_resid u;
         size = int (unat (sfi_size (sv_i sv)));
         endpos = uio_offset u + int (unat (uio_resid u));
         extraresid = (if uio_rw u = UIO_READ \<and> endpos > size then word_of_int (endpos - size) else 0) :: u32
     in if uio_rw u = UIO_READ \<and> uio_offset u \<ge> size then kreturn ()
        else
          kbind (if uio_rw u = UIO_READ \<and> endpos > size then
                   kbind (kassert (uio_resid u > extraresid)) (\<lambda>_.
                   on_uio (kmodify (\<lambda>u. u\<lparr>uio_resid := uio_resid u - extraresid\<rparr>)))
                 else kreturn ()) (\<lambda>_.
          kbind (ktry (io_phases p)) (\<lambda>result.
          kbind (io_out p origresid extraresid) (\<lambda>_.
          case result of Inl e \<Rightarrow> kfail e | Inr _ \<Rightarrow> kreturn ())))))"

text \<open>
  \<open>sfs_metaio\<close>: \<open>data\<close> is the caller's object; the result is its contents afterwards. An object
  that crosses the end of the block is outside the buffer, which C leaves undefined.
\<close>

definition sfs_metaio :: "nat \<Rightarrow> int \<Rightarrow> u8 list \<Rightarrow> uio_rw \<Rightarrow> (sfs_fs, u8 list) kernel" where
  "sfs_metaio p actualpos data rw =
     kbind (kget vfs_biglock_do_i_hold) (\<lambda>h. kbind (kassert h) (\<lambda>_.
     let vnblock = word_of_int (actualpos sdiv 512) :: u32;
         blockoffset = unat (word_of_int (actualpos smod 512) :: u32);
         len = length data
     in
     kbind (sfs_bmap p vnblock (rw = UIO_WRITE)) (\<lambda>diskblock.
     if diskblock = 0 then kbind (kassert (rw = UIO_READ)) (\<lambda>_. kreturn (replicate len 0))
     else
       kbind (sfs_readblock diskblock SFS_BLOCKSIZE) (\<lambda>metaiobuf.
       if SFS_BLOCKSIZE < blockoffset + len then kfail UNDEFINED
       else case rw of
         UIO_READ \<Rightarrow> kreturn (slice_at blockoffset len metaiobuf)
       | UIO_WRITE \<Rightarrow>
           kbind (sfs_writeblock diskblock (overlay blockoffset data metaiobuf)) (\<lambda>_.
           kbind (get_sv p) (\<lambda>sv.
           let endpos = actualpos + int len in
           kbind (if endpos > int (unat (sfi_size (sv_i sv)))
                  then upd_sv p (dirty_inode (\<lambda>i. i\<lparr>sfi_size := word_of_int endpos\<rparr>))
                  else kreturn ()) (\<lambda>_.
           kreturn data)))))))"

subsection \<open>The contents of a file\<close>

definition file_byte :: "sfs_fs \<Rightarrow> sfs_dinode \<Rightarrow> nat \<Rightarrow> u8" where
  "file_byte s i x =
     (let b = file_block s i (x div 512) in if b = 0 then 0 else blocks_of s ! unat b ! (x mod 512))"

definition file_bytes :: "sfs_fs \<Rightarrow> sfs_dinode \<Rightarrow> nat \<Rightarrow> nat \<Rightarrow> u8 list" where
  "file_bytes s i off n = map (file_byte s i) [off..<off + n]"

lemma file_bytes_length [simp]: "length (file_bytes s i off n) = n"
  by (simp add: file_bytes_def)

lemma file_bytes_append: "file_bytes s i off (a + b) = file_bytes s i off a @ file_bytes s i (off + a) b"
  using upt_add_eq_append [of off "off + a" b] by (simp add: file_bytes_def add.assoc)

lemma dev_step_same:
  assumes "dev_step s (blocks_of s) s'"
  shows "file_block s' i = file_block s i" and "file_bytes s' i = file_bytes s i"
    and "inode_ok s' i = inode_ok s i" and "sfs_mem s' = sfs_mem s" and "vol_healthy s'" and "nblocks s' = nblocks s"
proof -
  note f = sans_device_fields [of s' s]
  have b: "blocks_of s' = blocks_of s" "sans_device s' = sans_device s" using assms by (simp_all add: dev_step_def)
  have sl: "slots s' i = slots s i" by (simp add: slots_def indirect_words_def b(1))
  then show fb: "file_block s' i = file_block s i" by (rule file_block_cong)
  then have "file_byte s' i = file_byte s i" by (intro ext) (simp add: file_byte_def b(1) Let_def)
  then show "file_bytes s' i = file_bytes s i" by (intro ext) (simp add: file_bytes_def)
  have iw: "indirect_words s' i = indirect_words s i" by (simp add: indirect_words_def b(1))
  show "inode_ok s' i = inode_ok s i"
    using f(10,11) [OF b(2)] by (simp add: inode_ok_def mapped_def sl iw)
  show "sfs_mem s' = sfs_mem s" "nblocks s' = nblocks s" using f [OF b(2)] by simp_all
  show "vol_healthy s'" using assms by (simp add: dev_step_def)
qed

lemma dev_step_trans:
  "dev_step s (blocks_of s) s1 \<Longrightarrow> dev_step s1 (blocks_of s1) s2 \<Longrightarrow> dev_step s (blocks_of s) s2"
  by (simp add: dev_step_def)

text \<open>A file block of a consistent inode: where it lies and what it holds.\<close>

lemma file_block_stored:
  assumes "inode_ok s i" and "file_block s i k \<noteq> 0"
  shows "unat (file_block s i k) < nblocks s" and "unat (file_block s i k) \<in> in_use s" and "k < max_blocks"
proof -
  show k: "k < max_blocks" using assms(2) by (auto simp: file_block_def split: if_splits)
  then show "unat (file_block s i k) < nblocks s" "unat (file_block s i k) \<in> in_use s"
    using slot_used [OF assms(1), of "slot_of k"] assms(2) by (auto simp: file_block_def slot_of_def max_blocks_def)
qed

lemma block_length: "vol_healthy s \<Longrightarrow> unat b < nblocks s \<Longrightarrow> length (blocks_of s ! unat b) = 512"
  for b :: u32
  using healthy_length [of s b] by (auto simp: vol_healthy_def vol_ok_def dev_wf_def blocks_of_def)

definition file_data :: "sfs_fs \<Rightarrow> daddr \<Rightarrow> u8 list" where
  "file_data s b = (if b = 0 then replicate 512 0 else blocks_of s ! unat b)"

lemma file_data_length: "vol_healthy s \<Longrightarrow> b = 0 \<or> unat b < nblocks s \<Longrightarrow> length (file_data s b) = 512"
  using block_length [of s b] by (auto simp: file_data_def)

lemma file_bytes_block:
  assumes "vol_healthy s" and "inode_ok s i" and "off mod 512 + n \<le> 512"
  shows "file_bytes s i off n = slice_at (off mod 512) n (file_data s (file_block s i (off div 512)))"
proof (rule nth_equalityI)
  let ?b = "file_block s i (off div 512)"
  have len: "length (file_data s ?b) = 512"
    using file_block_stored [OF assms(2)] by (intro file_data_length [OF assms(1)]) auto
  then show "length (file_bytes s i off n) = length (slice_at (off mod 512) n (file_data s ?b))"
    using assms(3) by simp
  fix k assume "k < length (file_bytes s i off n)"
  then have k: "k < n" by simp
  have "off + k = off div 512 * 512 + (off mod 512 + k)" by simp
  then have "(off + k) div 512 = off div 512" "(off + k) mod 512 = off mod 512 + k"
    using assms(3) k by (metis div_mult_self3 div_less add_0_right less_le_trans nat_add_left_cancel_less
        zero_neq_numeral, metis mod_mult_self3 mod_less less_le_trans nat_add_left_cancel_less)
  with k len assms(3) show "file_bytes s i off n ! k = slice_at (off mod 512) n (file_data s ?b) ! k"
    by (simp add: file_bytes_def file_byte_def slice_at_def file_data_def Let_def)
qed

subsection \<open>Reading a file\<close>

text \<open>\<open>n\<close> bytes of the file have gone to the region; the volume is unchanged.\<close>

definition read_ok :: "sfs_fs \<Rightarrow> sfs_dinode \<Rightarrow> nat \<Rightarrow> uio \<Rightarrow> sfs_fs \<Rightarrow> uio \<Rightarrow> bool" where
  "read_ok s i n u s' u' \<longleftrightarrow> dev_step s (blocks_of s) s' \<and> uio_ok u'
     \<and> uio_moved n (file_bytes s i (nat (uio_offset u)) n) u (file_bytes s i (nat (uio_offset u)) n) u'"

lemma read_ok_trans:
  assumes a: "read_ok s i m u s1 u1" and b: "read_ok s1 i n u1 s2 u2"
    and u: "0 \<le> uio_offset u" "m \<le> length (targets u)"
  shows "read_ok s i (m + n) u s2 u2"
proof -
  have st: "dev_step s (blocks_of s) s1" using a by (simp add: read_ok_def)
  have "uio_offset u1 = uio_offset u + int m" using a by (simp add: read_ok_def uio_moved_def)
  then have "nat (uio_offset u1) = nat (uio_offset u) + m" using u(1) by simp
  then have "uio_moved n (file_bytes s i (nat (uio_offset u) + m) n) u1 (file_bytes s i (nat (uio_offset u) + m) n) u2"
    using b dev_step_same(2) [OF st] by (simp add: read_ok_def)
  from uio_moved_trans [OF _ this] a u(2)
  have "uio_moved (m + n) (file_bytes s i (nat (uio_offset u)) (m + n)) u (file_bytes s i (nat (uio_offset u)) (m + n)) u2"
    by (simp add: read_ok_def file_bytes_append)
  then show ?thesis using a b dev_step_trans [OF st] by (simp add: read_ok_def)
qed

lemma on_fs_eq [simp]: "m s = (r, s') \<Longrightarrow> on_fs m (s, u) = (r, s', u)"
  by (simp add: on_fs_def)

lemma on_uio_eq [simp]: "m u = (r, u') \<Longrightarrow> on_uio m (s, u) = (r, s, u')"
  by (simp add: on_uio_def)

lemma fileblock_of:
  assumes "0 \<le> uio_offset u" and "nat (uio_offset u) div 512 < max_blocks"
  shows "unat (uio_fileblock u) = nat (uio_offset u) div 512"
proof -
  have "uio_offset u sdiv 512 = int (nat (uio_offset u) div 512)"
    using assms(1) by (simp add: truncating_nonneg zdiv_int)
  then show ?thesis using assms(2) by (simp add: uio_fileblock_def max_blocks_def)
qed

text \<open>The lookup and the load of the block a read is at.\<close>

lemma read_lookup:
  assumes vol: "vol_healthy s" and sv: "sfs_mem s p = Some sv" and ok: "inode_ok s (sv_i sv)"
    and off: "0 \<le> uio_offset u" "nat (uio_offset u) div 512 < max_blocks"
  shows "\<exists>s'. sfs_bmap p (uio_fileblock u) False s = (Inr (file_block s (sv_i sv) (nat (uio_offset u) div 512)), s')
    \<and> dev_step s (blocks_of s) s'"
  using bmap_lookup_ok [OF vol sv ok, of "uio_fileblock u" False] fileblock_of [OF off] off(2) by simp

lemma partialio_read:
  assumes vol: "vol_healthy s" and sv: "sfs_mem s p = Some sv" and ok: "inode_ok s (sv_i sv)"
    and off: "0 \<le> uio_offset u" "nat (uio_offset u) div 512 < max_blocks"
    and u: "uio_ok u" "uio_rw u = UIO_READ" "len \<le> uio_resid u"
    and skip: "unat skip = nat (uio_offset u) mod 512" "unat skip + unat len \<le> 512"
  shows "\<exists>s' u'. sfs_partialio p skip len (s, u) = (Inr (), s', u') \<and> read_ok s (sv_i sv) (unat len) u s' u'"
proof -
  let ?b = "file_block s (sv_i sv) (nat (uio_offset u) div 512)"
  obtain s1 where l: "sfs_bmap p (uio_fileblock u) False s = (Inr ?b, s1)" and st1: "dev_step s (blocks_of s) s1"
    using read_lookup [OF vol sv ok off] by blast
  note k1 = dev_step_same [OF st1]
  have bl: "?b \<noteq> 0 \<Longrightarrow> unat ?b < nblocks s" using file_block_stored(1) [OF ok] by simp
  obtain s2 where ld: "(if ?b = 0 then kbind (kassert True) (\<lambda>_. kreturn (replicate 512 0))
      else on_fs (sfs_readblock ?b 512)) (s1, u) = (Inr (file_data s ?b), s2, u)" and st2: "dev_step s (blocks_of s) s2"
  proof (cases "?b = 0")
    case True
    with st1 that [of s1] show thesis by (simp add: file_data_def kmonad_defs)
  next
    case False
    obtain s2 where "sfs_readblock ?b 512 s1 = (Inr (blocks_of s1 ! unat ?b), s2)" "dev_step s1 (blocks_of s1) s2"
      using read_step [of s1 ?b] k1 bl False by auto
    with False st1 dev_step_trans [OF st1] that [of s2] show thesis
      by (simp add: file_data_def dev_step_def)
  qed
  let ?part = "slice_at (unat skip) (unat len) (file_data s ?b)"
  have "length (file_data s ?b) = 512" using bl file_data_length [OF vol, of ?b] by auto
  then have "length ?part = unat len" using skip(2) by simp
  then obtain d u' where m: "uiomove ?part len u = (Inr d, u')" "uio_moved (unat len) ?part u d u'" "uio_ok u'"
    using uiomove_ok [OF u(1,3)] by blast
  have part: "?part = file_bytes s (sv_i sv) (nat (uio_offset u)) (unat len)"
    using skip by (simp add: file_bytes_block [OF vol ok])
  have "d = ?part" using m(2) u(2) by (simp add: uio_moved_def)
  then have r: "read_ok s (sv_i sv) (unat len) u s2 u'" using st2 m part by (simp add: read_ok_def)
  have "skip + len \<le> 512" using skip(2) by (simp add: word_le_nat_alt unat_add_u32)
  moreover have "biglock_depth s > 0" using vol by (simp add: vol_healthy_def vol_ok_def)
  ultimately have "sfs_partialio p skip len (s, u) = (Inr (), s2, u')"
    using l ld m(1) u(2)
    by (cases "?b = 0")
      (simp_all add: sfs_partialio_def the_uio_def kbind_def kget_def kassert_def vfs_biglock_do_i_hold_def
        on_fs_eq [where m = "kget _"] kreturn_def)
  with r show ?thesis by blast
qed

text \<open>One block from the device to the region.\<close>

lemma rwblock_read:
  fixes b :: u32
  assumes vol: "vol_healthy s" and b: "unat b < nblocks s"
    and u: "uio_ok u" "uio_rw u = UIO_READ" "uio_resid u = 512" "uio_offset u = int (unat b) * 512"
  shows "\<exists>s' u'. sfs_rwblock (s, u) = (Inr (), s', u') \<and> dev_step s (blocks_of s) s' \<and> uio_ok u'
    \<and> uio_moved 512 (blocks_of s ! unat b) u (blocks_of s ! unat b) u'"
proof -
  let ?d = "sfs_device s" and ?data = "blocks_of s ! unat b"
  have st: "lh_status ?d = []" "biglock_depth s > 0" using vol by (auto simp: vol_healthy_def vol_ok_def)
  have len: "length ?data = 512" by (rule block_length [OF vol b])
  define s1 where "s1 = with_device (\<lambda>d. d\<lparr>lh_buf := ?data\<rparr>) s"
  have "sfs_readblock b 512 s = (Inr ?data, s1)" by (simp add: healthy_read [OF vol b] s1_def)
  then have step: "dev_step s (blocks_of s) s1" using read_step [OF vol b] by auto
  obtain d u' where m: "uiomove ?data 512 u = (Inr d, u')" "uio_moved 512 ?data u d u'" "uio_ok u'"
    using uiomove_ok [OF u(1), of 512 ?data] u(3) len by auto
  have d: "d = ?data" using m(2) u(2) by (simp add: uio_moved_def)
  have bnd: "b < d_blocks ?d" by (rule healthy_bound [OF vol b])
  have off: "uio_offset u sdiv 512 = int (unat b)" "uio_offset u smod 512 = 0"
    by (simp_all add: u(4) truncating_nonneg)
  have "b + 1 \<le> d_blocks ?d" using bnd by (metis inc_le)
  then have "\<not> b + 1 > d_blocks ?d" by (simp add: not_less)
  moreover have "\<not> length (lh_disk ?d) \<le> unat b" using healthy_length [OF vol b] by (simp add: blocks_of_def)
  ultimately have "lhd_io (?d, u) = (Inr (), ?d\<lparr>lh_buf := ?data\<rparr>, u')"
    using off u m(1) d st
    by (simp add: lhd_io_def lhd_sectors.simps [of b "Suc 0"] lhd_operate_def Let_def blocks_of_def)
  then have "sfs_rwblock (s, u) = (Inr (), s1, u')"
    using st(2)
    by (simp add: sfs_rwblock_def kmonad_defs vfs_biglock_do_i_hold_def rwblock_retry.simps devop_io_def s1_def with_device_def)
  with step m d show ?thesis by blast
qed

lemma blockio_read:
  assumes vol: "vol_healthy s" and sv: "sfs_mem s p = Some sv" and ok: "inode_ok s (sv_i sv)"
    and small: "nblocks s \<le> 2 ^ 23"
    and off: "0 \<le> uio_offset u" "nat (uio_offset u) div 512 < max_blocks" "nat (uio_offset u) mod 512 = 0"
    and u: "uio_ok u" "uio_rw u = UIO_READ" "512 \<le> unat (uio_resid u)"
  shows "\<exists>s' u'. sfs_blockio p (s, u) = (Inr (), s', u') \<and> read_ok s (sv_i sv) 512 u s' u'"
proof -
  let ?b = "file_block s (sv_i sv) (nat (uio_offset u) div 512)"
  obtain s1 where l: "sfs_bmap p (uio_fileblock u) False s = (Inr ?b, s1)" and st1: "dev_step s (blocks_of s) s1"
    using read_lookup [OF vol sv ok off(1,2)] by blast
  note k1 = dev_step_same [OF st1]
  have resid: "512 \<le> uio_resid u" using u(3) by (simp add: word_le_nat_alt)
  have dl: "length (file_data s ?b) = 512"
    using file_block_stored(1) [OF ok] by (intro file_data_length [OF vol]) auto
  have data: "file_bytes s (sv_i sv) (nat (uio_offset u)) 512 = file_data s ?b"
    using off(3) dl by (simp add: file_bytes_block [OF vol ok] slice_at_def)
  show ?thesis
  proof (cases "?b = 0")
    case True
    obtain u' where z: "uiomovezeros 512 u = (Inr (), u')"
      "uio_moved 512 (replicate 512 0) u (replicate 512 0) u'" "uio_ok u'"
      using uiomovezeros_ok [OF u(1) resid u(2)] by auto
    then have "read_ok s (sv_i sv) 512 u s1 u'" using st1 data True by (simp add: read_ok_def file_data_def)
    moreover have "sfs_blockio p (s, u) = (Inr (), s1, u')"
      using l z(1) True u(2) by (simp add: sfs_blockio_def the_uio_def kbind_def kget_def kassert_def)
    ultimately show ?thesis by blast
  next
    case False
    then have b: "unat ?b < nblocks s1" using file_block_stored(1) [OF ok] k1(6) by simp
    let ?v = "u\<lparr>uio_offset := int (unat ?b) * 512, uio_resid := 512\<rparr>"
    have "unat (?b * 512) = unat ?b * 512"
      using b small k1(6) by (subst unat_mult_u32) simp_all
    then have "int (unat (?b * 512)) = int (unat ?b) * 512" by simp
    then have doff: "uint (?b * 512) = uint ?b * 512" by (simp only: uint_nat)
    have v: "uio_ok ?v" using u(1,3) by (auto simp: uio_ok_def targets_def)
    obtain s2 v' where r: "sfs_rwblock (s1, ?v) = (Inr (), s2, v')" "dev_step s1 (blocks_of s1) s2" "uio_ok v'"
      "uio_moved 512 (blocks_of s1 ! unat ?b) ?v (blocks_of s1 ! unat ?b) v'"
      using rwblock_read [OF k1(5) b v] u(2) by auto
    define u' where "u' = v'\<lparr>uio_offset := uio_offset u + 512, uio_resid := uio_resid u - 512\<rparr>"
    have v0: "uio_resid v' = 0" using r(4) by (simp add: uio_moved_def unat_eq_0)
    have rs: "word_of_int (int (unat (uio_resid u)) - 512) = uio_resid u - 512" by simp
    have tg: "targets ?v = targets u" by (simp add: targets_def)
    have ures: "unat (uio_resid u - 512) + 512 = unat (uio_resid u)"
      using u(3) by (simp add: unat_sub_u32)
    have "uio_moved 512 (file_data s ?b) u (file_data s ?b) u'"
      using r(4) u(2) ures False st1 by (simp add: uio_moved_def u'_def tg file_data_def dev_step_def) (simp add: targets_def)
    moreover have "uio_ok u'"
      using r(3,4) u(1,3) ures by (auto simp: uio_ok_def u'_def uio_moved_def targets_def tg)
    ultimately have "read_ok s (sv_i sv) 512 u s2 u'"
      using dev_step_trans [OF st1 r(2)] data by (simp add: read_ok_def)
    moreover have "sfs_blockio p (s, u) = (Inr (), s2, u')"
      using l r(1,4) False u(2) resid v0 rs
      by (simp add: sfs_blockio_def the_uio_def kbind_def kget_def kassert_def kmodify_def ktry_def kreturn_def
          on_uio_def Let_def doff u'_def uio_moved_def)
    ultimately show ?thesis by blast
  qed
qed

lemma read_ok_keeps:
  assumes "read_ok s i n u s' u'"
  shows "dev_step s (blocks_of s) s'" and "uio_ok u'" and "uio_rw u' = uio_rw u"
    and "uio_offset u' = uio_offset u + int n" and "unat (uio_resid u') + n = unat (uio_resid u)"
  using assms by (simp_all add: read_ok_def uio_moved_def)

lemma resid_targets: "uio_ok u \<Longrightarrow> n \<le> unat (uio_resid u) \<Longrightarrow> n \<le> length (targets u)"
  by (simp add: uio_ok_def)

lemma read_ok_0:
  assumes "vol_healthy s" and "uio_ok u" and "uio_rw u = UIO_READ"
  shows "read_ok s i 0 u s u"
  using assms by (simp add: read_ok_def uio_moved_def dev_step_def file_bytes_def)

lemma blockio_loop_read:
  assumes "vol_healthy s" and "sfs_mem s p = Some sv" and "inode_ok s (sv_i sv)" and "nblocks s \<le> 2 ^ 23"
    and "0 \<le> uio_offset u" and "nat (uio_offset u) mod 512 = 0" and "nat (uio_offset u) + n * 512 \<le> max_blocks * 512"
    and "uio_ok u" and "uio_rw u = UIO_READ" and "n * 512 \<le> unat (uio_resid u)"
  shows "\<exists>s' u'. blockio_loop p n (s, u) = (Inr (), s', u') \<and> read_ok s (sv_i sv) (n * 512) u s' u'"
  using assms
proof (induction n arbitrary: s u)
  case 0
  then show ?case using read_ok_0 by (auto simp: kreturn_def)
next
  case (Suc n)
  have "nat (uio_offset u) div 512 < max_blocks" "512 \<le> unat (uio_resid u)" using Suc(8,11) by auto
  then obtain s1 u1 where a: "sfs_blockio p (s, u) = (Inr (), s1, u1)" "read_ok s (sv_i sv) 512 u s1 u1"
    using blockio_read [OF Suc(2-6) _ Suc(7,9,10)] by blast
  note k = read_ok_keeps [OF a(2)]
  note d = dev_step_same [OF k(1)]
  have off: "nat (uio_offset u1) = nat (uio_offset u) + 512" using k(4) Suc(6) by simp
  have f: "sfs_mem s1 p = Some sv" "inode_ok s1 (sv_i sv)" "nblocks s1 \<le> 2 ^ 23" using d Suc(3-5) by simp_all
  have g: "0 \<le> uio_offset u1" "nat (uio_offset u1) mod 512 = 0"
    "nat (uio_offset u1) + n * 512 \<le> max_blocks * 512" "uio_rw u1 = UIO_READ" "n * 512 \<le> unat (uio_resid u1)"
    using k Suc(6-8,10,11) off by simp_all
  obtain s2 u2 where b: "blockio_loop p n (s1, u1) = (Inr (), s2, u2)"
    "read_ok s1 (sv_i sv) (n * 512) u1 s2 u2"
    using Suc(1) [OF d(5) f g(1-3) k(2) g(4,5)] by blast
  have "512 \<le> length (targets u)" using resid_targets [OF Suc(9)] Suc(11) by simp
  from read_ok_trans [OF a(2) b(2) Suc(6) this] have "read_ok s (sv_i sv) (Suc n * 512) u s2 u2" by simp
  with a(1) b(1) show ?case by (auto simp: kbind_def)
qed

text \<open>The first phase: the rest of the block the transfer starts in.\<close>

lemma phase1_read:
  assumes vol: "vol_healthy s" and sv: "sfs_mem s p = Some sv" and ok: "inode_ok s (sv_i sv)"
    and off: "0 \<le> uio_offset u" "nat (uio_offset u) + unat (uio_resid u) \<le> max_blocks * 512"
    and u: "uio_ok u" "uio_rw u = UIO_READ" "nat (uio_offset u) < max_blocks * 512"
  defines "skip \<equiv> word_of_int (uio_offset u smod 512) :: u32"
  shows "\<exists>n s' u'. (if skip \<noteq> 0 then sfs_partialio p skip (min (512 - skip) (uio_resid u)) else kreturn ()) (s, u)
      = (Inr (), s', u') \<and> read_ok s (sv_i sv) n u s' u'
    \<and> (uio_resid u' = 0 \<or> uio_offset u' smod 512 = 0)"
proof -
  have sk: "unat skip = nat (uio_offset u) mod 512"
  proof -
    have "uio_offset u smod 512 = int (nat (uio_offset u) mod 512)" using off(1) by (simp add: truncating_nonneg zmod_int)
    moreover have "nat (uio_offset u) mod 512 < 512" by simp
    then have "nat (uio_offset u) mod 512 < 2 ^ 32" by (rule less_trans) simp
    ultimately show ?thesis by (simp add: skip_def)
  qed
  show ?thesis
  proof (cases "skip = 0")
    case True
    then have "nat (uio_offset u) mod 512 = 0" using sk by simp
    moreover have "int (nat (uio_offset u) mod 512) = uio_offset u mod 512" using off(1) by (simp add: zmod_int)
    ultimately have "uio_offset u mod 512 = 0" by simp
    then have "uio_offset u smod 512 = 0" using off(1) by (simp add: truncating_nonneg)
    with True read_ok_0 [OF vol u(1,2)] show ?thesis by (intro exI [of _ 0]) (auto simp: kreturn_def)
  next
    case False
    let ?len = "min (512 - skip) (uio_resid u)"
    have s: "unat skip < 512" using sk by simp
    have "unat (512 - skip) = 512 - unat skip" using s by (simp add: unat_sub_u32)
    then have len: "unat ?len = min (512 - unat skip) (unat (uio_resid u))"
      by (simp add: min_def word_le_nat_alt)
    have db: "nat (uio_offset u) div 512 < max_blocks" using u(3) by (rule less_mult_imp_div_less)
    have le: "unat skip + unat ?len \<le> 512" using s len by simp
    obtain s' u' where r: "sfs_partialio p skip ?len (s, u) = (Inr (), s', u')"
      "read_ok s (sv_i sv) (unat ?len) u s' u'"
      using partialio_read [OF vol sv ok off(1) db u(1,2) min.cobounded2 sk le] by blast
    note k = read_ok_keeps [OF r(2)]
    have "uio_resid u' = 0 \<or> uio_offset u' smod 512 = 0"
    proof (cases "unat (uio_resid u) \<le> 512 - unat skip")
      case True
      then have "unat (uio_resid u') = 0" using k(5) len by simp
      then show ?thesis by (simp add: unat_eq_0)
    next
      case False
      then have "uio_offset u' = uio_offset u + int (512 - nat (uio_offset u) mod 512)" using k(4) len sk by simp
      also have "\<dots> = (uio_offset u div 512 + 1) * 512"
        using off(1) s sk by (simp add: of_nat_diff zmod_int) (simp add: minus_mod_eq_div_mult [symmetric])
      finally show ?thesis using off(1) by (simp add: truncating_nonneg)
    qed
    with r False show ?thesis by auto
  qed
qed

lemma io_phases_read:
  assumes vol: "vol_healthy s" and sv: "sfs_mem s p = Some sv" and ok: "inode_ok s (sv_i sv)" and small: "nblocks s \<le> 2 ^ 23"
    and off: "0 \<le> uio_offset u" "nat (uio_offset u) + unat (uio_resid u) \<le> max_blocks * 512"
    and u: "uio_ok u" "uio_rw u = UIO_READ" "nat (uio_offset u) < max_blocks * 512"
  shows "\<exists>s' u'. io_phases p (s, u) = (Inr (), s', u') \<and> read_ok s (sv_i sv) (unat (uio_resid u)) u s' u'"
proof -
  let ?i = "sv_i sv"
  obtain n1 s1 u1 where p1: "(if word_of_int (uio_offset u smod 512) \<noteq> (0 :: u32) then
        sfs_partialio p (word_of_int (uio_offset u smod 512)) (min (512 - word_of_int (uio_offset u smod 512)) (uio_resid u))
      else kreturn ()) (s, u) = (Inr (), s1, u1)"
    and r1: "read_ok s ?i n1 u s1 u1" and al: "uio_resid u1 = 0 \<or> uio_offset u1 smod 512 = 0"
    using phase1_read [OF vol sv ok off u] by blast
  note k1 = read_ok_keeps [OF r1]
  note d1 = dev_step_same [OF k1(1)]
  show ?thesis
  proof (cases "uio_resid u1 = 0")
    case True
    then have "n1 = unat (uio_resid u)" using k1(5) by simp
    moreover have "io_phases p (s, u) = (Inr (), s1, u1)"
      unfolding io_phases_def the_uio_def Let_def using p1 True by (simp add: kbind_def kget_def kreturn_def)
    ultimately show ?thesis using r1 by blast
  next
    case False
    let ?q = "unat (uio_resid u1) div 512" and ?m = "unat (uio_resid u1) mod 512"
    have o1: "0 \<le> uio_offset u1" "nat (uio_offset u1) = nat (uio_offset u) + n1" using k1(4) off(1) by simp_all
    have a1: "uio_offset u1 smod 512 = 0" using al False by simp
    then have "uio_offset u1 mod 512 = 0" using o1(1) by (simp add: truncating_nonneg)
    then have m1: "nat (uio_offset u1) mod 512 = 0"
      using o1(1) by (metis nat_0 nat_mod_distrib nat_numeral zero_le_numeral)
    have s1: "sfs_mem s1 p = Some sv" "inode_ok s1 ?i" "nblocks s1 \<le> 2 ^ 23" using d1 sv ok small by simp_all
    have bnd: "nat (uio_offset u1) + ?q * 512 + ?m \<le> max_blocks * 512" "?q * 512 + ?m = unat (uio_resid u1)"
      using o1(2) k1(5) off(2) by simp_all
    obtain s2 u2 where p2: "blockio_loop p ?q (s1, u1) = (Inr (), s2, u2)" and r2: "read_ok s1 ?i (?q * 512) u1 s2 u2"
      using blockio_loop_read [OF d1(5) s1 o1(1) m1 _ k1(2), of ?q] bnd k1(3) u(2) by auto
    note k2 = read_ok_keeps [OF r2]
    note d2 = dev_step_same [OF k2(1)]
    have rs2: "unat (uio_resid u2) = ?m" using k2(5) minus_div_mult_eq_mod [of "unat (uio_resid u1)" 512] by linarith
    have lt: "uio_resid u2 < 512" using rs2 by (simp add: word_less_nat_alt)
    have t1: "?q * 512 \<le> length (targets u1)" using resid_targets [OF k1(2)] bnd(2) by simp
    have r12: "read_ok s1 ?i (unat (uio_resid u1)) u1 s3 u3"
      if "read_ok s2 ?i ?m u2 s3 u3" for s3 u3
      using read_ok_trans [OF r2 that o1(1) t1] bnd(2) by simp
    obtain s3 u3 where p3: "(if uio_resid u2 > 0 then sfs_partialio p 0 (uio_resid u2) else kreturn ()) (s2, u2) = (Inr (), s3, u3)"
      and r3: "read_ok s2 ?i ?m u2 s3 u3"
    proof (cases "uio_resid u2 > 0")
      case True
      have o2: "0 \<le> uio_offset u2" "nat (uio_offset u2) = nat (uio_offset u1) + ?q * 512" using k2(4) o1(1) by simp_all
      then have sk: "unat (0 :: u32) = nat (uio_offset u2) mod 512" "unat (0 :: u32) + unat (uio_resid u2) \<le> 512"
        using m1 rs2 by simp_all
      have "?m > 0" using True rs2 by (simp add: word_gt_0 unat_eq_0 [symmetric])
      then have "nat (uio_offset u2) < max_blocks * 512" using o2(2) bnd(1) by linarith
      then have db: "nat (uio_offset u2) div 512 < max_blocks" by (rule less_mult_imp_div_less)
      have s2: "sfs_mem s2 p = Some sv" "inode_ok s2 ?i" "uio_rw u2 = UIO_READ" using d2 s1 k2(3) k1(3) u(2) by simp_all
      obtain s3 u3 where "sfs_partialio p 0 (uio_resid u2) (s2, u2) = (Inr (), s3, u3)"
        "read_ok s2 ?i (unat (uio_resid u2)) u2 s3 u3"
        using partialio_read [OF d2(5) s2(1,2) o2(1) db k2(2) s2(3) order_refl sk] by blast
      with True rs2 that show thesis by simp
    next
      case False
      then have "?m = 0" using rs2 by (simp add: word_gt_0)
      with False that [of s2 u2] read_ok_0 [OF d2(5) k2(2)] k2(3) k1(3) u(2) show thesis by (simp add: kreturn_def)
    qed
    have t: "n1 \<le> length (targets u)" using resid_targets [OF u(1)] k1(5) by simp
    from read_ok_trans [OF r1 r12 [OF r3] off(1) t] k1(5)
    have "read_ok s ?i (unat (uio_resid u)) u s3 u3" by (simp add: add.commute)
    moreover have "unat (uio_resid u1 div 512) = ?q" by (simp add: unat_div)
    then have "io_phases p (s, u) = (Inr (), s3, u3)"
      unfolding io_phases_def the_uio_def Let_def using p1 False a1 p2 lt p3
      by (cases "uio_resid u2 > 0") (simp_all add: kbind_def kget_def kassert_def)
    ultimately show ?thesis by blast
  qed
qed

subsection \<open>Writing a block of a file\<close>

lemma file_block_slot: "k < max_blocks \<Longrightarrow> file_block s i k = slots s i ! slot_of k" "k < max_blocks \<Longrightarrow> slot_of k < 144"
  "slot_of k \<noteq> 15" "slot_of k = slot_of l \<longleftrightarrow> k = l"
  by (auto simp: file_block_def slot_of_def max_blocks_def)

lemma file_block_inj:
  assumes "inode_ok s i" and "file_block s i k = file_block s i l" and "file_block s i k \<noteq> 0"
  shows "k = l"
proof -
  have b: "k < max_blocks" "l < max_blocks" using file_block_stored(3) [OF assms(1)] assms(2,3) by auto
  then have "slot_of k = slot_of l"
    using slots_inj [OF assms(1), of "slot_of k" "slot_of l"] assms(2,3) by (simp add: file_block_slot)
  then show ?thesis by (simp add: file_block_slot)
qed

lemma file_block_not_indirect:
  assumes "inode_ok s i" and "file_block s i k \<noteq> 0"
  shows "file_block s i k \<noteq> sfi_indirect i"
proof
  assume eq: "file_block s i k = sfi_indirect i"
  have k: "k < max_blocks" by (rule file_block_stored(3) [OF assms])
  have "slots s i ! 15 = sfi_indirect i" using assms(1) by (simp add: inode_ok_def slots_nth(2))
  then have "slot_of k = 15"
    using slots_inj [OF assms(1), of "slot_of k" 15] k assms(2) eq by (simp add: file_block_slot)
  then show False by (simp add: file_block_slot(3))
qed

lemma write_data_ok:
  assumes vol: "vol_healthy s" and ok: "inode_ok s i" and b: "file_block s i k = b" "b \<noteq> 0" and len: "length data = 512"
  shows "\<exists>s'. sfs_writeblock b data s = (Inr (), s') \<and> dev_step s ((blocks_of s)[unat b := data]) s'
    \<and> inode_ok s' i \<and> file_block s' i = file_block s i
    \<and> (\<forall>x. file_byte s' i x = (if x div 512 = k then data ! (x mod 512) else file_byte s i x))"
proof -
  have bl: "unat b < nblocks s" using file_block_stored(1) [OF ok, of k] b by simp
  from write_step [OF vol bl len] obtain s' where
    w: "sfs_writeblock b data s = (Inr (), s')" and step: "dev_step s ((blocks_of s)[unat b := data]) s'" by blast
  have bs: "blocks_of s' = (blocks_of s)[unat b := data]" and sd: "sans_device s' = sans_device s"
    using step by (simp_all add: dev_step_def)
  have "b \<noteq> sfi_indirect i" using file_block_not_indirect [OF ok, of k] b by simp
  then have "unat b \<noteq> unat (sfi_indirect i)" by (auto dest: unsigned_word_eqI)
  then have iw: "indirect_words s' i = indirect_words s i" by (simp add: indirect_words_def bs)
  then have sl: "slots s' i = slots s i" by (simp add: slots_def)
  have "inode_ok s' i" using ok sans_device_fields(10,11) [OF sd] by (simp add: inode_ok_def mapped_def sl iw)
  moreover have fb: "file_block s' i = file_block s i" by (rule file_block_cong [OF sl])
  moreover have "file_byte s' i x = (if x div 512 = k then data ! (x mod 512) else file_byte s i x)" for x
  proof (cases "x div 512 = k")
    case True
    then show ?thesis using b healthy_length [OF vol bl] by (simp add: file_byte_def fb bs Let_def)
  next
    case False
    then have "file_block s i (x div 512) \<noteq> 0 \<Longrightarrow> file_block s i (x div 512) \<noteq> b"
      using file_block_inj [OF ok, of "x div 512" k] b by auto
    then have "file_block s i (x div 512) \<noteq> 0 \<Longrightarrow> unat b \<noteq> unat (file_block s i (x div 512))"
      by (auto dest: unsigned_word_eqI)
    with False show ?thesis by (simp add: file_byte_def fb bs Let_def)
  qed
  ultimately show ?thesis using w step by blast
qed

text \<open>The block a write goes to, allocated if there was a hole; the contents of the file stay.\<close>

lemma frame_contents:
  assumes ok: "inode_ok s (sv_i sv)" and fr: "frame_ok s p sv s' sv'"
    and fb: "file_block s' (sv_i sv') k = file_block s (sv_i sv) k" "file_block s (sv_i sv) k \<noteq> 0"
  shows "blocks_of s' ! unat (file_block s (sv_i sv) k) = blocks_of s ! unat (file_block s (sv_i sv) k)"
proof -
  have "unat (file_block s (sv_i sv) k) \<noteq> unat (sfi_indirect (sv_i sv))"
    using file_block_not_indirect [OF ok fb(2)] by (auto dest: unsigned_word_eqI)
  then show ?thesis using fr file_block_stored(2) [OF ok fb(2)] by (simp add: frame_ok_def)
qed

lemma bmap_write_ok:
  assumes vol: "vol_healthy s" and sv: "sfs_mem s p = Some sv" and ok: "inode_ok s (sv_i sv)"
    and fb: "unat fb < max_blocks"
  shows "\<exists>r s' sv'. sfs_bmap p fb True s = (r, s') \<and> frame_ok s p sv s' sv'
    \<and> file_byte s' (sv_i sv') = file_byte s (sv_i sv)
    \<and> (case r of Inl e \<Rightarrow> e = ENOSPC
      | Inr b \<Rightarrow> b \<noteq> 0 \<and> file_block s' (sv_i sv') (unat fb) = b
          \<and> (unat b \<in> in_use s \<longrightarrow> b \<in> set (mapped s (sv_i sv))))"
proof (cases "file_block s (sv_i sv) (unat fb) = 0")
  case False
  then obtain s' where l: "sfs_bmap p fb True s = (Inr (file_block s (sv_i sv) (unat fb)), s')" "dev_step s (blocks_of s) s'"
    using bmap_lookup_ok [OF vol sv ok fb, of True] by blast
  note d = dev_step_same [OF l(2)]
  have "file_byte s' (sv_i sv) = file_byte s (sv_i sv)"
    using l(2) by (intro ext) (simp add: file_byte_def d(1) dev_step_def Let_def)
  moreover have "file_block s (sv_i sv) (unat fb) \<in> set (mapped s (sv_i sv))"
    using False fb file_block_slot(1,2) [OF fb] slots_length [OF ok] by (auto simp: in_mapped)
  ultimately show ?thesis using l(1) frame_ok_same(1) [OF l(2) sv ok] False d(1)
    by (intro exI [of _ "Inr (file_block s (sv_i sv) (unat fb))"] exI [of _ s'] exI [of _ sv]) simp
next
  case True
  obtain r s' sv' where a: "sfs_bmap p fb True s = (r, s')" "frame_ok s p sv s' sv'" "bmap_extends s sv (unat fb) r s' sv'"
    using bmap_alloc_ok [OF vol sv ok fb True] by blast
  have same: "file_byte s' (sv_i sv') x = file_byte s (sv_i sv) x"
    if "file_block s' (sv_i sv') (x div 512) = file_block s (sv_i sv) (x div 512)" for x
    using frame_contents [OF ok a(2) that] that by (auto simp: file_byte_def Let_def)
  show ?thesis
  proof (cases r)
    case (Inl e)
    then have "file_byte s' (sv_i sv') = file_byte s (sv_i sv)"
      using a(3) same by (intro ext) (simp add: bmap_extends_def)
    with a Inl show ?thesis by (auto simp: bmap_extends_def)
  next
    case (Inr b)
    then have b: "b \<noteq> 0" "file_block s' (sv_i sv') = (file_block s (sv_i sv))(unat fb := b)"
      "blocks_of s' ! unat b = replicate 512 0" "unat b \<notin> in_use s"
      using a(3) by (simp_all add: bmap_extends_def)
    have "file_byte s' (sv_i sv') x = file_byte s (sv_i sv) x" for x
    proof (cases "x div 512 = unat fb")
      case eq: True
      then show ?thesis using b True by (simp add: file_byte_def Let_def)
    next
      case False
      then show ?thesis using b by (intro same) simp
    qed
    with a(1,2) Inr b show ?thesis by (intro exI [of _ r] exI [of _ s'] exI [of _ sv']) (auto intro: ext)
  qed
qed

subsection \<open>Properties\<close>

text \<open>The bytes a read of \<open>u\<close> transfers from a file of \<open>sz\<close> bytes.\<close>

definition read_amount :: "uio \<Rightarrow> nat \<Rightarrow> nat" where
  "read_amount u sz = min (unat (uio_resid u)) (sz - nat (uio_offset u))"

text \<open>
  C7: Reading a file transfers exactly the bytes of the file from the offset on, up to the end of
  the file or the end of the region, in order, holes as zeros, into the scattered buffers of the
  caller; the offset and the residue advance by that amount and the volume does not change.
\<close>

theorem sfs_io_reads:
  assumes "vol_healthy s" and "sfs_mem s p = Some sv" and "inode_ok s (sv_i sv)" and "nblocks s \<le> 2 ^ 23"
    and "unat (sfi_size (sv_i sv)) \<le> max_blocks * 512"
    and "uio_ok u" and "uio_rw u = UIO_READ" and "0 \<le> uio_offset u"
  shows "\<exists>s' u'. sfs_io p (s, u) = (Inr (), s', u')
    \<and> read_ok s (sv_i sv) (read_amount u (unat (sfi_size (sv_i sv)))) u s' u'"
proof -
  define sz where "sz = unat (sfi_size (sv_i sv))"
  define n where "n = read_amount u sz"
  have g: "get_sv p t = (Inr sv, t)" if "sfs_mem t p = Some sv" for t using that by (simp add: get_sv_def)
  show ?thesis
  proof (cases "uio_offset u \<ge> int sz")
    case True
    then have "sfs_io p (s, u) = (Inr (), s, u)"
      using assms(7) g [OF assms(2)] by (simp add: sfs_io_def the_uio_def kbind_def kget_def kreturn_def Let_def sz_def)
    moreover have "n = 0" using True by (simp add: n_def read_amount_def)
    ultimately show ?thesis using read_ok_0 [OF assms(1,6,7), of "sv_i sv"] by (auto simp: n_def sz_def)
  next
    case False
    define extra where "extra = (if uio_offset u + int (unat (uio_resid u)) > int sz
      then word_of_int (uio_offset u + int (unat (uio_resid u)) - int sz) else 0 :: u32)"
    define v where "v = u\<lparr>uio_resid := uio_resid u - extra\<rparr>"
    have x: "unat extra = unat (uio_resid u) - n"
    proof (cases "uio_offset u + int (unat (uio_resid u)) > int sz")
      case True
      have lt: "nat (uio_offset u) < sz" "sz - nat (uio_offset u) \<le> unat (uio_resid u)"
        using True False assms(8) by linarith+
      then have "n = sz - nat (uio_offset u)" by (simp add: n_def read_amount_def)
      then have "uio_offset u + int (unat (uio_resid u)) - int sz = int (unat (uio_resid u) - n)"
        using lt assms(8) by linarith
      then have "extra = of_nat (unat (uio_resid u) - n)" using True by (simp add: extra_def)
      moreover have "unat (uio_resid u) - n < 4294967296" by (rule le_less_trans [OF diff_le_self unat_u32_less])
      ultimately show ?thesis by simp
    next
      case False
      then have "unat (uio_resid u) \<le> sz - nat (uio_offset u)" using assms(8) by linarith
      with False show ?thesis by (simp add: extra_def n_def read_amount_def)
    qed
    have n: "n \<le> unat (uio_resid u)" by (simp add: n_def read_amount_def)
    have vr: "unat (uio_resid v) = n" using x n by (simp add: v_def unat_sub_u32)
    have "uio_resid u > extra" if big: "uio_offset u + int (unat (uio_resid u)) > int sz"
    proof -
      have "nat (uio_offset u) < sz" using False assms(8) by linarith
      moreover have "0 < unat (uio_resid u)" using big False by linarith
      ultimately have "0 < n" by (simp add: n_def read_amount_def)
      then show ?thesis using x n unfolding word_less_nat_alt by linarith
    qed
    then have pre: "(if uio_offset u + int (unat (uio_resid u)) > int sz then
          kbind (kassert (uio_resid u > extra)) (\<lambda>_. on_uio (kmodify (\<lambda>u. u\<lparr>uio_resid := uio_resid u - extra\<rparr>)))
        else kreturn ()) (s, u) = (Inr (), s, v)"
      by (simp add: kbind_def kassert_def on_uio_def kmodify_def v_def kreturn_def extra_def)
    have tg: "targets v = targets u" by (simp add: targets_def v_def)
    have v: "uio_ok v" "uio_rw v = UIO_READ" "uio_offset v = uio_offset u"
      using assms(6,7) vr n tg by (auto simp: uio_ok_def v_def)
    have bnd: "nat (uio_offset v) + unat (uio_resid v) \<le> max_blocks * 512" "nat (uio_offset v) < max_blocks * 512"
    proof -
      have lt: "nat (uio_offset u) < sz" using False assms(8) by linarith
      moreover have "sz \<le> max_blocks * 512" using assms(5) by (simp add: sz_def)
      ultimately show "nat (uio_offset v) < max_blocks * 512" using v(3) by simp
      have "n \<le> sz - nat (uio_offset u)" by (simp add: n_def read_amount_def)
      then have "nat (uio_offset u) + n \<le> sz" using lt by linarith
      with \<open>sz \<le> max_blocks * 512\<close> show "nat (uio_offset v) + unat (uio_resid v) \<le> max_blocks * 512" using v(3) vr by simp
    qed
    have "0 \<le> uio_offset v" using v(3) assms(8) by simp
    then obtain s' v' where r: "io_phases p (s, v) = (Inr (), s', v')" "read_ok s (sv_i sv) n v s' v'"
      using io_phases_read [OF assms(1-4) _ bnd(1) v(1,2) bnd(2)] vr by auto
    note k = read_ok_keeps [OF r(2)]
    define u' where "u' = v'\<lparr>uio_resid := uio_resid v' + extra\<rparr>"
    have "uio_resid v' = 0" using k(5) vr by (simp add: unat_eq_0)
    then have rs: "unat (uio_resid u') = unat (uio_resid u) - n" using x by (simp add: u'_def)
    have tg': "targets u' = targets v'" by (simp add: targets_def u'_def)
    have mv: "uio_moved n (file_bytes s (sv_i sv) (nat (uio_offset u)) n) u (file_bytes s (sv_i sv) (nat (uio_offset u)) n) u'"
      using r(2) v assms(7) rs n tg tg' by (simp add: read_ok_def uio_moved_def) (simp add: u'_def v_def)
    then have "targets u' = drop n (targets u)" by (simp add: uio_moved_def)
    then have "uio_ok u'" using k(2) rs assms(6) n by (auto simp: uio_ok_def u'_def)
    then have ro: "read_ok s (sv_i sv) n u s' u'" using k(1) mv by (simp add: read_ok_def)
    have out: "io_out p (uio_resid u) extra (s', v') = (Inr (), s', u')"
      using g [of s'] dev_step_same(4) [OF k(1)] assms(2) k(3) v(2)
      by (simp add: io_out_def the_uio_def kbind_def kget_def kreturn_def on_uio_def kmodify_def u'_def)
    have gg: "kbind (on_fs (get_sv p)) f (s, u) = f sv (s, u)" for f
      using g [OF assms(2)] by (simp add: kbind_def on_fs_def)
    have "sfs_io p (s, u) =
        kbind (if uio_offset u + int (unat (uio_resid u)) > int sz then
            kbind (kassert (uio_resid u > extra)) (\<lambda>_. on_uio (kmodify (\<lambda>u. u\<lparr>uio_resid := uio_resid u - extra\<rparr>)))
          else kreturn ()) (\<lambda>_.
        kbind (ktry (io_phases p)) (\<lambda>result.
        kbind (io_out p (uio_resid u) extra) (\<lambda>_.
        case result of Inl e \<Rightarrow> kfail e | Inr _ \<Rightarrow> kreturn ()))) (s, u)"
      using False assms(7)
      by (simp add: sfs_io_def the_uio_def kbind_kget gg Let_def sz_def
          extra_def)
    also have "\<dots> = (Inr (), s', u')"
      by (rule kbind_eq, rule pre, rule kbind_eq [where x = "Inr ()" and s' = "(s', v')"])
        (simp add: ktry_def r(1), rule kbind_eq, rule out, simp add: kreturn_def)
    finally have "sfs_io p (s, u) = (Inr (), s', u')" .
    with ro show ?thesis by (auto simp: n_def sz_def)
  qed
qed

text \<open>The last 100 bytes of the example's file, with room for more.\<close>

definition example_read :: uio where
  "example_read = uio_kinit 0x1000 2000 7900 UIO_READ example_mem"

theorem sfs_io_reads_witness:
  "\<exists>s' u'. sfs_io 100 (example_fs, example_read) = (Inr (), s', u') \<and> uio_offset u' = 8000 \<and> uio_resid u' = 1900"
proof -
  have u: "uio_ok example_read" "uio_rw example_read = UIO_READ" "uio_offset example_read = 7900" "uio_resid example_read = 2000"
    by (simp_all add: example_read_def uio_ok_def uio_kinit_def targets_def)
  have a: "read_amount example_read (unat (sfi_size example_inode)) = 100"
    by (simp add: read_amount_def u example_inode_def)
  have "unat (sfi_size example_inode) \<le> max_blocks * 512" by (simp add: example_inode_def max_blocks_def)
  then obtain s' u' where r: "sfs_io 100 (example_fs, example_read) = (Inr (), s', u')" "read_ok example_fs example_inode 100 example_read s' u'"
    using sfs_io_reads [of example_fs 100 example_sv example_read] example_fs_healthy example_fs_inode u(1-3) a by auto
  have "unat (uio_resid u') = unat (1900 :: u32)" using r(2) by (simp add: read_ok_def uio_moved_def u)
  then have "uio_resid u' = 1900" by (rule unsigned_word_eqI)
  with r show ?thesis by (simp add: read_ok_def uio_moved_def u)
qed

end
