(* ===== verification/SfsDir.thy ===== *)
theory SfsDir
  imports SfsIo
begin

text \<open>
  Directories, \<^verbatim>\<open>kern/fs/sfs/sfs_dir.c\<close>: a directory is a file of 64-byte entries; an entry with
  inode number 0 is free. Names in the kernel are the bytes of a C string before its NUL.
  \<open>dir_entries\<close> is the abstract directory; the operations look up, set and clear its entries.
\<close>

subsection \<open>The operations\<close>

text \<open>\<open>slot * sizeof(struct sfs_direntry)\<close> is a 32-bit product.\<close>

definition dir_pos :: "nat \<Rightarrow> int" where
  "dir_pos slot = int (unat (of_nat slot * 64 :: u32))"

definition sfs_readdir :: "nat \<Rightarrow> nat \<Rightarrow> (sfs_fs, sfs_direntry) kernel" where
  "sfs_readdir p slot =
     kbind (sfs_metaio p (dir_pos slot) (replicate 64 0) UIO_READ) (\<lambda>bs. kreturn (decode_direntry bs))"

definition sfs_writedir :: "nat \<Rightarrow> nat \<Rightarrow> sfs_direntry \<Rightarrow> (sfs_fs, unit) kernel" where
  "sfs_writedir p slot sd =
     kbind (sfs_metaio p (dir_pos slot) (encode_direntry sd) UIO_WRITE) (\<lambda>_. kreturn ())"

definition sfs_dir_nentries :: "nat \<Rightarrow> (sfs_fs, nat) kernel" where
  "sfs_dir_nentries p =
     kbind (get_sv p) (\<lambda>sv.
     kbind (kassert (sfi_type (sv_i sv) = SFS_TYPE_DIR)) (\<lambda>_.
     let sz = unat (sfi_size (sv_i sv)) in
     if sz mod 64 \<noteq> 0 then kfail PANIC else kreturn (sz div 64)))"

text \<open>The string in a name field, with the NUL the code puts at its end.\<close>

definition cstring :: "u8 list \<Rightarrow> u8 list" where
  "cstring bs = takeWhile (\<lambda>c. c \<noteq> 0) bs"

definition entry_name :: "sfs_direntry \<Rightarrow> u8 list" where
  "entry_name sd = cstring ((sfd_name sd)[SFS_NAMELEN - 1 := 0])"

text \<open>
  The loop of \<open>sfs_dir_findname\<close>, with what it has found so far: the inode number and the slot
  of the name, and the last free slot.
\<close>

function findname_loop ::
  "nat \<Rightarrow> u8 list \<Rightarrow> nat \<Rightarrow> nat \<Rightarrow> (u32 \<times> nat) option \<Rightarrow> nat option
     \<Rightarrow> (sfs_fs, (u32 \<times> nat) option \<times> nat option) kernel" where
  "findname_loop p name nentries i found emptyslot =
     (if i < nentries then
        kbind (sfs_readdir p i) (\<lambda>tsd.
        if sfd_ino tsd = SFS_NOINO then findname_loop p name nentries (Suc i) found (Some i)
        else if entry_name tsd = name then
          kbind (kassert (found = None)) (\<lambda>_.
          findname_loop p name nentries (Suc i) (Some (sfd_ino tsd, i)) emptyslot)
        else findname_loop p name nentries (Suc i) found emptyslot)
      else kreturn (found, emptyslot))"
  by pat_completeness auto
termination by (relation "measure (\<lambda>(p, name, n, i, f, e). n - i)") auto

declare findname_loop.simps [simp del]

text \<open>The value is the error code (\<open>ENOENT\<close>) or the inode number and slot, with the free slot.\<close>

definition sfs_dir_findname ::
  "nat \<Rightarrow> u8 list \<Rightarrow> (sfs_fs, (u32 \<times> nat) result \<times> nat option) kernel" where
  "sfs_dir_findname p name =
     kbind (sfs_dir_nentries p) (\<lambda>nentries.
     kbind (findname_loop p name nentries 0 None None) (\<lambda>(found, emptyslot).
     kreturn (case found of None \<Rightarrow> Inl ENOENT | Some x \<Rightarrow> Inr x, emptyslot)))"

definition new_entry :: "u8 list \<Rightarrow> u32 \<Rightarrow> sfs_direntry" where
  "new_entry name ino = \<lparr>sfd_ino = ino, sfd_name = overlay 0 (name @ [0]) (replicate SFS_NAMELEN 0)\<rparr>"

definition sfs_dir_link :: "nat \<Rightarrow> u8 list \<Rightarrow> u32 \<Rightarrow> (sfs_fs, nat) kernel" where
  "sfs_dir_link p name ino =
     kbind (sfs_dir_findname p name) (\<lambda>(r, emptyslot).
     case r of
       Inr _ \<Rightarrow> kfail EEXIST
     | Inl _ \<Rightarrow>
         if SFS_NAMELEN < length name + 1 then kfail ENAMETOOLONG
         else
           kbind (case emptyslot of Some e \<Rightarrow> kreturn e | None \<Rightarrow> sfs_dir_nentries p) (\<lambda>slot.
           kbind (sfs_writedir p slot (new_entry name ino)) (\<lambda>_. kreturn slot)))"

definition sfs_dir_unlink :: "nat \<Rightarrow> nat \<Rightarrow> (sfs_fs, unit) kernel" where
  "sfs_dir_unlink p slot =
     sfs_writedir p slot \<lparr>sfd_ino = SFS_NOINO, sfd_name = replicate SFS_NAMELEN 0\<rparr>"

lemma unat_word_of_int_nat: "n < 4294967296 \<Longrightarrow> unat (word_of_int (int n) :: u32) = n"
  by simp

subsection \<open>Metadata transfers\<close>

text \<open>Where a position lies, as the code computes it.\<close>

lemma metaio_index:
  assumes "0 \<le> pos" and "nat pos div 512 < max_blocks"
  shows "unat (word_of_int (pos sdiv 512) :: u32) = nat pos div 512" and "unat (word_of_int (pos smod 512) :: u32) = nat pos mod 512"
proof -
  have "pos sdiv 512 = int (nat pos div 512)" "pos smod 512 = int (nat pos mod 512)"
    using assms(1) by (simp_all add: truncating_nonneg zdiv_int zmod_int)
  moreover have "nat pos div 512 < 4294967296" using assms(2) by (simp add: max_blocks_def)
  moreover have "nat pos mod 512 < 4294967296" by (rule less_trans [of _ 512]) simp_all
  ultimately show "unat (word_of_int (pos sdiv 512) :: u32) = nat pos div 512"
    "unat (word_of_int (pos smod 512) :: u32) = nat pos mod 512" by simp_all
qed

lemma metaio_read:
  assumes vol: "vol_healthy s" and sv: "sfs_mem s p = Some sv" and ok: "inode_ok s (sv_i sv)"
    and pos: "0 \<le> pos" "nat pos div 512 < max_blocks" "nat pos mod 512 + length data \<le> 512"
  shows "\<exists>s'. sfs_metaio p pos data UIO_READ s = (Inr (file_bytes s (sv_i sv) (nat pos) (length data)), s')
    \<and> dev_step s (blocks_of s) s'"
proof -
  let ?b = "file_block s (sv_i sv) (nat pos div 512)"
  note ix = metaio_index [OF pos(1,2)]
  obtain s1 where l: "sfs_bmap p (word_of_int (pos sdiv 512)) False s = (Inr ?b, s1)" and st1: "dev_step s (blocks_of s) s1"
    using bmap_lookup_ok [OF vol sv ok, of "word_of_int (pos sdiv 512)" False] pos(2) ix by auto
  note k1 = dev_step_same [OF st1]
  have d: "biglock_depth s > 0" using vol by (simp add: vol_healthy_def vol_ok_def)
  have data: "file_bytes s (sv_i sv) (nat pos) (length data) = slice_at (nat pos mod 512) (length data) (file_data s ?b)"
    using pos(3) by (rule file_bytes_block [OF vol ok])
  show ?thesis
  proof (cases "?b = 0")
    case True
    then have "sfs_metaio p pos data UIO_READ s = (Inr (replicate (length data) 0), s1)"
      using l d by (simp add: sfs_metaio_def kmonad_defs vfs_biglock_do_i_hold_def Let_def)
    moreover have "slice_at (nat pos mod 512) (length data) (file_data s ?b) = replicate (length data) 0"
      using True pos(3) by (simp add: file_data_def slice_at_def)
    ultimately show ?thesis using st1 data by auto
  next
    case False
    then have "unat ?b < nblocks s1" using file_block_stored(1) [OF ok False] k1(6) by simp
    from read_step [OF k1(5) this] obtain s2 where
      r: "sfs_readblock ?b 512 s1 = (Inr (blocks_of s1 ! unat ?b), s2)" "dev_step s1 (blocks_of s1) s2" by blast
    have bs: "blocks_of s1 = blocks_of s" using st1 by (simp add: dev_step_def)
    have "sfs_metaio p pos data UIO_READ s = (Inr (slice_at (nat pos mod 512) (length data) (file_data s ?b)), s2)"
      using l d r(1) False pos(3) ix(2) bs
      by (simp add: sfs_metaio_def kmonad_defs vfs_biglock_do_i_hold_def Let_def file_data_def)
    with dev_step_trans [OF st1 r(2)] data show ?thesis by auto
  qed
qed

text \<open>
  A write of \<open>data\<close> at \<open>pos\<close>: the bytes of the file change there and nowhere else, its size grows
  to the end of the write, and the blocks of others stay.
\<close>

definition written :: "sfs_fs \<Rightarrow> nat \<Rightarrow> sfs_vnode \<Rightarrow> nat \<Rightarrow> u8 list \<Rightarrow> sfs_fs \<Rightarrow> sfs_vnode \<Rightarrow> bool" where
  "written s p sv pos data s' sv' \<longleftrightarrow>
     sfs_mem s' = (sfs_mem s)(p := Some sv') \<and> vol_healthy s' \<and> inode_ok s' (sv_i sv')
     \<and> (\<forall>x. file_byte s' (sv_i sv') x =
          (if pos \<le> x \<and> x < pos + length data then data ! (x - pos) else file_byte s (sv_i sv) x))
     \<and> unat (sfi_size (sv_i sv')) = (if data = [] then unat (sfi_size (sv_i sv)) else max (unat (sfi_size (sv_i sv))) (pos + length data))
     \<and> sfi_type (sv_i sv') = sfi_type (sv_i sv) \<and> sfi_linkcount (sv_i sv') = sfi_linkcount (sv_i sv)
     \<and> sv_ino sv' = sv_ino sv \<and> vn_refcount sv' = vn_refcount sv
     \<and> in_use s \<subseteq> in_use s' \<and> sfs_sb s' = sfs_sb s \<and> biglock_depth s' = biglock_depth s
     \<and> sfs_vnodes s' = sfs_vnodes s
     \<and> (\<forall>x \<in> in_use s. x \<notin> unat ` set (mapped s (sv_i sv)) \<longrightarrow> blocks_of s' ! x = blocks_of s ! x)"

lemma frame_written:
  assumes fr: "frame_ok s p sv s' sv'" and ok: "inode_ok s (sv_i sv)" and "file_byte s' (sv_i sv') = file_byte s (sv_i sv)"
  shows "written s p sv pos [] s' sv'"
proof -
  have i: "sv_i sv' = (sv_i sv)\<lparr>sfi_direct := sfi_direct (sv_i sv'), sfi_indirect := sfi_indirect (sv_i sv')\<rparr>"
    using fr by (simp add: frame_ok_def)
  have "sfi_type (sv_i sv') = sfi_type (sv_i sv)" "sfi_linkcount (sv_i sv') = sfi_linkcount (sv_i sv)"
    "sfi_size (sv_i sv') = sfi_size (sv_i sv)" by (subst i, simp)+
  moreover have "sfi_indirect (sv_i sv) = 0 \<or> x \<noteq> unat (sfi_indirect (sv_i sv))" if "x \<notin> unat ` set (mapped s (sv_i sv))" for x
    using that by (auto simp: mapped_def slots_def)
  moreover have "\<forall>x. file_byte s' (sv_i sv') x = (if pos \<le> x \<and> x < pos + length [] then [] ! (x - pos) else file_byte s (sv_i sv) x)"
    using assms(3) by auto
  ultimately show ?thesis using fr frame_ok_block [OF fr] unfolding written_def frame_ok_def by simp
qed


lemma dinode_size [simp]: "inode_ok s (i\<lparr>sfi_size := n\<rparr>) = inode_ok s i" "file_byte s (i\<lparr>sfi_size := n\<rparr>) = file_byte s i"
proof -
  have sl: "slots s (i\<lparr>sfi_size := n\<rparr>) = slots s i" "indirect_words s (i\<lparr>sfi_size := n\<rparr>) = indirect_words s i"
    by (simp_all add: slots_def indirect_words_def)
  then show "inode_ok s (i\<lparr>sfi_size := n\<rparr>) = inode_ok s i" by (simp add: inode_ok_def mapped_def dinode_wf_def)
  show "file_byte s (i\<lparr>sfi_size := n\<rparr>) = file_byte s i"
    by (intro ext) (simp add: file_byte_def file_block_cong [OF sl(1)])
qed

lemma sfs_mem_frame:
  assumes "s' = s\<lparr>sfs_mem := m\<rparr>"
  shows "blocks_of s' = blocks_of s" "in_use s' = in_use s" "nblocks s' = nblocks s" "vol_healthy s' = vol_healthy s"
    "inode_ok s' = inode_ok s" "file_byte s' = file_byte s" "sfs_sb s' = sfs_sb s" "biglock_depth s' = biglock_depth s"
    "sfs_vnodes s' = sfs_vnodes s"
proof -
  show f: "blocks_of s' = blocks_of s" "in_use s' = in_use s" "nblocks s' = nblocks s" "vol_healthy s' = vol_healthy s"
    "sfs_sb s' = sfs_sb s" "biglock_depth s' = biglock_depth s" "sfs_vnodes s' = sfs_vnodes s"
    by (simp_all add: assms blocks_of_def in_use_def nblocks_def vol_healthy_def vol_ok_def)
  have sl: "slots s' i = slots s i" "indirect_words s' i = indirect_words s i" for i
    by (simp_all add: slots_def indirect_words_def f)
  then show "inode_ok s' = inode_ok s" by (intro ext) (simp add: inode_ok_def mapped_def f)
  show "file_byte s' = file_byte s" by (intro ext) (simp add: file_byte_def file_block_cong [OF sl(1)] f(1) Let_def)
qed

lemma overlay_byte:
  assumes "nat pos mod 512 + length data \<le> 512" and "length block = 512" and "x div 512 = nat pos div 512"
  shows "overlay (nat pos mod 512) data block ! (x mod 512) =
    (if nat pos \<le> x \<and> x < nat pos + length data then data ! (x - nat pos) else block ! (x mod 512))"
proof -
  have e: "x = nat pos div 512 * 512 + x mod 512" "nat pos = nat pos div 512 * 512 + nat pos mod 512"
    using assms(3) by (metis div_mult_mod_eq)+
  then have "nat pos mod 512 \<le> x mod 512 \<longleftrightarrow> nat pos \<le> x"
    "x mod 512 < nat pos mod 512 + length data \<longleftrightarrow> x < nat pos + length data" "x mod 512 - nat pos mod 512 = x - nat pos"
    by linarith+
  then show ?thesis using assms(1,2) by (simp add: nth_overlay)
qed

lemma outside_block:
  assumes "nat pos mod 512 + n \<le> 512" and "nat pos \<le> x" and "x < nat pos + n"
  shows "x div 512 = nat pos div 512"
proof -
  have "nat pos = nat pos div 512 * 512 + nat pos mod 512" by simp
  then have "nat pos div 512 * 512 \<le> x" "x < nat pos div 512 * 512 + 512" using assms by linarith+
  then show ?thesis by (intro div_nat_eqI) simp_all
qed

lemma metaio_write:
  assumes vol: "vol_healthy s" and sv: "sfs_mem s p = Some sv" and ok: "inode_ok s (sv_i sv)"
    and pos: "0 \<le> pos" "nat pos div 512 < max_blocks" "nat pos mod 512 + length data \<le> 512" and data: "data \<noteq> []"
  shows "\<exists>r s' sv'. sfs_metaio p pos data UIO_WRITE s = (r, s')
    \<and> (case r of Inl e \<Rightarrow> e = ENOSPC \<and> written s p sv (nat pos) [] s' sv'
       | Inr d \<Rightarrow> d = data \<and> written s p sv (nat pos) data s' sv')"
proof -
  let ?k = "nat pos div 512" and ?o = "nat pos mod 512"
  note ix = metaio_index [OF pos(1,2)]
  have d: "biglock_depth s > 0" using vol by (simp add: vol_healthy_def vol_ok_def)
  have fb: "unat (word_of_int (pos sdiv 512) :: u32) < max_blocks" using pos(2) ix(1) by simp
  obtain r s1 sv1 where l: "sfs_bmap p (word_of_int (pos sdiv 512)) True s = (r, s1)" and fr: "frame_ok s p sv s1 sv1"
    and by1: "file_byte s1 (sv_i sv1) = file_byte s (sv_i sv)"
    and res: "case r of Inl e \<Rightarrow> e = ENOSPC
      | Inr b \<Rightarrow> b \<noteq> 0 \<and> file_block s1 (sv_i sv1) ?k = b \<and> (unat b \<in> in_use s \<longrightarrow> b \<in> set (mapped s (sv_i sv)))"
    using bmap_write_ok [OF vol sv ok fb, unfolded ix(1)] by blast
  note w0 = frame_written [OF fr ok by1, of "nat pos"]
  show ?thesis
  proof (cases r)
    case (Inl e)
    then have "sfs_metaio p pos data UIO_WRITE s = (Inl e, s1)"
      using l d by (simp add: sfs_metaio_def kmonad_defs vfs_biglock_do_i_hold_def Let_def)
    with w0 res Inl show ?thesis by auto
  next
    case (Inr b)
    then have b: "b \<noteq> 0" "file_block s1 (sv_i sv1) ?k = b" "unat b \<in> in_use s \<Longrightarrow> b \<in> set (mapped s (sv_i sv))"
      using res by auto
    have s1: "vol_healthy s1" "inode_ok s1 (sv_i sv1)" "sfs_mem s1 p = Some sv1" using fr by (simp_all add: frame_ok_def)
    have bl: "unat b < nblocks s1" using file_block_stored(1) [OF s1(2), of ?k] b by simp
    let ?buf = "blocks_of s1 ! unat b" and ?new = "overlay ?o data (blocks_of s1 ! unat b)"
    have len: "length ?buf = 512" by (rule block_length [OF s1(1) bl])
    from read_step [OF s1(1) bl] obtain s2 where
      rd: "sfs_readblock b 512 s1 = (Inr ?buf, s2)" and st2: "dev_step s1 (blocks_of s1) s2" by blast
    note k2 = dev_step_same [OF st2]
    have "length ?new = 512" using len pos(3) by simp
    then obtain s3 where wr: "sfs_writeblock b ?new s2 = (Inr (), s3)"
      and st3: "dev_step s2 ((blocks_of s2)[unat b := ?new]) s3" and ok3: "inode_ok s3 (sv_i sv1)"
      and by3: "\<forall>x. file_byte s3 (sv_i sv1) x = (if x div 512 = ?k then ?new ! (x mod 512) else file_byte s2 (sv_i sv1) x)"
      using write_data_ok [OF k2(5), of "sv_i sv1" ?k b ?new] s1(2) b(1,2) k2(1,3) by auto
    have f3: "sans_device s3 = sans_device s1" "blocks_of s3 = (blocks_of s1)[unat b := ?new]"
      using st2 st3 by (simp_all add: dev_step_def)
    note fs = sans_device_fields [OF f3(1)]
    have bb: "file_byte s3 (sv_i sv1) x = (if nat pos \<le> x \<and> x < nat pos + length data then data ! (x - nat pos)
        else file_byte s (sv_i sv) x)" for x
    proof (cases "x div 512 = ?k")
      case True
      then have "file_byte s1 (sv_i sv1) x = ?buf ! (x mod 512)" using b by (simp add: file_byte_def Let_def)
      with True by3 by1 overlay_byte [OF pos(3) len True] show ?thesis by simp
    next
      case False
      then have "\<not> (nat pos \<le> x \<and> x < nat pos + length data)" using outside_block [OF pos(3)] by blast
      moreover have "file_byte s2 (sv_i sv1) x = file_byte s1 (sv_i sv1) x"
        using st2 by (simp add: file_byte_def k2(1) dev_step_def Let_def)
      ultimately show ?thesis using False by3 by1 by auto
    qed
    define e where "e = pos + int (length data)"
    define f where "f = (\<lambda>i :: sfs_dinode. i\<lparr>sfi_size := word_of_int e\<rparr>)"
    define big where "big \<longleftrightarrow> e > int (unat (sfi_size (sv_i sv1)))"
    define sv' where "sv' = (if big then dirty_inode f sv1 else sv1)"
    define s4 where "s4 = s3\<lparr>sfs_mem := (sfs_mem s3)(p := Some sv')\<rparr>"
    note m = sfs_mem_frame [OF s4_def]
    have m3: "sfs_mem s3 p = Some sv1" using s1(3) fs(3) by simp
    have run: "sfs_metaio p pos data UIO_WRITE s = (Inr data, s4)"
    proof (cases big)
      case True
      then show ?thesis
        using l d rd wr Inr b(1) ix(2) pos(3) m3
        by (simp add: sfs_metaio_def kmonad_defs vfs_biglock_do_i_hold_def Let_def get_sv_def upd_sv_def s4_def sv'_def f_def e_def big_def)
    next
      case False
      then have "s4 = s3" using m3 by (simp add: s4_def sv'_def fun_upd_idem)
      with False show ?thesis
        using l d rd wr Inr b(1) ix(2) pos(3) m3
        by (simp add: sfs_metaio_def kmonad_defs vfs_biglock_do_i_hold_def Let_def get_sv_def e_def big_def)
    qed
    have i': "sv_i sv' = (sv_i sv1)\<lparr>sfi_size := if big then word_of_int e else sfi_size (sv_i sv1)\<rparr>" "sv_ino sv' = sv_ino sv1"
      "vn_refcount sv' = vn_refcount sv1"
      by (simp_all add: sv'_def dirty_inode_def f_def)
    have e32: "e = int (nat pos + length data)" "nat pos + length data < 2 ^ 32"
    proof -
      have "nat pos < 512 * max_blocks" using pos(2) by (simp add: mult.commute div_less_iff_less_mult)
      moreover have "length data \<le> 512" using pos(3) by linarith
      ultimately show "nat pos + length data < 2 ^ 32" by (simp add: max_blocks_def)
    qed (use pos(1) in \<open>simp add: e_def\<close>)
    have ew: "unat (word_of_int e :: u32) = nat pos + length data"
      unfolding e32(1) using e32(2) by (intro unat_word_of_int_nat) simp
    have size: "unat (sfi_size (sv_i sv')) = max (unat (sfi_size (sv_i sv1))) (nat pos + length data)"
    proof (cases big)
      case True
      then have "unat (sfi_size (sv_i sv1)) < nat pos + length data" unfolding big_def e32(1) by linarith
      with True ew show ?thesis by (simp add: i'(1))
    next
      case False
      then have "nat pos + length data \<le> unat (sfi_size (sv_i sv1))" unfolding big_def e32(1) by linarith
      with False show ?thesis by (simp add: i'(1) max_def)
    qed
    have "blocks_of s4 ! x = blocks_of s ! x" if "x \<in> in_use s" "x \<notin> unat ` set (mapped s (sv_i sv))" for x
    proof -
      have "x \<noteq> unat b" using b(3) that by auto
      then have "blocks_of s4 ! x = blocks_of s1 ! x" by (simp add: m(1) f3(2))
      then show ?thesis using w0 that by (simp add: written_def)
    qed
    then have "written s p sv (nat pos) data s4 sv'"
      using w0 st3 ok3 bb size fs m i' data
      by (simp add: written_def dev_step_def s4_def [symmetric]) (simp add: s4_def)
    with run show ?thesis by auto
  qed
qed

subsection \<open>The abstract directory\<close>

definition dir_size :: "sfs_vnode \<Rightarrow> nat" where
  "dir_size sv = unat (sfi_size (sv_i sv))"

definition dir_ok :: "sfs_fs \<Rightarrow> nat \<Rightarrow> sfs_vnode \<Rightarrow> bool" where
  "dir_ok s p sv \<longleftrightarrow> vol_healthy s \<and> sfs_mem s p = Some sv \<and> inode_ok s (sv_i sv)
     \<and> sfi_type (sv_i sv) = SFS_TYPE_DIR \<and> dir_size sv mod 64 = 0 \<and> dir_size sv \<le> max_blocks * 512"

definition dir_entry :: "sfs_fs \<Rightarrow> sfs_vnode \<Rightarrow> nat \<Rightarrow> sfs_direntry" where
  "dir_entry s sv k = decode_direntry (file_bytes s (sv_i sv) (64 * k) 64)"

definition dir_entries :: "sfs_fs \<Rightarrow> sfs_vnode \<Rightarrow> sfs_direntry list" where
  "dir_entries s sv = map (dir_entry s sv) [0..<dir_size sv div 64]"

definition entry_free :: "sfs_direntry \<Rightarrow> bool" where
  "entry_free e \<longleftrightarrow> sfd_ino e = SFS_NOINO"

definition entry_is :: "u8 list \<Rightarrow> sfs_direntry \<Rightarrow> bool" where
  "entry_is name e \<longleftrightarrow> \<not> entry_free e \<and> entry_name e = name"

definition names_unique :: "sfs_direntry list \<Rightarrow> bool" where
  "names_unique es \<longleftrightarrow> (\<forall>i j. i < j \<longrightarrow> j < length es \<longrightarrow> \<not> entry_free (es ! i) \<longrightarrow> \<not> entry_free (es ! j) \<longrightarrow>
     entry_name (es ! i) \<noteq> entry_name (es ! j))"

text \<open>What a search of the entries from \<open>i\<close> on finds: the entry of a name, and the last free one.\<close>

definition find_entry :: "u8 list \<Rightarrow> sfs_direntry list \<Rightarrow> nat \<Rightarrow> (u32 \<times> nat) option" where
  "find_entry name es i =
     map_option (\<lambda>k. (sfd_ino (es ! k), k)) (List.find (\<lambda>k. entry_is name (es ! k)) [i..<length es])"

definition last_free :: "sfs_direntry list \<Rightarrow> nat \<Rightarrow> nat option" where
  "last_free es i = List.find (\<lambda>k. entry_free (es ! k)) (rev [i..<length es])"

text \<open>The directory as a map from names to inode numbers.\<close>

definition dir_map :: "sfs_direntry list \<Rightarrow> u8 list \<Rightarrow> u32 option" where
  "dir_map es name = map_option fst (find_entry name es 0)"

lemma find_append: "List.find P (xs @ ys) = (case List.find P xs of None \<Rightarrow> List.find P ys | Some x \<Rightarrow> Some x)"
  by (induction xs) auto

lemma upt_cons: "i < n \<Longrightarrow> [i..<n] = i # [Suc i..<n]"
  by (rule upt_conv_Cons)

lemma find_entry_step:
  "i < length es \<Longrightarrow> find_entry name es i =
    (if entry_is name (es ! i) then Some (sfd_ino (es ! i), i) else find_entry name es (Suc i))"
  by (simp add: find_entry_def upt_cons)

lemma last_free_step:
  "i < length es \<Longrightarrow> last_free es i =
    (case last_free es (Suc i) of None \<Rightarrow> if entry_free (es ! i) then Some i else None | Some k \<Rightarrow> Some k)"
  by (simp add: last_free_def upt_cons find_append split: option.split)

lemma find_entry_end: "length es \<le> i \<Longrightarrow> find_entry name es i = None" "length es \<le> i \<Longrightarrow> last_free es i = None"
  by (simp_all add: find_entry_def last_free_def)

lemma find_entry_None: "find_entry name es i = None \<longleftrightarrow> (\<forall>k. i \<le> k \<longrightarrow> k < length es \<longrightarrow> \<not> entry_is name (es ! k))"
  by (auto simp: find_entry_def find_None_iff)

lemma find_entry_Some:
  assumes "find_entry name es i = Some (ino, k)"
  shows "k < length es" and "i \<le> k" and "entry_is name (es ! k)" and "ino = sfd_ino (es ! k)"
  using assms by (auto simp: find_entry_def find_Some_iff)

lemma names_uniqueD:
  assumes "names_unique es" and "k < length es" and "l < length es" and "entry_is name (es ! k)" and "entry_is name (es ! l)"
  shows "k = l"
  using assms unfolding names_unique_def entry_is_def by (metis linorder_neqE_nat)

subsection \<open>Looking up a name\<close>

lemma dir_pos_eq: "slot < 2 ^ 26 \<Longrightarrow> dir_pos slot = 64 * int slot"
proof -
  assume s: "slot < 2 ^ 26"
  have "unat (of_nat slot * 64 :: u32) = slot * 64"
    using s by (subst unat_mult_u32) simp_all
  then have "int (unat (of_nat slot * 64 :: u32)) = int (slot * 64)" by simp
  then show ?thesis unfolding dir_pos_def by simp
qed

lemma slot_pos:
  assumes "slot < 1144"
  shows "0 \<le> dir_pos slot" and "nat (dir_pos slot) = 64 * slot" and "nat (dir_pos slot) div 512 < max_blocks"
    and "nat (dir_pos slot) mod 512 + 64 \<le> 512"
proof -
  have p: "dir_pos slot = 64 * int slot" using assms by (intro dir_pos_eq) simp
  then show n: "0 \<le> dir_pos slot" "nat (dir_pos slot) = 64 * slot" by simp_all
  have "(64 * slot) mod 512 = 64 * (slot mod 8)" using mult_mod_right [of 64 slot 8] by simp
  moreover have "slot mod 8 \<le> 7" using mod_less_divisor [of 8 slot] by linarith
  ultimately show "nat (dir_pos slot) mod 512 + 64 \<le> 512" unfolding n(2) by linarith
  show "nat (dir_pos slot) div 512 < max_blocks"
    unfolding n(2) using assms by (intro less_mult_imp_div_less) (simp add: max_blocks_def)
qed

lemma dir_slot: "dir_ok s p sv \<Longrightarrow> k < length (dir_entries s sv) \<Longrightarrow> k < 1144"
  by (simp add: dir_ok_def dir_entries_def max_blocks_def) linarith

lemma readdir_ok:
  assumes "dir_ok s p sv" and "k < 1144"
  shows "\<exists>s'. sfs_readdir p k s = (Inr (dir_entry s sv k), s') \<and> dev_step s (blocks_of s) s'"
proof -
  have a: "vol_healthy s" "sfs_mem s p = Some sv" "inode_ok s (sv_i sv)" using assms(1) by (simp_all add: dir_ok_def)
  note p = slot_pos [OF assms(2)]
  have "nat (dir_pos k) mod 512 + length (replicate 64 (0 :: u8)) \<le> 512" using p(4) by simp
  from metaio_read [OF a p(1,3) this] p(2) show ?thesis
    by (auto simp: sfs_readdir_def kmonad_defs dir_entry_def)
qed

lemma dev_step_dir:
  assumes "dev_step s (blocks_of s) s'"
  shows "dir_ok s p sv \<Longrightarrow> dir_ok s' p sv" and "dir_entry s' sv = dir_entry s sv" and "dir_entries s' sv = dir_entries s sv"
proof -
  note d = dev_step_same [OF assms]
  show "dir_ok s p sv \<Longrightarrow> dir_ok s' p sv" using d by (simp add: dir_ok_def)
  show "dir_entry s' sv = dir_entry s sv" by (intro ext) (simp add: dir_entry_def d(2))
  then show "dir_entries s' sv = dir_entries s sv" by (simp add: dir_entries_def)
qed

lemma findname_loop_ok:
  assumes "dir_ok s p sv" and "dir_entries s sv = es" and "names_unique es" and "i \<le> length es"
    and "found \<noteq> None \<Longrightarrow> \<exists>l < i. entry_is name (es ! l)"
  shows "\<exists>s'. findname_loop p name (length es) i found emptyslot s =
      (Inr (case find_entry name es i of None \<Rightarrow> found | Some x \<Rightarrow> Some x,
            case last_free es i of None \<Rightarrow> emptyslot | Some k \<Rightarrow> Some k), s')
    \<and> dev_step s (blocks_of s) s'"
  using assms
proof (induction "length es - i" arbitrary: i s found emptyslot)
  case 0
  then have "findname_loop p name (length es) i found emptyslot s = (Inr (found, emptyslot), s)"
    by (simp add: findname_loop.simps kreturn_def)
  moreover have "dev_step s (blocks_of s) s" using 0(2) by (simp add: dir_ok_def dev_step_def)
  ultimately show ?case using 0(1) by (simp add: find_entry_end)
next
  case (Suc n)
  have i: "i < length es" "n = length es - Suc i" "Suc i \<le> length es" using Suc(2) by auto
  let ?e = "es ! i"
  obtain s1 where r: "sfs_readdir p i s = (Inr (dir_entry s sv i), s1)" "dev_step s (blocks_of s) s1"
    using readdir_ok [OF Suc(3)] dir_slot [OF Suc(3), of i] i(1) Suc(4) by auto
  have e: "dir_entry s sv i = ?e" using i(1) Suc(4) by (auto simp: dir_entries_def)
  note d = dev_step_dir [OF r(2)]
  have s1: "dir_ok s1 p sv" "dir_entries s1 sv = es" using d Suc(3,4) by simp_all
  have none: "found = None" if "entry_is name ?e"
  proof (rule ccontr)
    assume "found \<noteq> None"
    then obtain l where "l < i" "entry_is name (es ! l)" using Suc(7) by blast
    with names_uniqueD [OF Suc(5), of l i name] that i(1) show False by simp
  qed
  define found' where "found' = (if entry_is name ?e then Some (sfd_ino ?e, i) else found)"
  define empty' where "empty' = (if entry_free ?e then Some i else emptyslot)"
  have "found' \<noteq> None \<Longrightarrow> \<exists>l < Suc i. entry_is name (es ! l)"
    using Suc(7) by (cases "entry_is name ?e") (auto simp: found'_def less_Suc_eq)
  from Suc(1) [OF i(2) s1 Suc(5) i(3) this] obtain s2 where
    l: "findname_loop p name (length es) (Suc i) found' empty' s1 =
      (Inr (case find_entry name es (Suc i) of None \<Rightarrow> found' | Some x \<Rightarrow> Some x,
            case last_free es (Suc i) of None \<Rightarrow> empty' | Some k \<Rightarrow> Some k), s2)"
      "dev_step s1 (blocks_of s1) s2" by blast
  have "findname_loop p name (length es) i found emptyslot s = findname_loop p name (length es) (Suc i) found' empty' s1"
    using r(1) i(1) e none
    by (auto simp: findname_loop.simps [of p name "length es" i] kbind_def kassert_def found'_def empty'_def entry_is_def entry_free_def)
  moreover have "find_entry name es (Suc i) = None" if "entry_is name ?e"
    using names_uniqueD [OF Suc(5) _ i(1) _ that] by (auto simp: find_entry_None)
  then have "(case find_entry name es (Suc i) of None \<Rightarrow> found' | Some x \<Rightarrow> Some x)
      = (case find_entry name es i of None \<Rightarrow> found | Some x \<Rightarrow> Some x)"
    by (auto simp: find_entry_step [OF i(1)] found'_def split: option.split)
  moreover have "(case last_free es (Suc i) of None \<Rightarrow> empty' | Some k \<Rightarrow> Some k)
      = (case last_free es i of None \<Rightarrow> emptyslot | Some k \<Rightarrow> Some k)"
    by (auto simp: last_free_step [OF i(1)] empty'_def split: option.split)
  ultimately show ?case using l dev_step_trans [OF r(2) l(2)] by auto
qed

lemma nentries_ok:
  assumes "dir_ok s p sv"
  shows "sfs_dir_nentries p s = (Inr (length (dir_entries s sv)), s)"
  using assms by (auto simp: dir_ok_def sfs_dir_nentries_def kmonad_defs get_sv_def dir_entries_def dir_size_def Let_def)

lemma findname_ok:
  assumes "dir_ok s p sv" and "names_unique (dir_entries s sv)"
  shows "\<exists>s'. sfs_dir_findname p name s =
      (Inr (case find_entry name (dir_entries s sv) 0 of None \<Rightarrow> Inl ENOENT | Some x \<Rightarrow> Inr x,
            last_free (dir_entries s sv) 0), s')
    \<and> dev_step s (blocks_of s) s'"
proof -
  obtain s' where l: "findname_loop p name (length (dir_entries s sv)) 0 None None s =
      (Inr (case find_entry name (dir_entries s sv) 0 of None \<Rightarrow> None | Some x \<Rightarrow> Some x,
            case last_free (dir_entries s sv) 0 of None \<Rightarrow> None | Some k \<Rightarrow> Some k), s')" "dev_step s (blocks_of s) s'"
    using findname_loop_ok [OF assms(1) refl assms(2) le0, of None name None] by auto
  then have "sfs_dir_findname p name s =
      (Inr (case find_entry name (dir_entries s sv) 0 of None \<Rightarrow> Inl ENOENT | Some x \<Rightarrow> Inr x,
            last_free (dir_entries s sv) 0), s')"
    using nentries_ok [OF assms(1)]
    by (auto simp: sfs_dir_findname_def kbind_def kreturn_def split: option.split)
  with l(2) show ?thesis by blast
qed

subsection \<open>Setting an entry\<close>

definition put_entry :: "sfs_direntry list \<Rightarrow> nat \<Rightarrow> sfs_direntry \<Rightarrow> sfs_direntry list" where
  "put_entry es k e = (if k = length es then es @ [e] else es[k := e])"

lemma put_entry_nth:
  assumes "k \<le> length es"
  shows "length (put_entry es k e) = max (length es) (Suc k)"
    and "j < max (length es) (Suc k) \<Longrightarrow> put_entry es k e ! j = (if j = k then e else es ! j)"
  using assms by (auto simp: put_entry_def nth_append)

lemma writedir_ok:
  assumes dir: "dir_ok s p sv" and k: "k \<le> length (dir_entries s sv)" "k < 1144" and e: "direntry_wf e"
  shows "\<exists>r s' sv'. sfs_writedir p k e s = (r, s') \<and> dir_ok s' p sv'
    \<and> (case r of
         Inl err \<Rightarrow> err = ENOSPC \<and> written s p sv (64 * k) [] s' sv' \<and> dir_entries s' sv' = dir_entries s sv
       | Inr _ \<Rightarrow> written s p sv (64 * k) (encode_direntry e) s' sv'
           \<and> dir_entries s' sv' = put_entry (dir_entries s sv) k e)"
proof -
  have a: "vol_healthy s" "sfs_mem s p = Some sv" "inode_ok s (sv_i sv)" using dir by (simp_all add: dir_ok_def)
  have len: "length (encode_direntry e) = 64" by (rule encode_direntry_length [OF e])
  have ne: "encode_direntry e \<noteq> []" using len by auto
  note p = slot_pos [OF k(2)]
  have bnd: "nat (dir_pos k) mod 512 + length (encode_direntry e) \<le> 512" using p(4) len by simp
  obtain r s' sv' where m: "sfs_metaio p (dir_pos k) (encode_direntry e) UIO_WRITE s = (r, s')"
    "case r of Inl err \<Rightarrow> err = ENOSPC \<and> written s p sv (64 * k) [] s' sv'
       | Inr d \<Rightarrow> d = encode_direntry e \<and> written s p sv (64 * k) (encode_direntry e) s' sv'"
    using metaio_write [OF a p(1,3) bnd ne] unfolding p(2) by blast
  have sz: "dir_size sv = 64 * length (dir_entries s sv)"
    using dir by (auto simp: dir_ok_def dir_entries_def)
  show ?thesis
  proof (cases r)
    case (Inl err)
    then have w: "written s p sv (64 * k) [] s' sv'" "err = ENOSPC" using m by auto
    have "file_bytes s' (sv_i sv') = file_bytes s (sv_i sv)"
      using w(1) by (intro ext) (auto simp: written_def file_bytes_def)
    moreover have "dir_size sv' = dir_size sv" using w(1) by (simp add: written_def dir_size_def)
    ultimately have "dir_entries s' sv' = dir_entries s sv" by (simp add: dir_entries_def dir_entry_def)
    moreover have "dir_ok s' p sv'" using w(1) dir \<open>dir_size sv' = dir_size sv\<close> by (simp add: dir_ok_def written_def)
    ultimately show ?thesis
      using m(1) w Inl by (intro exI [of _ "Inl err"] exI [of _ s'] exI [of _ sv']) (simp add: sfs_writedir_def kmonad_defs)
  next
    case (Inr d)
    then have w: "written s p sv (64 * k) (encode_direntry e) s' sv'" using m by auto
    have size: "dir_size sv' = 64 * max (length (dir_entries s sv)) (Suc k)"
      using w len ne sz by (simp add: written_def dir_size_def) (simp add: max_def)
    have byt: "file_byte s' (sv_i sv') x = (if 64 * k \<le> x \<and> x < 64 * k + 64 then encode_direntry e ! (x - 64 * k)
        else file_byte s (sv_i sv) x)" for x
      using w len by (simp add: written_def)
    have ent: "dir_entry s' sv' j = (if j = k then e else dir_entry s sv j)" for j
    proof (cases "j = k")
      case True
      have "file_bytes s' (sv_i sv') (64 * k) 64 = encode_direntry e"
        using len by (intro nth_equalityI) (simp_all add: file_bytes_def byt)
      with True e show ?thesis by (simp add: dir_entry_def decode_encode_direntry)
    next
      case False
      then have "64 * j + 64 \<le> 64 * k \<or> 64 * k + 64 \<le> 64 * j" by linarith
      then have "file_bytes s' (sv_i sv') (64 * j) 64 = file_bytes s (sv_i sv) (64 * j) 64"
        by (intro nth_equalityI) (auto simp: file_bytes_def byt)
      with False show ?thesis by (simp add: dir_entry_def)
    qed
    have "dir_entries s' sv' = put_entry (dir_entries s sv) k e"
    proof (rule nth_equalityI)
      show l: "length (dir_entries s' sv') = length (put_entry (dir_entries s sv) k e)"
        using size by (simp add: put_entry_nth(1) [OF k(1)]) (simp add: dir_entries_def)
      fix j assume "j < length (dir_entries s' sv')"
      then have j: "j < max (length (dir_entries s sv)) (Suc k)" using l put_entry_nth(1) [OF k(1)] by simp
      moreover have "j < length (dir_entries s sv)" if "j \<noteq> k" using j that k(1) by auto
      ultimately show "dir_entries s' sv' ! j = put_entry (dir_entries s sv) k e ! j"
        using ent [of j] size by (simp add: put_entry_nth(2) [OF k(1)]) (auto simp: dir_entries_def)
    qed
    moreover have "length (dir_entries s sv) \<le> 1144"
      using dir sz by (simp add: dir_ok_def max_blocks_def)
    then have "dir_ok s' p sv'"
      using w dir size k(2) by (simp add: dir_ok_def written_def max_blocks_def)
    ultimately show ?thesis
      using m(1) w Inr by (intro exI [of _ "Inr ()"] exI [of _ s'] exI [of _ sv']) (simp add: sfs_writedir_def kmonad_defs)
  qed
qed

subsection \<open>The directory as a map\<close>

lemma dir_map_Some:
  assumes "names_unique es"
  shows "dir_map es name = Some ino \<longleftrightarrow> (\<exists>k < length es. entry_is name (es ! k) \<and> sfd_ino (es ! k) = ino)"
proof
  assume "dir_map es name = Some ino"
  then obtain k where "find_entry name es 0 = Some (ino, k)" by (auto simp: dir_map_def)
  with find_entry_Some [OF this] show "\<exists>k < length es. entry_is name (es ! k) \<and> sfd_ino (es ! k) = ino" by auto
next
  assume "\<exists>k < length es. entry_is name (es ! k) \<and> sfd_ino (es ! k) = ino"
  then obtain k where k: "k < length es" "entry_is name (es ! k)" "sfd_ino (es ! k) = ino" by blast
  then have "find_entry name es 0 \<noteq> None" unfolding find_entry_None by auto
  then obtain j l where f: "find_entry name es 0 = Some (j, l)" by auto
  have "l = k" using names_uniqueD [OF assms find_entry_Some(1) [OF f] k(1) find_entry_Some(3) [OF f] k(2)] .
  with f find_entry_Some(4) [OF f] k(3) show "dir_map es name = Some ino" by (simp add: dir_map_def)
qed

lemma dir_map_None: "dir_map es name = None \<longleftrightarrow> (\<forall>k < length es. \<not> entry_is name (es ! k))"
  by (simp add: dir_map_def find_entry_None)

lemma names_uniqueI:
  assumes "\<And>i j name. i < length es \<Longrightarrow> j < length es \<Longrightarrow> entry_is name (es ! i) \<Longrightarrow> entry_is name (es ! j) \<Longrightarrow> i = j"
  shows "names_unique es"
  unfolding names_unique_def
proof (intro allI impI notI)
  fix i j assume a: "i < j" "j < length es" "\<not> entry_free (es ! i)" "\<not> entry_free (es ! j)" "entry_name (es ! i) = entry_name (es ! j)"
  then have "i = j" by (intro assms [of i j "entry_name (es ! i)"]) (simp_all add: entry_is_def)
  with a(1) show False by simp
qed

lemma map_eqI: "(\<And>n x. f n = Some x \<longleftrightarrow> g n = Some x) \<Longrightarrow> f = g"
  by (intro ext) (metis not_None_eq)

text \<open>Setting a free slot, or a new one, to an entry with a new name.\<close>

lemma put_new_entry:
  assumes u: "names_unique es" and k: "k \<le> length es" "k < length es \<Longrightarrow> entry_free (es ! k)"
    and new: "dir_map es name = None" and e: "entry_is name e"
  shows "names_unique (put_entry es k e)" and "dir_map (put_entry es k e) = (dir_map es)(name \<mapsto> sfd_ino e)"
proof -
  note n = put_entry_nth(1) [OF k(1), where e = e] put_entry_nth(2) [OF k(1), where e = e]
  have free: "\<not> entry_is nm (es ! k)" if "k < length es" for nm using k(2) [OF that] by (simp add: entry_is_def)
  have old: "j < length es" if "j < max (length es) (Suc k)" "j \<noteq> k" for j using that k(1) by auto
  have other: "\<not> entry_is name (es ! j)" if "j < length es" for j using new that by (simp add: dir_map_None)
  have en: "entry_is nm e \<longleftrightarrow> nm = name" for nm using e by (auto simp: entry_is_def)
  show u': "names_unique (put_entry es k e)"
  proof (rule names_uniqueI)
    fix i j nm
    assume a: "i < length (put_entry es k e)" "j < length (put_entry es k e)"
      "entry_is nm (put_entry es k e ! i)" "entry_is nm (put_entry es k e ! j)"
    then show "i = j"
      using n old other en names_uniqueD [OF u, of i j nm] by (cases "i = k"; cases "j = k") auto
  qed
  show "dir_map (put_entry es k e) = (dir_map es)(name \<mapsto> sfd_ino e)"
  proof (rule map_eqI)
    fix nm x
    have "dir_map (put_entry es k e) nm = Some x \<longleftrightarrow> (\<exists>j < max (length es) (Suc k). entry_is nm (if j = k then e else es ! j)
        \<and> sfd_ino (if j = k then e else es ! j) = x)"
      using n by (simp add: dir_map_Some [OF u'] cong: conj_cong)
    also have "\<dots> \<longleftrightarrow> (nm = name \<and> x = sfd_ino e) \<or> (\<exists>j < length es. entry_is nm (es ! j) \<and> sfd_ino (es ! j) = x)"
      using old free k(1) en by (auto simp: less_max_iff_disj) (metis less_max_iff_disj)+
    also have "\<dots> \<longleftrightarrow> ((dir_map es)(name \<mapsto> sfd_ino e)) nm = Some x"
      using new by (cases "nm = name") (auto simp: dir_map_Some [OF u, symmetric])
    finally show "dir_map (put_entry es k e) nm = Some x \<longleftrightarrow> ((dir_map es)(name \<mapsto> sfd_ino e)) nm = Some x" .
  qed
qed

text \<open>Clearing the entry of a name.\<close>

lemma put_free_entry:
  assumes u: "names_unique es" and k: "k < length es" "entry_is name (es ! k)" and e: "entry_free e"
  shows "names_unique (put_entry es k e)" and "dir_map (put_entry es k e) = (dir_map es)(name := None)"
proof -
  have n: "put_entry es k e = es[k := e]" using k(1) by (simp add: put_entry_def)
  have en: "\<not> entry_is nm e" for nm using e by (simp add: entry_is_def)
  have nth: "j < length es \<Longrightarrow> entry_is nm (es[k := e] ! j) \<longleftrightarrow> j \<noteq> k \<and> entry_is nm (es ! j)" for j nm
    using en by (cases "j = k") simp_all
  show u': "names_unique (put_entry es k e)"
    unfolding n by (rule names_uniqueI) (auto simp: nth intro: names_uniqueD [OF u])
  show "dir_map (put_entry es k e) = (dir_map es)(name := None)"
  proof (rule map_eqI)
    fix nm x
    have "dir_map (put_entry es k e) nm = Some x \<longleftrightarrow> (\<exists>j < length es. j \<noteq> k \<and> entry_is nm (es ! j) \<and> sfd_ino (es ! j) = x)"
      unfolding dir_map_Some [OF u'] unfolding n using nth by (auto cong: conj_cong)
    also have "\<dots> \<longleftrightarrow> nm \<noteq> name \<and> dir_map es nm = Some x"
    proof -
      have "j \<noteq> k \<longleftrightarrow> nm \<noteq> name" if "j < length es" "entry_is nm (es ! j)" for j
        using that k names_uniqueD [OF u that(1) k(1), of name] by (auto simp: entry_is_def)
      then show ?thesis unfolding dir_map_Some [OF u] by blast
    qed
    finally show "dir_map (put_entry es k e) nm = Some x \<longleftrightarrow> ((dir_map es)(name := None)) nm = Some x" by auto
  qed
qed

definition name_ok :: "u8 list \<Rightarrow> bool" where
  "name_ok name \<longleftrightarrow> 0 \<notin> set name \<and> length name < SFS_NAMELEN"

lemma new_entry_ok:
  assumes "name_ok name" and "ino \<noteq> SFS_NOINO"
  shows "entry_is name (new_entry name ino)" and "direntry_wf (new_entry name ino)" and "sfd_ino (new_entry name ino) = ino"
proof -
  let ?f = "overlay 0 (name @ [0]) (replicate 60 0) :: u8 list"
  have l: "length name < 60" "0 \<notin> set name" using assms(1) by (simp_all add: name_ok_def)
  have f: "?f = name @ replicate (60 - length name) 0"
  proof (rule nth_equalityI)
    show "length ?f = length (name @ replicate (60 - length name) 0)" using l(1) by (subst length_overlay) simp_all
    fix i assume "i < length ?f"
    then have "i < 60" using l(1) by (subst (asm) length_overlay) simp_all
    then show "?f ! i = (name @ replicate (60 - length name) 0) ! i"
      using l(1) by (subst nth_overlay) (auto simp: nth_append)
  qed
  have "?f[59 := 0] = ?f"
  proof -
    have "?f ! 59 = 0" using l(1) by (simp add: f nth_append)
    then show ?thesis by (metis list_update_id)
  qed
  moreover have "replicate (60 - length name) (0 :: u8) = 0 # replicate (59 - length name) 0"
    using l(1) by (simp add: Suc_diff_le replicate_Suc [symmetric] del: replicate_Suc)
  then have "takeWhile (\<lambda>c. c \<noteq> 0) ?f = name" using l(2) by (auto simp: f takeWhile_append)
  ultimately have "entry_name (new_entry name ino) = name" by (simp add: entry_name_def new_entry_def cstring_def)
  then show "entry_is name (new_entry name ino)" using assms(2) by (simp add: entry_is_def entry_free_def new_entry_def)
  show "direntry_wf (new_entry name ino)" using l(1) by (simp add: direntry_wf_def new_entry_def f)
  show "sfd_ino (new_entry name ino) = ino" by (simp add: new_entry_def)
qed

lemma last_free_None: "last_free es 0 = None \<longleftrightarrow> (\<forall>k < length es. \<not> entry_free (es ! k))"
  by (auto simp: last_free_def find_None_iff)

lemma last_free_Some:
  assumes "last_free es 0 = Some k"
  shows "k < length es" and "entry_free (es ! k)"
proof -
  obtain i where i: "i < length (rev [0..<length es])" "k = rev [0..<length es] ! i" "entry_free (es ! k)"
    using assms unfolding last_free_def find_Some_iff by blast
  have "k \<in> set (rev [0..<length es])" unfolding i(2) by (rule nth_mem [OF i(1)])
  then show "k < length es" by simp
  show "entry_free (es ! k)" by (rule i(3))
qed

subsection \<open>Properties\<close>

text \<open>
  C24: Searching a directory returns the inode number and slot of the name, or \<open>ENOENT\<close> when no
  entry in use has it, together with a free slot if there is one; it changes nothing.
\<close>

theorem sfs_dir_findname_finds:
  assumes "dir_ok s p sv" and "names_unique (dir_entries s sv)"
  shows "\<exists>r e s'. sfs_dir_findname p name s = (Inr (r, e), s') \<and> dev_step s (blocks_of s) s'
    \<and> (case r of Inl err \<Rightarrow> err = ENOENT \<and> dir_map (dir_entries s sv) name = None
       | Inr (ino, k) \<Rightarrow> dir_map (dir_entries s sv) name = Some ino
           \<and> k < length (dir_entries s sv) \<and> entry_is name (dir_entries s sv ! k))
    \<and> (case e of None \<Rightarrow> \<forall>k < length (dir_entries s sv). \<not> entry_free (dir_entries s sv ! k)
       | Some k \<Rightarrow> k < length (dir_entries s sv) \<and> entry_free (dir_entries s sv ! k))"
proof -
  let ?es = "dir_entries s sv"
  obtain s' where f: "sfs_dir_findname p name s =
      (Inr (case find_entry name ?es 0 of None \<Rightarrow> Inl ENOENT | Some x \<Rightarrow> Inr x, last_free ?es 0), s')"
    "dev_step s (blocks_of s) s'"
    using findname_ok [OF assms] by blast
  have "case find_entry name ?es 0 of None \<Rightarrow> dir_map ?es name = None
      | Some (ino, k) \<Rightarrow> dir_map ?es name = Some ino \<and> k < length ?es \<and> entry_is name (?es ! k)"
    using find_entry_Some [of name ?es 0] by (auto simp: dir_map_def split: option.split)
  moreover have "case last_free ?es 0 of None \<Rightarrow> \<forall>k < length ?es. \<not> entry_free (?es ! k)
      | Some k \<Rightarrow> k < length ?es \<and> entry_free (?es ! k)"
    using last_free_None [of ?es] last_free_Some [of ?es] by (simp split: option.split)
  ultimately show ?thesis using f
    by (intro exI [of _ "case find_entry name ?es 0 of None \<Rightarrow> Inl ENOENT | Some x \<Rightarrow> Inr x"]
        exI [of _ "last_free ?es 0"] exI [of _ s']) (auto split: option.splits)
qed

text \<open>What the directory is after an operation on it that succeeded.\<close>

definition dir_is :: "sfs_fs \<Rightarrow> nat \<Rightarrow> (u8 list \<Rightarrow> u32 option) \<Rightarrow> sfs_fs \<Rightarrow> bool" where
  "dir_is s p m s' \<longleftrightarrow> (\<exists>sv'. dir_ok s' p sv' \<and> names_unique (dir_entries s' sv')
     \<and> dir_map (dir_entries s' sv') = m \<and> biglock_depth s' = biglock_depth s \<and> in_use s \<subseteq> in_use s')"

lemma dir_is_same:
  assumes "dir_ok s p sv" and "names_unique (dir_entries s sv)" and "dev_step s0 (blocks_of s0) s" and "dev_step s (blocks_of s) s'"
  shows "dir_is s0 p (dir_map (dir_entries s sv)) s'"
proof -
  note d = dev_step_dir [OF assms(4)]
  have "sans_device s' = sans_device s0" using assms(3,4) by (simp add: dev_step_def)
  from sans_device_fields [OF this] d assms(1,2) show ?thesis
    unfolding dir_is_def by (intro exI [of _ sv]) simp
qed

text \<open>
  C1: Linking a name into a directory fails with \<open>EEXIST\<close> when the name is there and with
  \<open>ENAMETOOLONG\<close> when it does not fit, both without a change; else it adds exactly the pair of the
  name and the inode number to the map the directory stands for, or fails with \<open>ENOSPC\<close> and
  leaves the map as it was. Names stay unique.
\<close>

theorem sfs_dir_link_adds:
  assumes "dir_ok s p sv" and "names_unique (dir_entries s sv)" and "0 \<notin> set name" and "ino \<noteq> SFS_NOINO"
    and "length (dir_entries s sv) < 1144"
  shows "\<exists>r s'. sfs_dir_link p name ino s = (r, s') \<and>
    (case r of
       Inl e \<Rightarrow> dir_is s p (dir_map (dir_entries s sv)) s'
         \<and> e = (if dir_map (dir_entries s sv) name \<noteq> None then EEXIST
                else if SFS_NAMELEN \<le> length name then ENAMETOOLONG else ENOSPC)
     | Inr k \<Rightarrow> dir_map (dir_entries s sv) name = None \<and> length name < SFS_NAMELEN
         \<and> dir_is s p ((dir_map (dir_entries s sv))(name \<mapsto> ino)) s')"
proof -
  let ?es = "dir_entries s sv"
  obtain s1 where f: "sfs_dir_findname p name s =
      (Inr (case find_entry name ?es 0 of None \<Rightarrow> Inl ENOENT | Some x \<Rightarrow> Inr x, last_free ?es 0), s1)"
    and st: "dev_step s (blocks_of s) s1"
    using findname_ok [OF assms(1,2)] by blast
  note d = dev_step_dir [OF st]
  have s1: "dir_ok s1 p sv" "dir_entries s1 sv = ?es" using d assms(1) by simp_all
  have refl1: "dev_step s1 (blocks_of s1) s1" using st by (simp add: dev_step_def)
  have same: "dir_is s p (dir_map ?es) s1"
    using dir_is_same [OF s1(1) _ st refl1] assms(2) s1(2) by simp
  show ?thesis
  proof (cases "dir_map ?es name = None \<and> length name < SFS_NAMELEN")
    case False
    then have "sfs_dir_link p name ino s =
        (Inl (if dir_map ?es name \<noteq> None then EEXIST else ENAMETOOLONG), s1)"
      using f by (auto simp: sfs_dir_link_def kmonad_defs dir_map_def split: option.split)
    with same False show ?thesis by auto
  next
    case True
    define k where "k = (case last_free ?es 0 of None \<Rightarrow> length ?es | Some e \<Rightarrow> e)"
    have k: "k \<le> length ?es" "k < 1144" "k < length ?es \<Longrightarrow> entry_free (?es ! k)"
      using last_free_Some [of ?es] assms(5) by (auto simp: k_def split: option.splits)
    have nm: "name_ok name" using True assms(3) by (simp add: name_ok_def)
    note e = new_entry_ok [OF nm assms(4)]
    have k1: "k \<le> length (dir_entries s1 sv)" using k(1) s1(2) by simp
    obtain r s' sv' where w: "sfs_writedir p k (new_entry name ino) s1 = (r, s')" "dir_ok s' p sv'"
      "case r of Inl err \<Rightarrow> err = ENOSPC \<and> written s1 p sv (64 * k) [] s' sv' \<and> dir_entries s' sv' = ?es
       | Inr _ \<Rightarrow> written s1 p sv (64 * k) (encode_direntry (new_entry name ino)) s' sv'
           \<and> dir_entries s' sv' = put_entry ?es k (new_entry name ino)"
      using writedir_ok [OF s1(1) k1 k(2) e(2)] unfolding s1(2) by blast
    have sd: "biglock_depth s1 = biglock_depth s" "in_use s1 = in_use s"
      using st sans_device_fields [of s1 s] by (simp_all add: dev_step_def)
    have sl: "(case last_free ?es 0 of Some e \<Rightarrow> kreturn e | None \<Rightarrow> sfs_dir_nentries p) s1 = (Inr k, s1)"
      using nentries_ok [OF s1(1)] s1(2) by (simp add: k_def kreturn_def split: option.split)
    have "find_entry name ?es 0 = None" using True by (simp add: dir_map_def)
    then have "sfs_dir_link p name ino s = kbind (sfs_writedir p k (new_entry name ino)) (\<lambda>_. kreturn k) s1"
      using f sl True by (simp add: sfs_dir_link_def kbind_def)
    then have run: "sfs_dir_link p name ino s = (map_sum id (\<lambda>_. k) r, s')"
      using w(1) by (cases r) (simp_all add: kbind_def kreturn_def)
    note pn = put_new_entry [OF assms(2) k(1,3) conjunct1 [OF True] e(1)]
    show ?thesis
    proof (cases r)
      case (Inl err)
      then have "dir_is s p (dir_map ?es) s'"
        using w sd assms(2) unfolding dir_is_def by (intro exI [of _ sv']) (simp add: written_def)
      with run Inl w(3) True show ?thesis by simp
    next
      case (Inr u)
      then have "dir_is s p ((dir_map ?es)(name \<mapsto> ino)) s'"
        using w sd pn e(3) unfolding dir_is_def by (intro exI [of _ sv']) (simp add: written_def)
      with run Inr True show ?thesis by simp
    qed
  qed
qed


text \<open>A volume with a directory of one entry, the name \<^verbatim>\<open>a\<close> for inode 6, in block 2.\<close>

definition example_dinode :: sfs_dinode where
  "example_dinode = \<lparr>sfi_size = 64, sfi_type = SFS_TYPE_DIR, sfi_linkcount = 1,
     sfi_direct = 2 # replicate 14 0, sfi_indirect = 0, sfi_waste = replicate 110 0\<rparr>"

definition example_dsv :: sfs_vnode where
  "example_dsv = example_sv\<lparr>sv_i := example_dinode\<rparr>"

definition example_dir :: sfs_fs where
  "example_dir = example_fs\<lparr>sfs_mem := [200 \<mapsto> example_dsv],
     sfs_device := (sfs_device example_fs)\<lparr>lh_disk :=
       (replicate 8 (replicate 512 0))[2 := encode_direntry (new_entry [97] 6) @ replicate 448 0]\<rparr>\<rparr>"

lemma example_entry: "direntry_wf (new_entry [97] 6)" "entry_is [97] (new_entry [97] 6)" "sfd_ino (new_entry [97] 6) = 6"
  "length (encode_direntry (new_entry [97] 6)) = 64"
proof -
  have "name_ok [97]" by (simp add: name_ok_def)
  from new_entry_ok [OF this, of 6]
  show "direntry_wf (new_entry [97] 6)" "entry_is [97] (new_entry [97] 6)" "sfd_ino (new_entry [97] 6) = 6"
    by (simp_all add: SFS_NOINO_def)
  then show "length (encode_direntry (new_entry [97] 6)) = 64" by (intro encode_direntry_length)
qed

lemma example_dir_slots: "slots example_dir example_dinode = 2 # replicate 143 0"
proof -
  have "indirect_words example_dir example_dinode = replicate 128 0" by (simp add: indirect_words_def example_dinode_def)
  moreover have "(replicate 143 0 :: u32 list) = replicate 14 0 @ 0 # replicate 128 0"
    using replicate_add [of 14 129 "0 :: u32"] replicate_Suc [of 128 "0 :: u32"] by simp
  ultimately show ?thesis by (simp add: slots_def) (simp add: example_dinode_def)
qed

lemma example_dir_ok: "dir_ok example_dir 200 example_dsv"
proof -
  have "dev_wf (sfs_device example_dir)"
    using example_entry(4) by (auto simp: example_dir_def dev_wf_def dest!: set_update_subset_insert [THEN subsetD])
  then have h: "vol_healthy example_dir"
    using example_fs_healthy by (simp add: vol_healthy_def vol_ok_def example_dir_def nblocks_def in_use_def)
  have iu: "in_use example_dir = in_use example_fs" "nblocks example_dir = 8"
    by (simp_all add: example_dir_def in_use_def nblocks_def)
  have "mapped example_dir example_dinode = [2]" by (simp add: mapped_def example_dir_slots)
  then have "inode_ok example_dir example_dinode"
    by (simp add: inode_ok_def iu example_fs_in_use) (simp add: dinode_wf_def indirect_words_def example_dinode_def)
  with h show ?thesis
    by (simp add: dir_ok_def dir_size_def example_dir_def example_dsv_def) (simp add: example_dinode_def max_blocks_def)
qed

lemma example_dir_entries: "dir_entries example_dir example_dsv = [new_entry [97] 6]"
proof -
  have ok: "vol_healthy example_dir" "inode_ok example_dir example_dinode"
    using example_dir_ok by (simp_all add: dir_ok_def example_dsv_def)
  have "file_block example_dir example_dinode 0 = 2"
    by (simp add: file_block_def max_blocks_def slot_of_def example_dir_slots)
  then have "file_bytes example_dir example_dinode 0 64 = encode_direntry (new_entry [97] 6)"
    using example_entry(4) file_bytes_block [OF ok, of 0 64]
    by (simp add: file_data_def slice_at_def) (simp add: example_dir_def blocks_of_def)
  then have "dir_entry example_dir example_dsv 0 = new_entry [97] 6"
    using example_entry(1) by (simp add: dir_entry_def example_dsv_def decode_encode_direntry)
  moreover have "dir_size example_dsv div 64 = 1" by (simp add: dir_size_def example_dsv_def example_dinode_def)
  ultimately show ?thesis by (simp add: dir_entries_def)
qed

lemma example_dir_unique: "names_unique (dir_entries example_dir example_dsv)"
  by (simp add: names_unique_def example_dir_entries)

lemma example_dir_map: "dir_map (dir_entries example_dir example_dsv) = [[97] \<mapsto> 6]"
proof (rule map_eqI)
  fix n x
  show "dir_map (dir_entries example_dir example_dsv) n = Some x \<longleftrightarrow> [[97] \<mapsto> 6] n = Some x"
    using example_entry(2,3) unfolding dir_map_Some [OF example_dir_unique]
    by (auto simp: example_dir_entries entry_is_def)
qed

theorem sfs_dir_findname_finds_witness:
  "\<exists>e s'. sfs_dir_findname 200 [97] example_dir = (Inr (Inr (6, 0), e), s')"
proof -
  obtain r e s' where f: "sfs_dir_findname 200 [97] example_dir = (Inr (r, e), s')"
    "case r of Inl err \<Rightarrow> err = ENOENT \<and> dir_map (dir_entries example_dir example_dsv) [97] = None
       | Inr (ino, k) \<Rightarrow> dir_map (dir_entries example_dir example_dsv) [97] = Some ino
           \<and> k < length (dir_entries example_dir example_dsv) \<and> entry_is [97] (dir_entries example_dir example_dsv ! k)"
    using sfs_dir_findname_finds [OF example_dir_ok example_dir_unique, of "[97]"] by blast
  then have "r = Inr (6, 0)"
    by (cases r) (auto simp: example_dir_map, auto simp: example_dir_entries)
  with f(1) show ?thesis by blast
qed

theorem sfs_dir_link_adds_witness:
  "\<exists>s'. sfs_dir_link 200 [97] 7 example_dir = (Inl EEXIST, s') \<and> dir_is example_dir 200 [[97] \<mapsto> 6] s'"
proof -
  have "0 \<notin> set [97 :: u8]" "7 \<noteq> SFS_NOINO" "length (dir_entries example_dir example_dsv) < 1144"
    by (simp_all add: SFS_NOINO_def example_dir_entries)
  from sfs_dir_link_adds [OF example_dir_ok example_dir_unique this, unfolded example_dir_map] obtain r s' where
    "sfs_dir_link 200 [97] 7 example_dir = (r, s')"
    "case r of
       Inl e \<Rightarrow> dir_is example_dir 200 [[97] \<mapsto> 6] s'
         \<and> e = (if [[97 :: u8] \<mapsto> 6 :: u32] [97] \<noteq> None then EEXIST
                else if SFS_NAMELEN \<le> length [97 :: u8] then ENAMETOOLONG else ENOSPC)
     | Inr k \<Rightarrow> [[97 :: u8] \<mapsto> 6 :: u32] [97] = None \<and> length [97 :: u8] < SFS_NAMELEN
         \<and> dir_is example_dir 200 ([[97] \<mapsto> 6, [97] \<mapsto> 7]) s'"
    by blast
  then show ?thesis by (cases r) auto
qed


end
