(* ===== verification/SfsInode.thy ===== *)
theory SfsInode
  imports SfsDir
begin

text \<open>
  The life of vnodes: \<^verbatim>\<open>kern/vfs/vnode.c\<close> and \<^verbatim>\<open>kern/fs/sfs/sfs_inode.c\<close>, and \<open>sfs_lookonce\<close> of
  \<^verbatim>\<open>sfs_dir.c\<close>. The vnode table \<open>sfs_vnodes\<close> is a list of addresses into \<open>sfs_mem\<close>; the flags of
  \<open>sfs_kmalloc\<close> say which of the coming allocations succeed.
\<close>

subsection \<open>Memory\<close>

definition kmalloc_sv :: "(sfs_fs, nat) kernel" where
  "kmalloc_sv s =
     (case sfs_kmalloc s of
        False # fs \<Rightarrow> (Inl ENOMEM, s\<lparr>sfs_kmalloc := fs\<rparr>)
      | fs \<Rightarrow> (Inr (sfs_next s), s\<lparr>sfs_kmalloc := tl fs, sfs_next := Suc (sfs_next s)\<rparr>))"

definition kfree_sv :: "nat \<Rightarrow> (sfs_fs, unit) kernel" where
  "kfree_sv p = kmodify (\<lambda>s. s\<lparr>sfs_mem := (sfs_mem s)(p := None)\<rparr>)"

text \<open>\<open>vnodearray_add\<close>, which may have to grow the array.\<close>

definition vnodes_add :: "nat \<Rightarrow> (sfs_fs, unit) kernel" where
  "vnodes_add p s =
     (case sfs_kmalloc s of
        False # fs \<Rightarrow> (Inl ENOMEM, s\<lparr>sfs_kmalloc := fs\<rparr>)
      | fs \<Rightarrow> (Inr (), s\<lparr>sfs_kmalloc := tl fs, sfs_vnodes := sfs_vnodes s @ [p]\<rparr>))"

text \<open>Releasing the big lock on the way out with an error.\<close>

definition release_fail :: "error \<Rightarrow> (sfs_fs, 'a) kernel" where
  "release_fail e = kbind vfs_biglock_release (\<lambda>_. kfail e)"

definition release_return :: "'a \<Rightarrow> (sfs_fs, 'a) kernel" where
  "release_return x = kbind vfs_biglock_release (\<lambda>_. kreturn x)"

subsection \<open>vnode.c\<close>

text \<open>\<open>vnode_init\<close>: the vnode part of a fresh \<open>struct sfs_vnode\<close>.\<close>

definition vnode_init :: "bool \<Rightarrow> sfs_vnode \<Rightarrow> sfs_vnode" where
  "vnode_init dirops sv = sv\<lparr>vn_dirops := dirops, vn_refcount := 1, vn_opencount := 0\<rparr>"

definition vnode_cleanup :: "nat \<Rightarrow> (sfs_fs, unit) kernel" where
  "vnode_cleanup p =
     kbind (get_sv p) (\<lambda>sv.
     kbind (kassert (vn_refcount sv = 1)) (\<lambda>_.
     kbind (kassert (vn_opencount sv = 0)) (\<lambda>_.
     upd_sv p (\<lambda>sv. sv\<lparr>vn_refcount := 0, vn_opencount := 0\<rparr>))))"

definition vnode_incref :: "nat \<Rightarrow> (sfs_fs, unit) kernel" where
  "vnode_incref p =
     kbind vfs_biglock_acquire (\<lambda>_.
     kbind (upd_sv p (\<lambda>sv. sv\<lparr>vn_refcount := vn_refcount sv + 1\<rparr>)) (\<lambda>_.
     vfs_biglock_release))"

definition vnode_check :: "bool \<Rightarrow> nat \<Rightarrow> (sfs_fs, unit) kernel" where
  "vnode_check reclaim p =
     kbind vfs_biglock_acquire (\<lambda>_.
     kbind (get_sv p) (\<lambda>sv.
     if vn_refcount sv < 0 then kfail PANIC
     else if vn_refcount sv = 0 \<and> \<not> reclaim then kfail PANIC
     else if vn_opencount sv < 0 then kfail PANIC
     else vfs_biglock_release))"

subsection \<open>sfs_inode.c\<close>

definition sfs_sync_inode :: "nat \<Rightarrow> (sfs_fs, unit) kernel" where
  "sfs_sync_inode p =
     kbind (get_sv p) (\<lambda>sv.
     if sv_dirty sv then
       kbind (sfs_writeblock (sv_ino sv) (encode_dinode (sv_i sv))) (\<lambda>_.
       upd_sv p (\<lambda>sv. sv\<lparr>sv_dirty := False\<rparr>))
     else kreturn ())"

text \<open>The search of \<open>sfs_reclaim\<close> in the vnode table.\<close>

definition vnodes_index :: "nat \<Rightarrow> nat list \<Rightarrow> nat option" where
  "vnodes_index p vs = (case dropWhile (\<lambda>q. q \<noteq> p) vs of [] \<Rightarrow> None | _ \<Rightarrow> Some (length (takeWhile (\<lambda>q. q \<noteq> p) vs)))"

definition vnodes_remove :: "nat \<Rightarrow> (sfs_fs, unit) kernel" where
  "vnodes_remove p s =
     (case vnodes_index p (sfs_vnodes s) of
        None \<Rightarrow> (Inl PANIC, s)
      | Some ix \<Rightarrow> (Inr (), s\<lparr>sfs_vnodes := take ix (sfs_vnodes s) @ drop (Suc ix) (sfs_vnodes s)\<rparr>))"

definition sfs_reclaim :: "nat \<Rightarrow> (sfs_fs, unit) kernel" where
  "sfs_reclaim p =
     kbind vfs_biglock_acquire (\<lambda>_.
     kbind (get_sv p) (\<lambda>sv.
     if vn_refcount sv \<noteq> 1 then
       kbind (kassert (vn_refcount sv > 1)) (\<lambda>_.
       kbind (upd_sv p (\<lambda>sv. sv\<lparr>vn_refcount := vn_refcount sv - 1\<rparr>)) (\<lambda>_.
       release_fail EBUSY))
     else
       kbind (if sfi_linkcount (sv_i sv) = 0 then ktry (sfs_itrunc p 0) else kreturn (Inr ())) (\<lambda>result.
       case result of
         Inl e \<Rightarrow> release_fail e
       | Inr _ \<Rightarrow>
           kbind (ktry (sfs_sync_inode p)) (\<lambda>result.
           case result of
             Inl e \<Rightarrow> release_fail e
           | Inr _ \<Rightarrow>
               kbind (if sfi_linkcount (sv_i sv) = 0 then sfs_bfree (sv_ino sv) else kreturn ()) (\<lambda>_.
               kbind (vnodes_remove p) (\<lambda>_.
               kbind (vnode_cleanup p) (\<lambda>_.
               kbind vfs_biglock_release (\<lambda>_.
               kfree_sv p))))))))"

definition vnode_decref :: "nat \<Rightarrow> (sfs_fs, unit) kernel" where
  "vnode_decref p =
     kbind vfs_biglock_acquire (\<lambda>_.
     kbind (get_sv p) (\<lambda>sv.
     kbind (kassert (vn_refcount sv > 0)) (\<lambda>_.
     kbind (if vn_refcount sv > 1 then upd_sv p (\<lambda>sv. sv\<lparr>vn_refcount := vn_refcount sv - 1\<rparr>)
            else kbind (vnode_check True p) (\<lambda>_. kbind (ktry (sfs_reclaim p)) (\<lambda>_. kreturn ()))) (\<lambda>_.
     vfs_biglock_release))))"

text \<open>The search of \<open>sfs_loadvnode\<close> in the vnode table.\<close>

fun loadvnode_search :: "u32 \<Rightarrow> u16 \<Rightarrow> nat list \<Rightarrow> (sfs_fs, nat option) kernel" where
  "loadvnode_search ino forcetype [] = kreturn None"
| "loadvnode_search ino forcetype (v # vs) =
     kbind (get_sv v) (\<lambda>sv.
     kbind (sfs_bused (sv_ino sv)) (\<lambda>b.
     if \<not> b then kfail PANIC
     else if sv_ino sv = ino then
       kbind (kassert (forcetype = SFS_TYPE_INVAL)) (\<lambda>_.
       kbind (vnode_incref v) (\<lambda>_. kreturn (Some v)))
     else loadvnode_search ino forcetype vs))"

definition sfs_loadvnode :: "u32 \<Rightarrow> u16 \<Rightarrow> (sfs_fs, nat) kernel" where
  "sfs_loadvnode ino forcetype =
     kbind (kget sfs_vnodes) (\<lambda>vs.
     kbind (loadvnode_search ino forcetype vs) (\<lambda>found.
     case found of
       Some v \<Rightarrow> kreturn v
     | None \<Rightarrow>
         kbind kmalloc_sv (\<lambda>p.
         kbind (sfs_bused ino) (\<lambda>b.
         if \<not> b then kfail PANIC
         else
           kbind (sfs_readblock ino SFS_BLOCKSIZE) (\<lambda>data.
           let i = decode_dinode data in
           kbind (kassert (forcetype = SFS_TYPE_INVAL \<or> sfi_type i = SFS_TYPE_INVAL)) (\<lambda>_.
           let i' = (if forcetype \<noteq> SFS_TYPE_INVAL then i\<lparr>sfi_type := forcetype\<rparr> else i);
               dirty = (forcetype \<noteq> SFS_TYPE_INVAL)
           in
           if sfi_type i' = SFS_TYPE_FILE \<or> sfi_type i' = SFS_TYPE_DIR then
             let sv = vnode_init (sfi_type i' = SFS_TYPE_DIR)
                   \<lparr>sv_i = i', sv_ino = ino, sv_dirty = dirty, vn_refcount = 0, vn_opencount = 0, vn_dirops = False\<rparr>
             in
             kbind (kmodify (\<lambda>s. s\<lparr>sfs_mem := (sfs_mem s)(p := Some sv)\<rparr>)) (\<lambda>_.
             kbind (ktry (vnodes_add p)) (\<lambda>result.
             case result of
               Inl e \<Rightarrow> kbind (vnode_cleanup p) (\<lambda>_. kbind (kfree_sv p) (\<lambda>_. kfail e))
             | Inr _ \<Rightarrow> kreturn p))
           else kfail PANIC))))))"

definition sfs_makeobj :: "u16 \<Rightarrow> (sfs_fs, nat) kernel" where
  "sfs_makeobj type =
     kbind sfs_balloc (\<lambda>ino.
     kbind (ktry (sfs_loadvnode ino type)) (\<lambda>result.
     case result of
       Inl e \<Rightarrow> kbind (sfs_bfree ino) (\<lambda>_. kfail e)
     | Inr p \<Rightarrow> kreturn p))"

definition sfs_getroot :: "(sfs_fs, nat) kernel" where
  "sfs_getroot =
     kbind vfs_biglock_acquire (\<lambda>_.
     kbind (ktry (sfs_loadvnode SFS_ROOTDIR_INO SFS_TYPE_INVAL)) (\<lambda>result.
     case result of
       Inl e \<Rightarrow> release_fail e
     | Inr p \<Rightarrow>
         kbind (get_sv p) (\<lambda>sv.
         if sfi_type (sv_i sv) \<noteq> SFS_TYPE_DIR then release_fail EINVAL
         else release_return p)))"

subsection \<open>sfs_lookonce\<close>

definition sfs_lookonce :: "nat \<Rightarrow> u8 list \<Rightarrow> (sfs_fs, nat \<times> nat) kernel" where
  "sfs_lookonce p name =
     kbind (sfs_dir_findname p name) (\<lambda>(r, _).
     case r of
       Inl e \<Rightarrow> kfail e
     | Inr (ino, slot) \<Rightarrow>
         kbind (sfs_loadvnode ino SFS_TYPE_INVAL) (\<lambda>q.
         kbind (get_sv q) (\<lambda>sv.
         if sfi_linkcount (sv_i sv) = 0 then kfail PANIC else kreturn (q, slot))))"

end
