(* ===== verification/SfsVnops.thy ===== *)
theory SfsVnops
  imports SfsInode
begin

text \<open>
  The vnode operations (\<^verbatim>\<open>kern/fs/sfs/sfs_vnops.c\<close>) and the volume operations
  (\<^verbatim>\<open>kern/fs/sfs/sfs_fsops.c\<close>) of SFS. A vnode is the address of its \<open>struct sfs_vnode\<close>; a
  pointer handed back is a value of the result.
\<close>

subsection \<open>Constants of fcntl.h and stattypes.h\<close>

definition O_RDONLY :: u32 where "O_RDONLY = 0"
definition O_WRONLY :: u32 where "O_WRONLY = 1"
definition O_RDWR :: u32 where "O_RDWR = 2"
definition O_CREAT :: u32 where "O_CREAT = 4"
definition O_EXCL :: u32 where "O_EXCL = 8"
definition O_TRUNC :: u32 where "O_TRUNC = 16"
definition O_APPEND :: u32 where "O_APPEND = 32"
definition O_ACCMODE :: u32 where "O_ACCMODE = 3"

definition S_IFREG :: u32 where "S_IFREG = 0x1000"
definition S_IFDIR :: u32 where "S_IFDIR = 0x2000"

record stat =
  st_mode :: u32
  st_size :: int
  st_nlink :: u16
  st_blocks :: u32

subsection \<open>sfs_vnops.c\<close>

definition sfs_eachopen :: "nat \<Rightarrow> u32 \<Rightarrow> (sfs_fs, unit) kernel" where
  "sfs_eachopen v openflags = kreturn ()"

definition sfs_eachopendir :: "nat \<Rightarrow> u32 \<Rightarrow> (sfs_fs, unit) kernel" where
  "sfs_eachopendir v openflags =
     (if openflags AND O_ACCMODE \<noteq> O_RDONLY then kfail EISDIR
      else if openflags AND O_APPEND \<noteq> 0 then kfail EISDIR
      else kreturn ())"

text \<open>The result of a call after the big lock is released.\<close>

definition unlocked :: "'a result \<Rightarrow> (sfs_fs, 'a) kernel" where
  "unlocked result = kbind vfs_biglock_release (\<lambda>_. case result of Inl e \<Rightarrow> kfail e | Inr x \<Rightarrow> kreturn x)"

definition sfs_read :: "nat \<Rightarrow> (sfs_fs \<times> uio, unit) kernel" where
  "sfs_read v =
     kbind the_uio (\<lambda>u.
     kbind (kassert (uio_rw u = UIO_READ)) (\<lambda>_.
     kbind (on_fs vfs_biglock_acquire) (\<lambda>_.
     kbind (ktry (sfs_io v)) (\<lambda>result.
     on_fs (unlocked result)))))"

definition sfs_write :: "nat \<Rightarrow> (sfs_fs \<times> uio, unit) kernel" where
  "sfs_write v =
     kbind the_uio (\<lambda>u.
     kbind (kassert (uio_rw u = UIO_WRITE)) (\<lambda>_.
     kbind (on_fs vfs_biglock_acquire) (\<lambda>_.
     kbind (ktry (sfs_io v)) (\<lambda>result.
     on_fs (unlocked result)))))"

definition sfs_ioctl :: "nat \<Rightarrow> int \<Rightarrow> u32 \<Rightarrow> (sfs_fs, unit) kernel" where
  "sfs_ioctl v oper data = kfail EINVAL"

definition sfs_gettype :: "nat \<Rightarrow> (sfs_fs, u32) kernel" where
  "sfs_gettype v =
     kbind vfs_biglock_acquire (\<lambda>_.
     kbind (get_sv v) (\<lambda>sv.
     if sfi_type (sv_i sv) = SFS_TYPE_FILE then release_return S_IFREG
     else if sfi_type (sv_i sv) = SFS_TYPE_DIR then release_return S_IFDIR
     else kfail PANIC))"

definition sfs_stat :: "nat \<Rightarrow> (sfs_fs, stat) kernel" where
  "sfs_stat v =
     kbind (kbind (vnode_check False v) (\<lambda>_. sfs_gettype v)) (\<lambda>mode.
     kbind (get_sv v) (\<lambda>sv.
     kreturn \<lparr>st_mode = mode, st_size = int (unat (sfi_size (sv_i sv))),
       st_nlink = sfi_linkcount (sv_i sv), st_blocks = 0\<rparr>))"

definition sfs_isseekable :: "nat \<Rightarrow> bool" where
  "sfs_isseekable v = True"

definition sfs_fsync :: "nat \<Rightarrow> (sfs_fs, unit) kernel" where
  "sfs_fsync v =
     kbind vfs_biglock_acquire (\<lambda>_. kbind (ktry (sfs_sync_inode v)) (\<lambda>result. unlocked result))"

definition sfs_mmap :: "nat \<Rightarrow> (sfs_fs, unit) kernel" where
  "sfs_mmap v = kfail ENOSYS"

definition sfs_truncate :: "nat \<Rightarrow> int \<Rightarrow> (sfs_fs, unit) kernel" where
  "sfs_truncate v len = sfs_itrunc v len"

definition sfs_namefile :: "nat \<Rightarrow> (sfs_fs \<times> uio, unit) kernel" where
  "sfs_namefile v =
     kbind (on_fs (get_sv v)) (\<lambda>sv. kbind (kassert (sv_ino sv = SFS_ROOTDIR_INO)) (\<lambda>_. kreturn ()))"

text \<open>\<open>newguy->sv_i.sfi_linkcount++\<close> and its inverse: a 16-bit counter, and the inode is dirty.\<close>

definition link_inc :: "sfs_dinode \<Rightarrow> sfs_dinode" where
  "link_inc i = i\<lparr>sfi_linkcount := sfi_linkcount i + 1\<rparr>"

definition link_dec :: "sfs_dinode \<Rightarrow> sfs_dinode" where
  "link_dec i = i\<lparr>sfi_linkcount := sfi_linkcount i - 1\<rparr>"

definition sfs_creat :: "nat \<Rightarrow> u8 list \<Rightarrow> bool \<Rightarrow> u32 \<Rightarrow> (sfs_fs, nat) kernel" where
  "sfs_creat v name excl mode =
     kbind vfs_biglock_acquire (\<lambda>_.
     kbind (ktry (sfs_dir_findname v name)) (\<lambda>r.
     case r of
       Inl e \<Rightarrow> release_fail e
     | Inr (Inr (ino, slot), _) \<Rightarrow>
         if excl then release_fail EEXIST
         else kbind (ktry (sfs_loadvnode ino SFS_TYPE_INVAL)) unlocked
     | Inr (Inl _, _) \<Rightarrow>
         kbind (ktry (sfs_makeobj SFS_TYPE_FILE)) (\<lambda>r.
         case r of
           Inl e \<Rightarrow> release_fail e
         | Inr newguy \<Rightarrow>
             kbind (get_sv newguy) (\<lambda>sv.
             kbind (ktry (sfs_dir_link v name (sv_ino sv))) (\<lambda>r.
             case r of
               Inl e \<Rightarrow> kbind (vnode_decref newguy) (\<lambda>_. release_fail e)
             | Inr _ \<Rightarrow>
                 kbind (upd_sv newguy (dirty_inode link_inc)) (\<lambda>_.
                 release_return newguy))))))"

definition sfs_link :: "nat \<Rightarrow> u8 list \<Rightarrow> nat \<Rightarrow> (sfs_fs, unit) kernel" where
  "sfs_link dir name file =
     kbind vfs_biglock_acquire (\<lambda>_.
     kbind (get_sv file) (\<lambda>f.
     if sfi_type (sv_i f) = SFS_TYPE_DIR then release_fail EINVAL
     else
       kbind (ktry (sfs_dir_link dir name (sv_ino f))) (\<lambda>r.
       case r of
         Inl e \<Rightarrow> release_fail e
       | Inr _ \<Rightarrow>
           kbind (upd_sv file (dirty_inode link_inc)) (\<lambda>_.
           release_return ()))))"

definition sfs_remove :: "nat \<Rightarrow> u8 list \<Rightarrow> (sfs_fs, unit) kernel" where
  "sfs_remove dir name =
     kbind vfs_biglock_acquire (\<lambda>_.
     kbind (ktry (sfs_lookonce dir name)) (\<lambda>r.
     case r of
       Inl e \<Rightarrow> release_fail e
     | Inr (victim, slot) \<Rightarrow>
         kbind (ktry (sfs_dir_unlink dir slot)) (\<lambda>result.
         kbind (case result of
                  Inl e \<Rightarrow> kreturn ()
                | Inr _ \<Rightarrow>
                    kbind (get_sv victim) (\<lambda>sv.
                    kbind (kassert (sfi_linkcount (sv_i sv) > 0)) (\<lambda>_.
                    upd_sv victim (dirty_inode link_dec)))) (\<lambda>_.
         kbind (vnode_decref victim) (\<lambda>_.
         unlocked result)))))"

text \<open>The label \<open>puke\<close> of \<open>sfs_rename\<close>: drop the reference and fail with \<open>e\<close>.\<close>

definition rename_puke :: "nat \<Rightarrow> error \<Rightarrow> (sfs_fs, unit) kernel" where
  "rename_puke g1 e = kbind (vnode_decref g1) (\<lambda>_. release_fail e)"

definition sfs_rename :: "nat \<Rightarrow> u8 list \<Rightarrow> nat \<Rightarrow> u8 list \<Rightarrow> (sfs_fs, unit) kernel" where
  "sfs_rename d1 n1 d2 n2 =
     kbind vfs_biglock_acquire (\<lambda>_.
     kbind (kassert (d1 = d2)) (\<lambda>_.
     kbind (get_sv d1) (\<lambda>sv.
     kbind (kassert (sv_ino sv = SFS_ROOTDIR_INO)) (\<lambda>_.
     kbind (ktry (sfs_lookonce d1 n1)) (\<lambda>r.
     case r of
       Inl e \<Rightarrow> release_fail e
     | Inr (g1, slot1) \<Rightarrow>
         kbind (get_sv g1) (\<lambda>g.
         kbind (kassert (sfi_type (sv_i g) = SFS_TYPE_FILE)) (\<lambda>_.
         kbind (ktry (sfs_dir_link d1 n2 (sv_ino g))) (\<lambda>r.
         case r of
           Inl e \<Rightarrow> rename_puke g1 e
         | Inr slot2 \<Rightarrow>
             kbind (upd_sv g1 (dirty_inode link_inc)) (\<lambda>_.
             kbind (ktry (sfs_dir_unlink d1 slot1)) (\<lambda>r.
             case r of
               Inl e \<Rightarrow>
                 kbind (ktry (sfs_dir_unlink d1 slot2)) (\<lambda>result2.
                 case result2 of
                   Inl _ \<Rightarrow> kfail PANIC
                 | Inr _ \<Rightarrow>
                     kbind (upd_sv g1 (\<lambda>sv. sv\<lparr>sv_i := link_dec (sv_i sv)\<rparr>)) (\<lambda>_.
                     rename_puke g1 e))
             | Inr _ \<Rightarrow>
                 kbind (get_sv g1) (\<lambda>g.
                 kbind (kassert (sfi_linkcount (sv_i g) > 0)) (\<lambda>_.
                 kbind (upd_sv g1 (dirty_inode link_dec)) (\<lambda>_.
                 kbind (vnode_decref g1) (\<lambda>_.
                 release_return ()))))))))))))))"

text \<open>\<open>path\<close> is a C string; the result is the directory and the copy in the buffer of \<open>buflen\<close> bytes.\<close>

definition sfs_lookparent :: "nat \<Rightarrow> u8 list \<Rightarrow> nat \<Rightarrow> (sfs_fs, nat \<times> u8 list) kernel" where
  "sfs_lookparent v path buflen =
     kbind vfs_biglock_acquire (\<lambda>_.
     kbind (get_sv v) (\<lambda>sv.
     if sfi_type (sv_i sv) \<noteq> SFS_TYPE_DIR then release_fail ENOTDIR
     else if length path + 1 > buflen then release_fail ENAMETOOLONG
     else kbind (vnode_incref v) (\<lambda>_. release_return (v, path))))"

definition sfs_lookup :: "nat \<Rightarrow> u8 list \<Rightarrow> (sfs_fs, nat) kernel" where
  "sfs_lookup v path =
     kbind vfs_biglock_acquire (\<lambda>_.
     kbind (get_sv v) (\<lambda>sv.
     if sfi_type (sv_i sv) \<noteq> SFS_TYPE_DIR then release_fail ENOTDIR
     else
       kbind (ktry (sfs_lookonce v path)) (\<lambda>r.
       case r of Inl e \<Rightarrow> release_fail e | Inr (final, _) \<Rightarrow> release_return final)))"

subsection \<open>sfs_fsops.c\<close>

definition SFS_FREEMAPBITS :: "u32 \<Rightarrow> u32" where
  "SFS_FREEMAPBITS n = ((n + 4096 - 1) div 4096) * 4096"

definition SFS_FREEMAPBLOCKS :: "u32 \<Rightarrow> u32" where
  "SFS_FREEMAPBLOCKS n = SFS_FREEMAPBITS n div 4096"

text \<open>The loop of \<open>sfs_freemapio\<close> over the blocks of the bitmap from \<open>j\<close> on.\<close>

function freemapio_loop :: "uio_rw \<Rightarrow> nat \<Rightarrow> nat \<Rightarrow> (sfs_fs, unit) kernel" where
  "freemapio_loop rw j n =
     (if j < n then
        kbind (kget (\<lambda>s. bitmap_getdata (sfs_freemap s))) (\<lambda>freemapdata.
        if length freemapdata < j * 512 + 512 then kfail UNDEFINED
        else
          kbind (case rw of
                   UIO_READ \<Rightarrow>
                     kbind (sfs_readblock (SFS_FREEMAP_START + of_nat j) 512) (\<lambda>bs.
                     kmodify (\<lambda>s. s\<lparr>sfs_freemap := (sfs_freemap s)\<lparr>bm_v := overlay (j * 512) bs freemapdata\<rparr>\<rparr>))
                 | UIO_WRITE \<Rightarrow>
                     sfs_writeblock (SFS_FREEMAP_START + of_nat j) (slice_at (j * 512) 512 freemapdata)) (\<lambda>_.
          freemapio_loop rw (Suc j) n))
      else kreturn ())"
  by pat_completeness auto
termination by (relation "measure (\<lambda>(rw, j, n). n - j)") auto

declare freemapio_loop.simps [simp del]

definition sfs_freemapio :: "uio_rw \<Rightarrow> (sfs_fs, unit) kernel" where
  "sfs_freemapio rw =
     kbind (kget (\<lambda>s. SFS_FREEMAPBLOCKS (sb_nblocks (sfs_sb s)))) (\<lambda>freemapblocks.
     freemapio_loop rw 0 (unat freemapblocks))"

text \<open>\<open>sfs_sync_vnodes\<close> ignores what \<open>VOP_FSYNC\<close> returns.\<close>

fun sync_vnodes_loop :: "nat list \<Rightarrow> (sfs_fs, unit) kernel" where
  "sync_vnodes_loop [] = kreturn ()"
| "sync_vnodes_loop (v # vs) =
     kbind (vnode_check False v) (\<lambda>_. kbind (ktry (sfs_fsync v)) (\<lambda>_. sync_vnodes_loop vs))"

definition sfs_sync_vnodes :: "(sfs_fs, unit) kernel" where
  "sfs_sync_vnodes = kbind (kget sfs_vnodes) sync_vnodes_loop"

definition sfs_sync_freemap :: "(sfs_fs, unit) kernel" where
  "sfs_sync_freemap =
     kbind (kget sfs_freemapdirty) (\<lambda>dirty.
     if dirty then
       kbind (sfs_freemapio UIO_WRITE) (\<lambda>_. kmodify (\<lambda>s. s\<lparr>sfs_freemapdirty := False\<rparr>))
     else kreturn ())"

definition sfs_sync_superblock :: "(sfs_fs, unit) kernel" where
  "sfs_sync_superblock =
     kbind (kget sfs_superdirty) (\<lambda>dirty.
     if dirty then
       kbind (kget sfs_sb) (\<lambda>sb.
       kbind (sfs_writeblock SFS_SUPER_BLOCK (encode_super sb)) (\<lambda>_.
       kmodify (\<lambda>s. s\<lparr>sfs_superdirty := False\<rparr>)))
     else kreturn ())"

definition sfs_sync :: "(sfs_fs, unit) kernel" where
  "sfs_sync =
     kbind vfs_biglock_acquire (\<lambda>_.
     kbind (ktry sfs_sync_vnodes) (\<lambda>r.
     case r of
       Inl e \<Rightarrow> release_fail e
     | Inr _ \<Rightarrow>
         kbind (ktry sfs_sync_freemap) (\<lambda>r.
         case r of
           Inl e \<Rightarrow> release_fail e
         | Inr _ \<Rightarrow> kbind (ktry sfs_sync_superblock) unlocked)))"

definition sfs_getvolname :: "(sfs_fs, u8 list) kernel" where
  "sfs_getvolname =
     kbind vfs_biglock_acquire (\<lambda>_.
     kbind (kget (\<lambda>s. cstring (sb_volname (sfs_sb s)))) (\<lambda>ret.
     kbind vfs_biglock_release (\<lambda>_. kreturn ret)))"

text \<open>
  \<open>sfs_unmount\<close>. When it returns without an error the object is gone; the model keeps the state
  for the caller to drop. \<open>vnodearray_destroy\<close> asserts that the table is empty.
\<close>

definition sfs_unmount :: "(sfs_fs, unit) kernel" where
  "sfs_unmount =
     kbind vfs_biglock_acquire (\<lambda>_.
     kbind (kget id) (\<lambda>s.
     if length (sfs_vnodes s) > 0 then release_fail EBUSY
     else
       kbind (kassert (\<not> sfs_superdirty s)) (\<lambda>_.
       kbind (kassert (\<not> sfs_freemapdirty s)) (\<lambda>_.
       vfs_biglock_release))))"

text \<open>
  Mounting. \<open>fs_ok\<close>, \<open>vn_ok\<close>: the allocations of \<open>sfs_fs_create\<close>; \<open>bm_ok\<close>, \<open>bv_ok\<close>: those of
  \<open>bitmap_create\<close>; \<open>depth\<close>: how often the caller holds the big lock.
\<close>

definition sfs_fs_create :: "bool \<Rightarrow> bool \<Rightarrow> device \<Rightarrow> nat \<Rightarrow> bool list \<Rightarrow> sfs_fs option" where
  "sfs_fs_create fs_ok vn_ok dev depth flags =
     (if fs_ok \<and> vn_ok then
        Some \<lparr>sfs_sb = decode_super (replicate SFS_BLOCKSIZE 0), sfs_superdirty = False, sfs_device = dev,
          sfs_vnodes = [], sfs_freemap = \<lparr>nbits = 0, bm_v = []\<rparr>, sfs_freemapdirty = False,
          biglock_depth = depth, sfs_mem = (\<lambda>_. None), sfs_next = 0, sfs_kmalloc = flags\<rparr>
      else None)"

definition sfs_domount ::
  "u32 \<Rightarrow> device \<Rightarrow> bool \<Rightarrow> bool \<Rightarrow> bool \<Rightarrow> bool \<Rightarrow> nat \<Rightarrow> bool list \<Rightarrow> sfs_fs result" where
  "sfs_domount d_blocksize dev fs_ok vn_ok bm_ok bv_ok depth flags =
     (if d_blocksize \<noteq> 512 then Inl ENXIO
      else case sfs_fs_create fs_ok vn_ok dev (Suc depth) flags of
        None \<Rightarrow> Inl ENOMEM
      | Some sfs \<Rightarrow>
          fst (kbind (sfs_readblock SFS_SUPER_BLOCK SFS_BLOCKSIZE) (\<lambda>bs.
               let sb = decode_super bs in
               if sb_magic sb \<noteq> SFS_MAGIC then kfail EINVAL
               else
                 kbind (kmodify (\<lambda>s. s\<lparr>sfs_sb := sb\<lparr>sb_volname := (sb_volname sb)[31 := 0]\<rparr>\<rparr>)) (\<lambda>_.
                 case bitmap_create bm_ok bv_ok (SFS_FREEMAPBITS (sb_nblocks sb)) of
                   Inl e \<Rightarrow> kfail e
                 | Inr None \<Rightarrow> kfail ENOMEM
                 | Inr (Some bm) \<Rightarrow>
                     kbind (kmodify (\<lambda>s. s\<lparr>sfs_freemap := bm\<rparr>)) (\<lambda>_.
                     kbind (sfs_freemapio UIO_READ) (\<lambda>_.
                     kbind vfs_biglock_release (\<lambda>_.
                     kget id))))) sfs))"

end
