(* ===== verification/Ram.thy ===== *)
theory Ram
  imports Prelude
begin

text \<open>
  Physical memory before a VM system exists (\<^verbatim>\<open>kern/arch/mips/vm/ram.c\<close>) and the kernel
  page allocator of dumbvm on top of it (\<^verbatim>\<open>getppages\<close>, \<^verbatim>\<open>alloc_kpages\<close>, \<^verbatim>\<open>free_kpages\<close> of
  \<^verbatim>\<open>kern/arch/mips/vm/dumbvm.c\<close>). The state is the three variables of ram.c; operations are
  defined on every extension of it, so that kmalloc and the address spaces build on them.
  The size of the RAM, read from the bus, is an argument; console output is left out, and an
  operation under \<open>stealmem_lock\<close> is one step. Sizes and addresses are 32 bits wide and wrap.
\<close>

subsection \<open>Addresses (kern/arch/mips/include/vm.h)\<close>

definition PAGE_SIZE :: u32 where "PAGE_SIZE = 4096"
definition PAGE_FRAME :: u32 where "PAGE_FRAME = 0xfffff000"
definition MIPS_KSEG0 :: u32 where "MIPS_KSEG0 = 0x80000000"
definition USERSTACK :: u32 where "USERSTACK = 0x80000000"

definition PADDR_TO_KVADDR :: "paddr \<Rightarrow> vaddr" where
  "PADDR_TO_KVADDR a = a + MIPS_KSEG0"

definition KVADDR_TO_PADDR :: "vaddr \<Rightarrow> paddr" where
  "KVADDR_TO_PADDR a = a - MIPS_KSEG0"

lemmas page_consts = PAGE_SIZE_def PAGE_FRAME_def MIPS_KSEG0_def USERSTACK_def

subsection \<open>The code\<close>

record ram =
  firstfree :: vaddr
  firstpaddr :: paddr
  lastpaddr :: paddr

definition ram_bootstrap :: "u32 \<Rightarrow> ('a ram_scheme, unit) kernel" where
  "ram_bootstrap mainbus_ramsize = kmodify (\<lambda>s.
     let ramsize = mainbus_ramsize;
         ramsize = (if 508 * 1024 * 1024 < ramsize then 508 * 1024 * 1024 else ramsize)
     in s\<lparr>lastpaddr := ramsize, firstpaddr := firstfree s - MIPS_KSEG0\<rparr>)"

definition ram_stealmem :: "u32 \<Rightarrow> ('a ram_scheme, paddr) kernel" where
  "ram_stealmem npages s =
     (let sz = npages * PAGE_SIZE in
      if firstpaddr s + sz > lastpaddr s then (Inr 0, s)
      else (Inr (firstpaddr s), s\<lparr>firstpaddr := firstpaddr s + sz\<rparr>))"

definition ram_getsize :: "('a ram_scheme, paddr \<times> paddr) kernel" where
  "ram_getsize s = (Inr (firstpaddr s, lastpaddr s), s\<lparr>firstpaddr := 0, lastpaddr := 0\<rparr>)"

definition vm_bootstrap :: "('a ram_scheme, unit) kernel" where
  "vm_bootstrap = kreturn ()"

definition getppages :: "u32 \<Rightarrow> ('a ram_scheme, paddr) kernel" where
  "getppages npages = kbind (ram_stealmem npages) kreturn"

definition alloc_kpages :: "u32 \<Rightarrow> ('a ram_scheme, vaddr) kernel" where
  "alloc_kpages npages =
     kbind (getppages npages) (\<lambda>pa.
     if pa = 0 then kreturn 0 else kreturn (PADDR_TO_KVADDR pa))"

definition free_kpages :: "vaddr \<Rightarrow> ('a ram_scheme, unit) kernel" where
  "free_kpages addr = kreturn ()"

definition vm_tlbshootdown_all :: "('a ram_scheme, unit) kernel" where
  "vm_tlbshootdown_all = kfail PANIC"

definition vm_tlbshootdown :: "u32 \<times> u32 \<Rightarrow> ('a ram_scheme, unit) kernel" where
  "vm_tlbshootdown ts = kfail PANIC"

subsection \<open>Page arithmetic\<close>

definition page_aligned :: "u32 \<Rightarrow> bool" where
  "page_aligned a \<longleftrightarrow> a AND PAGE_FRAME = a"

text \<open>The mask as arithmetic: rounding down to a page.\<close>

lemma all_ones: "a AND 0xffffffff = a" for a :: u32
proof -
  have "(0xffffffff :: u32) = -1" by simp
  then show ?thesis by (simp only: and.right_neutral)
qed

lemma page_frame_plus: "(a AND PAGE_FRAME) + (a AND 0xfff) = a"
proof -
  have "a = (a AND PAGE_FRAME) OR (a AND 0xfff)"
    using bit.conj_disj_distrib [of a PAGE_FRAME "0xfff"]
    by (simp add: PAGE_FRAME_def all_ones)
  moreover have "(a AND PAGE_FRAME) AND (a AND 0xfff) = 0"
    by (simp add: PAGE_FRAME_def and.left_commute and.assoc)
  ultimately show ?thesis
    by (simp add: disjunctive_add_eq_or)
qed

lemma and_0xfff: "a AND 0xfff = a mod PAGE_SIZE" for a :: u32
proof -
  have "(0xfff :: u32) = mask 12" "PAGE_SIZE = 2 ^ 12"
    by (simp_all add: mask_eq_exp_minus_1 PAGE_SIZE_def)
  then show ?thesis
    by (simp only: take_bit_eq_mask [symmetric] take_bit_eq_mod)
qed

lemma unat_page_offset: "unat (a mod PAGE_SIZE) = unat a mod 4096"
  by (simp add: PAGE_SIZE_def unat_mod)

lemma unat_page_frame: "unat (a AND PAGE_FRAME) = unat a - unat a mod 4096"
proof -
  have "a AND PAGE_FRAME = a - a mod PAGE_SIZE"
    using page_frame_plus [of a] by (simp add: and_0xfff eq_diff_eq)
  then show ?thesis
    by (simp add: unat_sub_u32 unat_page_offset)
qed

lemma page_aligned_unat: "page_aligned a \<longleftrightarrow> unat a mod 4096 = 0"
proof -
  have "unat a - unat a mod 4096 = unat a \<longleftrightarrow> unat a mod 4096 = 0"
    using mod_less_eq_dividend [of "unat a" 4096] by arith
  then show ?thesis
    by (simp add: page_aligned_def word_unat_eq_iff unat_page_frame)
qed

lemma mod_kseg0: "(x + 2147483648) mod 4096 = x mod (4096 :: nat)"
proof -
  have "(x + 2147483648) mod 4096 = (x + 4096 * 524288) mod (4096 :: nat)" by simp
  also have "\<dots> = x mod 4096" by (rule mod_mult_self2)
  finally show ?thesis .
qed

lemma page_aligned_mod: "page_aligned a \<longleftrightarrow> a mod PAGE_SIZE = 0"
  by (simp add: page_aligned_unat word_unat_eq_iff unat_page_offset)

text \<open>The page of an address given as a page and an offset into it.\<close>

lemma page_plus_offset:
  assumes "page_aligned a" and "unat x < 4096"
  shows "(a + x) AND PAGE_FRAME = a" and "unat (a + x) = unat a + unat x"
    and "(a + x) mod PAGE_SIZE = x"
proof -
  have a: "unat a mod 4096 = 0" using assms(1) by (simp add: page_aligned_unat)
  then obtain m where m: "unat a = 4096 * m" by auto
  have "unat a < 4096 * 1048576" using unat_u32_less [of a] by simp
  then have "unat a + 4096 \<le> 4294967296" using m by simp
  then show sum: "unat (a + x) = unat a + unat x"
    using assms(2) by (intro unat_add_u32) simp
  have md: "(unat a + unat x) mod 4096 = unat x"
    using a assms(2) by (metis add_0 mod_add_left_eq mod_less)
  show "(a + x) AND PAGE_FRAME = a"
    using md by (simp add: word_unat_eq_iff unat_page_frame sum)
  show "(a + x) mod PAGE_SIZE = x"
    using md by (simp add: word_unat_eq_iff unat_page_offset sum)
qed

subsection \<open>What the allocator hands out\<close>

definition ram_ok :: "'a ram_scheme \<Rightarrow> bool" where
  "ram_ok s \<longleftrightarrow> page_aligned (firstpaddr s) \<and> 0 < firstpaddr s
     \<and> unat (lastpaddr s) \<le> 508 * 1024 * 1024 \<and> unat (firstpaddr s) \<le> 508 * 1024 * 1024"

lemma ram_ok_cong:
  "firstpaddr t = firstpaddr s \<Longrightarrow> lastpaddr t = lastpaddr s \<Longrightarrow> ram_ok t = ram_ok s"
  by (simp add: ram_ok_def)

lemma ram_okD:
  assumes "ram_ok s"
  shows "unat (firstpaddr s) mod 4096 = 0" "0 < unat (firstpaddr s)"
    "unat (lastpaddr s) \<le> 532676608" "unat (firstpaddr s) \<le> 532676608"
  using assms by (auto simp: ram_ok_def page_aligned_unat unat_gt_0)

definition exhausted :: "'a ram_scheme \<Rightarrow> bool" where
  "exhausted s \<longleftrightarrow> unat (lastpaddr s) < unat (firstpaddr s) + 4096"

lemma alloc_kpages_eq:
  assumes ok: "ram_ok s" and n: "unat (firstpaddr s) + unat n * 4096 < 4294967296"
  shows "alloc_kpages n s =
    (if unat (firstpaddr s) + unat n * 4096 \<le> unat (lastpaddr s)
     then (Inr (firstpaddr s + MIPS_KSEG0), s\<lparr>firstpaddr := firstpaddr s + n * PAGE_SIZE\<rparr>)
     else (Inr 0, s))"
    and "unat (firstpaddr s + n * PAGE_SIZE) = unat (firstpaddr s) + unat n * 4096"
    and "unat (firstpaddr s + MIPS_KSEG0) = unat (firstpaddr s) + 2147483648"
proof -
  note f = ram_okD [OF ok]
  have sz: "unat (n * PAGE_SIZE) = unat n * 4096"
    using n by (subst unat_mult_u32) (auto simp: PAGE_SIZE_def)
  show sum: "unat (firstpaddr s + n * PAGE_SIZE) = unat (firstpaddr s) + unat n * 4096"
    using n by (subst unat_add_u32) (auto simp: sz)
  show "unat (firstpaddr s + MIPS_KSEG0) = unat (firstpaddr s) + 2147483648"
    using f by (subst unat_add_u32) (auto simp: MIPS_KSEG0_def)
  have "firstpaddr s \<noteq> 0" using f by auto
  then show "alloc_kpages n s =
    (if unat (firstpaddr s) + unat n * 4096 \<le> unat (lastpaddr s)
     then (Inr (firstpaddr s + MIPS_KSEG0), s\<lparr>firstpaddr := firstpaddr s + n * PAGE_SIZE\<rparr>)
     else (Inr 0, s))"
    by (auto simp: alloc_kpages_def getppages_def ram_stealmem_def Let_def kmonad_defs
        PADDR_TO_KVADDR_def word_less_nat_alt sum)
qed

lemma alloc_kpages_ram_ok:
  assumes ok: "ram_ok s" and n: "unat (firstpaddr s) + unat n * 4096 < 4294967296"
    and a: "alloc_kpages n s = (r, s')"
  shows "ram_ok s'" "lastpaddr s' = lastpaddr s"
proof -
  note e = alloc_kpages_eq [OF ok n]
  have *: "ram_ok s' \<and> lastpaddr s' = lastpaddr s"
  proof (cases "unat (firstpaddr s) + unat n * 4096 \<le> unat (lastpaddr s)")
    case True
    then have s': "s' = s\<lparr>firstpaddr := firstpaddr s + n * PAGE_SIZE\<rparr>"
      using a e(1) by simp
    have "(unat (firstpaddr s) + unat n * 4096) mod 4096 = 0"
      using ram_okD(1) [OF ok] by simp
    then have "page_aligned (firstpaddr s')" "0 < unat (firstpaddr s')"
      using s' ram_okD(2) [OF ok] by (simp_all add: page_aligned_unat e(2))
    with True s' ram_okD(3) [OF ok] show ?thesis
      by (simp add: ram_ok_def e(2) word_less_nat_alt)
  next
    case False
    then show ?thesis using a e(1) ok by simp
  qed
  then show "ram_ok s'" "lastpaddr s' = lastpaddr s" by simp_all
qed

lemma ram_bootstrap_ok:
  assumes "page_aligned (firstfree s)" and "2147483648 < unat (firstfree s)"
    and "unat (firstfree s) \<le> 2147483648 + 508 * 1024 * 1024"
    and "ram_bootstrap n s = (r, s')"
  shows "ram_ok s'"
proof -
  have f: "unat (firstfree s - MIPS_KSEG0) = unat (firstfree s) - 2147483648"
    using assms(2) by (subst unat_sub_u32) (auto simp: MIPS_KSEG0_def)
  have "(unat (firstfree s) - 2147483648) mod 4096 = 0"
    using assms(1,2) mod_kseg0 [of "unat (firstfree s) - 2147483648"]
    by (simp add: page_aligned_unat)
  then have "page_aligned (firstfree s - MIPS_KSEG0)"
    by (simp only: page_aligned_unat f)
  moreover have "0 < firstfree s - MIPS_KSEG0"
    using assms(2) by (simp only: word_less_nat_alt f) simp
  moreover have "unat (firstfree s - MIPS_KSEG0) \<le> 508 * 1024 * 1024"
    using assms(3) by (simp only: f)
  moreover define r :: u32 where "r = (if 508 * 1024 * 1024 < n then 508 * 1024 * 1024 else n)"
  then have "unat r \<le> 508 * 1024 * 1024"
    by (simp add: word_less_nat_alt)
  moreover have "s' = s\<lparr>lastpaddr := r, firstpaddr := firstfree s - MIPS_KSEG0\<rparr>"
    using assms(4) by (simp add: ram_bootstrap_def kmodify_def Let_def r_def)
  ultimately show ?thesis
    by (simp add: ram_ok_def)
qed

subsection \<open>Properties\<close>

text \<open>C37: the kernel page allocator hands out fresh pages: as long as the request does not wrap
  around the 32-bit address space, it succeeds exactly when the pages are there, the pages start
  where the last allocation ended, the next one starts behind them, they lie inside the RAM and
  are mapped page-aligned in KSEG0; a request that does not fit changes nothing.\<close>

theorem alloc_kpages_fresh:
  assumes "ram_ok s" and "unat (firstpaddr s) + unat n * 4096 < 4294967296"
  shows "\<exists>va s'. alloc_kpages n s = (Inr va, s') \<and> ram_ok s' \<and> lastpaddr s' = lastpaddr s \<and>
    (if unat (firstpaddr s) + unat n * 4096 \<le> unat (lastpaddr s)
     then unat va = 2147483648 + unat (firstpaddr s) \<and> page_aligned va
       \<and> unat (firstpaddr s') = unat (firstpaddr s) + unat n * 4096
     else va = 0 \<and> s' = s)"
proof -
  note e = alloc_kpages_eq [OF assms]
  have al: "page_aligned (firstpaddr s + MIPS_KSEG0)"
    using ram_okD(1) [OF assms(1)] by (simp only: page_aligned_unat e(3) mod_kseg0)
  show ?thesis
  proof (cases "unat (firstpaddr s) + unat n * 4096 \<le> unat (lastpaddr s)")
    case True
    then have a: "alloc_kpages n s =
        (Inr (firstpaddr s + MIPS_KSEG0), s\<lparr>firstpaddr := firstpaddr s + n * PAGE_SIZE\<rparr>)"
      using e(1) by simp
    show ?thesis
      using alloc_kpages_ram_ok [OF assms a] True al e(2,3) a by simp
  next
    case False
    then show ?thesis using e(1) assms(1) by simp
  qed
qed

definition example_ram :: ram where
  "example_ram = \<lparr>firstfree = 0x80040000, firstpaddr = 0x40000, lastpaddr = 0x80000\<rparr>"

lemma alloc_kpages_fresh_witness:
  "\<exists>va s'. alloc_kpages 3 example_ram = (Inr va, s') \<and> ram_ok s'
     \<and> unat va = 2147483648 + 0x40000 \<and> unat (firstpaddr s') = 0x43000"
  using alloc_kpages_fresh [of example_ram 3]
  by (auto simp: example_ram_def ram_ok_def page_aligned_def PAGE_FRAME_def)

text \<open>C38: a request of 0xfffff pages wraps around the address space instead of being refused: it
  succeeds and moves the first free page one page down, over memory handed out before. The size
  of a program's segment reaches this point unchecked.\<close>

theorem alloc_kpages_wraps:
  assumes "ram_ok s" and "unat (firstpaddr s) \<le> unat (lastpaddr s)"
  shows "\<exists>s'. alloc_kpages 0xfffff s = (Inr (firstpaddr s + MIPS_KSEG0), s')
    \<and> unat (firstpaddr s') = unat (firstpaddr s) - 4096"
proof -
  note f = ram_okD [OF assms(1)]
  have "0x1000 \<le> unat (firstpaddr s)"
    using f(1,2) by (metis mod_less not_less less_irrefl)
  then have le: "PAGE_SIZE \<le> firstpaddr s"
    by (simp add: PAGE_SIZE_def word_le_nat_alt)
  have sz: "firstpaddr s + 0xfffff * PAGE_SIZE = firstpaddr s - PAGE_SIZE"
    by (simp add: PAGE_SIZE_def)
  have u: "unat (firstpaddr s - PAGE_SIZE) = unat (firstpaddr s) - 4096"
    using le by (simp add: unat_sub_u32 word_le_nat_alt PAGE_SIZE_def)
  have "\<not> lastpaddr s < firstpaddr s - PAGE_SIZE"
    using assms(2) u by (simp add: word_less_nat_alt)
  moreover have "firstpaddr s \<noteq> 0"
    using f(2) by auto
  ultimately show ?thesis
    using u by (simp add: alloc_kpages_def getppages_def ram_stealmem_def Let_def sz kmonad_defs
        PADDR_TO_KVADDR_def)
qed

lemma alloc_kpages_wraps_witness:
  "\<exists>s'. alloc_kpages 0xfffff example_ram = (Inr 0x80040000, s') \<and> unat (firstpaddr s') = 0x3f000"
  using alloc_kpages_wraps [of example_ram]
  by (simp add: example_ram_def ram_ok_def page_aligned_def PAGE_FRAME_def MIPS_KSEG0_def)

end
