(* ===== verification/Kmalloc.thy ===== *)
theory Kmalloc
  imports Ram
begin

text \<open>
  The kernel heap (\<^verbatim>\<open>kern/vm/kmalloc.c\<close>), in its default configuration (SLOW, GUARDS and
  LABELS off). Blocks of 16 to 2048 bytes are cut from pages of one size class; the free blocks
  of a page are linked through their first words, and a \<open>pageref\<close> per page holds the head and
  the length of that list. Pagerefs live on pages of their own, 256 on each, with a bitmap of
  the used ones in one of 16 roots.

  Memory: \<open>kmem\<close> holds the 32-bit words of kernel memory by (aligned) address, which is where
  the free lists are; the pagerefs are a typed heap \<open>pagerefs\<close> by their addresses (\<open>heap_ok\<close>
  shows their pages to be disjoint from every other page). \<open>NULL\<close> is 0. A loop over a list of
  pagerefs has \<open>TOTAL_PAGEREFS\<close> steps of fuel, which is enough for every well-formed heap; a
  cyclic list is \<open>UNDEFINED\<close>. A call runs without interference from other CPUs (the code drops
  its spinlock around \<open>alloc_kpages\<close>).
\<close>

subsection \<open>Data\<close>

definition sizes :: "u32 list" where
  "sizes = [16, 32, 64, 128, 256, 512, 1024, 2048]"

abbreviation NSIZES :: nat where "NSIZES \<equiv> 8"

definition LARGEST_SUBPAGE_SIZE :: u32 where "LARGEST_SUBPAGE_SIZE = 2048"
definition INVALID_OFFSET :: u16 where "INVALID_OFFSET = 0xffff"

record pageref =
  next_samesize :: vaddr
  next_all :: vaddr
  pageaddr_and_blocktype :: vaddr
  freelist_offset :: u16
  nfree :: u16

definition PR_PAGEADDR :: "pageref \<Rightarrow> vaddr" where
  "PR_PAGEADDR pr = pageaddr_and_blocktype pr AND PAGE_FRAME"

definition PR_BLOCKTYPE :: "pageref \<Rightarrow> u32" where
  "PR_BLOCKTYPE pr = pageaddr_and_blocktype pr AND NOT PAGE_FRAME"

definition MKPAB :: "vaddr \<Rightarrow> u32 \<Rightarrow> vaddr" where
  "MKPAB pa blk = (pa AND PAGE_FRAME) OR (blk AND NOT PAGE_FRAME)"

abbreviation NPAGEREFS_PER_PAGE :: nat where "NPAGEREFS_PER_PAGE \<equiv> 256"
abbreviation INUSE_WORDS :: nat where "INUSE_WORDS \<equiv> 8"
abbreviation NUM_PAGEREFPAGES :: nat where "NUM_PAGEREFPAGES \<equiv> 16"
definition TOTAL_PAGEREFS :: nat where
  "TOTAL_PAGEREFS = NUM_PAGEREFPAGES * NPAGEREFS_PER_PAGE"

text \<open>\<open>&page->refs[n]\<close>; a \<open>struct pageref\<close> has 16 bytes.\<close>

definition ref_addr :: "vaddr \<Rightarrow> nat \<Rightarrow> vaddr" where
  "ref_addr page n = page + of_nat (16 * n)"

record kheap_root =
  rpage :: vaddr
  pagerefs_inuse :: "u32 list"
  numinuse :: u32

record kheap = ram +
  kmem :: "vaddr \<Rightarrow> u32"
  pagerefs :: "vaddr \<Rightarrow> pageref"
  kheaproots :: "kheap_root list"
  sizebases :: "vaddr list"
  allbase :: vaddr

definition set_word :: "vaddr \<Rightarrow> u32 \<Rightarrow> ('a kheap_scheme, unit) kernel" where
  "set_word a w = kmodify (\<lambda>s. s\<lparr>kmem := (kmem s)(a := w)\<rparr>)"

definition set_pageref :: "vaddr \<Rightarrow> (pageref \<Rightarrow> pageref) \<Rightarrow> ('a kheap_scheme, unit) kernel" where
  "set_pageref p f = kmodify (\<lambda>s. s\<lparr>pagerefs := (pagerefs s)(p := f (pagerefs s p))\<rparr>)"

definition set_root :: "nat \<Rightarrow> (kheap_root \<Rightarrow> kheap_root) \<Rightarrow> ('a kheap_scheme, unit) kernel" where
  "set_root w f = kmodify (\<lambda>s. s\<lparr>kheaproots := (kheaproots s)[w := f (kheaproots s ! w)]\<rparr>)"

text \<open>A counting loop from \<open>i\<close> up to (not including) \<open>n\<close>.\<close>

fun kfor :: "nat list \<Rightarrow> (nat \<Rightarrow> ('s, unit) kernel) \<Rightarrow> ('s, unit) kernel" where
  "kfor [] f = kreturn ()"
| "kfor (i # is) f = kbind (f i) (\<lambda>_. kfor is f)"

definition fill_deadbeef :: "vaddr \<Rightarrow> u32 \<Rightarrow> ('a kheap_scheme, unit) kernel" where
  "fill_deadbeef ptr len =
     kfor [0..<unat (len div 4)] (\<lambda>i. set_word (ptr + 4 * of_nat i) 0xdeadbeef)"

subsection \<open>Page references\<close>

definition allocpagerefpage :: "nat \<Rightarrow> ('a kheap_scheme, unit) kernel" where
  "allocpagerefpage w =
     kbind (kget (\<lambda>s. rpage (kheaproots s ! w))) (\<lambda>pg.
     kbind (kassert (pg = 0)) (\<lambda>_.
     kbind (alloc_kpages 1) (\<lambda>va.
     if va = 0 then kreturn () else
     kbind (kassert (va mod PAGE_SIZE = 0)) (\<lambda>_.
     kbind (kget (\<lambda>s. rpage (kheaproots s ! w))) (\<lambda>pg.
     if pg \<noteq> 0 then
       kbind (free_kpages va) (\<lambda>_.
       kbind (kget (\<lambda>s. rpage (kheaproots s ! w))) (\<lambda>pg. kassert (pg \<noteq> 0)))
     else set_root w (rpage_update (\<lambda>_. va)))))))"

text \<open>The search of one root: the first word that is not full, and its first clear bit.\<close>

definition free_word :: "kheap_root \<Rightarrow> nat option" where
  "free_word root = List.find (\<lambda>i. pagerefs_inuse root ! i \<noteq> 0xffffffff) [0..<INUSE_WORDS]"

definition free_bit :: "u32 \<Rightarrow> nat option" where
  "free_bit w = List.find (\<lambda>j. w AND 2 ^ j = 0) [0..<32]"

fun allocpageref_from :: "nat list \<Rightarrow> ('a kheap_scheme, vaddr) kernel" where
  "allocpageref_from [] = kreturn 0"
| "allocpageref_from (w # ws) =
     kbind (kget (\<lambda>s. kheaproots s ! w)) (\<lambda>root.
     if numinuse root \<ge> of_nat NPAGEREFS_PER_PAGE then allocpageref_from ws else
     case free_word root of
       None \<Rightarrow> allocpageref_from ws
     | Some i \<Rightarrow>
       (case free_bit (pagerefs_inuse root ! i) of
          None \<Rightarrow> kfail PANIC
        | Some j \<Rightarrow>
          kbind (set_root w (\<lambda>r. r\<lparr>pagerefs_inuse :=
              (pagerefs_inuse r)[i := pagerefs_inuse r ! i OR 2 ^ j], numinuse := numinuse r + 1\<rparr>)) (\<lambda>_.
          kbind (if rpage root = 0 then allocpagerefpage w else kreturn ()) (\<lambda>_.
          kbind (kget (\<lambda>s. rpage (kheaproots s ! w))) (\<lambda>pg.
          if pg = 0 then kreturn 0 else kreturn (ref_addr pg (i * 32 + j)))))))"

definition allocpageref :: "('a kheap_scheme, vaddr) kernel" where
  "allocpageref = allocpageref_from [0..<NUM_PAGEREFPAGES]"

text \<open>The pointer difference \<open>p - page->refs\<close>, as an unsigned number.\<close>

definition ref_index :: "vaddr \<Rightarrow> vaddr \<Rightarrow> u32" where
  "ref_index page p = word_of_int (sint (p - page) div 16)"

fun freepageref_from :: "vaddr \<Rightarrow> nat list \<Rightarrow> ('a kheap_scheme, unit) kernel" where
  "freepageref_from p [] = kfail PANIC"
| "freepageref_from p (w # ws) =
     kbind (kget (\<lambda>s. kheaproots s ! w)) (\<lambda>root.
     if rpage root = 0 then
       kbind (kassert (numinuse root = 0)) (\<lambda>_. freepageref_from p ws)
     else
       let j = ref_index (rpage root) p in
       if j < of_nat NPAGEREFS_PER_PAGE then
         let i = unat (j div 32); k = 2 ^ unat (j mod 32) in
         kbind (kassert (pagerefs_inuse root ! i AND k \<noteq> 0)) (\<lambda>_.
         kbind (set_root w (\<lambda>r. r\<lparr>pagerefs_inuse := (pagerefs_inuse r)[i := pagerefs_inuse r ! i AND NOT k]\<rparr>)) (\<lambda>_.
         kbind (kassert (numinuse root > 0)) (\<lambda>_.
         set_root w (numinuse_update (\<lambda>n. n - 1)))))
       else freepageref_from p ws)"

definition freepageref :: "vaddr \<Rightarrow> ('a kheap_scheme, unit) kernel" where
  "freepageref p = freepageref_from p [0..<NUM_PAGEREFPAGES]"

text \<open>The four kinds of \<open>struct pageref **\<close>, what they point to, and \<open>&(*guy)->next\<close>.\<close>

datatype link = SizeBase nat | AllBase | NextSamesize vaddr | NextAll vaddr

fun read_link :: "link \<Rightarrow> 'a kheap_scheme \<Rightarrow> vaddr" where
  "read_link (SizeBase b) s = sizebases s ! b"
| "read_link AllBase s = allbase s"
| "read_link (NextSamesize p) s = next_samesize (pagerefs s p)"
| "read_link (NextAll p) s = next_all (pagerefs s p)"

fun write_link :: "link \<Rightarrow> vaddr \<Rightarrow> ('a kheap_scheme, unit) kernel" where
  "write_link (SizeBase b) v = kmodify (\<lambda>s. s\<lparr>sizebases := (sizebases s)[b := v]\<rparr>)"
| "write_link AllBase v = kmodify (\<lambda>s. s\<lparr>allbase := v\<rparr>)"
| "write_link (NextSamesize p) v = set_pageref p (next_samesize_update (\<lambda>_. v))"
| "write_link (NextAll p) v = set_pageref p (next_all_update (\<lambda>_. v))"

fun step_link :: "link \<Rightarrow> vaddr \<Rightarrow> link" where
  "step_link (SizeBase b) g = NextSamesize g"
| "step_link (NextSamesize p) g = NextSamesize g"
| "step_link AllBase g = NextAll g"
| "step_link (NextAll p) g = NextAll g"

fun unlink :: "nat \<Rightarrow> vaddr \<Rightarrow> link \<Rightarrow> ('a kheap_scheme, unit) kernel" where
  "unlink n pr guy =
     kbind (kget (read_link guy)) (\<lambda>g.
     if g = 0 then kreturn ()
     else if g = pr then kbind (kget (read_link (step_link guy pr))) (write_link guy)
     else case n of 0 \<Rightarrow> kfail UNDEFINED | Suc n \<Rightarrow> unlink n pr (step_link guy g))"

declare unlink.simps [simp del]

definition remove_lists :: "vaddr \<Rightarrow> nat \<Rightarrow> ('a kheap_scheme, unit) kernel" where
  "remove_lists pr blktype =
     kbind (kassert (blktype < NSIZES)) (\<lambda>_.
     kbind (unlink TOTAL_PAGEREFS pr (SizeBase blktype)) (\<lambda>_.
     unlink TOTAL_PAGEREFS pr AllBase))"

subsection \<open>Blocks\<close>

fun blocktype_from :: "u32 \<Rightarrow> nat \<Rightarrow> u32 list \<Rightarrow> nat result" where
  "blocktype_from clientsz i [] = Inl PANIC"
| "blocktype_from clientsz i (z # zs) =
     (if clientsz \<le> z then Inr i else blocktype_from clientsz (Suc i) zs)"

definition blocktype :: "u32 \<Rightarrow> nat result" where
  "blocktype clientsz = blocktype_from clientsz 0 sizes"

text \<open>The loop of \<open>subpage_kmalloc\<close>: the first page of the size class with a free block.\<close>

fun find_page :: "nat \<Rightarrow> nat \<Rightarrow> vaddr \<Rightarrow> ('a kheap_scheme, vaddr) kernel" where
  "find_page n blktype pr =
     (if pr = 0 then kreturn 0 else
      kbind (kget (\<lambda>s. pagerefs s pr)) (\<lambda>r.
      kbind (kassert (PR_BLOCKTYPE r = of_nat blktype)) (\<lambda>_.
      if nfree r > 0 then kreturn pr
      else case n of 0 \<Rightarrow> kfail UNDEFINED | Suc n \<Rightarrow> find_page n blktype (next_samesize r))))"

declare find_page.simps [simp del]

text \<open>The code behind the label \<open>doalloc\<close>.\<close>

definition doalloc :: "vaddr \<Rightarrow> ('a kheap_scheme, vaddr) kernel" where
  "doalloc pr =
     kbind (kget (\<lambda>s. pagerefs s pr)) (\<lambda>r.
     kbind (kassert (ucast (freelist_offset r) < PAGE_SIZE)) (\<lambda>_.
     let prpage = PR_PAGEADDR r; retptr = prpage + ucast (freelist_offset r) in
     kbind (kget (\<lambda>s. kmem s retptr)) (\<lambda>fl.
     kbind (set_pageref pr (nfree_update (\<lambda>n. n - 1))) (\<lambda>_.
     kbind (kget (\<lambda>s. nfree (pagerefs s pr))) (\<lambda>nf.
     kbind (if fl \<noteq> 0 then
              kbind (kassert (nf > 0)) (\<lambda>_.
              kbind (kassert (fl - prpage < PAGE_SIZE)) (\<lambda>_.
              set_pageref pr (freelist_offset_update (\<lambda>_. ucast (fl - prpage)))))
            else
              kbind (kassert (nf = 0)) (\<lambda>_.
              set_pageref pr (freelist_offset_update (\<lambda>_. INVALID_OFFSET)))) (\<lambda>_.
     kreturn retptr))))))"

text \<open>A fresh page is cut into free blocks and put on both lists.\<close>

definition carve_page :: "vaddr \<Rightarrow> vaddr \<Rightarrow> nat \<Rightarrow> ('a kheap_scheme, unit) kernel" where
  "carve_page pr prpage blktype =
     (let sz = sizes ! blktype in
      kbind (set_pageref pr (\<lambda>r. r\<lparr>pageaddr_and_blocktype := MKPAB prpage (of_nat blktype),
        nfree := ucast (PAGE_SIZE div sz)\<rparr>)) (\<lambda>_.
      kbind (set_word prpage 0) (\<lambda>_.
      kbind (kget (\<lambda>s. nfree (pagerefs s pr))) (\<lambda>nf.
      kbind (kfor [1..<unat nf] (\<lambda>i.
        let fl = prpage + of_nat i * sz; nx = prpage + (of_nat i - 1) * sz in
        kbind (set_word fl nx) (\<lambda>_. kassert (fl \<noteq> nx)))) (\<lambda>_.
      let fla = prpage + of_nat (unat nf - 1) * sz in
      kbind (set_pageref pr (freelist_offset_update (\<lambda>_. ucast (fla - prpage)))) (\<lambda>_.
      kbind (kget (\<lambda>s. freelist_offset (pagerefs s pr))) (\<lambda>off.
      kbind (kassert (ucast off = (ucast nf - 1) * sz)) (\<lambda>_.
      kbind (kget (\<lambda>s. sizebases s ! blktype)) (\<lambda>base.
      kbind (set_pageref pr (next_samesize_update (\<lambda>_. base))) (\<lambda>_.
      kbind (kmodify (\<lambda>s. s\<lparr>sizebases := (sizebases s)[blktype := pr]\<rparr>)) (\<lambda>_.
      kbind (kget allbase) (\<lambda>base.
      kbind (set_pageref pr (next_all_update (\<lambda>_. base))) (\<lambda>_.
      kmodify (\<lambda>s. s\<lparr>allbase := pr\<rparr>))))))))))))))"

definition subpage_kmalloc :: "u32 \<Rightarrow> ('a kheap_scheme, vaddr) kernel" where
  "subpage_kmalloc sz =
     (case blocktype sz of
        Inl e \<Rightarrow> kfail e
      | Inr blktype \<Rightarrow>
        kbind (kget (\<lambda>s. sizebases s ! blktype)) (\<lambda>base.
        kbind (find_page TOTAL_PAGEREFS blktype base) (\<lambda>pr.
        if pr \<noteq> 0 then doalloc pr else
        kbind (alloc_kpages 1) (\<lambda>prpage.
        if prpage = 0 then kreturn 0 else
        kbind (kassert (prpage mod PAGE_SIZE = 0)) (\<lambda>_.
        kbind allocpageref (\<lambda>pr.
        if pr = 0 then kbind (free_kpages prpage) (\<lambda>_. kreturn 0) else
        kbind (carve_page pr prpage blktype) (\<lambda>_. doalloc pr)))))))"

text \<open>The loop of \<open>subpage_kfree\<close>: the page that holds an address.\<close>

fun find_owner :: "nat \<Rightarrow> vaddr \<Rightarrow> vaddr \<Rightarrow> ('a kheap_scheme, vaddr) kernel" where
  "find_owner n ptraddr pr =
     (if pr = 0 then kreturn 0 else
      kbind (kget (\<lambda>s. pagerefs s pr)) (\<lambda>r.
      kbind (kassert (PR_BLOCKTYPE r < of_nat NSIZES)) (\<lambda>_.
      if PR_PAGEADDR r \<le> ptraddr \<and> ptraddr < PR_PAGEADDR r + PAGE_SIZE then kreturn pr
      else case n of 0 \<Rightarrow> kfail UNDEFINED | Suc n \<Rightarrow> find_owner n ptraddr (next_all r))))"

declare find_owner.simps [simp del]

text \<open>Returns 0, or -1 when the address is on no page of the subpage allocator.\<close>

definition subpage_kfree :: "vaddr \<Rightarrow> ('a kheap_scheme, int) kernel" where
  "subpage_kfree ptraddr =
     kbind (kget allbase) (\<lambda>base.
     kbind (find_owner TOTAL_PAGEREFS ptraddr base) (\<lambda>pr.
     if pr = 0 then kreturn (-1) else
     kbind (kget (\<lambda>s. pagerefs s pr)) (\<lambda>r.
     let prpage = PR_PAGEADDR r; blktype = unat (PR_BLOCKTYPE r); sz = sizes ! blktype;
         offset = ptraddr - prpage in
     kbind (kassert (\<not> (offset \<ge> PAGE_SIZE \<or> offset mod sz \<noteq> 0))) (\<lambda>_.
     kbind (fill_deadbeef ptraddr sz) (\<lambda>_.
     let fl = prpage + offset in
     kbind (if freelist_offset r = INVALID_OFFSET then set_word fl 0
            else
              let nx = prpage + ucast (freelist_offset r) in
              kbind (set_word fl nx) (\<lambda>_. kassert (fl \<noteq> nx))) (\<lambda>_.
     kbind (set_pageref pr (\<lambda>r. r\<lparr>freelist_offset := ucast offset, nfree := nfree r + 1\<rparr>)) (\<lambda>_.
     kbind (kget (\<lambda>s. nfree (pagerefs s pr))) (\<lambda>nf.
     kbind (kassert (ucast nf \<le> PAGE_SIZE div sz)) (\<lambda>_.
     if ucast nf = PAGE_SIZE div sz then
       kbind (remove_lists pr blktype) (\<lambda>_.
       kbind (freepageref pr) (\<lambda>_.
       kbind (free_kpages prpage) (\<lambda>_. kreturn 0)))
     else kreturn 0)))))))))"

definition kmalloc :: "u32 \<Rightarrow> ('a kheap_scheme, vaddr) kernel" where
  "kmalloc sz =
     (let checksz = sz in
      if checksz \<ge> LARGEST_SUBPAGE_SIZE then
        let npages = (sz + PAGE_SIZE - 1) div PAGE_SIZE in
        kbind (alloc_kpages npages) (\<lambda>address.
        if address = 0 then kreturn 0 else
        kbind (kassert (address mod PAGE_SIZE = 0)) (\<lambda>_. kreturn address))
      else subpage_kmalloc sz)"

definition kfree :: "vaddr \<Rightarrow> ('a kheap_scheme, unit) kernel" where
  "kfree ptr =
     (if ptr = 0 then kreturn () else
      kbind (subpage_kfree ptr) (\<lambda>r.
      if r \<noteq> 0 then kbind (kassert (ptr mod PAGE_SIZE = 0)) (\<lambda>_. free_kpages ptr)
      else kreturn ()))"

end
