(* ===== verification/KmallocPage.thy ===== *)
theory KmallocPage
  imports Kmalloc
begin

text \<open>
  The pages of the subpage allocator: the arithmetic of block addresses, what it means that a
  pageref describes its page (\<open>page_ok\<close>, with the list of the indices of the free blocks), and
  what taking a block, carving a page and freeing a block do to it.
\<close>

subsection \<open>Block addresses\<close>

definition bsize :: "nat \<Rightarrow> nat" where "bsize b = unat (sizes ! b)"
definition nblocks :: "nat \<Rightarrow> nat" where "nblocks b = 4096 div bsize b"

definition boff :: "nat \<Rightarrow> nat \<Rightarrow> nat" where "boff b k = k * bsize b"

definition blk :: "vaddr \<Rightarrow> nat \<Rightarrow> nat \<Rightarrow> vaddr" where
  "blk a b k = a + of_nat (boff b k)"

lemma less_8: "b < 8 \<longleftrightarrow> b \<in> {0, 1, 2, 3, 4, 5, 6, 7 :: nat}"
  by auto

lemma bsize_facts:
  assumes "b < 8"
  shows "sizes ! b = of_nat (bsize b)" "16 \<le> bsize b" "bsize b \<le> 2048" "4 dvd bsize b"
    "bsize b * nblocks b = 4096" "2 \<le> nblocks b" "nblocks b \<le> 256"
    "PAGE_SIZE div (sizes ! b) = of_nat (nblocks b)"
  using assms unfolding less_8 by (auto simp: bsize_def nblocks_def sizes_def PAGE_SIZE_def)

lemma block_offset:
  assumes "b < 8" and "k < nblocks b" and "d < bsize b"
  shows "k * bsize b + d < 4096"
proof -
  have "k * bsize b + d < (k + 1) * bsize b" using assms(3) by simp
  also have "\<dots> \<le> nblocks b * bsize b" using assms(2) by (intro mult_le_mono1) simp
  finally show ?thesis using bsize_facts(5) [OF assms(1)] by (simp add: mult.commute)
qed

definition block_addr :: "vaddr \<Rightarrow> nat \<Rightarrow> nat \<Rightarrow> nat \<Rightarrow> vaddr" where
  "block_addr a b k d = a + of_nat (boff b k + d)"

lemma block_addr_0: "block_addr a b k 0 = blk a b k"
  by (simp add: block_addr_def blk_def)

lemma block_addr_plus: "blk a b k + of_nat d = block_addr a b k d"
  by (simp add: block_addr_def blk_def)

lemma block_addr_facts:
  assumes "page_aligned a" and "b < 8" and "k < nblocks b" and "d < bsize b"
  shows "block_addr a b k d AND PAGE_FRAME = a"
    and "unat (block_addr a b k d) = unat a + (boff b k + d)"
    and "block_addr a b k d - a = of_nat (boff b k + d)"
proof -
  have o: "unat (of_nat (boff b k + d) :: u32) = boff b k + d" "boff b k + d < 4096"
    using block_offset [OF assms(2-4)] unfolding boff_def by (simp_all only: unat_of_nat_u32)
  show "block_addr a b k d AND PAGE_FRAME = a"
    and "unat (block_addr a b k d) = unat a + (boff b k + d)"
    using page_plus_offset [OF assms(1), of "of_nat (boff b k + d)"] o
    unfolding block_addr_def by (simp_all only:)
  show "block_addr a b k d - a = of_nat (boff b k + d)"
    by (simp add: block_addr_def)
qed

lemma blk_facts:
  assumes "page_aligned a" and "b < 8" and "k < nblocks b"
  shows "blk a b k AND PAGE_FRAME = a" "unat (blk a b k) = unat a + boff b k"
    "blk a b k - a = of_nat (boff b k)" "unat (of_nat (boff b k) :: u32) = boff b k"
    "boff b k < 4096"
proof -
  have z: "0 < bsize b" using bsize_facts(2) [OF assms(2)] by simp
  show "blk a b k AND PAGE_FRAME = a" "unat (blk a b k) = unat a + boff b k"
    "blk a b k - a = of_nat (boff b k)"
    using block_addr_facts [OF assms z] by (simp_all add: block_addr_0)
  show "boff b k < 4096"
    using block_offset [OF assms(2,3) z] by (simp add: boff_def)
  then show "unat (of_nat (boff b k) :: u32) = boff b k"
    by (simp only: unat_of_nat_u32)
qed

lemma block_addr_inject:
  assumes "page_aligned a" "b < 8" "k < nblocks b" "d < bsize b"
    and "page_aligned a'" "b' < 8" "k' < nblocks b'" "d' < bsize b'"
    and "block_addr a b k d = block_addr a' b' k' d'" and "a = a' \<Longrightarrow> b = b'"
  shows "a = a' \<and> k = k' \<and> d = d'"
proof -
  have a: "a = a'"
    using block_addr_facts(1) [OF assms(1-4)] block_addr_facts(1) [OF assms(5-8)] assms(9) by simp
  have "k * bsize b + d = k' * bsize b + d'"
    using block_addr_facts(2) [OF assms(1-4)] block_addr_facts(2) [OF assms(5-8)] assms(9,10) a by (simp add: boff_def)
  then have "(k * bsize b + d) div bsize b = (k' * bsize b + d') div bsize b"
    "(k * bsize b + d) mod bsize b = (k' * bsize b + d') mod bsize b" by simp_all
  then show ?thesis
    using assms(4,8,10) a by simp
qed

lemma blk_nonzero:
  assumes "page_aligned a" and "b < 8" and "k < nblocks b" and "2147483648 \<le> unat a"
  shows "blk a b k \<noteq> 0"
proof
  assume "blk a b k = 0"
  then show False using blk_facts(2) [OF assms(1-3)] assms(4) by simp
qed

lemma blk_inject:
  assumes "page_aligned a" "b < 8" "k < nblocks b" "k' < nblocks b"
  shows "blk a b k = blk a b k' \<longleftrightarrow> k = k'"
  using block_addr_inject [OF assms(1-3), of 0 a b k' 0] assms bsize_facts(2) [OF assms(2)]
  by (auto simp: block_addr_0)

subsection \<open>The free list of a page\<close>

fun free_chain :: "(vaddr \<Rightarrow> u32) \<Rightarrow> (nat \<Rightarrow> vaddr) \<Rightarrow> nat list \<Rightarrow> bool" where
  "free_chain m at [] = True"
| "free_chain m at (k # ks) =
     (m (at k) = (case ks of [] \<Rightarrow> 0 | k' # _ \<Rightarrow> at k') \<and> free_chain m at ks)"

lemma free_chain_cong:
  "(\<And>k. k \<in> set ks \<Longrightarrow> m' (at k) = m (at k)) \<Longrightarrow> free_chain m' at ks = free_chain m at ks"
  by (induction ks) auto

abbreviation ptype :: "pageref \<Rightarrow> nat" where
  "ptype r \<equiv> unat (PR_BLOCKTYPE r)"

definition page_ok :: "(vaddr \<Rightarrow> u32) \<Rightarrow> pageref \<Rightarrow> nat list \<Rightarrow> bool" where
  "page_ok m r ks \<longleftrightarrow> ptype r < 8 \<and> distinct ks \<and> set ks \<subseteq> {..<nblocks (ptype r)}
     \<and> unat (nfree r) = length ks
     \<and> freelist_offset r = (case ks of [] \<Rightarrow> INVALID_OFFSET | k # _ \<Rightarrow> of_nat (boff (ptype r) k))
     \<and> free_chain m (blk (PR_PAGEADDR r) (ptype r)) ks"

lemma page_aligned_PAGEADDR: "page_aligned (PR_PAGEADDR r)"
  by (simp add: page_aligned_def PR_PAGEADDR_def and.assoc)

lemma page_ok_cong:
  "pageaddr_and_blocktype r' = pageaddr_and_blocktype r \<Longrightarrow> freelist_offset r' = freelist_offset r
     \<Longrightarrow> nfree r' = nfree r \<Longrightarrow> page_ok m r' ks = page_ok m r ks"
  unfolding page_ok_def PR_PAGEADDR_def PR_BLOCKTYPE_def by metis

lemma ucast_offset:
  assumes "n < 4096"
  shows "ucast (of_nat n :: u16) = (of_nat n :: u32)" "unat (of_nat n :: u16) = n"
    "ucast (of_nat n :: u32) = (of_nat n :: u16)"
  using assms by (auto simp: word_unat_eq_iff unsigned_of_nat take_bit_nat_eq_self unsigned_ucast_eq)

lemma length_free_le: "page_ok m r ks \<Longrightarrow> length ks \<le> nblocks (ptype r)"
  using card_mono [of "{..<nblocks (ptype r)}" "set ks"]
  by (simp add: page_ok_def distinct_card)

lemma set_run:
  "kbind (set_word a w) g s = g () (s\<lparr>kmem := (kmem s)(a := w)\<rparr>)"
  "kbind (set_pageref p f) g s = g () (s\<lparr>pagerefs := (pagerefs s)(p := f (pagerefs s p))\<rparr>)"
  "kbind (set_root i h) g s = g () (s\<lparr>kheaproots := (kheaproots s)[i := h (kheaproots s ! i)]\<rparr>)"
  "set_word a w s = (Inr (), s\<lparr>kmem := (kmem s)(a := w)\<rparr>)"
  "set_pageref p f s = (Inr (), s\<lparr>pagerefs := (pagerefs s)(p := f (pagerefs s p))\<rparr>)"
  "set_root i h s = (Inr (), s\<lparr>kheaproots := (kheaproots s)[i := h (kheaproots s ! i)]\<rparr>)"
  by (simp_all add: set_word_def set_pageref_def set_root_def krun)

lemmas heap_run = set_run krun

subsection \<open>Taking a block\<close>

definition taken :: "pageref \<Rightarrow> nat list \<Rightarrow> pageref" where
  "taken r ks = (nfree_update (\<lambda>n. n - 1) r)\<lparr>freelist_offset := (case ks of [] \<Rightarrow> INVALID_OFFSET
     | k # _ \<Rightarrow> of_nat (boff (ptype r) k))\<rparr>"

lemma taken_same [simp]:
  "pageaddr_and_blocktype (taken r ks) = pageaddr_and_blocktype r"
  "next_samesize (taken r ks) = next_samesize r" "next_all (taken r ks) = next_all r"
  "PR_PAGEADDR (taken r ks) = PR_PAGEADDR r" "PR_BLOCKTYPE (taken r ks) = PR_BLOCKTYPE r"
  by (simp_all add: taken_def PR_PAGEADDR_def PR_BLOCKTYPE_def)

lemma unat_pred_u16: "unat n = Suc k \<Longrightarrow> unat (n - 1 :: u16) = k"
  by (subst unat_sub) (auto simp: word_le_nat_alt)

lemma unat_succ_u16: "unat n < 65535 \<Longrightarrow> unat (n + 1 :: u16) = Suc (unat n)"
  using unat_add_lem [of n 1] by simp

lemma page_ok_taken: "page_ok m r (k # ks) \<Longrightarrow> page_ok m (taken r ks) ks"
  unfolding page_ok_def taken_same
  by (cases ks) (auto simp: taken_def unat_pred_u16)

lemma doalloc_eq:
  assumes r: "page_ok (kmem s) r (k # ks)" "r = pagerefs s pr"
    and a: "2147483648 \<le> unat (PR_PAGEADDR r)"
  shows "doalloc pr s = (Inr (blk (PR_PAGEADDR r) (ptype r) k),
    s\<lparr>pagerefs := (pagerefs s)(pr := taken r ks)\<rparr>)"
proof -
  let ?a = "PR_PAGEADDR r" and ?b = "ptype r"
  have b: "?b < 8" and k: "k < nblocks ?b" and n: "unat (nfree r) = Suc (length ks)"
    and off: "freelist_offset r = of_nat (boff ?b k)"
    and m: "kmem s (blk ?a ?b k) = (case ks of [] \<Rightarrow> 0 | k' # _ \<Rightarrow> blk ?a ?b k')"
    and ks: "set ks \<subseteq> {..<nblocks ?b}"
    using r(1) by (auto simp: page_ok_def)
  note f = blk_facts [OF page_aligned_PAGEADDR b]
  have o: "ucast (freelist_offset r) = (of_nat (boff ?b k) :: u32)"
    unfolding off by (rule ucast_offset(1)) (rule f(5) [OF k])
  have o4: "of_nat (boff ?b k) < PAGE_SIZE"
    using f(4,5) [OF k] by (simp add: word_less_nat_alt PAGE_SIZE_def)
  have nf: "unat (nfree r - 1) = length ks"
    by (rule unat_pred_u16 [OF n])
  show ?thesis
  proof (cases ks)
    case Nil
    then have "nfree r - 1 = 0" using nf by (simp add: unat_eq_zero)
    then show ?thesis
      using m o o4 Nil r(2) unfolding doalloc_def Let_def
      by (simp add: kmonad_defs set_pageref_def taken_def flip: blk_def)
  next
    case (Cons k' ks')
    then have k': "k' < nblocks ?b" using ks by simp
    have "0 < nfree r - 1" using nf Cons by (simp add: word_less_nat_alt)
    moreover have "blk ?a ?b k' \<noteq> 0"
      by (rule blk_nonzero [OF page_aligned_PAGEADDR b k' a])
    moreover have "blk ?a ?b k' - ?a < PAGE_SIZE"
      using f(3-5) [OF k'] by (simp add: word_less_nat_alt PAGE_SIZE_def)
    moreover have "ucast (blk ?a ?b k' - ?a) = (of_nat (boff ?b k') :: u16)"
      unfolding f(3) [OF k'] by (rule ucast_offset(3)) (rule f(5) [OF k'])
    ultimately show ?thesis
      using m o o4 Cons r(2) unfolding doalloc_def Let_def
      by (simp add: kmonad_defs set_pageref_def taken_def flip: blk_def)
  qed
qed

subsection \<open>Carving a page\<close>

lemma kfor_fold:
  assumes "\<And>i s. i \<in> set is \<Longrightarrow> f i s = (Inr (), g i s)"
  shows "kfor is f s = (Inr (), fold g is s)"
  using assms by (induction "is" arbitrary: s) (simp_all add: kmonad_defs)

lemma fold_kmem:
  "fold (\<lambda>i s. s\<lparr>kmem := h i (kmem s)\<rparr>) is s = s\<lparr>kmem := fold h is (kmem s)\<rparr>"
  by (induction "is" arbitrary: s) simp_all

definition carve_mem :: "vaddr \<Rightarrow> nat \<Rightarrow> nat \<Rightarrow> (vaddr \<Rightarrow> u32) \<Rightarrow> vaddr \<Rightarrow> u32" where
  "carve_mem a b n m = fold (\<lambda>i m. m(blk a b i := blk a b (i - 1))) [1..<n] (m(a := 0))"

definition carved :: "vaddr \<Rightarrow> nat \<Rightarrow> 'a kheap_scheme \<Rightarrow> pageref" where
  "carved a b s = \<lparr>next_samesize = sizebases s ! b, next_all = allbase s,
     pageaddr_and_blocktype = MKPAB a (of_nat b),
     freelist_offset = of_nat (boff b (nblocks b - 1)), nfree = of_nat (nblocks b)\<rparr>"

lemma MKPAB_facts:
  assumes "page_aligned a" and "b < 8"
  shows "MKPAB a (of_nat b) AND PAGE_FRAME = a" "MKPAB a (of_nat b) AND NOT PAGE_FRAME = of_nat b"
proof -
  have b: "(of_nat b :: u32) AND PAGE_FRAME = 0"
    using assms(2) unfolding less_8 by (auto simp: PAGE_FRAME_def)
  have "a AND NOT PAGE_FRAME = (a AND PAGE_FRAME) AND NOT PAGE_FRAME"
    using assms(1) by (simp add: page_aligned_def)
  then have a0: "a AND NOT PAGE_FRAME = 0" by (simp add: and.assoc)
  have "(of_nat b :: u32) AND NOT PAGE_FRAME = of_nat b"
    using assms(2) unfolding less_8 by (auto simp: PAGE_FRAME_def)
  then show "MKPAB a (of_nat b) AND PAGE_FRAME = a" "MKPAB a (of_nat b) AND NOT PAGE_FRAME = of_nat b"
    using assms(1) b a0 by (simp_all add: MKPAB_def page_aligned_def bit.conj_disj_distrib2 and.assoc)
qed

lemma carved_page:
  assumes "page_aligned a" and "b < 8"
  shows "PR_PAGEADDR (carved a b s) = a" "ptype (carved a b s) = b"
  using assms MKPAB_facts [OF assms]
  by (simp_all add: carved_def PR_PAGEADDR_def PR_BLOCKTYPE_def)

lemma blk_0: "blk a b 0 = a"
  by (simp add: blk_def boff_def)

lemma carve_mem_Suc:
  "1 \<le> n \<Longrightarrow> carve_mem a b (Suc n) m = (carve_mem a b n m)(blk a b n := blk a b (n - 1))"
  by (simp add: carve_mem_def)

lemma carve_mem_block:
  assumes ab: "page_aligned a" "b < 8" and "n \<le> nblocks b" and "1 \<le> n" and "i < n"
  shows "carve_mem a b n m (blk a b i) = (if i = 0 then 0 else blk a b (i - 1))"
  using assms(4,3,5)
proof (induction n rule: dec_induct)
  case base
  then show ?case by (simp add: carve_mem_def blk_0)
next
  case (step n)
  then show ?case
    by (cases "i = n") (simp_all add: carve_mem_Suc blk_inject [OF ab])
qed

lemma carve_mem_other:
  assumes "1 \<le> n" and "n \<le> nblocks b" and "\<And>i. i < nblocks b \<Longrightarrow> x \<noteq> blk a b i"
  shows "carve_mem a b n m x = m x"
  using assms(1,2)
proof (induction n rule: dec_induct)
  case base
  then show ?case using assms(3) [of 0] assms(2,1) by (simp add: carve_mem_def blk_0)
next
  case (step n)
  then show ?case
    using assms(3) [of n] by (simp add: carve_mem_Suc)
qed

lemma free_chain_carved:
  assumes ab: "page_aligned a" "b < 8" and "\<And>i. i < n \<Longrightarrow> m (blk a b i) = (if i = 0 then 0 else blk a b (i - 1))"
  shows "free_chain m (blk a b) (rev [0..<n])"
  using assms(3)
proof (induction n)
  case (Suc n)
  then show ?case
    by (cases n) simp_all
qed simp

lemma page_ok_carved:
  assumes ab: "page_aligned a" "b < 8"
  shows "page_ok (carve_mem a b (nblocks b) m) (carved a b s) (rev [0..<nblocks b])"
proof -
  note f = bsize_facts [OF ab(2)]
  have n: "nblocks b = Suc (nblocks b - 1)" using f(6) by simp
  have "free_chain (carve_mem a b (nblocks b) m) (blk a b) (rev [0..<nblocks b])"
    using f(6) by (intro free_chain_carved [OF ab]) (simp add: carve_mem_block [OF ab])
  moreover have "rev [0..<nblocks b] = (nblocks b - 1) # rev [0..<nblocks b - 1]"
    by (subst n) simp
  moreover have "unat (of_nat (nblocks b) :: u16) = nblocks b"
    using f(7) by (intro ucast_offset(2)) simp
  ultimately show ?thesis
    unfolding page_ok_def carved_page [OF ab]
    using ab(2) f(6) by (auto simp: carved_def)
qed

lemma carve_page_eq:
  assumes a: "page_aligned a" "2147483648 \<le> unat a" and b: "b < 8"
  shows "carve_page pr a b s = (Inr (), s\<lparr>kmem := carve_mem a b (nblocks b) (kmem s),
    pagerefs := (pagerefs s)(pr := carved a b s),
    sizebases := (sizebases s)[b := pr], allbase := pr\<rparr>)"
proof -
  note f = bsize_facts [OF b] and bf = blk_facts [OF a(1) b]
  have sz: "sizes ! b = of_nat (bsize b)" by (rule f(1))
  have nf: "ucast (of_nat (nblocks b) :: u32) = (of_nat (nblocks b) :: u16)"
    "unat (of_nat (nblocks b) :: u16) = nblocks b" "ucast (of_nat (nblocks b) :: u16) = (of_nat (nblocks b) :: u32)"
    using f(7) ucast_offset [of "nblocks b"] by simp_all
  have mul: "of_nat i * of_nat (bsize b) = (of_nat (boff b i) :: u32)" for i
    by (simp add: boff_def)
  have last: "nblocks b - 1 < nblocks b" using f(6) by simp
  have off: "ucast (of_nat (boff b (nblocks b - 1)) :: u32) = (of_nat (boff b (nblocks b - 1)) :: u16)"
    "ucast (of_nat (boff b (nblocks b - 1)) :: u16) = (of_nat (boff b (nblocks b - 1)) :: u32)"
    using ucast_offset [OF bf(5) [OF last]] by simp_all
  have step: "kbind (set_word (a + of_nat i * sizes ! b) (a + (of_nat i - 1) * sizes ! b))
      (\<lambda>_. kassert (a + of_nat i * sizes ! b \<noteq> a + (of_nat i - 1) * sizes ! b)) s =
      (Inr (), s\<lparr>kmem := (kmem s)(blk a b i := blk a b (i - 1))\<rparr>)"
    if "i \<in> set [1..<nblocks b]" for i and s :: "'a kheap_scheme"
  proof -
    have i: "i < nblocks b" "i - 1 < nblocks b" "i \<noteq> i - 1"
      using that by auto
    have pred: "of_nat i - 1 = (of_nat (i - 1) :: u32)"
      using that by (simp add: of_nat_diff)
    have "blk a b i \<noteq> blk a b (i - 1)"
      by (simp only: blk_inject [OF a(1) b i(1,2)] i(3) not_False_eq_True)
    moreover have "a + of_nat i * sizes ! b = blk a b i"
      by (simp only: sz mul blk_def)
    moreover have "a + (of_nat i - 1) * sizes ! b = blk a b (i - 1)"
      by (simp only: sz mul blk_def pred)
    ultimately show ?thesis
      by (simp add: set_word_def kmonad_defs)
  qed
  have last_off: "of_nat (nblocks b - Suc 0) * sizes ! b = of_nat (boff b (nblocks b - 1))"
    by (simp add: sz mul)
  have mul_last: "(of_nat (nblocks b) - 1) * sizes ! b = of_nat (boff b (nblocks b - 1))"
  proof -
    have "of_nat (nblocks b) - 1 = (of_nat (nblocks b - 1) :: u32)"
      using f(6) by (simp add: of_nat_diff)
    then show ?thesis by (simp only: sz mul)
  qed
  have loop: "kfor [1..<nblocks b] (\<lambda>i.
      kbind (set_word (a + of_nat i * sizes ! b) (a + (of_nat i - 1) * sizes ! b))
      (\<lambda>_. kassert (a + of_nat i * sizes ! b \<noteq> a + (of_nat i - 1) * sizes ! b))) s =
      (Inr (), s\<lparr>kmem := fold (\<lambda>i m. m(blk a b i := blk a b (i - 1))) [1..<nblocks b] (kmem s)\<rparr>)"
    for s :: "'a kheap_scheme"
    unfolding fold_kmem [symmetric] by (rule kfor_fold) (rule step)
  note loop_run = kbind_eq [OF loop refl]
  show ?thesis
    using nf off
    by (cases "pagerefs s pr")
      (simp add: carve_page_def Let_def heap_run f(8) loop_run [unfolded add_left_cancel One_nat_def]
        carve_mem_def carved_def last_off mul_last)
qed

subsection \<open>Freeing a block\<close>

definition in_block :: "vaddr \<Rightarrow> nat \<Rightarrow> nat \<Rightarrow> vaddr \<Rightarrow> bool" where
  "in_block a b k x \<longleftrightarrow> (\<exists>d<bsize b. x = block_addr a b k d)"

lemma in_block_page:
  "page_aligned a \<Longrightarrow> b < 8 \<Longrightarrow> k < nblocks b \<Longrightarrow> in_block a b k x \<Longrightarrow> x AND PAGE_FRAME = a"
  by (auto simp: in_block_def block_addr_facts)

lemma in_block_disjoint:
  assumes "page_aligned a" "b < 8" "k < nblocks b" "k' < nblocks b" "k \<noteq> k'" "in_block a b k x"
  shows "\<not> in_block a b k' x"
  using block_addr_inject [OF assms(1-3) _ assms(1,2,4)] assms(5,6) by (auto simp: in_block_def)

lemma blk_in_block: "b < 8 \<Longrightarrow> in_block a b k (blk a b k)"
  using bsize_facts(2) [of b] unfolding in_block_def
  by (intro exI [of _ 0]) (simp add: block_addr_0)

definition fill_mem :: "vaddr \<Rightarrow> nat \<Rightarrow> (vaddr \<Rightarrow> u32) \<Rightarrow> vaddr \<Rightarrow> u32" where
  "fill_mem ptr n m = fold (\<lambda>i m. m(ptr + 4 * of_nat i := 0xdeadbeef)) [0..<n] m"

lemma fill_mem_Suc: "fill_mem ptr (Suc n) m = (fill_mem ptr n m)(ptr + 4 * of_nat n := 0xdeadbeef)"
  by (simp add: fill_mem_def)

lemma fill_mem_other: "(\<And>i. i < n \<Longrightarrow> x \<noteq> ptr + 4 * of_nat i) \<Longrightarrow> fill_mem ptr n m x = m x"
proof (induction n)
  case 0
  then show ?case by (simp add: fill_mem_def)
next
  case (Suc n)
  then show ?case
    using Suc.prems [of n] by (simp add: fill_mem_Suc)
qed

lemma fill_mem_inside: "i < n \<Longrightarrow> fill_mem ptr n m (ptr + 4 * of_nat i) = 0xdeadbeef"
  by (induction n) (auto simp: fill_mem_Suc less_Suc_eq)

lemma fill_deadbeef_eq:
  "fill_deadbeef ptr len s = (Inr (), s\<lparr>kmem := fill_mem ptr (unat (len div 4)) (kmem s)\<rparr>)"
  unfolding fill_deadbeef_def fill_mem_def fold_kmem [symmetric]
  by (rule kfor_fold) (simp add: set_run)

lemma fill_block_words:
  assumes "b < 8" and "i < bsize b div 4"
  shows "in_block a b k (blk a b k + 4 * of_nat i)"
proof -
  have "blk a b k + 4 * of_nat i = block_addr a b k (4 * i)"
    by (simp add: blk_def block_addr_def)
  moreover have "4 * i < bsize b"
    using assms(2) bsize_facts(4) [OF assms(1)] by auto
  ultimately show ?thesis
    by (auto simp: in_block_def)
qed

lemma unat_sizes_div: "b < 8 \<Longrightarrow> unat (sizes ! b div 4) = bsize b div 4"
  by (simp add: bsize_def unat_div)

definition freed :: "pageref \<Rightarrow> nat \<Rightarrow> pageref" where
  "freed r k = r\<lparr>freelist_offset := of_nat (boff (ptype r) k), nfree := nfree r + 1\<rparr>"

lemma freed_same [simp]:
  "pageaddr_and_blocktype (freed r k) = pageaddr_and_blocktype r"
  "next_samesize (freed r k) = next_samesize r" "next_all (freed r k) = next_all r"
  "PR_PAGEADDR (freed r k) = PR_PAGEADDR r" "PR_BLOCKTYPE (freed r k) = PR_BLOCKTYPE r"
  by (simp_all add: freed_def PR_PAGEADDR_def PR_BLOCKTYPE_def)

lemma page_ok_frame:
  assumes "page_ok m r ks"
    and "\<And>k. k \<in> set ks \<Longrightarrow> m' (blk (PR_PAGEADDR r) (ptype r) k) = m (blk (PR_PAGEADDR r) (ptype r) k)"
  shows "page_ok m' r ks"
proof -
  have "free_chain m' (blk (PR_PAGEADDR r) (ptype r)) ks = free_chain m (blk (PR_PAGEADDR r) (ptype r)) ks"
    by (rule free_chain_cong) (rule assms(2))
  then show ?thesis using assms(1) by (simp add: page_ok_def)
qed

lemma page_ok_other_page:
  assumes "page_ok m r ks" and "\<And>x. x AND PAGE_FRAME = PR_PAGEADDR r \<Longrightarrow> m' x = m x"
  shows "page_ok m' r ks"
proof (rule page_ok_frame [OF assms(1)])
  fix k assume "k \<in> set ks"
  then have "ptype r < 8" "k < nblocks (ptype r)"
    using assms(1) by (auto simp: page_ok_def)
  then show "m' (blk (PR_PAGEADDR r) (ptype r) k) = m (blk (PR_PAGEADDR r) (ptype r) k)"
    by (intro assms(2) blk_facts(1) page_aligned_PAGEADDR)
qed

lemma page_ok_freed:
  assumes p: "page_ok m r ks" and k: "k < nblocks (ptype r)" "k \<notin> set ks"
    and m: "\<And>x. \<not> in_block (PR_PAGEADDR r) (ptype r) k x \<Longrightarrow> m' x = m x"
    and l: "m' (blk (PR_PAGEADDR r) (ptype r) k) =
      (case ks of [] \<Rightarrow> 0 | k' # _ \<Rightarrow> blk (PR_PAGEADDR r) (ptype r) k')"
  shows "page_ok m' (freed r k) (k # ks)"
proof -
  let ?a = "PR_PAGEADDR r" and ?b = "ptype r"
  have b: "?b < 8" and ks: "set ks \<subseteq> {..<nblocks ?b}" and n: "unat (nfree r) = length ks"
    and d: "distinct ks"
    using p by (auto simp: page_ok_def)
  have "m' (blk ?a ?b j) = m (blk ?a ?b j)" if "j \<in> set ks" for j
  proof (rule m)
    have "j < nblocks ?b" "j \<noteq> k" using that ks k by auto
    then show "\<not> in_block ?a ?b k (blk ?a ?b j)"
      using in_block_disjoint [OF page_aligned_PAGEADDR b _ k(1)] blk_in_block [OF b] by blast
  qed
  then have "page_ok m' r ks" by (rule page_ok_frame [OF p])
  then have "free_chain m' (blk ?a ?b) (k # ks)"
    using l by (simp add: page_ok_def)
  moreover have "unat (nfree r + 1) = length ks + 1"
  proof -
    have "length ks \<le> 256"
      using length_free_le [OF p] bsize_facts(7) [OF b] by simp
    then show ?thesis
      using n unat_succ_u16 [of "nfree r"] by simp
  qed
  ultimately show ?thesis
    using b ks k d unfolding page_ok_def freed_same by (simp add: freed_def)
qed

end
