(* ===== verification/KmallocRefs.thy ===== *)
theory KmallocRefs
  imports KmallocPage
begin

text \<open>
  The pagerefs: which of them the roots say are in use (\<open>used_refs\<close>), and what
  \<open>allocpageref\<close> and \<open>freepageref\<close> do to that set. The invariant \<open>roots_ok\<close> holds also after
  \<open>allocpageref\<close> failed and left its slot marked: that happens only when the RAM is exhausted,
  and then only once.
\<close>

subsection \<open>Slots of a root\<close>

definition slots :: "kheap_root \<Rightarrow> nat set" where
  "slots r = {n. n < 256 \<and> bit (pagerefs_inuse r ! (n div 32)) (n mod 32)}"

lemma finite_slots [simp]: "finite (slots r)"
  by (simp add: slots_def)

lemma slots_cong: "pagerefs_inuse r' = pagerefs_inuse r \<Longrightarrow> slots r' = slots r"
  by (simp add: slots_def)

lemma slot_number:
  assumes "j < 32"
  shows "(i * 32 + j) div 32 = (i :: nat)" "(i * 32 + j) mod 32 = j"
  using assms by simp_all

lemma slots_set:
  assumes "length (pagerefs_inuse r) = 8" "i < 8" "j < 32"
  shows "slots (r\<lparr>pagerefs_inuse := (pagerefs_inuse r)[i := pagerefs_inuse r ! i OR 2 ^ j], numinuse := c\<rparr>)
    = insert (i * 32 + j) (slots r)"
proof (intro set_eqI)
  fix n :: nat
  show "n \<in> slots (r\<lparr>pagerefs_inuse := (pagerefs_inuse r)[i := pagerefs_inuse r ! i OR 2 ^ j], numinuse := c\<rparr>)
      \<longleftrightarrow> n \<in> insert (i * 32 + j) (slots r)"
  proof (cases "n < 256")
    case True
    then have "n div 32 < 8" by simp
    moreover have "n = i * 32 + j \<longleftrightarrow> n div 32 = i \<and> n mod 32 = j"
      using slot_number [OF assms(3), of i] by (metis div_mult_mod_eq)
    ultimately show ?thesis
      using True assms by (auto simp: slots_def nth_list_update bit_simps)
  next
    case False
    have "i * 32 + j < 256" using assms(2,3) by simp
    then show ?thesis using False by (auto simp: slots_def)
  qed
qed

lemma slots_clear:
  assumes "length (pagerefs_inuse r) = 8" "i < 8" "j < 32"
  shows "slots (r\<lparr>pagerefs_inuse := (pagerefs_inuse r)[i := pagerefs_inuse r ! i AND NOT (2 ^ j)], numinuse := c\<rparr>)
    = slots r - {i * 32 + j}"
proof (intro set_eqI)
  fix n :: nat
  have e: "n = i * 32 + j \<longleftrightarrow> n div 32 = i \<and> n mod 32 = j"
    using slot_number [OF assms(3), of i] by (metis div_mult_mod_eq)
  show "n \<in> slots (r\<lparr>pagerefs_inuse := (pagerefs_inuse r)[i := pagerefs_inuse r ! i AND NOT (2 ^ j)], numinuse := c\<rparr>)
      \<longleftrightarrow> n \<in> slots r - {i * 32 + j}"
  proof (cases "n < 256")
    case True
    then have "n div 32 < 8" by simp
    then show ?thesis
      using True assms unfolding Diff_iff singleton_iff e
      by (auto simp: slots_def nth_list_update bit_simps)
  qed (simp add: slots_def)
qed

lemma free_bit_Some: "free_bit w = Some j \<Longrightarrow> j < 32 \<and> \<not> bit w j"
  by (auto simp: free_bit_def find_Some_iff and_single_bit)

lemma free_bit_None: "free_bit w = None \<longleftrightarrow> w = 0xffffffff"
proof -
  have "free_bit w = None \<longleftrightarrow> (\<forall>j<32. bit w j)"
    by (auto simp: free_bit_def find_None_iff and_single_bit)
  also have "\<dots> \<longleftrightarrow> w = - 1"
    by (auto simp: bit_eq_iff dest: bit_imp_le_length)
  also have "(- 1 :: u32) = 0xffffffff" by simp
  finally show ?thesis .
qed

lemma free_word_Some:
  "free_word r = Some i \<Longrightarrow> i < 8 \<and> pagerefs_inuse r ! i \<noteq> 0xffffffff"
  by (auto simp: free_word_def find_Some_iff)

lemma free_word_None: "free_word r = None \<Longrightarrow> slots r = {..<256}"
proof -
  assume "free_word r = None"
  then have *: "pagerefs_inuse r ! i = 0xffffffff" if "i < 8" for i
    using that by (auto simp: free_word_def find_None_iff)
  have "n div 32 < 8" if "n < 256" for n :: nat using that by simp
  moreover have "bit (0xffffffff :: u32) (n mod 32)" for n
  proof -
    have "(0xffffffff :: u32) = -1" by simp
    then show ?thesis by (simp only: bit_minus_1_iff) simp
  qed
  ultimately show ?thesis by (auto simp: slots_def *)
qed

subsection \<open>Addresses of pagerefs\<close>

lemma ref_addr_facts:
  assumes "page_aligned a" and "n < 256"
  shows "ref_addr a n AND PAGE_FRAME = a" "unat (ref_addr a n) = unat a + 16 * n"
proof -
  have n: "16 * n < 4096" using assms(2) by simp
  then have o: "unat (of_nat (16 * n) :: u32) = 16 * n" "16 * n < 4096"
    by (simp_all only: unat_of_nat_u32)
  show "ref_addr a n AND PAGE_FRAME = a" "unat (ref_addr a n) = unat a + 16 * n"
    using page_plus_offset(1,2) [OF assms(1), of "of_nat (16 * n)", unfolded o(1), OF o(2)]
    by (simp_all only: ref_addr_def)
qed

lemma ref_addr_inject:
  assumes "page_aligned a" "n < 256" "page_aligned a'" "n' < 256"
  shows "ref_addr a n = ref_addr a' n' \<longleftrightarrow> a = a' \<and> n = n'"
proof
  assume e: "ref_addr a n = ref_addr a' n'"
  have a: "a = a'"
    using ref_addr_facts(1) [OF assms(1,2)] ref_addr_facts(1) [OF assms(3,4)] unfolding e by (rule trans [OF sym])
  have "unat a + 16 * n = unat a' + 16 * n'"
    using ref_addr_facts(2) [OF assms(1,2)] ref_addr_facts(2) [OF assms(3,4)] unfolding e by (rule trans [OF sym])
  then show "a = a' \<and> n = n'" using a by simp
qed simp

text \<open>A page the kernel has been handed: aligned, in KSEG0, below the first free page.\<close>

definition kpage :: "'a ram_scheme \<Rightarrow> vaddr \<Rightarrow> bool" where
  "kpage s a \<longleftrightarrow> page_aligned a \<and> 2147483648 \<le> unat a
     \<and> unat a + 4096 \<le> unat (firstpaddr s) + 2147483648"

lemma kpage_mono: "kpage s a \<Longrightarrow> unat (firstpaddr s) \<le> unat (firstpaddr t) \<Longrightarrow> kpage t a"
  by (simp add: kpage_def)

lemma kpage_bound:
  assumes "ram_ok s" and "kpage s a"
  shows "2147483648 \<le> unat a" "unat a + 4096 \<le> 2680160256" "a \<noteq> 0"
proof -
  show *: "2147483648 \<le> unat a" "unat a + 4096 \<le> 2680160256"
    using assms(2) ram_okD(4) [OF assms(1)] by (simp_all add: kpage_def)
  show "a \<noteq> 0" using * by auto
qed

text \<open>The unsigned pointer difference is small exactly for the pagerefs of the page.\<close>

lemma sint_u32:
  "sint (w :: u32) = (if uint w < 2147483648 then uint w else uint w - 4294967296)"
proof -
  have s: "sint w = (uint w + 2147483648) mod 4294967296 - 2147483648"
    by (simp add: sint_uint signed_take_bit_eq_take_bit_shift take_bit_eq_mod)
  have b: "0 \<le> uint w" "uint w < 4294967296"
    using uint_lt2p [of w] by simp_all
  show ?thesis
  proof (cases "uint w < 2147483648")
    case True
    then have "(uint w + 2147483648) mod 4294967296 = uint w + 2147483648"
      using b by (intro mod_pos_pos_trivial) linarith+
    then show ?thesis using True unfolding s by simp
  next
    case False
    have "(uint w + 2147483648) mod 4294967296 = (uint w - 2147483648 + 4294967296) mod 4294967296"
      by (rule arg_cong [where f = "\<lambda>x. x mod 4294967296"]) linarith
    also have "\<dots> = (uint w - 2147483648) mod 4294967296"
      by (rule mod_add_self2)
    also have "\<dots> = uint w - 2147483648"
      using False b by (intro mod_pos_pos_trivial) linarith+
    finally show ?thesis using False unfolding s by simp
  qed
qed

lemma ref_index_small:
  assumes "unat (p - a) = 16 * n" and "n < 256"
  shows "ref_index a p = of_nat n"
proof -
  have u: "uint (p - a) = 16 * int n"
    using assms(1) by (metis of_nat_mult of_nat_numeral uint_nat)
  then have "sint (p - a) = 16 * int n" using assms(2) by (subst sint_u32) simp
  then show ?thesis by (simp add: ref_index_def)
qed

lemma ref_index_large:
  assumes "\<not> unat (p - a) < 4096"
  shows "\<not> ref_index a p < 256"
proof -
  define d where "d = uint (p - a)"
  have "4096 \<le> int (unat (p - a))" using assms by linarith
  then have d: "4096 \<le> d" "d < 4294967296"
    using uint_lt2p [of "p - a"] by (simp_all add: d_def)
  define q where "q = sint (p - a) div 16"
  have "256 \<le> q \<and> q < 268435456 \<or> - 268435456 \<le> q \<and> q < 0"
    unfolding q_def sint_u32 [of "p - a"] d_def [symmetric] using d by auto
  then have "256 \<le> q mod 4294967296"
  proof
    assume "256 \<le> q \<and> q < 268435456"
    then show ?thesis by simp
  next
    assume *: "- 268435456 \<le> q \<and> q < 0"
    have "q mod 4294967296 = (q + 4294967296) mod 4294967296" by simp
    also have "\<dots> = q + 4294967296" using * by (intro mod_pos_pos_trivial) auto
    finally show ?thesis using * by simp
  qed
  moreover have "uint (ref_index a p) = q mod 4294967296"
    by (simp add: ref_index_def q_def uint_word_of_int)
  ultimately show ?thesis
    by (simp add: word_less_def)
qed

subsection \<open>The invariant of the roots\<close>

definition root_ok :: "'a ram_scheme \<Rightarrow> kheap_root \<Rightarrow> bool" where
  "root_ok s r \<longleftrightarrow> length (pagerefs_inuse r) = 8 \<and> unat (numinuse r) = card (slots r)
     \<and> (rpage r \<noteq> 0 \<longrightarrow> kpage s (rpage r))
     \<and> (rpage r = 0 \<and> slots r \<noteq> {} \<longrightarrow> card (slots r) = 1 \<and> exhausted s)"

text \<open>Pages are given to the roots in their order, and none to two of them.\<close>

definition roots_ok :: "'a kheap_scheme \<Rightarrow> bool" where
  "roots_ok s \<longleftrightarrow> length (kheaproots s) = 16
     \<and> (\<forall>w<16. root_ok s (kheaproots s ! w))
     \<and> (\<forall>i j. i < j \<and> j < 16 \<and> rpage (kheaproots s ! j) \<noteq> 0 \<longrightarrow>
          rpage (kheaproots s ! i) \<noteq> 0 \<and> rpage (kheaproots s ! i) \<noteq> rpage (kheaproots s ! j))"

definition root_refs :: "kheap_root \<Rightarrow> vaddr set" where
  "root_refs r = (if rpage r = 0 then {} else ref_addr (rpage r) ` slots r)"

definition used_refs :: "'a kheap_scheme \<Rightarrow> vaddr set" where
  "used_refs s = (\<Union>w<16. root_refs (kheaproots s ! w))"

definition root_pages :: "'a kheap_scheme \<Rightarrow> vaddr set" where
  "root_pages s = {a. \<exists>w<16. a = rpage (kheaproots s ! w) \<and> a \<noteq> 0}"

lemma roots_okD:
  assumes "roots_ok s" and "w < 16"
  shows "length (kheaproots s) = 16" "root_ok s (kheaproots s ! w)"
  using assms by (auto simp: roots_ok_def)

lemma roots_distinct:
  assumes "roots_ok s" "i < 16" "j < 16" "i \<noteq> j" "rpage (kheaproots s ! j) \<noteq> 0"
  shows "rpage (kheaproots s ! i) \<noteq> rpage (kheaproots s ! j)"
proof
  assume e: "rpage (kheaproots s ! i) = rpage (kheaproots s ! j)"
  have "i < j \<or> j < i" using assms(4) by auto
  then show False
    using assms(1,2,3,5) e unfolding roots_ok_def by metis
qed

lemma roots_ok_frame:
  assumes "roots_ok s" and "kheaproots t = kheaproots s"
    and "unat (firstpaddr s) \<le> unat (firstpaddr t)" and "lastpaddr t = lastpaddr s"
  shows "roots_ok t"
proof -
  have "root_ok t r" if "root_ok s r" for r
    using that assms(3,4) kpage_mono [of s "rpage r" t] by (auto simp: root_ok_def exhausted_def)
  then show ?thesis
    using assms(1,2) by (simp add: roots_ok_def)
qed

text \<open>As long as RAM is left, the roots without a page have no slot in use.\<close>

definition roots_clean :: "'a kheap_scheme \<Rightarrow> bool" where
  "roots_clean s \<longleftrightarrow> (\<forall>w<16. rpage (kheaproots s ! w) = 0 \<longrightarrow> slots (kheaproots s ! w) = {})"

lemma roots_ok_clean: "roots_ok s \<Longrightarrow> \<not> exhausted s \<Longrightarrow> roots_clean s"
  by (auto simp: roots_ok_def root_ok_def roots_clean_def)

subsection \<open>Allocating a pageref\<close>

definition has_room :: "kheap_root \<Rightarrow> bool" where
  "has_room r \<longleftrightarrow> \<not> numinuse r \<ge> 256 \<and> free_word r \<noteq> None"

lemma full_root:
  assumes "root_ok s r" and "\<not> has_room r"
  shows "card (slots r) = 256"
proof (cases "free_word r")
  case None
  then show ?thesis by (simp add: free_word_None)
next
  case (Some i)
  then have "256 \<le> card (slots r)"
    using assms by (auto simp: has_room_def root_ok_def word_le_nat_alt)
  moreover have "card (slots r) \<le> 256"
    using card_mono [of "{..<256}" "slots r"] by (auto simp: slots_def)
  ultimately show ?thesis by simp
qed

definition take_slot :: "nat \<Rightarrow> nat \<Rightarrow> nat \<Rightarrow> ('a kheap_scheme, vaddr) kernel" where
  "take_slot w i j =
     kbind (kget (\<lambda>s. kheaproots s ! w)) (\<lambda>root.
     kbind (set_root w (\<lambda>r. r\<lparr>pagerefs_inuse :=
              (pagerefs_inuse r)[i := pagerefs_inuse r ! i OR 2 ^ j], numinuse := numinuse r + 1\<rparr>)) (\<lambda>_.
     kbind (if rpage root = 0 then allocpagerefpage w else kreturn ()) (\<lambda>_.
     kbind (kget (\<lambda>s. rpage (kheaproots s ! w))) (\<lambda>pg.
     if pg = 0 then kreturn 0 else kreturn (ref_addr pg (i * 32 + j))))))"

lemma allocpageref_from_eq:
  "allocpageref_from ws s =
     (case List.find (\<lambda>w. has_room (kheaproots s ! w)) ws of
        None \<Rightarrow> (Inr 0, s) | Some w \<Rightarrow>
          (let root = kheaproots s ! w; i = the (free_word root)
           in take_slot w i (the (free_bit (pagerefs_inuse root ! i))) s))"
proof (induction ws)
  case (Cons w ws)
  show ?case
  proof (cases "has_room (kheaproots s ! w)")
    case True
    then obtain i where i: "free_word (kheaproots s ! w) = Some i" by (auto simp: has_room_def)
    then obtain j where j: "free_bit (pagerefs_inuse (kheaproots s ! w) ! i) = Some j"
      using free_word_Some [OF i] free_bit_None by fastforce
    have "allocpageref_from (w # ws) s = take_slot w i j s"
      using True i j by (simp add: has_room_def take_slot_def krun)
    then show ?thesis
      using True i j by (simp add: Let_def del: allocpageref_from.simps)
  next
    case False
    then show ?thesis
      using Cons.IH by (auto simp: has_room_def krun split: option.split)
  qed
qed (simp add: krun)

text \<open>What a call of \<open>allocpageref\<close> leaves: only the roots and the first free page change.\<close>

definition refs_grown :: "'a kheap_scheme \<Rightarrow> vaddr \<Rightarrow> 'a kheap_scheme \<Rightarrow> bool" where
  "refs_grown s p s' \<longleftrightarrow>
     (\<exists>rs fp. s' = s\<lparr>kheaproots := rs, firstpaddr := fp\<rparr>) \<and> roots_ok s' \<and> ram_ok s'
     \<and> (firstpaddr s' = firstpaddr s \<and> root_pages s' = root_pages s
        \<or> unat (firstpaddr s') = unat (firstpaddr s) + 4096
          \<and> root_pages s' = insert (firstpaddr s + MIPS_KSEG0) (root_pages s))
     \<and> (if p = 0 then used_refs s' = used_refs s
        else p \<notin> used_refs s \<and> used_refs s' = insert p (used_refs s))"

lemma used_refs_update:
  assumes "length (kheaproots s) = 16" and "w < 16"
  shows "used_refs (s\<lparr>kheaproots := (kheaproots s)[w := r]\<rparr>) =
    root_refs r \<union> (\<Union>i\<in>{..<16} - {w}. root_refs (kheaproots s ! i))"
  using assms by (auto simp: used_refs_def nth_list_update split: if_splits)

lemma used_refs_split:
  "w < 16 \<Longrightarrow> used_refs s = root_refs (kheaproots s ! w) \<union> (\<Union>i\<in>{..<16} - {w}. root_refs (kheaproots s ! i))"
  by (auto simp: used_refs_def)

text \<open>A pageref of one root's page is not among those of another root.\<close>

lemma root_refs_disjoint:
  assumes "roots_ok s" and "i < 16" "w < 16" "i \<noteq> w"
    and "page_aligned a" "n < 256" and "a \<noteq> rpage (kheaproots s ! i)"
  shows "ref_addr a n \<notin> root_refs (kheaproots s ! i)"
proof
  assume "ref_addr a n \<in> root_refs (kheaproots s ! i)"
  then obtain m where r: "rpage (kheaproots s ! i) \<noteq> 0" and m: "m \<in> slots (kheaproots s ! i)"
    "ref_addr a n = ref_addr (rpage (kheaproots s ! i)) m"
    by (auto simp: root_refs_def split: if_splits)
  have "page_aligned (rpage (kheaproots s ! i))" "m < 256"
    using roots_okD(2) [OF assms(1,2)] r m(1) by (auto simp: root_ok_def kpage_def slots_def)
  with m(2) assms(5-7) show False
    by (simp add: ref_addr_inject)
qed

lemma roots_ok_update:
  assumes ok: "roots_ok s" and w: "w < 16" and t: "kheaproots t = (kheaproots s)[w := r]"
    and fp: "unat (firstpaddr s) \<le> unat (firstpaddr t)" "lastpaddr t = lastpaddr s"
    and r: "root_ok t r"
    and pg: "rpage r = rpage (kheaproots s ! w) \<or>
      rpage (kheaproots s ! w) = 0 \<and> (\<forall>i<w. rpage (kheaproots s ! i) \<noteq> 0) \<and> rpage r \<notin> root_pages s"
  shows "roots_ok t"
proof -
  have len: "length (kheaproots s) = 16" using ok by (simp add: roots_ok_def)
  have mono: "root_ok t (kheaproots s ! i)" if "i < 16" for i
    using roots_okD(2) [OF ok that] fp kpage_mono [of s "rpage (kheaproots s ! i)" t]
    by (auto simp: root_ok_def exhausted_def)
  have ord: "rpage (kheaproots t ! i) \<noteq> 0 \<and> rpage (kheaproots t ! i) \<noteq> rpage (kheaproots t ! j)"
    if ij: "i < j" "j < 16" "rpage (kheaproots t ! j) \<noteq> 0" for i j
  proof -
    have old: "rpage (kheaproots s ! j) \<noteq> 0 \<Longrightarrow>
        rpage (kheaproots s ! i) \<noteq> 0 \<and> rpage (kheaproots s ! i) \<noteq> rpage (kheaproots s ! j)"
      using ok ij by (simp add: roots_ok_def)
    show ?thesis
      using pg
    proof
      assume "rpage r = rpage (kheaproots s ! w)"
      then have "rpage (kheaproots t ! k) = rpage (kheaproots s ! k)" if "k < 16" for k
        using that len t w by (auto simp: nth_list_update)
      then show ?thesis using old ij by simp
    next
      assume *: "rpage (kheaproots s ! w) = 0 \<and> (\<forall>i<w. rpage (kheaproots s ! i) \<noteq> 0) \<and> rpage r \<notin> root_pages s"
      have "w \<noteq> i"
      proof
        assume "w = i"
        then show False using old * ij t len by (simp add: nth_list_update)
      qed
      moreover have "rpage (kheaproots s ! i) \<noteq> 0 \<Longrightarrow> rpage (kheaproots s ! i) \<noteq> rpage r"
      proof
        assume "rpage (kheaproots s ! i) \<noteq> 0" "rpage (kheaproots s ! i) = rpage r"
        then have "rpage r \<in> root_pages s"
          unfolding root_pages_def using ij by (auto intro!: exI [of _ i])
        then show False using * by simp
      qed
      ultimately show ?thesis
        using old * ij t len w by (auto simp: nth_list_update split: if_splits)
    qed
  qed
  have "root_ok t (kheaproots t ! i)" if "i < 16" for i
    using that mono r len t w by (auto simp: nth_list_update)
  moreover have "length (kheaproots t) = 16" using len t by simp
  ultimately show ?thesis
    unfolding roots_ok_def using ord by blast
qed

lemma root_pages_update:
  assumes "length (kheaproots s) = 16" and "w < 16"
    and "rpage r = rpage (kheaproots s ! w) \<or> rpage (kheaproots s ! w) = 0 \<and> rpage r \<noteq> 0"
    and "kheaproots t = (kheaproots s)[w := r]"
  shows "root_pages t = (if rpage r = rpage (kheaproots s ! w) then root_pages s
    else insert (rpage r) (root_pages s))"
proof -
  have "a \<in> root_pages t \<longleftrightarrow> a \<in> (if rpage r = rpage (kheaproots s ! w) then root_pages s
    else insert (rpage r) (root_pages s))" for a
  proof -
    have t: "kheaproots t ! i = (if i = w then r else kheaproots s ! i)" if "i < 16" for i
      using that assms(1,4) by (simp add: nth_list_update)
    have "a \<in> root_pages t \<longleftrightarrow> a \<noteq> 0 \<and> (a = rpage r \<or> (\<exists>i<16. i \<noteq> w \<and> a = rpage (kheaproots s ! i)))"
      using assms(2) t by (auto simp: root_pages_def) metis+
    moreover have "a \<in> root_pages s \<longleftrightarrow>
        a \<noteq> 0 \<and> (a = rpage (kheaproots s ! w) \<or> (\<exists>i<16. i \<noteq> w \<and> a = rpage (kheaproots s ! i)))"
      using assms(2) by (auto simp: root_pages_def)
    ultimately show ?thesis using assms(3) by auto
  qed
  then show ?thesis by blast
qed

lemma root_pages_kpage: "roots_ok s \<Longrightarrow> a \<in> root_pages s \<Longrightarrow> kpage s a"
  by (auto simp: root_pages_def roots_ok_def root_ok_def)

lemma next_page:
  assumes ok: "ram_ok s"
  shows "alloc_kpages 1 s = (if exhausted s then (Inr 0, s)
      else (Inr (firstpaddr s + MIPS_KSEG0), s\<lparr>firstpaddr := firstpaddr s + PAGE_SIZE\<rparr>))"
    and "unat (firstpaddr s + PAGE_SIZE) = unat (firstpaddr s) + 4096"
    and "\<not> exhausted s \<Longrightarrow> ram_ok (s\<lparr>firstpaddr := firstpaddr s + PAGE_SIZE\<rparr>)"
    and "page_aligned (firstpaddr s + MIPS_KSEG0)" "firstpaddr s + MIPS_KSEG0 \<noteq> 0"
    and "unat (firstpaddr s + MIPS_KSEG0) = unat (firstpaddr s) + 2147483648"
proof -
  have b: "unat (firstpaddr s) + unat (1 :: u32) * 4096 < 4294967296"
    using ram_okD(4) [OF ok] by simp
  note e = alloc_kpages_eq [OF ok b]
  show "page_aligned (firstpaddr s + MIPS_KSEG0)"
    using ram_okD(1) [OF ok] by (simp only: page_aligned_unat e(3) mod_kseg0)
  show "unat (firstpaddr s + PAGE_SIZE) = unat (firstpaddr s) + 4096"
    using e(2) by simp
  show u: "unat (firstpaddr s + MIPS_KSEG0) = unat (firstpaddr s) + 2147483648" by (rule e(3))
  then show "firstpaddr s + MIPS_KSEG0 \<noteq> 0" by auto
  show al: "alloc_kpages 1 s = (if exhausted s then (Inr 0, s)
      else (Inr (firstpaddr s + MIPS_KSEG0), s\<lparr>firstpaddr := firstpaddr s + PAGE_SIZE\<rparr>))"
    using e(1) by (simp add: exhausted_def)
  show "ram_ok (s\<lparr>firstpaddr := firstpaddr s + PAGE_SIZE\<rparr>)" if "\<not> exhausted s"
    using alloc_kpages_ram_ok(1) [OF ok b, of "Inr (firstpaddr s + MIPS_KSEG0)"] al that by simp
qed

lemma allocpagerefpage_eq:
  assumes "rpage (kheaproots s ! w) = 0" and ok: "ram_ok s"
  shows "allocpagerefpage w s = (if exhausted s then (Inr (), s)
    else (Inr (), s\<lparr>firstpaddr := firstpaddr s + PAGE_SIZE,
      kheaproots := (kheaproots s)[w := (kheaproots s ! w)\<lparr>rpage := firstpaddr s + MIPS_KSEG0\<rparr>]\<rparr>))"
  using assms(1) next_page(1,4,5) [OF ok]
  by (auto simp: allocpagerefpage_def krun set_run kbind_eq [of "alloc_kpages 1"] page_aligned_mod)

definition slot_root :: "kheap_root \<Rightarrow> nat \<Rightarrow> nat \<Rightarrow> kheap_root" where
  "slot_root root i j = root\<lparr>pagerefs_inuse :=
      (pagerefs_inuse root)[i := pagerefs_inuse root ! i OR 2 ^ j], numinuse := numinuse root + 1\<rparr>"

lemma slot_root_facts:
  assumes r: "root_ok s root" and ij: "i < 8" "j < 32" "i * 32 + j \<notin> slots root"
  shows "slots (slot_root root i j) = insert (i * 32 + j) (slots root)"
    "length (pagerefs_inuse (slot_root root i j)) = 8" "rpage (slot_root root i j) = rpage root"
    "unat (numinuse (slot_root root i j)) = card (slots (slot_root root i j))"
proof -
  have li: "length (pagerefs_inuse root) = 8" using r by (simp add: root_ok_def)
  show sl: "slots (slot_root root i j) = insert (i * 32 + j) (slots root)"
    unfolding slot_root_def by (rule slots_set [OF li ij(1,2)])
  have c: "card (slots (slot_root root i j)) = Suc (card (slots root))"
    "card (slots (slot_root root i j)) \<le> 256"
    using sl ij(3) card_mono [of "{..<256}" "slots (slot_root root i j)"] by (auto simp: slots_def)
  have "unat (numinuse root + 1) = unat (numinuse root) + unat (1 :: u32)"
    using r c by (intro unat_add_u32) (simp add: root_ok_def)
  then show "unat (numinuse (slot_root root i j)) = card (slots (slot_root root i j))"
    using r c by (simp add: slot_root_def root_ok_def)
  show "length (pagerefs_inuse (slot_root root i j)) = 8" "rpage (slot_root root i j) = rpage root"
    using li by (simp_all add: slot_root_def)
qed

lemma used_refs_insert:
  assumes ok: "roots_ok s" and w: "w < 16" and t: "kheaproots t = (kheaproots s)[w := r]"
    and sl: "slots r = insert n (slots (kheaproots s ! w))" "n \<notin> slots (kheaproots s ! w)" "n < 256"
    and a: "rpage r \<noteq> 0" "page_aligned (rpage r)"
    and pg: "rpage (kheaproots s ! w) = rpage r \<or>
      rpage (kheaproots s ! w) = 0 \<and> slots (kheaproots s ! w) = {} \<and> rpage r \<notin> root_pages s"
  shows "used_refs t = insert (ref_addr (rpage r) n) (used_refs s)"
    and "ref_addr (rpage r) n \<notin> used_refs s"
proof -
  have len: "length (kheaproots s) = 16" using ok by (simp add: roots_ok_def)
  have old: "root_refs (kheaproots s ! w) = ref_addr (rpage r) ` slots (kheaproots s ! w)"
    using pg a(1) by (elim disjE) (simp_all add: root_refs_def)
  have new: "root_refs r = insert (ref_addr (rpage r) n) (root_refs (kheaproots s ! w))"
    unfolding old using a(1) sl(1) by (simp add: root_refs_def)
  have "used_refs t = used_refs (s\<lparr>kheaproots := (kheaproots s)[w := r]\<rparr>)"
    using t by (simp add: used_refs_def)
  also have "\<dots> = insert (ref_addr (rpage r) n) (used_refs s)"
    unfolding used_refs_update [OF len w] used_refs_split [OF w, of s] new by blast
  finally show "used_refs t = insert (ref_addr (rpage r) n) (used_refs s)" .
  have "ref_addr (rpage r) n \<notin> root_refs (kheaproots s ! w)"
  proof
    assume "ref_addr (rpage r) n \<in> root_refs (kheaproots s ! w)"
    then obtain m where "m \<in> slots (kheaproots s ! w)" "ref_addr (rpage r) n = ref_addr (rpage r) m"
      unfolding old by blast
    then show False
      using sl(2,3) a(2) by (auto simp: ref_addr_inject slots_def)
  qed
  moreover have "ref_addr (rpage r) n \<notin> root_refs (kheaproots s ! k)" if k: "k < 16" "k \<noteq> w" for k
  proof (rule root_refs_disjoint [OF ok k(1) w k(2) a(2) sl(3)])
    show "rpage r \<noteq> rpage (kheaproots s ! k)"
      using pg
    proof
      assume e: "rpage (kheaproots s ! w) = rpage r"
      then show ?thesis using roots_distinct [OF ok k(1) w k(2)] a(1) by simp
    next
      assume "rpage (kheaproots s ! w) = 0 \<and> slots (kheaproots s ! w) = {} \<and> rpage r \<notin> root_pages s"
      then show ?thesis using a(1) k(1) by (auto simp: root_pages_def)
    qed
  qed
  ultimately show "ref_addr (rpage r) n \<notin> used_refs s"
    unfolding used_refs_split [OF w, of s] by auto
qed

lemma ref_addr_nonzero:
  assumes "page_aligned a" "n < 256" "2147483648 \<le> unat a"
  shows "ref_addr a n \<noteq> 0"
proof
  assume "ref_addr a n = 0"
  then show False using ref_addr_facts(2) [OF assms(1,2)] assms(3) by simp
qed

lemma take_slot_grown:
  assumes ok: "roots_ok s" "roots_clean s" "ram_ok s" and w: "w < 16"
    and before: "\<forall>i<w. rpage (kheaproots s ! i) \<noteq> 0"
    and ij: "i < 8" "j < 32" "i * 32 + j \<notin> slots (kheaproots s ! w)"
  shows "\<exists>p s'. take_slot w i j s = (Inr p, s') \<and> refs_grown s p s'"
proof -
  define root where "root = kheaproots s ! w"
  define root' where "root' = slot_root root i j"
  define s1 where "s1 = s\<lparr>kheaproots := (kheaproots s)[w := root']\<rparr>"
  define a where "a = (if rpage root = 0 then firstpaddr s + MIPS_KSEG0 else rpage root)"
  define n where "n = i * 32 + j"
  have len: "length (kheaproots s) = 16" and r: "root_ok s root"
    using roots_okD [OF ok(1) w] by (auto simp: root_def)
  have n: "n < 256" using ij by (simp add: n_def)
  note f = slot_root_facts [OF r ij [folded root_def], folded root'_def n_def]
  have ram: "ram_ok s1" using ok(3) ram_ok_cong [of s1 s] by (simp add: s1_def)
  have run: "take_slot w i j s = kbind (if rpage root = 0 then allocpagerefpage w else kreturn ())
     (\<lambda>_. kbind (kget (\<lambda>s. rpage (kheaproots s ! w))) (\<lambda>pg.
        if pg = 0 then kreturn 0 else kreturn (ref_addr pg n))) s1"
    unfolding n_def by (simp add: take_slot_def krun set_run root_def root'_def s1_def slot_root_def)
  have s1w: "kheaproots s1 ! w = root'" using len w by (simp add: s1_def)
  show ?thesis
  proof (cases "rpage root = 0 \<and> exhausted s")
    case True
    then have "take_slot w i j s = (Inr 0, s1)"
      using run s1w f(3) allocpagerefpage_eq [of s1 w, OF _ ram]
      by (simp add: krun kbind_eq [of "allocpagerefpage w"] exhausted_def s1_def)
    moreover have "refs_grown s 0 s1"
    proof -
      have em: "slots root = {}" using ok(2) w True by (auto simp: roots_clean_def root_def)
      have "root_ok s1 root'"
        using True f em by (simp add: root_ok_def exhausted_def s1_def)
      then have "roots_ok s1"
        by (intro roots_ok_update [OF ok(1) w, of s1 root']) (simp_all add: s1_def f(3) root_def)
      moreover have "root_pages s1 = root_pages s"
        by (subst root_pages_update [OF len w, where r = root']) (simp_all add: s1_def f(3) root_def)
      moreover have "used_refs s1 = used_refs s"
        unfolding s1_def used_refs_update [OF len w] used_refs_split [OF w, of s]
        using True f(3) by (simp add: root_refs_def root_def)
      moreover have "\<exists>rs fp. s1 = s\<lparr>kheaproots := rs, firstpaddr := fp\<rparr>"
        unfolding s1_def by (intro exI [of _ "(kheaproots s)[w := root']"] exI [of _ "firstpaddr s"]) simp
      ultimately show ?thesis using ram by (simp add: refs_grown_def s1_def)
    qed
    ultimately show ?thesis by blast
  next
    case False
    define fp where "fp = (if rpage root = 0 then firstpaddr s + PAGE_SIZE else firstpaddr s)"
    define s2 where "s2 = s\<lparr>kheaproots := (kheaproots s)[w := root'\<lparr>rpage := a\<rparr>], firstpaddr := fp\<rparr>"
    note e = next_page [OF ok(3)]
    have ae: "allocpagerefpage w s1 = (Inr (), s2)" if "rpage root = 0"
      using allocpagerefpage_eq [of s1 w, OF _ ram] False that s1w f(3) len w
      by (simp add: s2_def s1_def fp_def a_def exhausted_def)
    have s12: "s1 = s2" if "rpage root \<noteq> 0"
    proof -
      have "root'\<lparr>rpage := a\<rparr> = root'" using that f(3) by (simp add: a_def)
      then show ?thesis using that by (simp add: s1_def s2_def fp_def)
    qed
    have pages: "unat (firstpaddr s) \<le> unat fp"
      "rpage root = 0 \<Longrightarrow> unat fp = unat (firstpaddr s) + 4096"
      using e(2) by (simp_all add: fp_def)
    have al: "page_aligned a" "2147483648 \<le> unat a" "unat a + 4096 \<le> unat fp + 2147483648"
      using r e(2,4,6) kpage_bound [OF ok(3), of a]
      by (auto simp: a_def fp_def root_ok_def kpage_def split: if_splits)
    then have a0: "a \<noteq> 0" by auto
    let ?r = "root'\<lparr>rpage := a\<rparr>"
    have s2: "kheaproots s2 = (kheaproots s)[w := ?r]" "firstpaddr s2 = fp" "lastpaddr s2 = lastpaddr s"
      by (simp_all add: s2_def)
    have new: "a \<notin> root_pages s" if "rpage root = 0"
      using root_pages_kpage [OF ok(1), of a] e(6) that by (auto simp: kpage_def a_def)
    have em: "slots root = {}" if "rpage root = 0"
      using ok(2) w that by (auto simp: roots_clean_def root_def)
    have sl: "slots ?r = insert n (slots root)" "n \<notin> slots root"
      using f(1) ij(3) by (simp_all add: slots_def root_def n_def)
    have pg: "rpage ?r = rpage (kheaproots s ! w) \<or> rpage (kheaproots s ! w) = 0
        \<and> (\<forall>i<w. rpage (kheaproots s ! i) \<noteq> 0) \<and> rpage ?r \<notin> root_pages s"
      using before new by (auto simp: a_def root_def)
    have "root_ok s2 ?r"
      using f(2,4) al a0 s2(2) by (simp add: root_ok_def kpage_def slots_def)
    then have "roots_ok s2"
      using pages(1) by (intro roots_ok_update [OF ok(1) w s2(1) _ s2(3) _ pg]) (simp_all add: s2(2))
    moreover have "root_pages s2 =
        (if a = rpage (kheaproots s ! w) then root_pages s else insert a (root_pages s))"
      using root_pages_update [OF len w _ s2(1)] a0 by (auto simp: a_def root_def)
    moreover have "used_refs s2 = insert (ref_addr a n) (used_refs s)" "ref_addr a n \<notin> used_refs s"
      using used_refs_insert [OF ok(1) w s2(1), of n] sl n a0 al(1) new em
      by (auto simp: a_def root_def split: if_splits)
    moreover have "ram_ok s2"
      using ok(3) e(3) False ram_ok_cong [of s2 s]
        ram_ok_cong [of s2 "s\<lparr>firstpaddr := firstpaddr s + PAGE_SIZE\<rparr>"] s2(2,3)
      by (cases "rpage root = 0") (simp_all add: fp_def)
    moreover have "take_slot w i j s = (Inr (ref_addr a n), s2)"
    proof -
      have "rpage (kheaproots s2 ! w) = a" using s2(1) len w by simp
      then show ?thesis
        using run ae s12 a0 by (cases "rpage root = 0") (simp_all add: krun kbind_eq)
    qed
    moreover have "\<exists>rs fp. s2 = s\<lparr>kheaproots := rs, firstpaddr := fp\<rparr>"
      unfolding s2_def by blast
    moreover have "ref_addr a n \<noteq> 0"
      by (rule ref_addr_nonzero [OF al(1) n al(2)])
    ultimately show ?thesis
      unfolding refs_grown_def using pages(2) s2(2) a0
      by (intro exI [of _ "ref_addr a n"] exI [of _ s2]) (auto simp: a_def fp_def root_def)
  qed
qed

lemma allocpageref_grown:
  assumes ok: "roots_ok s" "roots_clean s" "ram_ok s"
  shows "\<exists>p s'. allocpageref s = (Inr p, s') \<and> refs_grown s p s'"
proof (cases "List.find (\<lambda>w. has_room (kheaproots s ! w)) [0..<16]")
  case None
  then have "allocpageref s = (Inr 0, s)"
    by (simp add: allocpageref_def allocpageref_from_eq)
  moreover have "\<exists>rs fp. s = s\<lparr>kheaproots := rs, firstpaddr := fp\<rparr>"
    by (intro exI [of _ "kheaproots s"] exI [of _ "firstpaddr s"]) simp
  ultimately show ?thesis
    using ok by (intro exI [of _ 0] exI [of _ s]) (simp add: refs_grown_def)
next
  case (Some w)
  define r where "r = kheaproots s ! w"
  have w: "w < 16" and room: "has_room r" and before: "\<And>i. i < w \<Longrightarrow> \<not> has_room (kheaproots s ! i)"
    using Some by (auto simp: find_Some_iff r_def)
  have pages: "\<forall>i<w. rpage (kheaproots s ! i) \<noteq> 0"
  proof (intro allI impI notI)
    fix i assume i: "i < w" "rpage (kheaproots s ! i) = 0"
    then have "slots (kheaproots s ! i) = {}" using ok(2) w by (simp add: roots_clean_def)
    moreover have "root_ok s (kheaproots s ! i)" using roots_okD(2) [OF ok(1)] i w by simp
    ultimately show False
      using full_root before [OF i(1)] by fastforce
  qed
  obtain i where i: "free_word r = Some i" using room by (auto simp: has_room_def)
  then obtain j where j: "free_bit (pagerefs_inuse r ! i) = Some j"
    using free_word_Some [OF i] free_bit_None by fastforce
  have ij: "i < 8" "j < 32" "\<not> bit (pagerefs_inuse r ! i) j"
    using free_word_Some [OF i] free_bit_Some [OF j] by simp_all
  then have "i * 32 + j \<notin> slots r" by (simp add: slots_def)
  moreover have "allocpageref s = take_slot w i j s"
    using Some i j by (simp add: allocpageref_def allocpageref_from_eq Let_def r_def)
  ultimately show ?thesis
    using take_slot_grown [OF ok w pages ij(1,2)] by (simp add: r_def)
qed

subsection \<open>Releasing a pageref\<close>

lemma page_minus_other:
  assumes "page_aligned a" "page_aligned b" "p AND PAGE_FRAME = a" "a \<noteq> b"
  shows "\<not> unat (p - b) < 4096"
proof
  assume "unat (p - b) < 4096"
  then have "(b + (p - b)) AND PAGE_FRAME = b" by (rule page_plus_offset(1) [OF assms(2)])
  then show False using assms(3,4) by simp
qed

lemma freepageref_from_skip:
  assumes "\<And>w. w \<in> set ws \<Longrightarrow> rpage (kheaproots s ! w) \<noteq> 0 \<and> \<not> unat (p - rpage (kheaproots s ! w)) < 4096"
  shows "freepageref_from p (ws @ vs) s = freepageref_from p vs s"
  using assms
proof (induction ws)
  case (Cons w ws)
  then have "rpage (kheaproots s ! w) \<noteq> 0" "\<not> ref_index (rpage (kheaproots s ! w)) p < 256"
    using ref_index_large by auto
  then show ?case
    using Cons by (simp add: krun Let_def)
qed simp

lemma freepageref_from_hit:
  assumes r: "root_ok s r" and w: "r = kheaproots s ! w" "w < length (kheaproots s)"
    and n: "n \<in> slots r" "rpage r \<noteq> 0"
  defines "r' \<equiv> r\<lparr>pagerefs_inuse := (pagerefs_inuse r)[n div 32 := pagerefs_inuse r ! (n div 32)
      AND NOT (2 ^ (n mod 32))], numinuse := numinuse r - 1\<rparr>"
  shows "freepageref_from (ref_addr (rpage r) n) (w # ws) s =
      (Inr (), s\<lparr>kheaproots := (kheaproots s)[w := r']\<rparr>)"
    and "root_ok s r'" and "slots r' = slots r - {n}"
proof -
  have n256: "n < 256" and bit: "bit (pagerefs_inuse r ! (n div 32)) (n mod 32)"
    using n(1) by (auto simp: slots_def)
  have len: "length (pagerefs_inuse r) = 8" using r by (simp add: root_ok_def)
  have nd: "n div 32 < 8" using n256 by simp
  show sl: "slots r' = slots r - {n}"
    unfolding r'_def using slots_clear [OF len nd, of "n mod 32" "numinuse r - 1"] by simp
  have c: "1 \<le> card (slots r)" "unat (numinuse r) = card (slots r)"
    using n(1) r by (auto simp: Suc_le_eq card_gt_0_iff root_ok_def)
  then have pos: "0 < numinuse r" by (simp add: word_less_nat_alt)
  have nu: "unat (numinuse r - 1) = card (slots r) - 1"
    using c by (subst unat_sub_u32) simp_all
  show "root_ok s r'"
    using r len n(1,2) nu sl by (simp add: root_ok_def r'_def)
  have al: "page_aligned (rpage r)" using r n(2) by (simp add: root_ok_def kpage_def)
  have "unat (ref_addr (rpage r) n - rpage r) = 16 * n"
    using n256 unat_of_nat_u32 [of "16 * n"] by (simp add: ref_addr_def)
  then have ix: "ref_index (rpage r) (ref_addr (rpage r) n) = of_nat n"
    by (rule ref_index_small) (rule n256)
  have un: "unat (of_nat n div 32 :: u32) = n div 32" "unat (of_nat n mod 32 :: u32) = n mod 32"
    using n256 by (simp_all add: unat_div unat_mod)
  have upd: "numinuse_update (\<lambda>n. n - 1) (r\<lparr>pagerefs_inuse := x\<rparr>) =
      r\<lparr>pagerefs_inuse := x, numinuse := numinuse r - 1\<rparr>" for x
    by (cases r) simp
  have lt: "of_nat n < (256 :: u32)" using n256 by (simp add: word_less_nat_alt)
  show "freepageref_from (ref_addr (rpage r) n) (w # ws) s =
      (Inr (), s\<lparr>kheaproots := (kheaproots s)[w := r']\<rparr>)"
    using n(2) w(1) [symmetric] w(2) bit pos unfolding r'_def
    by (simp add: krun set_run Let_def ix lt un and_single_bit upd)
qed

lemma freepageref_used:
  assumes ok: "roots_ok s" "ram_ok s" and p: "p \<in> used_refs s"
  shows "\<exists>rs s'. freepageref p s = (Inr (), s') \<and> s' = s\<lparr>kheaproots := rs\<rparr> \<and> roots_ok s'
    \<and> used_refs s' = used_refs s - {p} \<and> root_pages s' = root_pages s"
proof -
  obtain w where w: "w < 16" and pw: "p \<in> root_refs (kheaproots s ! w)"
    using p by (auto simp: used_refs_def)
  define r where "r = kheaproots s ! w"
  obtain n where n: "n \<in> slots r" "rpage r \<noteq> 0" "p = ref_addr (rpage r) n"
    using pw by (auto simp: root_refs_def r_def split: if_splits)
  have n256: "n < 256" using n(1) by (simp add: slots_def)
  have len: "length (kheaproots s) = 16" and r: "root_ok s r"
    using roots_okD [OF ok(1) w] by (simp_all add: r_def)
  have al: "page_aligned (rpage r)" using r n(2) by (simp add: root_ok_def kpage_def)
  have frame: "p AND PAGE_FRAME = rpage r"
    unfolding n(3) by (rule ref_addr_facts(1) [OF al n256])
  have skip: "rpage (kheaproots s ! i) \<noteq> 0 \<and> \<not> unat (p - rpage (kheaproots s ! i)) < 4096"
    if "i < w" for i
  proof -
    have i: "rpage (kheaproots s ! i) \<noteq> 0" "rpage (kheaproots s ! i) \<noteq> rpage r"
      using ok(1) that w n(2) by (auto simp: roots_ok_def r_def)
    have "page_aligned (rpage (kheaproots s ! i))"
      using roots_okD(2) [OF ok(1), of i] i(1) that w by (simp add: root_ok_def kpage_def)
    then show ?thesis using page_minus_other [OF al _ frame] i by auto
  qed
  note hit = freepageref_from_hit [OF r r_def _ n(1,2)]
  define r' where "r' = r\<lparr>pagerefs_inuse := (pagerefs_inuse r)[n div 32 := pagerefs_inuse r ! (n div 32)
      AND NOT (2 ^ (n mod 32))], numinuse := numinuse r - 1\<rparr>"
  define s' where "s' = s\<lparr>kheaproots := (kheaproots s)[w := r']\<rparr>"
  have "[0..<16] = [0..<w] @ w # [Suc w..<16]"
    using upt_add_eq_append [of 0 w "16 - w"] w by (simp add: upt_conv_Cons)
  then have "freepageref p s = (Inr (), s')"
    using freepageref_from_skip [of "[0..<w]" s p] skip hit(1) [of "[Suc w..<16]"] len w
    by (simp add: freepageref_def n(3) s'_def r'_def)
  moreover have pg: "rpage r' = rpage r" by (simp add: r'_def)
  moreover have "root_ok s r'" "slots r' = slots r - {n}"
    using hit(2,3) len w by (simp_all add: r'_def)
  moreover have "roots_ok s'"
    by (rule roots_ok_update [OF ok(1) w, of s' r'])
      (use calculation in \<open>simp_all add: s'_def r_def root_ok_def kpage_def exhausted_def\<close>)
  moreover have "root_pages s' = root_pages s"
    by (subst root_pages_update [OF len w, where r = r']) (simp_all add: s'_def pg r_def)
  moreover have "used_refs s' = used_refs s - {p}"
  proof -
    have "ref_addr (rpage r) ` (slots r - {n}) = ref_addr (rpage r) ` slots r - {ref_addr (rpage r) n}"
      using ref_addr_inject [OF al _ al n256] n(1) by (auto simp: slots_def)
    then have "root_refs r' = root_refs r - {p}"
      using n(2) \<open>slots r' = slots r - {n}\<close> pg unfolding n(3) by (simp add: root_refs_def)
    moreover have "p \<notin> root_refs (kheaproots s ! i)" if "i < 16" "i \<noteq> w" for i
      unfolding n(3)
      using n(2) roots_distinct [OF ok(1) that(1) w that(2)]
      by (intro root_refs_disjoint [OF ok(1) that(1) w that(2) al n256]) (auto simp: r_def)
    ultimately show ?thesis
      unfolding s'_def used_refs_update [OF len w] used_refs_split [OF w, of s] by (auto simp: r_def)
  qed
  ultimately show ?thesis unfolding s'_def by blast
qed

end
