(* ===== verification/KmallocHeap.thy ===== *)
theory KmallocHeap
  imports KmallocRefs
begin

text \<open>
  The invariant of the kernel heap and its correctness. \<open>heap_ok s ps F\<close>: \<open>ps\<close> are the
  pagerefs of the list \<open>allbase\<close>, \<open>F p\<close> the indices of the free blocks of the page of \<open>p\<close> in
  the order of its free list. \<open>live\<close> is the abstract state: the set of the blocks handed out,
  with their sizes. \<open>kmalloc\<close> adds a block that is disjoint from all the others, \<open>kfree\<close>
  removes exactly the block it is given, and neither touches the memory of another block.
\<close>

subsection \<open>Linked lists of pagerefs\<close>

fun plist :: "(vaddr \<Rightarrow> vaddr) \<Rightarrow> vaddr \<Rightarrow> vaddr list \<Rightarrow> bool" where
  "plist nx p [] \<longleftrightarrow> p = 0"
| "plist nx p (q # qs) \<longleftrightarrow> p = q \<and> q \<noteq> 0 \<and> plist nx (nx q) qs"

lemma plist_cong: "(\<And>q. q \<in> set qs \<Longrightarrow> nx' q = nx q) \<Longrightarrow> plist nx' p qs = plist nx p qs"
  by (induction qs arbitrary: p) auto

lemma plist_nonzero: "plist nx p qs \<Longrightarrow> q \<in> set qs \<Longrightarrow> q \<noteq> 0"
  by (induction qs arbitrary: p) auto

lemma plist_unique: "plist nx p qs \<Longrightarrow> plist nx p rs \<Longrightarrow> qs = rs"
proof (induction qs arbitrary: p rs)
  case Nil
  then show ?case by (cases rs) auto
next
  case (Cons q qs)
  then show ?case by (cases rs) auto
qed

fun link_next :: "link \<Rightarrow> pageref \<Rightarrow> vaddr" where
  "link_next (SizeBase b) = next_samesize"
| "link_next (NextSamesize p) = next_samesize"
| "link_next AllBase = next_all"
| "link_next (NextAll p) = next_all"

fun upd_link :: "link \<Rightarrow> vaddr \<Rightarrow> 'a kheap_scheme \<Rightarrow> 'a kheap_scheme" where
  "upd_link (SizeBase b) v s = s\<lparr>sizebases := (sizebases s)[b := v]\<rparr>"
| "upd_link AllBase v s = s\<lparr>allbase := v\<rparr>"
| "upd_link (NextSamesize p) v s =
     s\<lparr>pagerefs := (pagerefs s)(p := (pagerefs s p)\<lparr>next_samesize := v\<rparr>)\<rparr>"
| "upd_link (NextAll p) v s = s\<lparr>pagerefs := (pagerefs s)(p := (pagerefs s p)\<lparr>next_all := v\<rparr>)\<rparr>"

abbreviation link_list :: "link \<Rightarrow> 'a kheap_scheme \<Rightarrow> vaddr list \<Rightarrow> bool" where
  "link_list l s qs \<equiv> plist (\<lambda>q. link_next l (pagerefs s q)) (read_link l s) qs"

lemma write_link_eq: "write_link l v s = (Inr (), upd_link l v s)"
  by (cases l) (simp_all add: krun set_run)

lemma read_link_step: "read_link (step_link l g) s = link_next l (pagerefs s g)"
  by (cases l) simp_all

lemma step_same: "link_next (step_link l g) = link_next l" "step_link (step_link l g) = step_link l"
  by (cases l; simp add: fun_eq_iff)+

fun valid_link :: "link \<Rightarrow> 'a kheap_scheme \<Rightarrow> bool" where
  "valid_link (SizeBase b) s \<longleftrightarrow> b < length (sizebases s)"
| "valid_link _ s \<longleftrightarrow> True"

lemma valid_step: "valid_link (step_link l g) s"
  by (cases l) simp_all

lemma read_upd_same: "valid_link l s \<Longrightarrow> read_link l (upd_link l v s) = v"
  by (cases l) simp_all

lemma next_upd:
  "l' = l \<or> l' \<in> range (step_link l) \<Longrightarrow>
     link_next l (pagerefs (upd_link l' v s) q) = (if l' = step_link l q then v else link_next l (pagerefs s q))"
  by (cases l; cases l') auto

lemma read_upd_other:
  "l' \<in> range (step_link l) \<Longrightarrow> l' \<noteq> l \<Longrightarrow> read_link l (upd_link l' v s) = read_link l s"
  by (cases l; cases l') auto

lemma step_inject: "step_link l p = step_link l q \<longleftrightarrow> p = q"
  by (cases l) simp_all

text \<open>Unlinking rewrites one link, the one that points to the pageref.\<close>

lemma unlink_list:
  assumes "link_list l s qs" and "distinct qs" and "length qs \<le> n" and "valid_link l s"
    and "pr \<in> set qs" and "l \<notin> step_link l ` set qs"
  shows "\<exists>m. (m = l \<or> m \<in> step_link l ` set qs) \<and> unlink n pr l s = (Inr (), upd_link m (link_next l (pagerefs s pr)) s)
    \<and> link_list l (upd_link m (link_next l (pagerefs s pr)) s) (remove1 pr qs)"
  using assms
proof (induction qs arbitrary: l n)
  case (Cons g qs)
  have g: "read_link l s = g" "g \<noteq> 0" and rest: "link_list (step_link l g) s qs"
    using Cons.prems(1) by (simp_all add: read_link_step step_same)
  show ?case
  proof (cases "g = pr")
    case True
    let ?t = "upd_link l (link_next l (pagerefs s pr)) s"
    have "unlink n pr l s = (Inr (), ?t)"
      using g True by (subst unlink.simps) (simp add: krun write_link_eq read_link_step)
    moreover have "link_list l ?t qs"
    proof -
      have "link_next l (pagerefs ?t q) = link_next l (pagerefs s q)" if "q \<in> set qs" for q
        using Cons.prems(6) that by (subst next_upd) auto
      then have "plist (\<lambda>q. link_next l (pagerefs ?t q)) (link_next l (pagerefs s pr)) qs"
        using rest True by (subst plist_cong [where nx = "\<lambda>q. link_next l (pagerefs s q)"])
          (simp_all add: read_link_step step_same)
      then show ?thesis using read_upd_same [OF Cons.prems(4)] by simp
    qed
    ultimately show ?thesis using True by auto
  next
    case False
    then obtain n' where n': "n = Suc n'" and pr: "pr \<in> set qs" "length qs \<le> n'"
      using Cons.prems(3,5) by (cases n) auto
    have notin: "step_link l g \<notin> step_link (step_link l g) ` set qs"
      using Cons.prems(2) by (auto simp: step_same step_inject)
    obtain m where m: "m = step_link l g \<or> m \<in> step_link l ` set qs"
      "unlink n' pr (step_link l g) s = (Inr (), upd_link m (link_next l (pagerefs s pr)) s)"
      "link_list (step_link l g) (upd_link m (link_next l (pagerefs s pr)) s) (remove1 pr qs)"
      using Cons.IH [OF rest _ pr(2) valid_step pr(1) notin] Cons.prems(2) by (auto simp: step_same)
    let ?t = "upd_link m (link_next l (pagerefs s pr)) s"
    have "unlink n pr l s = (Inr (), ?t)"
      using g False m(2) n' by (subst unlink.simps) (simp add: krun)
    moreover have "m \<noteq> l" "m \<in> range (step_link l)"
      using m(1) Cons.prems(6) by auto
    moreover from this have "read_link l ?t = g"
      using g by (simp add: read_upd_other)
    ultimately show ?thesis
      using m(1,3) False g(2) by (intro exI [of _ m]) (auto simp: read_link_step step_same)
  qed
qed simp

subsection \<open>The invariant\<close>

definition pa :: "'a kheap_scheme \<Rightarrow> vaddr \<Rightarrow> vaddr" where
  "pa s p = PR_PAGEADDR (pagerefs s p)"

definition bt :: "'a kheap_scheme \<Rightarrow> vaddr \<Rightarrow> nat" where
  "bt s p = ptype (pagerefs s p)"

text \<open>The two kinds of lists.\<close>

definition lists_ok :: "'a kheap_scheme \<Rightarrow> vaddr list \<Rightarrow> bool" where
  "lists_ok s ps \<longleftrightarrow> length (sizebases s) = 8 \<and> distinct ps \<and> link_list AllBase s ps
     \<and> (\<forall>b<8. link_list (SizeBase b) s (filter (\<lambda>p. bt s p = b) ps))"

text \<open>The pages; only the pages in \<open>X\<close> may be completely free.\<close>

definition pages_ok :: "'a kheap_scheme \<Rightarrow> vaddr list \<Rightarrow> (vaddr \<Rightarrow> nat list) \<Rightarrow> vaddr set \<Rightarrow> bool" where
  "pages_ok s ps F X \<longleftrightarrow>
     (\<forall>p\<in>set ps. page_ok (kmem s) (pagerefs s p) (F p) \<and> kpage s (pa s p)
        \<and> (p \<in> X \<or> length (F p) < nblocks (bt s p)))
     \<and> inj_on (pa s) (set ps) \<and> pa s ` set ps \<inter> root_pages s = {}"

definition heap_inv :: "'a kheap_scheme \<Rightarrow> vaddr list \<Rightarrow> (vaddr \<Rightarrow> nat list) \<Rightarrow> vaddr set \<Rightarrow> bool" where
  "heap_inv s ps F X \<longleftrightarrow> ram_ok s \<and> roots_ok s \<and> used_refs s = set ps \<and> lists_ok s ps
     \<and> pages_ok s ps F X"

abbreviation heap_ok :: "'a kheap_scheme \<Rightarrow> vaddr list \<Rightarrow> (vaddr \<Rightarrow> nat list) \<Rightarrow> bool" where
  "heap_ok s ps F \<equiv> heap_inv s ps F {}"

definition page_live :: "vaddr \<Rightarrow> nat \<Rightarrow> nat list \<Rightarrow> (vaddr \<times> nat) set" where
  "page_live a b ks = (\<lambda>k. (blk a b k, bsize b)) ` {k. k < nblocks b \<and> k \<notin> set ks}"

definition live :: "'a kheap_scheme \<Rightarrow> vaddr list \<Rightarrow> (vaddr \<Rightarrow> nat list) \<Rightarrow> (vaddr \<times> nat) set" where
  "live s ps F = (\<Union>p\<in>set ps. page_live (pa s p) (bt s p) (F p))"

lemma page_of:
  assumes "pages_ok s ps F X" and "p \<in> set ps"
  shows "page_ok (kmem s) (pagerefs s p) (F p)" "kpage s (pa s p)" "bt s p < 8"
    "page_aligned (pa s p)" "2147483648 \<le> unat (pa s p)"
  using assms by (auto simp: pages_ok_def page_ok_def bt_def kpage_def)

lemma pa_inject:
  "pages_ok s ps F X \<Longrightarrow> p \<in> set ps \<Longrightarrow> q \<in> set ps \<Longrightarrow> pa s p = pa s q \<longleftrightarrow> p = q"
  by (auto simp: pages_ok_def inj_on_eq_iff)

lemma heap_pagerefs_bound:
  assumes "heap_inv s ps F X"
  shows "length ps \<le> TOTAL_PAGEREFS"
proof -
  have "card (root_refs r) \<le> 256" for r
  proof -
    have "card (slots r) \<le> card {..<256 :: nat}"
      by (rule card_mono) (auto simp: slots_def)
    then show ?thesis
      using card_image_le [of "slots r" "ref_addr (rpage r)"] by (simp add: root_refs_def)
  qed
  then have "card (used_refs s) \<le> (\<Sum>w<(16::nat). 256)"
    unfolding used_refs_def using card_UN_le [of "{..<16::nat}" "\<lambda>w. root_refs (kheaproots s ! w)"]
      sum_mono [of "{..<16::nat}" "\<lambda>w. card (root_refs (kheaproots s ! w))" "\<lambda>_. 256"]
    by simp
  then show ?thesis
    using assms by (simp add: heap_inv_def lists_ok_def distinct_card [symmetric] TOTAL_PAGEREFS_def)
qed

subsection \<open>The two searches\<close>

lemma find_page_eq:
  assumes "plist (\<lambda>q. next_samesize (pagerefs s q)) pr qs" and "length qs \<le> n"
    and "\<And>q. q \<in> set qs \<Longrightarrow> bt s q = b"
  shows "find_page n b pr s =
    (Inr (case List.find (\<lambda>q. 0 < nfree (pagerefs s q)) qs of None \<Rightarrow> 0 | Some q \<Rightarrow> q), s)"
  using assms
proof (induction qs arbitrary: pr n)
  case Nil
  then show ?case by (subst find_page.simps) (simp add: krun)
next
  case (Cons q qs)
  then have q: "pr = q" "q \<noteq> 0" and "b = ptype (pagerefs s q)"
    by (auto simp: bt_def)
  then have b: "PR_BLOCKTYPE (pagerefs s q) = of_nat b" by simp
  obtain n' where n: "n = Suc n'" using Cons.prems(2) by (cases n) auto
  show ?case
    using Cons q b n by (subst find_page.simps) (auto simp: krun)
qed

definition holds_addr :: "'a kheap_scheme \<Rightarrow> vaddr \<Rightarrow> vaddr \<Rightarrow> bool" where
  "holds_addr s x q \<longleftrightarrow> x AND PAGE_FRAME = pa s q"

lemma in_page_iff:
  assumes "page_aligned a" and "unat a + 4096 < 4294967296"
  shows "a \<le> x \<and> x < a + PAGE_SIZE \<longleftrightarrow> x AND PAGE_FRAME = a"
proof -
  have "unat (a + PAGE_SIZE) = unat a + 4096"
    using assms(2) by (subst unat_add_u32) (simp_all add: PAGE_SIZE_def)
  then have l: "a \<le> x \<and> x < a + PAGE_SIZE \<longleftrightarrow> unat a \<le> unat x \<and> unat x < unat a + 4096"
    by (simp add: word_le_nat_alt word_less_nat_alt)
  obtain m where m: "unat a = 4096 * m" using assms(1) unfolding page_aligned_unat by blast
  have "x AND PAGE_FRAME = a \<longleftrightarrow> unat x - unat x mod 4096 = unat a"
    by (metis unat_page_frame unsigned_word_eqI)
  also have "\<dots> \<longleftrightarrow> unat a \<le> unat x \<and> unat x < unat a + 4096"
  proof -
    have "unat x - unat x mod 4096 = 4096 * (unat x div 4096)"
      by (rule minus_mod_eq_mult_div)
    moreover have "unat x = 4096 * (unat x div 4096) + unat x mod 4096" "unat x mod 4096 < 4096"
      by simp_all
    moreover have "unat x div 4096 = m" if "4096 * m \<le> unat x" "unat x < 4096 * m + 4096"
      using that by (intro div_nat_eqI) simp_all
    ultimately show ?thesis unfolding m by fastforce
  qed
  finally show ?thesis using l by simp
qed

lemma find_owner_eq:
  assumes "plist (\<lambda>q. next_all (pagerefs s q)) pr qs" and "length qs \<le> n" and "ram_ok s"
    and "\<And>q. q \<in> set qs \<Longrightarrow> bt s q < 8 \<and> kpage s (pa s q)"
  shows "find_owner n x pr s =
    (Inr (case List.find (holds_addr s x) qs of None \<Rightarrow> 0 | Some q \<Rightarrow> q), s)"
  using assms
proof (induction qs arbitrary: pr n)
  case Nil
  then show ?case by (subst find_owner.simps) (simp add: krun)
next
  case (Cons q qs)
  then have q: "pr = q" "q \<noteq> 0" and b: "PR_BLOCKTYPE (pagerefs s q) < 8"
    by (auto simp: bt_def word_less_nat_alt)
  have kp: "kpage s (pa s q)" using Cons.prems(4) by simp
  have h: "PR_PAGEADDR (pagerefs s q) \<le> x \<and> x < PR_PAGEADDR (pagerefs s q) + PAGE_SIZE \<longleftrightarrow> holds_addr s x q"
    using in_page_iff [of "pa s q" x] kp kpage_bound(2) [OF Cons.prems(3) kp]
    by (auto simp: holds_addr_def pa_def kpage_def)
  obtain n' where n: "n = Suc n'" using Cons.prems(2) by (cases n) auto
  show ?case
  proof (cases "holds_addr s x q")
    case True
    then show ?thesis using q b h by (subst find_owner.simps) (simp add: krun)
  next
    case False
    then show ?thesis
      using Cons q b n h by (subst find_owner.simps) (auto simp: krun)
  qed
qed

subsection \<open>Taking a block\<close>

lemma live_cong:
  "(\<And>q. q \<in> set ps \<Longrightarrow> pa t q = pa s q \<and> bt t q = bt s q \<and> F' q = F q) \<Longrightarrow> live t ps F' = live s ps F"
  by (simp add: live_def)

lemma page_live_take:
  "k < nblocks b \<Longrightarrow> k \<notin> set ks \<Longrightarrow>
     page_live a b ks = insert (blk a b k, bsize b) (page_live a b (k # ks))"
  by (auto simp: page_live_def)

lemma page_live_all_free: "page_live a b (rev [0..<nblocks b]) = {}"
  by (auto simp: page_live_def)

lemma live_split:
  "p \<in> set ps \<Longrightarrow> live s ps F = page_live (pa s p) (bt s p) (F p)
     \<union> (\<Union>q\<in>set ps - {p}. page_live (pa s q) (bt s q) (F q))"
  by (auto simp: live_def)

lemma lists_ok_cong:
  assumes "lists_ok s ps" and "sizebases t = sizebases s" "allbase t = allbase s"
    and "\<And>q. q \<in> set ps \<Longrightarrow> bt t q = bt s q \<and> next_all (pagerefs t q) = next_all (pagerefs s q)
      \<and> next_samesize (pagerefs t q) = next_samesize (pagerefs s q)"
  shows "lists_ok t ps"
proof -
  have "filter (\<lambda>p. bt t p = b) ps = filter (\<lambda>p. bt s p = b) ps" for b
    using assms(4) by (intro filter_cong) auto
  moreover have "plist (\<lambda>q. next_all (pagerefs t q)) (allbase t) ps"
    using assms plist_cong [of ps "\<lambda>q. next_all (pagerefs t q)" "\<lambda>q. next_all (pagerefs s q)"]
    by (simp add: lists_ok_def)
  moreover have "plist (\<lambda>q. next_samesize (pagerefs t q)) (sizebases t ! b) (filter (\<lambda>p. bt s p = b) ps)"
    if "b < 8" for b
    using assms that plist_cong [of "filter (\<lambda>p. bt s p = b) ps"
        "\<lambda>q. next_samesize (pagerefs t q)" "\<lambda>q. next_samesize (pagerefs s q)"]
    by (simp add: lists_ok_def)
  ultimately show ?thesis
    using assms(1,2) by (simp add: lists_ok_def)
qed

text \<open>Changing the free list of one page, and the memory of this page only.\<close>

lemma heap_inv_page_update:
  assumes inv: "heap_inv s ps F X" and p: "p \<in> set ps"
    and t: "t = s\<lparr>kmem := m, pagerefs := (pagerefs s)(p := r)\<rparr>"
    and r: "pageaddr_and_blocktype r = pageaddr_and_blocktype (pagerefs s p)"
      "next_all r = next_all (pagerefs s p)" "next_samesize r = next_samesize (pagerefs s p)"
    and ok: "page_ok m r ks" and n: "p \<in> Y \<or> length ks < nblocks (bt s p)" and XY: "X \<subseteq> insert p Y"
    and m: "\<And>x. x AND PAGE_FRAME \<noteq> pa s p \<Longrightarrow> m x = kmem s x"
  shows "heap_inv t ps (F(p := ks)) Y"
proof -
  have same: "pa t q = pa s q" "bt t q = bt s q" for q
    using r(1) by (simp_all add: t pa_def bt_def PR_PAGEADDR_def PR_BLOCKTYPE_def)
  have pg: "pages_ok s ps F X" using inv by (simp add: heap_inv_def)
  have "page_ok m (pagerefs s q) (F q)" if "q \<in> set ps" "q \<noteq> p" for q
  proof (rule page_ok_other_page [OF page_of(1) [OF pg that(1)]])
    fix x assume "x AND PAGE_FRAME = PR_PAGEADDR (pagerefs s q)"
    then show "m x = kmem s x"
      using that(2) pa_inject [OF pg that(1) p] by (intro m) (simp add: pa_def)
  qed
  then have pk: "page_ok (kmem t) (pagerefs t q) ((F(p := ks)) q)" if "q \<in> set ps" for q
    using that ok by (simp add: t)
  have len: "q \<in> Y \<or> length ((F(p := ks)) q) < nblocks (bt t q)" if "q \<in> set ps" for q
    using pg n XY that by (auto simp: pages_ok_def same)
  have kp: "kpage t (pa t q)" if "q \<in> set ps" for q
    using page_of(2) [OF pg that] by (simp add: same kpage_def) (simp add: t)
  have "root_pages t = root_pages s" by (simp add: t root_pages_def)
  moreover have "inj_on (pa t) (set ps)" "pa t ` set ps = pa s ` set ps"
    using pg by (simp_all add: same pages_ok_def inj_on_def)
  ultimately have "pages_ok t ps (F(p := ks)) Y"
    unfolding pages_ok_def using pk len kp pg by (simp only: pages_ok_def) blast
  moreover have "lists_ok t ps"
  proof (rule lists_ok_cong [of s])
    show "lists_ok s ps" using inv by (simp add: heap_inv_def)
    show "sizebases t = sizebases s" "allbase t = allbase s" by (simp_all add: t)
    show "bt t q = bt s q \<and> next_all (pagerefs t q) = next_all (pagerefs s q)
      \<and> next_samesize (pagerefs t q) = next_samesize (pagerefs s q)" for q
      unfolding same using r by (simp add: t)
  qed
  moreover have "roots_ok t"
    by (rule roots_ok_frame [of s]) (use inv in \<open>simp_all add: t heap_inv_def\<close>)
  moreover have "ram_ok t" "used_refs t = used_refs s"
    using inv ram_ok_cong [of t s] by (simp_all add: t heap_inv_def used_refs_def)
  ultimately show ?thesis
    using inv by (simp add: heap_inv_def)
qed

lemma live_page_update:
  assumes pg: "pages_ok s ps F X" and p: "p \<in> set ps"
    and same: "\<And>q. pa t q = pa s q \<and> bt t q = bt s q"
    and k: "k < nblocks (bt s p)" "k \<notin> set ks"
  shows "live t ps (F(p := ks)) = insert (blk (pa s p) (bt s p) k, bsize (bt s p)) (live t ps (F(p := k # ks)))"
    and "blk (pa s p) (bt s p) k \<notin> fst ` live t ps (F(p := k # ks))"
proof -
  show "live t ps (F(p := ks)) = insert (blk (pa s p) (bt s p) k, bsize (bt s p)) (live t ps (F(p := k # ks)))"
    using same page_live_take [OF k] by (simp add: live_split [OF p])
  show "blk (pa s p) (bt s p) k \<notin> fst ` live t ps (F(p := k # ks))"
  proof
    assume "blk (pa s p) (bt s p) k \<in> fst ` live t ps (F(p := k # ks))"
    then obtain q j where q: "q \<in> set ps" "j < nblocks (bt s q)" "j \<notin> set ((F(p := k # ks)) q)"
      and e: "blk (pa s p) (bt s p) k = blk (pa s q) (bt s q) j"
      using same by (auto simp: live_def page_live_def)
    have "pa s p = pa s q"
      using e blk_facts(1) [OF page_of(4,3) [OF pg p] k(1)] blk_facts(1) [OF page_of(4,3) [OF pg q(1)] q(2)]
      by simp
    then have "p = q" by (simp add: pa_inject [OF pg p q(1)])
    then show False
      using e q blk_inject [OF page_of(4,3) [OF pg p] k(1), of j] by auto
  qed
qed

lemma doalloc_heap:
  assumes inv: "heap_inv s ps F X" and p: "p \<in> set ps" and X: "X \<subseteq> {p}" and ks: "F p = k # ks"
  defines "t \<equiv> s\<lparr>pagerefs := (pagerefs s)(p := taken (pagerefs s p) ks)\<rparr>"
  shows "doalloc p s = (Inr (blk (pa s p) (bt s p) k), t)" and "heap_ok t ps (F(p := ks))"
    and "live t ps (F(p := ks)) = insert (blk (pa s p) (bt s p) k, bsize (bt s p)) (live s ps F)"
    and "blk (pa s p) (bt s p) k \<notin> fst ` live s ps F"
    and "k < nblocks (bt s p)"
proof -
  have pg: "pages_ok s ps F X" using inv by (simp add: heap_inv_def)
  have ok: "page_ok (kmem s) (pagerefs s p) (k # ks)"
    using page_of(1) [OF pg p] ks by simp
  show kn: "k < nblocks (bt s p)"
    using ok by (simp add: page_ok_def bt_def)
  have knin: "k \<notin> set ks" using ok by (simp add: page_ok_def)
  show "doalloc p s = (Inr (blk (pa s p) (bt s p) k), t)"
    unfolding pa_def bt_def t_def
    by (rule doalloc_eq [OF ok refl]) (use page_of(5) [OF pg p] in \<open>simp add: pa_def\<close>)
  have "length (k # ks) \<le> nblocks (bt s p)"
    using length_free_le [OF ok] by (simp add: bt_def)
  then show "heap_ok t ps (F(p := ks))"
    using X by (intro heap_inv_page_update [OF inv p _ _ _ _ page_ok_taken [OF ok]])
      (simp_all add: t_def)
  have same: "pa t q = pa s q \<and> bt t q = bt s q" for q
    by (simp add: t_def pa_def bt_def)
  have F: "F(p := k # ks) = F" using ks by auto
  have "live t ps F = live s ps F"
    by (simp add: live_def same)
  then show "live t ps (F(p := ks)) = insert (blk (pa s p) (bt s p) k, bsize (bt s p)) (live s ps F)"
    and "blk (pa s p) (bt s p) k \<notin> fst ` live s ps F"
    using live_page_update [where t = t, OF pg p same kn knin] unfolding F by simp_all
qed

subsection \<open>A fresh page\<close>

lemma kpage_not_next: "ram_ok s \<Longrightarrow> kpage s x \<Longrightarrow> x \<noteq> firstpaddr s + MIPS_KSEG0"
  using next_page(6) [of s] by (auto simp: kpage_def)

lemma carve_heap:
  assumes inv: "heap_inv s ps F {}" and b: "b < 8"
    and g: "refs_grown s p s'" "p \<noteq> 0"
    and a: "kpage s a" "a \<notin> pa s ` set ps" "a \<notin> root_pages s"
  defines "t \<equiv> s'\<lparr>kmem := carve_mem a b (nblocks b) (kmem s'),
    pagerefs := (pagerefs s')(p := carved a b s'), sizebases := (sizebases s')[b := p], allbase := p\<rparr>"
    and "F' \<equiv> F(p := rev [0..<nblocks b])"
  shows "carve_page p a b s' = (Inr (), t)" and "heap_inv t (p # ps) F' {p}"
    and "live t (p # ps) F' = live s ps F" and "pa t p = a" "bt t p = b"
    and "\<And>x. x AND PAGE_FRAME \<noteq> a \<Longrightarrow> kmem t x = kmem s x"
proof -
  obtain rs fp where s': "s' = s\<lparr>kheaproots := rs, firstpaddr := fp\<rparr>"
    using g by (auto simp: refs_grown_def)
  have pg: "pages_ok s ps F {}" and ls: "lists_ok s ps" and used: "used_refs s = set ps"
    using inv by (simp_all add: heap_inv_def)
  have al: "page_aligned a" "2147483648 \<le> unat a" using a(1) by (simp_all add: kpage_def)
  have p: "p \<notin> set ps" "used_refs s' = insert p (set ps)"
    using g used by (simp_all add: refs_grown_def)
  show "carve_page p a b s' = (Inr (), t)"
    unfolding t_def by (rule carve_page_eq [OF al b])
  show pat: "pa t p = a" "bt t p = b"
    by (simp_all add: t_def pa_def bt_def carved_page [OF al(1) b])
  have same: "pa t q = pa s q" "bt t q = bt s q" if "q \<in> set ps" for q
    using that p(1) by (auto simp: t_def s' pa_def bt_def)
  show mem: "kmem t x = kmem s x" if "x AND PAGE_FRAME \<noteq> a" for x
    unfolding t_def s' using that blk_facts(1) [OF al(1) b] bsize_facts(6) [OF b]
    by (simp, intro carve_mem_other) auto
  show "live t (p # ps) F' = live s ps F"
  proof -
    have "F' q = F q" if "q \<in> set ps" for q using that p(1) by (auto simp: F'_def)
    then have "live t ps F' = live s ps F"
      using same by (intro live_cong) simp
    then show ?thesis
      using pat by (simp add: live_def F'_def page_live_all_free)
  qed
  have "lists_ok t (p # ps)"
  proof -
    have f: "filter (\<lambda>q. bt t q = c) ps = filter (\<lambda>q. bt s q = c) ps" for c
      using same by (intro filter_cong) auto
    have nx: "pagerefs t q = pagerefs s q" if "q \<in> set ps" for q
      using that p(1) by (auto simp: t_def s')
    have all: "plist (\<lambda>q. next_all (pagerefs t q)) (allbase s) ps"
      using ls nx plist_cong [of ps "\<lambda>q. next_all (pagerefs t q)" "\<lambda>q. next_all (pagerefs s q)"]
      by (simp add: lists_ok_def)
    have sz: "plist (\<lambda>q. next_samesize (pagerefs t q)) (sizebases s ! c) (filter (\<lambda>q. bt s q = c) ps)"
      if "c < 8" for c
      using ls that nx plist_cong [of "filter (\<lambda>q. bt s q = c) ps"
          "\<lambda>q. next_samesize (pagerefs t q)" "\<lambda>q. next_samesize (pagerefs s q)"]
      by (simp add: lists_ok_def)
    have tp: "next_all (pagerefs t p) = allbase s" "next_samesize (pagerefs t p) = sizebases s ! b"
      "allbase t = p" "sizebases t = (sizebases s)[b := p]"
      by (simp_all add: t_def s' carved_def)
    have "plist (\<lambda>q. next_samesize (pagerefs t q)) (sizebases t ! c) (filter (\<lambda>q. bt t q = c) (p # ps))"
      if "c < 8" for c
      using sz [OF that] b that ls g(2) pat(2) by (simp add: f tp lists_ok_def nth_list_update)
    then show ?thesis
      using ls p(1) g(2) all tp by (simp add: lists_ok_def)
  qed
  moreover have "pages_ok t (p # ps) F' {p}"
  proof -
    have grow: "unat (firstpaddr s) \<le> unat (firstpaddr t)" and roots: "root_pages t = root_pages s'"
      using g by (auto simp: refs_grown_def t_def root_pages_def)
    have kp: "kpage t a" "kpage t (pa t q)" if "q \<in> set ps" for q
      using kpage_mono [OF _ grow] page_of(2) [OF pg] a(1) that by (auto simp: same)
    have "page_ok (kmem t) (pagerefs t q) (F' q)" if q: "q \<in> set ps" for q
    proof -
      have e: "pagerefs t q = pagerefs s q" "F' q = F q" using q p(1) by (auto simp: t_def s' F'_def)
      show ?thesis
        unfolding e
      proof (rule page_ok_other_page [OF page_of(1) [OF pg q]])
        fix x assume "x AND PAGE_FRAME = PR_PAGEADDR (pagerefs s q)"
        then show "kmem t x = kmem s x"
          using a(2) q by (intro mem) (auto simp: pa_def)
      qed
    qed
    moreover have "page_ok (kmem t) (pagerefs t p) (F' p)"
      using page_ok_carved [OF al(1) b] by (simp add: t_def F'_def)
    moreover have "kpage t (pa t p)" using kpage_mono [OF a(1) grow] by (simp add: pat)
    moreover have "length (F' q) < nblocks (bt t q)" if "q \<in> set ps" for q
      using pg that p(1) by (auto simp: pages_ok_def same F'_def)
    moreover have "inj_on (pa t) (set (p # ps))"
      using pg a(2) p(1) by (auto simp: inj_on_def same pat pages_ok_def)
    moreover have "pa t ` set (p # ps) \<inter> root_pages t = {}"
    proof -
      have "x \<notin> root_pages s'" if "kpage s x" "x \<notin> root_pages s" for x
        using g(1) that kpage_not_next [of s x] inv by (auto simp: refs_grown_def heap_inv_def)
      moreover have "pa s q \<notin> root_pages s" if "q \<in> set ps" for q
        using pg that by (auto simp: pages_ok_def)
      ultimately show ?thesis
        using a page_of(2) [OF pg] by (auto simp: roots pat same)
    qed
    ultimately show ?thesis using kp by (simp add: pages_ok_def)
  qed
  moreover have "roots_ok t"
    by (rule roots_ok_frame [of s']) (use g in \<open>simp_all add: refs_grown_def t_def\<close>)
  moreover have "ram_ok t" "used_refs t = set (p # ps)"
    using g p(2) ram_ok_cong [of t s'] by (simp_all add: refs_grown_def t_def used_refs_def)
  ultimately show "heap_inv t (p # ps) F' {p}" by (simp add: heap_inv_def)
qed

subsection \<open>subpage_kmalloc\<close>

lemma heap_inv_frame:
  assumes "heap_inv s ps F X" and t: "t = s\<lparr>kheaproots := rs, firstpaddr := fp\<rparr>"
    and "roots_ok t" "ram_ok t" "used_refs t = used_refs s"
    and "unat (firstpaddr s) \<le> unat (firstpaddr t)"
    and "root_pages t \<subseteq> insert (firstpaddr s + MIPS_KSEG0) (root_pages s)"
  shows "heap_inv t ps F X" and "live t ps F = live s ps F"
proof -
  have pg: "pages_ok s ps F X" using assms(1) by (simp add: heap_inv_def)
  have same: "pa t q = pa s q" "bt t q = bt s q" "pagerefs t q = pagerefs s q" "kmem t = kmem s" for q
    by (simp_all add: t pa_def bt_def)
  show "live t ps F = live s ps F" by (simp add: live_def same)
  have "lists_ok t ps"
    by (rule lists_ok_cong [of s]) (use assms(1) in \<open>simp_all add: heap_inv_def same, simp_all add: t\<close>)
  moreover have "pages_ok t ps F X"
  proof -
    have "kpage t (pa s q)" if "q \<in> set ps" for q
      by (rule kpage_mono [OF page_of(2) [OF pg that] assms(6)])
    moreover have "pa s q \<notin> root_pages t" if "q \<in> set ps" for q
      using pg that assms(7) kpage_not_next [OF _ page_of(2) [OF pg that]] assms(1)
      by (auto simp: pages_ok_def heap_inv_def)
    moreover have "inj_on (pa t) (set ps)" using pg by (simp add: pages_ok_def inj_on_def same)
    ultimately show ?thesis
      using pg by (auto simp: pages_ok_def same)
  qed
  ultimately show "heap_inv t ps F X"
    using assms(1,3,4,5) by (simp add: heap_inv_def)
qed

text \<open>What an allocation of a block guarantees.\<close>

definition block_taken :: "'a kheap_scheme \<Rightarrow> (vaddr \<times> nat) set \<Rightarrow> nat \<Rightarrow> vaddr \<Rightarrow> 'a kheap_scheme
    \<Rightarrow> (vaddr \<times> nat) set \<Rightarrow> bool" where
  "block_taken s L z r s' L' \<longleftrightarrow>
     (if r = 0 then L' = L else L' = insert (r, z) L \<and> r \<notin> fst ` L)
     \<and> (\<forall>(x, n)\<in>L. \<forall>d<n. kmem s' (x + of_nat d) = kmem s (x + of_nat d))"

lemma live_in_page:
  assumes "pages_ok s ps F X" and "(x, n) \<in> live s ps F" and "d < n"
  shows "\<exists>q\<in>set ps. (x + of_nat d) AND PAGE_FRAME = pa s q"
proof -
  obtain q k where q: "q \<in> set ps" "k < nblocks (bt s q)" "x = blk (pa s q) (bt s q) k" "n = bsize (bt s q)"
    using assms(2) by (auto simp: live_def page_live_def)
  have "(blk (pa s q) (bt s q) k + of_nat d) AND PAGE_FRAME = pa s q"
    unfolding block_addr_plus
    by (rule block_addr_facts(1) [OF page_of(4,3) [OF assms(1) q(1)] q(2)]) (use assms(3) q(4) in simp)
  then show ?thesis using q by auto
qed

lemma blocktype_Inr:
  assumes "blocktype sz = Inr b"
  shows "b < 8" "unat sz \<le> bsize b" "\<forall>c<b. bsize c < unat sz"
  using assms
  by (auto simp: blocktype_def sizes_def bsize_def word_le_nat_alt less_Suc_eq numeral_nat split: if_splits)

lemma blocktype_small: "unat sz \<le> 2048 \<Longrightarrow> \<exists>b. blocktype sz = Inr b"
  by (auto simp: blocktype_def sizes_def word_le_nat_alt)

lemma block_taken_doalloc:
  assumes inv: "heap_inv s ps F X" and p: "p \<in> set ps" and X: "X \<subseteq> {p}" and ne: "F p \<noteq> []"
  shows "\<exists>r s' F'. doalloc p s = (Inr r, s') \<and> heap_ok s' ps F' \<and> r \<noteq> 0 \<and> kmem s' = kmem s
    \<and> block_taken s (live s ps F) (bsize (bt s p)) r s' (live s' ps F')"
proof -
  obtain k ks where ks: "F p = k # ks" using ne by (cases "F p") auto
  note d = doalloc_heap [OF inv p X ks]
  have pg: "pages_ok s ps F X" using inv by (simp add: heap_inv_def)
  have "blk (pa s p) (bt s p) k \<noteq> 0"
    by (rule blk_nonzero [OF page_of(4,3) [OF pg p] d(5) page_of(5) [OF pg p]])
  then show ?thesis
    using d by (auto simp: block_taken_def intro!: exI [of _ "F(p := ks)"])
qed

lemma block_taken_other_state:
  assumes "block_taken s L z r s' L'" and "L = L0"
    and "\<And>x n d. (x, n) \<in> L \<Longrightarrow> d < n \<Longrightarrow> kmem s (x + of_nat d) = kmem s0 (x + of_nat d)"
  shows "block_taken s0 L0 z r s' L'"
  using assms unfolding block_taken_def by fastforce

lemma fresh_page_block:
  assumes inv: "heap_ok s ps F" and b: "b < 8" and ex: "\<not> exhausted s"
  defines "a \<equiv> firstpaddr s + MIPS_KSEG0" and "s1 \<equiv> s\<lparr>firstpaddr := firstpaddr s + PAGE_SIZE\<rparr>"
  shows "\<exists>p s2. allocpageref s1 = (Inr p, s2)
    \<and> (if p = 0 then heap_ok s2 ps F \<and> live s2 ps F = live s ps F \<and> kmem s2 = kmem s
       else \<exists>t F'. carve_page p a b s2 = (Inr (), t) \<and> heap_inv t (p # ps) F' {p}
         \<and> live t (p # ps) F' = live s ps F \<and> bt t p = b \<and> F' p \<noteq> []
         \<and> (\<forall>x. x AND PAGE_FRAME \<noteq> a \<longrightarrow> kmem t x = kmem s x))"
proof -
  have ram: "ram_ok s" and roots: "roots_ok s" and pg: "pages_ok s ps F {}"
    using inv by (simp_all add: heap_inv_def)
  note n = next_page [OF ram]
  have s1: "s1 = s\<lparr>kheaproots := kheaproots s, firstpaddr := firstpaddr s + PAGE_SIZE\<rparr>"
    by (simp add: s1_def)
  have ram1: "ram_ok s1" using n(3) [OF ex] by (simp add: s1_def)
  have roots1: "roots_ok s1"
    by (rule roots_ok_frame [OF roots]) (simp_all add: s1_def n(2))
  note inv1 = heap_inv_frame [OF inv s1 roots1 ram1]
  have h1: "heap_ok s1 ps F" "live s1 ps F = live s ps F"
    by (rule inv1; simp add: s1_def used_refs_def root_pages_def n(2) subset_insertI)+
  have clean: "roots_clean s1"
    using roots_ok_clean [OF roots ex] by (simp add: roots_clean_def s1_def)
  obtain p s2 where p: "allocpageref s1 = (Inr p, s2)" "refs_grown s1 p s2"
    using allocpageref_grown [OF roots1 clean ram1] by blast
  then obtain rs fp where s2: "s2 = s1\<lparr>kheaproots := rs, firstpaddr := fp\<rparr>"
    by (auto simp: refs_grown_def)
  show ?thesis
  proof (cases "p = 0")
    case True
    have g: "roots_ok s2" "ram_ok s2" "used_refs s2 = used_refs s1"
      "unat (firstpaddr s1) \<le> unat (firstpaddr s2)"
      "root_pages s2 \<subseteq> insert (firstpaddr s1 + MIPS_KSEG0) (root_pages s1)"
      using p(2) True by (auto simp: refs_grown_def)
    note h2 = heap_inv_frame [OF h1(1) s2 g]
    show ?thesis
      using p(1) True h2 h1 by (auto simp: s2 s1_def)
  next
    case False
    have kp: "kpage s1 a" using n(2,4,6) by (simp add: kpage_def a_def s1_def)
    have nk: "\<not> kpage s a" using kpage_not_next [OF ram, of a] by (auto simp: a_def)
    have same: "pa s1 = pa s" "root_pages s1 = root_pages s"
      by (simp_all add: fun_eq_iff pa_def s1_def root_pages_def)
    have out: "a \<notin> pa s1 ` set ps" "a \<notin> root_pages s1"
      unfolding same using nk page_of(2) [OF pg] root_pages_kpage [OF roots] by auto
    note c = carve_heap [OF h1(1) b p(2) False kp out]
    have "rev [0..<nblocks b] \<noteq> []" using bsize_facts(6) [OF b] by simp
    then have ne: "(F(p := rev [0..<nblocks b])) p \<noteq> []" by simp
    have "kmem s1 = kmem s" by (simp add: s1_def)
    then show ?thesis
      using p(1) False c(1-3,5,6) ne h1(2)
      by (intro exI [of _ p] exI [of _ s2]) (auto intro!: exI)
  qed
qed

lemma fresh_kmalloc_heap:
  assumes inv: "heap_ok s ps F" and b: "b < 8"
  shows "\<exists>r s' ps' F'. kbind (alloc_kpages 1) (\<lambda>prpage.
        if prpage = 0 then kreturn 0 else
        kbind (kassert (prpage mod PAGE_SIZE = 0)) (\<lambda>_.
        kbind allocpageref (\<lambda>pr.
        if pr = 0 then kbind (free_kpages prpage) (\<lambda>_. kreturn 0) else
        kbind (carve_page pr prpage b) (\<lambda>_. doalloc pr)))) s = (Inr r, s')
    \<and> heap_ok s' ps' F' \<and> block_taken s (live s ps F) (bsize b) r s' (live s' ps' F')"
    (is "\<exists>r s' ps' F'. ?run = (Inr r, s') \<and> ?post r s' ps' F'")
proof (cases "exhausted s")
  case True
  have "ram_ok s" using inv by (simp add: heap_inv_def)
  then have "?run = (Inr 0, s)"
    using True by (simp add: next_page(1) kbind_eq krun)
  then show ?thesis using inv by (auto simp: block_taken_def)
next
  case False
  let ?a = "firstpaddr s + MIPS_KSEG0"
  define s1 where "s1 = s\<lparr>firstpaddr := firstpaddr s + PAGE_SIZE\<rparr>"
  have ram: "ram_ok s" and pg: "pages_ok s ps F {}" using inv by (simp_all add: heap_inv_def)
  note n = next_page [OF ram]
  have run: "?run = kbind allocpageref (\<lambda>pr.
        if pr = 0 then kbind (free_kpages ?a) (\<lambda>_. kreturn 0) else
        kbind (carve_page pr ?a b) (\<lambda>_. doalloc pr)) s1"
  proof (rule kbind_eq)
    show "alloc_kpages 1 s = (Inr ?a, s1)" using False n(1) by (simp add: s1_def)
  qed (use n(4,5) in \<open>simp add: krun page_aligned_mod\<close>)
  obtain p s2 where p: "allocpageref s1 = (Inr p, s2)"
    and post: "if p = 0 then heap_ok s2 ps F \<and> live s2 ps F = live s ps F \<and> kmem s2 = kmem s
       else \<exists>t F'. carve_page p ?a b s2 = (Inr (), t) \<and> heap_inv t (p # ps) F' {p}
         \<and> live t (p # ps) F' = live s ps F \<and> bt t p = b \<and> F' p \<noteq> []
         \<and> (\<forall>x. x AND PAGE_FRAME \<noteq> ?a \<longrightarrow> kmem t x = kmem s x)"
    using fresh_page_block [OF inv b False] by (auto simp: s1_def)
  show ?thesis
  proof (cases "p = 0")
    case True
    then have "?run = (Inr 0, s2)"
      unfolding run using p by (simp add: kbind_eq free_kpages_def krun)
    then show ?thesis
      using True post by (auto simp: block_taken_def)
  next
    case False
    with post obtain t F' where c: "carve_page p ?a b s2 = (Inr (), t)" "heap_inv t (p # ps) F' {p}"
      "live t (p # ps) F' = live s ps F" "bt t p = b" "F' p \<noteq> []"
      and mem: "\<And>x. x AND PAGE_FRAME \<noteq> ?a \<Longrightarrow> kmem t x = kmem s x" by auto
    have "p \<in> set (p # ps)" "{p} \<subseteq> {p}" by simp_all
    from block_taken_doalloc [OF c(2) this c(5)] obtain r s' F'' where d: "doalloc p t = (Inr r, s')"
      "heap_ok s' (p # ps) F''" "block_taken t (live t (p # ps) F') (bsize (bt t p)) r s' (live s' (p # ps) F'')"
      by blast
    have "kmem t (x + of_nat d) = kmem s (x + of_nat d)" if x: "(x, n) \<in> live s ps F" "d < n" for x n d
    proof (rule mem)
      obtain q where "q \<in> set ps" "(x + of_nat d) AND PAGE_FRAME = pa s q"
        using live_in_page [OF pg x] by blast
      then show "(x + of_nat d) AND PAGE_FRAME \<noteq> ?a"
        using kpage_not_next [OF ram page_of(2) [OF pg]] by auto
    qed
    then have "block_taken s (live s ps F) (bsize b) r s' (live s' (p # ps) F'')"
      using d(3) c(3,4) block_taken_other_state [of t "live t (p # ps) F'"] by auto
    moreover have "?run = (Inr r, s')"
      unfolding run using False p c(1) d(1) by (simp add: kbind_eq)
    ultimately show ?thesis using d(2) by blast
  qed
qed

theorem subpage_kmalloc_heap:
  assumes inv: "heap_ok s ps F" and bt: "blocktype sz = Inr b"
  shows "\<exists>r s' ps' F'. subpage_kmalloc sz s = (Inr r, s') \<and> heap_ok s' ps' F'
    \<and> block_taken s (live s ps F) (bsize b) r s' (live s' ps' F')"
proof -
  have pg: "pages_ok s ps F {}" and ls: "lists_ok s ps" and ram: "ram_ok s"
    using inv by (simp_all add: heap_inv_def)
  have b: "b < 8" by (rule blocktype_Inr(1) [OF bt])
  let ?qs = "filter (\<lambda>p. bt s p = b) ps"
  have "length ?qs \<le> TOTAL_PAGEREFS"
    using heap_pagerefs_bound [OF inv] length_filter_le [of "\<lambda>p. bt s p = b" ps] by linarith
  moreover have "plist (\<lambda>q. next_samesize (pagerefs s q)) (sizebases s ! b) ?qs"
    using ls b by (simp add: lists_ok_def)
  ultimately have fp: "find_page TOTAL_PAGEREFS b (sizebases s ! b) s =
      (Inr (case List.find (\<lambda>q. 0 < nfree (pagerefs s q)) ?qs of None \<Rightarrow> 0 | Some q \<Rightarrow> q), s)"
    by (intro find_page_eq) simp_all
  show ?thesis
  proof (cases "List.find (\<lambda>q. 0 < nfree (pagerefs s q)) ?qs")
    case (Some p)
    then have p: "p \<in> set ps" "bt s p = b" "0 < nfree (pagerefs s p)"
      by (auto simp: find_Some_iff in_set_conv_nth dest: nth_mem)
    then have "F p \<noteq> []"
      using page_of(1) [OF pg p(1)] by (auto simp: page_ok_def word_less_nat_alt)
    then obtain r s' F' where "doalloc p s = (Inr r, s')" "heap_ok s' ps F'"
      "block_taken s (live s ps F) (bsize (bt s p)) r s' (live s' ps F')"
      using block_taken_doalloc [OF inv p(1)] by blast
    moreover have "p \<noteq> 0"
      using ls p(1) by (auto simp: lists_ok_def dest: plist_nonzero)
    ultimately show ?thesis
      using fp Some bt p(2) by (auto simp: subpage_kmalloc_def krun kbind_eq)
  next
    case None
    then have run: "subpage_kmalloc sz s = kbind (alloc_kpages 1) (\<lambda>prpage.
        if prpage = 0 then kreturn 0 else
        kbind (kassert (prpage mod PAGE_SIZE = 0)) (\<lambda>_.
        kbind allocpageref (\<lambda>pr.
        if pr = 0 then kbind (free_kpages prpage) (\<lambda>_. kreturn 0) else
        kbind (carve_page pr prpage b) (\<lambda>_. doalloc pr)))) s"
      using fp bt by (simp add: subpage_kmalloc_def krun kbind_eq)
    show ?thesis
      unfolding run by (rule fresh_kmalloc_heap [OF inv b])
  qed
qed

subsection \<open>Removing a page\<close>

lemma upd_link_frame [simp]:
  "kmem (upd_link m v s) = kmem s" "kheaproots (upd_link m v s) = kheaproots s"
  "firstpaddr (upd_link m v s) = firstpaddr s" "lastpaddr (upd_link m v s) = lastpaddr s"
  "pa (upd_link m v s) q = pa s q" "bt (upd_link m v s) q = bt s q"
  "length (sizebases (upd_link m v s)) = length (sizebases s)"
  by (cases m; simp add: pa_def bt_def PR_PAGEADDR_def PR_BLOCKTYPE_def)+

lemma upd_link_page_ok [simp]:
  "page_ok M (pagerefs (upd_link m v s) q) ks = page_ok M (pagerefs s q) ks"
  by (rule page_ok_cong) (cases m; simp)+

lemma upd_samesize_frame:
  assumes "m = SizeBase b \<or> m = NextSamesize g"
  shows "allbase (upd_link m v s) = allbase s" "next_all (pagerefs (upd_link m v s) q) = next_all (pagerefs s q)"
    "c \<noteq> b \<Longrightarrow> sizebases (upd_link m v s) ! c = sizebases s ! c"
    "q \<noteq> g \<Longrightarrow> next_samesize (pagerefs (upd_link m v s) q) = next_samesize (pagerefs s q)"
  using assms by auto

lemma upd_all_frame:
  assumes "m = AllBase \<or> m = NextAll g"
  shows "sizebases (upd_link m v s) = sizebases s"
    "next_samesize (pagerefs (upd_link m v s) q) = next_samesize (pagerefs s q)"
  using assms by auto

lemma unlink_samesize:
  assumes ls: "lists_ok s ps" and p: "p \<in> set ps" and b: "bt s p < 8" and n: "length ps \<le> n"
  shows "\<exists>m v. unlink n p (SizeBase (bt s p)) s = (Inr (), upd_link m v s)
    \<and> link_list AllBase (upd_link m v s) ps
    \<and> (\<forall>c<8. link_list (SizeBase c) (upd_link m v s) (remove1 p (filter (\<lambda>q. bt s q = c) ps)))"
proof -
  let ?b = "bt s p" and ?qs = "filter (\<lambda>q. bt s q = bt s p) ps"
  have "\<exists>m. (m = SizeBase ?b \<or> m \<in> step_link (SizeBase ?b) ` set ?qs)
      \<and> unlink n p (SizeBase ?b) s = (Inr (), upd_link m (link_next (SizeBase ?b) (pagerefs s p)) s)
      \<and> link_list (SizeBase ?b) (upd_link m (link_next (SizeBase ?b) (pagerefs s p)) s) (remove1 p ?qs)"
    using ls p b order_trans [OF length_filter_le n] by (intro unlink_list) (auto simp: lists_ok_def)
  then obtain m where m: "m = SizeBase ?b \<or> m \<in> NextSamesize ` set ?qs"
    and run: "unlink n p (SizeBase ?b) s = (Inr (), upd_link m (next_samesize (pagerefs s p)) s)"
    and l: "link_list (SizeBase ?b) (upd_link m (next_samesize (pagerefs s p)) s) (remove1 p ?qs)"
    by auto
  obtain g where g: "m = SizeBase ?b \<or> m = NextSamesize g" "bt s g = ?b" using m by auto
  let ?t = "upd_link m (next_samesize (pagerefs s p)) s"
  note f = upd_samesize_frame [OF g(1)]
  have "link_list AllBase ?t ps"
    using ls by (simp add: lists_ok_def f)
  moreover have "link_list (SizeBase c) ?t (remove1 p (filter (\<lambda>q. bt s q = c) ps))" if c: "c < 8" for c
  proof (cases "c = ?b")
    case False
    have "plist (\<lambda>q. next_samesize (pagerefs ?t q)) (sizebases s ! c) (filter (\<lambda>q. bt s q = c) ps)"
    proof (subst plist_cong)
      show "next_samesize (pagerefs ?t q) = next_samesize (pagerefs s q)"
        if "q \<in> set (filter (\<lambda>q. bt s q = c) ps)" for q
        using that False g(2) by (intro f(4)) auto
    qed (use ls c in \<open>simp add: lists_ok_def\<close>)
    then have "plist (\<lambda>q. next_samesize (pagerefs ?t q)) (sizebases ?t ! c) (filter (\<lambda>q. bt s q = c) ps)"
      by (simp only: f(3) [OF False])
    then show ?thesis using False by (simp add: remove1_idem)
  qed (use l in simp)
  ultimately show ?thesis using run by blast
qed

lemma remove_lists_ok:
  assumes ls: "lists_ok s ps" and p: "p \<in> set ps" and b: "bt s p < 8" and n: "length ps \<le> TOTAL_PAGEREFS"
  shows "\<exists>m v m' v'. remove_lists p (bt s p) s = (Inr (), upd_link m' v' (upd_link m v s))
    \<and> lists_ok (upd_link m' v' (upd_link m v s)) (remove1 p ps)"
proof -
  obtain m v where run: "unlink TOTAL_PAGEREFS p (SizeBase (bt s p)) s = (Inr (), upd_link m v s)"
    and all: "link_list AllBase (upd_link m v s) ps"
    and sz: "\<And>c. c < 8 \<Longrightarrow> link_list (SizeBase c) (upd_link m v s) (remove1 p (filter (\<lambda>q. bt s q = c) ps))"
    using unlink_samesize [OF ls p b n] by blast
  let ?t = "upd_link m v s"
  have "\<exists>m'. (m' = AllBase \<or> m' \<in> step_link AllBase ` set ps)
      \<and> unlink TOTAL_PAGEREFS p AllBase ?t = (Inr (), upd_link m' (link_next AllBase (pagerefs ?t p)) ?t)
      \<and> link_list AllBase (upd_link m' (link_next AllBase (pagerefs ?t p)) ?t) (remove1 p ps)"
    using ls p n all by (intro unlink_list) (auto simp: lists_ok_def)
  then obtain m' v' where m': "m' = AllBase \<or> m' \<in> NextAll ` set ps"
    and run': "unlink TOTAL_PAGEREFS p AllBase ?t = (Inr (), upd_link m' v' ?t)"
    and all': "link_list AllBase (upd_link m' v' ?t) (remove1 p ps)"
    by auto
  obtain g where g: "m' = AllBase \<or> m' = NextAll g" using m' by auto
  have "lists_ok (upd_link m' v' ?t) (remove1 p ps)"
    using ls all' sz by (simp add: lists_ok_def filter_remove1 upd_all_frame [OF g])
  moreover have "remove_lists p (bt s p) s = (Inr (), upd_link m' v' ?t)"
    using b run run' by (simp add: remove_lists_def krun kbind_eq)
  ultimately show ?thesis by blast
qed

lemma heap_inv_lists:
  assumes inv: "heap_inv s ps F X" and ls: "lists_ok (upd_link m' v' (upd_link m v s)) (remove1 p ps)"
    and fr: "roots_ok t" "t = (upd_link m' v' (upd_link m v s))\<lparr>kheaproots := rs\<rparr>"
    and used: "used_refs t = set ps - {p}" and rp: "root_pages t = root_pages s" and X: "X \<subseteq> {p}"
  shows "heap_ok t (remove1 p ps) F" and "live t (remove1 p ps) F = (\<Union>q\<in>set ps - {p}. page_live (pa s q) (bt s q) (F q))"
proof -
  let ?u = "upd_link m' v' (upd_link m v s)"
  have d: "distinct ps" and pg: "pages_ok s ps F X" using inv by (simp_all add: heap_inv_def lists_ok_def)
  have same: "pa t q = pa s q" "bt t q = bt s q" "kpage t a = kpage s a" for q a
    by (simp_all add: fr(2) kpage_def pa_def [of "?u\<lparr>kheaproots := rs\<rparr>"]
        bt_def [of "?u\<lparr>kheaproots := rs\<rparr>"] flip: pa_def [of ?u] bt_def [of ?u])
  have sub: "set (remove1 p ps) = set ps - {p}" using d by (rule set_remove1_eq)
  show "live t (remove1 p ps) F = (\<Union>q\<in>set ps - {p}. page_live (pa s q) (bt s q) (F q))"
    by (simp add: live_def sub same)
  have "lists_ok t (remove1 p ps)"
    by (rule lists_ok_cong [OF ls]) (simp_all add: fr(2) bt_def)
  moreover have "pages_ok t (remove1 p ps) F {}"
  proof -
    have "page_ok (kmem t) (pagerefs t q) (F q)" if "q \<in> set ps" for q
      using page_of(1) [OF pg that] by (simp add: fr(2))
    moreover have "inj_on (pa t) (set ps - {p})" "pa t ` (set ps - {p}) \<inter> root_pages t = {}"
      using pg by (auto simp: pages_ok_def same rp inj_on_def)
    ultimately show ?thesis
      unfolding pages_ok_def sub same using pg X by (auto simp: pages_ok_def)
  qed
  moreover have "ram_ok t"
    using inv ram_ok_cong [of t s] by (simp add: heap_inv_def fr(2))
  ultimately show "heap_ok t (remove1 p ps) F"
    using fr(1) used sub by (simp add: heap_inv_def)
qed

lemma remove_page_heap:
  assumes inv: "heap_inv s ps F X" and p: "p \<in> set ps" and X: "X \<subseteq> {p}"
  shows "\<exists>t. kbind (remove_lists p (bt s p)) (\<lambda>_. freepageref p) s = (Inr (), t)
    \<and> heap_ok t (remove1 p ps) F \<and> kmem t = kmem s
    \<and> live t (remove1 p ps) F = (\<Union>q\<in>set ps - {p}. page_live (pa s q) (bt s q) (F q))"
proof -
  have ls: "lists_ok s ps" and pg: "pages_ok s ps F X" and ram: "ram_ok s" and roots: "roots_ok s"
    and used: "used_refs s = set ps"
    using inv by (simp_all add: heap_inv_def)
  obtain m v m' v' where run: "remove_lists p (bt s p) s = (Inr (), upd_link m' v' (upd_link m v s))"
    and ls': "lists_ok (upd_link m' v' (upd_link m v s)) (remove1 p ps)"
    using remove_lists_ok [OF ls p page_of(3) [OF pg p] heap_pagerefs_bound [OF inv]] by blast
  let ?u = "upd_link m' v' (upd_link m v s)"
  have roots_u: "roots_ok ?u" by (rule roots_ok_frame [OF roots]) simp_all
  have ram_u: "ram_ok ?u" using ram ram_ok_cong [of ?u s] by simp
  have u: "used_refs ?u = used_refs s" "root_pages ?u = root_pages s"
    by (simp_all add: used_refs_def root_pages_def)
  obtain rs t where t: "freepageref p ?u = (Inr (), t)" "t = ?u\<lparr>kheaproots := rs\<rparr>" "roots_ok t"
    "used_refs t = used_refs ?u - {p}" "root_pages t = root_pages ?u"
    using freepageref_used [OF roots_u ram_u, of p] p used u(1) by blast
  note h = heap_inv_lists [OF inv ls' t(3,2), unfolded t(4,5) u used, OF refl refl X]
  show ?thesis
    using h t(1) run by (intro exI [of _ t]) (simp add: kbind_eq t(2))
qed

subsection \<open>kfree\<close>

definition free_mem :: "vaddr \<Rightarrow> nat \<Rightarrow> nat \<Rightarrow> nat list \<Rightarrow> (vaddr \<Rightarrow> u32) \<Rightarrow> vaddr \<Rightarrow> u32" where
  "free_mem a b k ks m = (fill_mem (blk a b k) (bsize b div 4) m)
     (blk a b k := (case ks of [] \<Rightarrow> 0 | j # _ \<Rightarrow> blk a b j))"

lemma free_mem_outside: "b < 8 \<Longrightarrow> \<not> in_block a b k x \<Longrightarrow> free_mem a b k ks m x = m x"
  using blk_in_block [of b a k] fill_block_words [of b _ a k]
  by (auto simp: free_mem_def intro!: fill_mem_other)

lemma free_mem_deadbeef:
  assumes "page_aligned a" "b < 8" "k < nblocks b" "0 < i" "i < bsize b div 4"
  shows "free_mem a b k ks m (blk a b k + 4 * of_nat i) = 0xdeadbeef"
proof -
  have i4: "4 * i < bsize b" using assms(5) bsize_facts(4) [OF assms(2)] by auto
  have "blk a b k + 4 * of_nat i = block_addr a b k (4 * i)"
    by (simp add: blk_def block_addr_def)
  moreover have "block_addr a b k (4 * i) \<noteq> block_addr a b k 0"
    using block_addr_inject [OF assms(1-3) i4 assms(1-3), of 0] assms(4) bsize_facts(2) [OF assms(2)] by auto
  ultimately show ?thesis
    using fill_mem_inside [OF assms(5), of "blk a b k" m] by (simp add: free_mem_def block_addr_0)
qed

lemma find_owner_live:
  assumes inv: "heap_inv s ps F X" and p: "p \<in> set ps" and x: "x AND PAGE_FRAME = pa s p"
  shows "find_owner TOTAL_PAGEREFS x (allbase s) s = (Inr p, s)"
proof -
  have pg: "pages_ok s ps F X" and ls: "lists_ok s ps" and ram: "ram_ok s"
    using inv by (simp_all add: heap_inv_def)
  have "List.find (holds_addr s x) ps = Some p"
  proof -
    have uniq: "holds_addr s x q \<longleftrightarrow> q = p" if "q \<in> set ps" for q
      using pa_inject [OF pg p that] x by (auto simp: holds_addr_def)
    show ?thesis
      using p uniq by (induction ps) auto
  qed
  moreover have "plist (\<lambda>q. next_all (pagerefs s q)) (allbase s) ps"
    using ls by (simp add: lists_ok_def)
  ultimately show ?thesis
    using find_owner_eq [OF _ heap_pagerefs_bound [OF inv] ram] page_of(2,3) [OF pg] by simp
qed

lemma subpage_kfree_run:
  assumes inv: "heap_ok s ps F" and p: "p \<in> set ps" and k: "k < nblocks (bt s p)" "k \<notin> set (F p)"
  defines "t \<equiv> s\<lparr>kmem := free_mem (pa s p) (bt s p) k (F p) (kmem s),
      pagerefs := (pagerefs s)(p := freed (pagerefs s p) k)\<rparr>"
  shows "subpage_kfree (blk (pa s p) (bt s p) k) s =
    (if Suc (length (F p)) = nblocks (bt s p)
     then kbind (kbind (remove_lists p (bt s p)) (\<lambda>_. freepageref p)) (\<lambda>_. kreturn 0) t
     else (Inr 0, t))"
proof -
  let ?a = "pa s p" and ?b = "bt s p" and ?r = "pagerefs s p"
  let ?x = "blk ?a ?b k" and ?sz = "sizes ! ?b"
  have pg: "pages_ok s ps F {}" using inv by (simp add: heap_inv_def)
  have al: "page_aligned ?a" and b: "?b < 8" and ok: "page_ok (kmem s) ?r (F p)"
    using page_of [OF pg p] by simp_all
  note bf = blk_facts [OF al b k(1)] and sf = bsize_facts [OF b]
  have p0: "p \<noteq> 0" using inv p by (auto simp: heap_inv_def lists_ok_def dest: plist_nonzero)
  have fo: "find_owner TOTAL_PAGEREFS ?x (allbase s) s = (Inr p, s)"
    by (rule find_owner_live [OF inv p bf(1)])
  have off: "?x - ?a = of_nat (boff ?b k)" by (rule bf(3))
  have lt: "\<not> PAGE_SIZE \<le> of_nat (boff ?b k)"
    using bf(4,5) by (simp add: word_le_nat_alt PAGE_SIZE_def)
  have md: "of_nat (boff ?b k) mod ?sz = 0"
  proof -
    have "unat (of_nat (boff ?b k) mod ?sz) = boff ?b k mod bsize ?b"
      using bf(4) by (simp add: unat_mod bsize_def)
    then show ?thesis by (simp add: word_unat_eq_iff boff_def)
  qed
  have nf: "unat (nfree ?r) = length (F p)" and fl: "freelist_offset ?r =
      (case F p of [] \<Rightarrow> INVALID_OFFSET | j # _ \<Rightarrow> of_nat (boff ?b j))"
    unfolding bt_def using ok by (simp_all add: page_ok_def)
  let ?s1 = "s\<lparr>kmem := fill_mem ?x (bsize ?b div 4) (kmem s)\<rparr>"
  let ?s2 = "s\<lparr>kmem := free_mem ?a ?b k (F p) (kmem s)\<rparr>"
  have link: "(if freelist_offset ?r = INVALID_OFFSET then set_word ?x 0
            else let nx = ?a + ucast (freelist_offset ?r) in
              kbind (set_word ?x nx) (\<lambda>_. kassert (of_nat (boff ?b k) \<noteq> (ucast (freelist_offset ?r) :: u32)))) ?s1 = (Inr (), ?s2)"
  proof (cases "F p")
    case Nil
    then show ?thesis using fl by (simp add: set_run free_mem_def)
  next
    case (Cons j js)
    then have j: "j < nblocks ?b" "j \<noteq> k" using ok k(2) by (auto simp: page_ok_def bt_def)
    have o: "ucast (freelist_offset ?r) = (of_nat (boff ?b j) :: u32)" "unat (freelist_offset ?r) = boff ?b j"
      using fl Cons ucast_offset(1,2) [OF blk_facts(5) [OF al b j(1)]] by simp_all
    have "freelist_offset ?r \<noteq> INVALID_OFFSET"
      using o(2) blk_facts(5) [OF al b j(1)] by (auto simp: INVALID_OFFSET_def)
    moreover have "?x \<noteq> blk ?a ?b j" using j k(1) by (simp add: blk_inject [OF al b])
    moreover from this have "of_nat (boff ?b k) \<noteq> (of_nat (boff ?b j) :: u32)"
      by (simp add: blk_def)
    ultimately show ?thesis
      using Cons by (simp add: Let_def o(1) set_run krun free_mem_def flip: blk_def)
  qed
  have fr: "?r\<lparr>freelist_offset := ucast (of_nat (boff ?b k) :: u32), nfree := nfree ?r + 1\<rparr> = freed ?r k"
    using ucast_offset(3) [OF bf(5)] by (simp add: freed_def bt_def)
  have "length (F p) \<le> 256" using length_free_le [OF ok] sf(7) by (simp add: bt_def)
  then have nf': "unat (nfree (freed ?r k)) = Suc (length (F p))"
    using nf unat_succ_u16 [of "nfree ?r"] by (simp add: freed_def)
  have cnt: "ucast (nfree (freed ?r k)) = (of_nat (Suc (length (F p))) :: u32)"
    unfolding nf' [symmetric] by simp
  have le: "Suc (length (F p)) \<le> nblocks ?b"
    using inv p by (auto simp: heap_inv_def pages_ok_def)
  have cmp: "(of_nat (Suc (length (F p))) :: u32) \<le> of_nat (nblocks ?b)"
    "(of_nat (Suc (length (F p))) :: u32) = of_nat (nblocks ?b) \<longleftrightarrow> Suc (length (F p)) = nblocks ?b"
  proof -
    have "unat (of_nat (Suc (length (F p))) :: u32) = Suc (length (F p))"
      "unat (of_nat (nblocks ?b) :: u32) = nblocks ?b"
      using le sf(7) by (intro unat_of_nat_u32, simp)+
    then show "(of_nat (Suc (length (F p))) :: u32) \<le> of_nat (nblocks ?b)"
      "(of_nat (Suc (length (F p))) :: u32) = of_nat (nblocks ?b) \<longleftrightarrow> Suc (length (F p)) = nblocks ?b"
      using le by (simp_all only: word_le_nat_alt word_unat_eq_iff)
  qed
  have "subpage_kfree ?x s = kbind (if freelist_offset ?r = INVALID_OFFSET then set_word ?x 0
            else let nx = ?a + ucast (freelist_offset ?r) in
              kbind (set_word ?x nx) (\<lambda>_. kassert (of_nat (boff ?b k) \<noteq> (ucast (freelist_offset ?r) :: u32)))) (\<lambda>_.
     kbind (set_pageref p (\<lambda>r. r\<lparr>freelist_offset := ucast (of_nat (boff ?b k) :: u32), nfree := nfree r + 1\<rparr>)) (\<lambda>_.
     kbind (kget (\<lambda>s. nfree (pagerefs s p))) (\<lambda>nf.
     kbind (kassert (ucast nf \<le> PAGE_SIZE div ?sz)) (\<lambda>_.
     if ucast nf = PAGE_SIZE div ?sz then
       kbind (remove_lists p ?b) (\<lambda>_. kbind (freepageref p) (\<lambda>_. kbind (free_kpages ?a) (\<lambda>_. kreturn 0)))
     else kreturn 0)))) ?s1"
    using p0 lt md
    by (simp add: subpage_kfree_def krun kbind_eq [of "find_owner TOTAL_PAGEREFS ?x (allbase s)", OF fo]
        kbind_eq [of "fill_deadbeef ?x ?sz", OF fill_deadbeef_eq] Let_def off unat_sizes_div [OF b]
        flip: pa_def bt_def blk_def cong: if_cong)
  also have "\<dots> = kbind (set_pageref p (\<lambda>r. r\<lparr>freelist_offset := ucast (of_nat (boff ?b k) :: u32), nfree := nfree r + 1\<rparr>)) (\<lambda>_.
     kbind (kget (\<lambda>s. nfree (pagerefs s p))) (\<lambda>nf.
     kbind (kassert (ucast nf \<le> PAGE_SIZE div ?sz)) (\<lambda>_.
     if ucast nf = PAGE_SIZE div ?sz then
       kbind (remove_lists p ?b) (\<lambda>_. kbind (freepageref p) (\<lambda>_. kbind (free_kpages ?a) (\<lambda>_. kreturn 0)))
     else kreturn 0))) ?s2"
    by (rule kbind_eq, rule link, rule refl)
  also have "\<dots> = (if Suc (length (F p)) = nblocks ?b
     then kbind (kbind (remove_lists p ?b) (\<lambda>_. freepageref p)) (\<lambda>_. kreturn 0) t else (Inr 0, t))"
    using cmp unfolding free_kpages_def kreturn_bind kbind_assoc
    by (simp add: heap_run fr cnt sf(8) t_def del: of_nat_Suc)
  finally show ?thesis .
qed

text \<open>What freeing a block guarantees.\<close>

definition block_freed :: "'a kheap_scheme \<Rightarrow> (vaddr \<times> nat) set \<Rightarrow> vaddr \<times> nat \<Rightarrow> 'a kheap_scheme
    \<Rightarrow> (vaddr \<times> nat) set \<Rightarrow> bool" where
  "block_freed s L B s' L' \<longleftrightarrow> L' = L - {B}
     \<and> (\<forall>(x, n)\<in>L'. \<forall>d<n. kmem s' (x + of_nat d) = kmem s (x + of_nat d))
     \<and> (\<forall>i. 0 < i \<and> i < snd B div 4 \<longrightarrow> kmem s' (fst B + 4 * of_nat i) = 0xdeadbeef)"

lemma page_live_free:
  assumes "page_aligned a" "b < 8" "k < nblocks b"
  shows "page_live a b (k # ks) = page_live a b ks - {(blk a b k, bsize b)}"
  using blk_inject [OF assms(1,2)] assms(3) by (auto simp: page_live_def)

lemma block_of_other_page:
  assumes pg: "pages_ok s ps F X" and p: "p \<in> set ps" "k < nblocks (bt s p)"
    and q: "q \<in> set ps" "q \<noteq> p"
  shows "(blk (pa s p) (bt s p) k, z) \<notin> page_live (pa s q) (bt s q) ks"
proof
  assume "(blk (pa s p) (bt s p) k, z) \<in> page_live (pa s q) (bt s q) ks"
  then obtain j where j: "j < nblocks (bt s q)" "blk (pa s p) (bt s p) k = blk (pa s q) (bt s q) j"
    by (auto simp: page_live_def)
  have "pa s p = pa s q"
    using j(2) blk_facts(1) [OF page_of(4,3) [OF pg p(1)] p(2)]
      blk_facts(1) [OF page_of(4,3) [OF pg q(1)] j(1)] by simp
  then show False using pa_inject [OF pg p(1) q(1)] q(2) by simp
qed

lemma live_free:
  assumes pg: "pages_ok s ps F X" and p: "p \<in> set ps" and k: "k < nblocks (bt s p)"
  shows "live s ps F - {(blk (pa s p) (bt s p) k, bsize (bt s p))} =
    page_live (pa s p) (bt s p) (k # F p) \<union> (\<Union>q\<in>set ps - {p}. page_live (pa s q) (bt s q) (F q))"
  unfolding live_split [OF p, of s F] page_live_free [OF page_of(4,3) [OF pg p] k]
  using block_of_other_page [OF pg p k] by blast

lemma live_disjoint_memory:
  assumes pg: "pages_ok s ps F X" and p: "p \<in> set ps" "k < nblocks (bt s p)"
    and x: "(x, n) \<in> live s ps F" "(x, n) \<noteq> (blk (pa s p) (bt s p) k, bsize (bt s p))" "d < n"
  shows "\<not> in_block (pa s p) (bt s p) k (x + of_nat d)"
proof
  assume inb: "in_block (pa s p) (bt s p) k (x + of_nat d)"
  obtain q j where q: "q \<in> set ps" "j < nblocks (bt s q)" "x = blk (pa s q) (bt s q) j" "n = bsize (bt s q)"
    using x(1) by (auto simp: live_def page_live_def)
  have inq: "in_block (pa s q) (bt s q) j (x + of_nat d)"
    using x(3) q(3,4) by (auto simp: in_block_def block_addr_plus)
  have "pa s q = pa s p"
    using in_block_page [OF page_of(4,3) [OF pg p(1)] p(2) inb]
      in_block_page [OF page_of(4,3) [OF pg q(1)] q(2) inq] by simp
  then have "q = p" using pa_inject [OF pg q(1) p(1)] by simp
  moreover from this have "j \<noteq> k" using x(2) q by auto
  ultimately show False
    using in_block_disjoint [OF page_of(4,3) [OF pg p(1)] p(2) _ _ inb, of j] inq q(2) by auto
qed

theorem subpage_kfree_heap:
  assumes inv: "heap_ok s ps F" and B: "B \<in> live s ps F"
  shows "\<exists>s' ps' F'. subpage_kfree (fst B) s = (Inr 0, s') \<and> heap_ok s' ps' F'
    \<and> block_freed s (live s ps F) B s' (live s' ps' F')"
proof -
  have pg: "pages_ok s ps F {}" using inv by (simp add: heap_inv_def)
  obtain p k where p: "p \<in> set ps" and k: "k < nblocks (bt s p)" "k \<notin> set (F p)"
    and Beq: "B = (blk (pa s p) (bt s p) k, bsize (bt s p))"
    using B by (auto simp: live_def page_live_def)
  define m where "m = free_mem (pa s p) (bt s p) k (F p) (kmem s)"
  define t where "t = s\<lparr>kmem := m, pagerefs := (pagerefs s)(p := freed (pagerefs s p) k)\<rparr>"
  note run = subpage_kfree_run [OF inv p k, folded m_def, folded t_def]
  have b: "bt s p < 8" and ok: "page_ok (kmem s) (pagerefs s p) (F p)" using page_of [OF pg p] by simp_all
  have mem: "m x = kmem s x" if "\<not> in_block (pa s p) (bt s p) k x" for x
    unfolding m_def by (rule free_mem_outside [OF b that])
  have "page_ok m (freed (pagerefs s p) k) (k # F p)"
    using page_ok_freed [OF ok, of k m] k mem by (simp add: pa_def bt_def m_def free_mem_def)
  moreover have "m x = kmem s x" if "x AND PAGE_FRAME \<noteq> pa s p" for x
    using that in_block_page [OF page_of(4) [OF pg p] b k(1)] by (intro mem) auto
  ultimately have upd: "heap_inv t ps (F(p := k # F p)) Y"
    if "p \<in> Y \<or> Suc (length (F p)) < nblocks (bt s p)" for Y
    using that by (intro heap_inv_page_update [OF inv p t_def]) (simp_all)
  have same: "pa t q = pa s q" "bt t q = bt s q" for q
    by (simp_all add: t_def pa_def bt_def)
  have lv: "live s ps F - {B} = page_live (pa s p) (bt s p) (k # F p) \<union> (\<Union>q\<in>set ps - {p}. page_live (pa s q) (bt s q) (F q))"
    unfolding Beq by (rule live_free [OF pg p k(1)])
  have frame: "\<forall>(x, n)\<in>live s ps F - {B}. \<forall>d<n. m (x + of_nat d) = kmem s (x + of_nat d)"
    using live_disjoint_memory [OF pg p k(1)] mem unfolding Beq by blast
  have beef: "\<forall>i. 0 < i \<and> i < snd B div 4 \<longrightarrow> m (fst B + 4 * of_nat i) = 0xdeadbeef"
    using free_mem_deadbeef [OF page_of(4) [OF pg p] b k(1)] by (simp add: Beq m_def)
  have "kmem t = m" by (simp add: t_def)
  then have freed: "block_freed s (live s ps F) B s' L'" if "kmem s' = kmem t" "L' = live s ps F - {B}"
    for s' :: "'a kheap_scheme" and L'
    using that frame beef by (simp add: block_freed_def)
  show ?thesis
  proof (cases "Suc (length (F p)) = nblocks (bt s p)")
    case True
    have "heap_inv t ps (F(p := k # F p)) {p}" by (rule upd) simp
    from remove_page_heap [OF this p] obtain u where
      u: "kbind (remove_lists p (bt t p)) (\<lambda>_. freepageref p) t = (Inr (), u)"
      "heap_ok u (remove1 p ps) (F(p := k # F p))" "kmem u = kmem t"
      "live u (remove1 p ps) (F(p := k # F p)) =
        (\<Union>q\<in>set ps - {p}. page_live (pa t q) (bt t q) ((F(p := k # F p)) q))"
      by auto
    have "page_live (pa s p) (bt s p) (k # F p) = {}"
    proof -
      have okt: "page_ok (kmem t) (pagerefs t p) (k # F p)"
        using page_of(1) [of t ps "F(p := k # F p)" "{p}" p] upd [of "{p}"] p by (simp add: heap_inv_def)
      then have sub: "set (k # F p) \<subseteq> {..<nblocks (bt s p)}" and d: "distinct (k # F p)"
        using same(2) [of p] unfolding page_ok_def bt_def by auto
      have "card (set (k # F p)) = nblocks (bt s p)"
        using distinct_card [OF d] True by simp
      then have "set (k # F p) = {..<nblocks (bt s p)}"
        using sub by (intro card_subset_eq) simp_all
      then show ?thesis by (auto simp: page_live_def)
    qed
    then have "live u (remove1 p ps) (F(p := k # F p)) = live s ps F - {B}"
      using u(4) unfolding lv by (simp add: same)
    moreover from this have "block_freed s (live s ps F) B u (live u (remove1 p ps) (F(p := k # F p)))"
      by (rule freed [OF u(3)])
    moreover have "subpage_kfree (fst B) s = (Inr 0, u)"
      using run True u(1) by (simp add: same Beq kbind_eq krun)
    ultimately show ?thesis using u(2) by blast
  next
    case False
    then have "Suc (length (F p)) < nblocks (bt s p)"
      using pg p by (auto simp: pages_ok_def Suc_lessI)
    then have "heap_ok t ps (F(p := k # F p))" by (intro upd) simp
    moreover have "live t ps (F(p := k # F p)) = live s ps F - {B}"
      unfolding lv by (simp add: live_split [OF p] same)
    moreover from this have "block_freed s (live s ps F) B t (live t ps (F(p := k # F p)))"
      by (intro freed) simp_all
    moreover have "subpage_kfree (fst B) s = (Inr 0, t)"
      using run False by (simp add: Beq)
    ultimately show ?thesis by blast
  qed
qed

subsection \<open>The state determines the lists\<close>

lemma free_chain_Cons:
  "free_chain m at (k # ks) \<Longrightarrow> m (at k) = (case ks of [] \<Rightarrow> 0 | j # _ \<Rightarrow> at j)"
  "free_chain m at (k # ks) \<Longrightarrow> free_chain m at ks"
  by simp_all

lemma free_chain_unique:
  assumes "free_chain m at (k # ks)" "free_chain m at (k # ks')"
    and "\<forall>i\<in>set ks \<union> set ks'. at i \<noteq> 0" and "inj_on at (set ks \<union> set ks')"
  shows "ks = ks'"
  using assms
proof (induction ks arbitrary: k ks')
  case Nil
  note h = free_chain_Cons(1) [OF Nil.prems(1)] free_chain_Cons(1) [OF Nil.prems(2)]
  show ?case
  proof (cases ks')
    case (Cons j' js')
    then have "at j' = 0" using h by simp
    then show ?thesis using Nil.prems(3) Cons by simp
  qed simp
next
  case (Cons j js)
  note h = free_chain_Cons(1) [OF Cons.prems(1)] free_chain_Cons(1) [OF Cons.prems(2)]
  have nz: "at j \<noteq> 0" using Cons.prems(3) by simp
  have e: "at j = (case ks' of [] \<Rightarrow> 0 | i # _ \<Rightarrow> at i)"
    using h by (simp only: list.case)
  then obtain j' js' where ks': "ks' = j' # js'" using nz by (cases ks') simp_all
  have "at j = at j'" using e ks' by simp
  then have jj: "j' = j"
    by (intro inj_onD [OF Cons.prems(4), of j' j]) (simp_all add: ks')
  have "js = js'"
  proof (rule Cons.IH)
    show "free_chain m at (j # js)" using free_chain_Cons(2) [OF Cons.prems(1)] .
    show "free_chain m at (j # js')" using free_chain_Cons(2) [OF Cons.prems(2)] unfolding ks' jj .
    show "\<forall>i\<in>set js \<union> set js'. at i \<noteq> 0" using Cons.prems(3) unfolding ks' by simp
    show "inj_on at (set js \<union> set js')"
      by (rule inj_on_subset [OF Cons.prems(4)]) (auto simp: ks')
  qed
  then show ?case using jj ks' by simp
qed

lemma page_ok_unique:
  assumes ok: "page_ok m r ks" "page_ok m r ks'" and a: "2147483648 \<le> unat (PR_PAGEADDR r)"
  shows "ks = ks'"
proof -
  let ?a = "PR_PAGEADDR r" and ?b = "ptype r"
  have b: "?b < 8" and sub: "set ks \<union> set ks' \<subseteq> {..<nblocks ?b}"
    and len: "length ks = length ks'"
    using ok by (auto simp: page_ok_def)
  have nz: "blk ?a ?b i \<noteq> 0" if "i < nblocks ?b" for i
    by (rule blk_nonzero [OF page_aligned_PAGEADDR b that a])
  have inj: "inj_on (blk ?a ?b) {..<nblocks ?b}"
    by (auto simp: inj_on_def blk_inject [OF page_aligned_PAGEADDR b])
  show ?thesis
  proof (cases ks)
    case Nil
    then show ?thesis using len by simp
  next
    case (Cons k js)
    then obtain k' js' where ks': "ks' = k' # js'" using len by (cases ks') auto
    have k: "k < nblocks ?b" "k' < nblocks ?b" using sub Cons ks' by auto
    have "of_nat (boff ?b k) = (of_nat (boff ?b k') :: u16)"
      using ok Cons ks' by (simp add: page_ok_def)
    then have "unat (of_nat (boff ?b k) :: u16) = unat (of_nat (boff ?b k') :: u16)" by simp
    then have "boff ?b k = boff ?b k'"
      unfolding ucast_offset(2) [OF blk_facts(5) [OF page_aligned_PAGEADDR [of r] b k(1)]]
        ucast_offset(2) [OF blk_facts(5) [OF page_aligned_PAGEADDR [of r] b k(2)]] .
    then have kk: "k' = k" using bsize_facts(2) [OF b] by (simp add: boff_def)
    have "js = js'"
    proof (rule free_chain_unique [of m "blk ?a ?b" k])
      show "free_chain m (blk ?a ?b) (k # js)" using ok(1) unfolding page_ok_def Cons by blast
      show "free_chain m (blk ?a ?b) (k # js')" using ok(2) unfolding page_ok_def ks' kk by blast
      show "\<forall>i\<in>set js \<union> set js'. blk ?a ?b i \<noteq> 0"
        using sub Cons ks' by (intro ballI nz) auto
      show "inj_on (blk ?a ?b) (set js \<union> set js')"
        by (rule inj_on_subset [OF inj]) (use sub Cons ks' in auto)
    qed
    then show ?thesis using Cons ks' kk by simp
  qed
qed

definition kheap_ok :: "'a kheap_scheme \<Rightarrow> bool" where
  "kheap_ok s \<longleftrightarrow> (\<exists>ps F. heap_ok s ps F)"

text \<open>The blocks handed out, as a function of the state.\<close>

definition live_blocks :: "'a kheap_scheme \<Rightarrow> (vaddr \<times> nat) set" where
  "live_blocks s = (\<Union>{live s ps F | ps F. heap_ok s ps F})"

lemma heap_ok_unique:
  assumes h: "heap_ok s ps F" "heap_ok s qs G"
  shows "live s ps F = live s qs G"
proof -
  have "ps = qs"
    using h plist_unique [of "\<lambda>q. next_all (pagerefs s q)" "allbase s" ps qs]
    by (simp add: heap_inv_def lists_ok_def)
  moreover have "F p = G p" if "p \<in> set ps" for p
  proof (rule page_ok_unique)
    have pg: "pages_ok s ps F {}" "pages_ok s ps G {}"
      using h \<open>ps = qs\<close> by (simp_all add: heap_inv_def)
    show "page_ok (kmem s) (pagerefs s p) (F p)" "page_ok (kmem s) (pagerefs s p) (G p)"
      using page_of(1) [OF pg(1) that] page_of(1) [OF pg(2) that] by simp_all
    show "2147483648 \<le> unat (PR_PAGEADDR (pagerefs s p))"
      using page_of(5) [OF pg(1) that] by (simp add: pa_def)
  qed
  ultimately show ?thesis using live_cong [of ps s s F G] by simp
qed

lemma live_blocks_eq: "heap_ok s ps F \<Longrightarrow> live_blocks s = live s ps F"
  unfolding live_blocks_def using heap_ok_unique [of s ps F] by blast

end
