(* ===== verification/Kheap.thy ===== *)
theory Kheap
  imports KmallocHeap
begin

text \<open>
  What kmalloc and kfree promise to their callers. The locale \<open>block_allocator\<close> is the
  contract of an allocator over an abstract set of blocks; its clients' facts (what is
  allocated and freed again leaves no trace, blocks handed out one after the other are
  distinct) are proved once in it, and the interpretation on the code's model discharges the
  laws with the theorems of \<open>KmallocHeap\<close>.
\<close>

subsection \<open>The contract\<close>

fun kmap :: "('a \<Rightarrow> ('s, 'b) kernel) \<Rightarrow> 'a list \<Rightarrow> ('s, 'b list) kernel" where
  "kmap f [] = kreturn []"
| "kmap f (x # xs) = kbind (f x) (\<lambda>y. kbind (kmap f xs) (\<lambda>ys. kreturn (y # ys)))"

locale block_allocator =
  fixes inv :: "'s \<Rightarrow> bool" and blocks :: "'s \<Rightarrow> ('p \<times> nat) set" and null :: 'p
    and size_ok :: "u32 \<Rightarrow> bool"
    and alloc :: "u32 \<Rightarrow> ('s, 'p) kernel" and dealloc :: "'p \<Rightarrow> ('s, unit) kernel"
  assumes alloc_law: "inv s \<Longrightarrow> size_ok n \<Longrightarrow> \<exists>p s'. alloc n s = (Inr p, s') \<and> inv s'
      \<and> (if p = null then blocks s' = blocks s
         else p \<notin> fst ` blocks s \<and> (\<exists>z\<ge>unat n. blocks s' = insert (p, z) (blocks s)))"
    and dealloc_law: "inv s \<Longrightarrow> B \<in> blocks s \<Longrightarrow>
      \<exists>s'. dealloc (fst B) s = (Inr (), s') \<and> inv s' \<and> blocks s' = blocks s - {B}"
begin

lemma alloc_dealloc:
  assumes "inv s" and "size_ok n" and "alloc n s = (Inr p, s1)" and "p \<noteq> null"
  shows "\<exists>s2. dealloc p s1 = (Inr (), s2) \<and> inv s2 \<and> blocks s2 = blocks s"
proof -
  obtain z where z: "p \<notin> fst ` blocks s" "blocks s1 = insert (p, z) (blocks s)" "inv s1"
    using alloc_law [OF assms(1,2)] unfolding assms(3) using assms(4) by auto
  then obtain s2 where "dealloc p s1 = (Inr (), s2)" "inv s2" "blocks s2 = blocks s1 - {(p, z)}"
    using dealloc_law [of s1 "(p, z)"] by auto
  moreover have "blocks s1 - {(p, z)} = blocks s"
    using z(1,2) by (auto simp: image_iff)
  ultimately show ?thesis by auto
qed

lemma alloc_many:
  assumes "inv s" and "\<forall>n\<in>set ns. size_ok n"
  shows "\<exists>ps s'. kmap alloc ns s = (Inr ps, s') \<and> inv s' \<and> length ps = length ns
    \<and> distinct (filter (\<lambda>p. p \<noteq> null) ps)
    \<and> fst ` blocks s' = fst ` blocks s \<union> {p \<in> set ps. p \<noteq> null}
    \<and> fst ` blocks s \<inter> {p \<in> set ps. p \<noteq> null} = {}"
  using assms
proof (induction ns arbitrary: s)
  case Nil
  then show ?case by (simp add: krun)
next
  case (Cons n ns)
  obtain p s1 where p: "alloc n s = (Inr p, s1)" "inv s1"
    and post: "if p = null then blocks s1 = blocks s
       else p \<notin> fst ` blocks s \<and> (\<exists>z\<ge>unat n. blocks s1 = insert (p, z) (blocks s))"
  proof -
    have "size_ok n" using Cons.prems(2) by simp
    from alloc_law [OF Cons.prems(1) this] show ?thesis
      by (elim exE conjE) (rule that)
  qed
  have "\<forall>n\<in>set ns. size_ok n" using Cons.prems(2) by simp
  from Cons.IH [OF p(2) this] obtain ps s' where
    h: "kmap alloc ns s1 = (Inr ps, s')" "inv s'" "length ps = length ns"
      "distinct (filter (\<lambda>p. p \<noteq> null) ps)"
      "fst ` blocks s' = fst ` blocks s1 \<union> {p \<in> set ps. p \<noteq> null}"
      "fst ` blocks s1 \<inter> {p \<in> set ps. p \<noteq> null} = {}"
    by (elim exE conjE) (rule that)
  have run: "kmap alloc (n # ns) s = (Inr (p # ps), s')"
    using p(1) h(1) by (simp add: kbind_eq krun)
  have got: "{q \<in> set (p # ps). q \<noteq> null} =
      (if p = null then {q \<in> set ps. q \<noteq> null} else insert p {q \<in> set ps. q \<noteq> null})"
    by auto
  show ?case
  proof (cases "p = null")
    case True
    then have b: "blocks s1 = blocks s" and g: "{q \<in> set (p # ps). q \<noteq> null} = {q \<in> set ps. q \<noteq> null}"
      using post got by simp_all
    have "distinct (filter (\<lambda>p. p \<noteq> null) (p # ps))" "length (p # ps) = length (n # ns)"
      using h(3,4) True by simp_all
    then show ?thesis
      using run h(2) h(5,6) [unfolded b, folded g] by blast
  next
    case False
    then have b: "fst ` blocks s1 = insert p (fst ` blocks s)" "p \<notin> fst ` blocks s"
      using post by auto
    have "p \<notin> {p \<in> set ps. p \<noteq> null}" using h(6) b(1) by blast
    then show ?thesis
      using run h b False unfolding got by (intro exI [of _ "p # ps"] exI [of _ s']) auto
  qed
qed

end

subsection \<open>The laws\<close>

definition small :: "u32 \<Rightarrow> bool" where
  "small sz \<longleftrightarrow> sz < LARGEST_SUBPAGE_SIZE"

lemma small_blocktype: "small sz \<Longrightarrow> \<exists>b. blocktype sz = Inr b"
  by (rule blocktype_small) (simp add: small_def LARGEST_SUBPAGE_SIZE_def word_less_nat_alt)

lemma kmalloc_heap:
  assumes h: "heap_ok s ps F" and sm: "small sz"
  shows "\<exists>r s' ps' F' b. kmalloc sz s = (Inr r, s') \<and> heap_ok s' ps' F' \<and> blocktype sz = Inr b
    \<and> block_taken s (live s ps F) (bsize b) r s' (live s' ps' F')"
proof -
  obtain b where b: "blocktype sz = Inr b" using small_blocktype [OF sm] by blast
  obtain r s' ps' F' where r: "subpage_kmalloc sz s = (Inr r, s')" "heap_ok s' ps' F'"
    "block_taken s (live s ps F) (bsize b) r s' (live s' ps' F')"
    using subpage_kmalloc_heap [OF h b] by blast
  have "kmalloc sz s = (Inr r, s')"
    using r(1) sm by (simp add: kmalloc_def small_def not_le [symmetric])
  then show ?thesis using r b by blast
qed

lemma kmalloc_kheap:
  assumes "kheap_ok s" and "small sz"
  obtains r s' b where "kmalloc sz s = (Inr r, s')" "kheap_ok s'" "blocktype sz = Inr b"
    "block_taken s (live_blocks s) (bsize b) r s' (live_blocks s')"
proof -
  obtain ps F where h: "heap_ok s ps F" using assms(1) by (auto simp: kheap_ok_def)
  obtain r s' ps' F' b where r: "kmalloc sz s = (Inr r, s')" "heap_ok s' ps' F'" "blocktype sz = Inr b"
    "block_taken s (live s ps F) (bsize b) r s' (live s' ps' F')"
    using kmalloc_heap [OF h assms(2)] by blast
  have "block_taken s (live_blocks s) (bsize b) r s' (live_blocks s')"
    using r(4) by (simp add: live_blocks_eq [OF h] live_blocks_eq [OF r(2)])
  then show ?thesis using that r kheap_ok_def by blast
qed

lemma kmalloc_small_law:
  assumes "kheap_ok s" and "small sz"
  shows "\<exists>p s'. kmalloc sz s = (Inr p, s') \<and> kheap_ok s'
      \<and> (if p = 0 then live_blocks s' = live_blocks s
         else p \<notin> fst ` live_blocks s \<and> (\<exists>z\<ge>unat sz. live_blocks s' = insert (p, z) (live_blocks s)))"
proof -
  obtain r s' b where r: "kmalloc sz s = (Inr r, s')" "kheap_ok s'" "blocktype sz = Inr b"
    "block_taken s (live_blocks s) (bsize b) r s' (live_blocks s')"
    using kmalloc_kheap [OF assms] by blast
  then show ?thesis
    using blocktype_Inr(2) [OF r(3)] by (intro exI [of _ r] exI [of _ s']) (auto simp: block_taken_def)
qed

lemma live_nonzero:
  assumes "heap_ok s ps F" and "B \<in> live s ps F"
  shows "fst B \<noteq> 0"
proof -
  have pg: "pages_ok s ps F {}" using assms(1) by (simp add: heap_inv_def)
  obtain p k where p: "p \<in> set ps" "k < nblocks (bt s p)" "fst B = blk (pa s p) (bt s p) k"
    using assms(2) by (auto simp: live_def page_live_def)
  then show ?thesis
    using blk_nonzero [OF page_of(4,3) [OF pg p(1)] p(2) page_of(5) [OF pg p(1)]] by simp
qed

lemma kfree_heap:
  assumes h: "heap_ok s ps F" and B: "B \<in> live s ps F"
  shows "\<exists>s' ps' F'. kfree (fst B) s = (Inr (), s') \<and> heap_ok s' ps' F'
    \<and> block_freed s (live s ps F) B s' (live s' ps' F')"
proof -
  obtain s' ps' F' where r: "subpage_kfree (fst B) s = (Inr 0, s')" "heap_ok s' ps' F'"
    "block_freed s (live s ps F) B s' (live s' ps' F')"
    using subpage_kfree_heap [OF h B] by blast
  have "kfree (fst B) s = (Inr (), s')"
    using r(1) live_nonzero [OF h B] by (simp add: kfree_def kbind_eq krun)
  then show ?thesis using r by blast
qed

lemma kfree_law:
  assumes "kheap_ok s" and "B \<in> live_blocks s"
  shows "\<exists>s'. kfree (fst B) s = (Inr (), s') \<and> kheap_ok s' \<and> live_blocks s' = live_blocks s - {B}"
proof -
  obtain ps F where h: "heap_ok s ps F" using assms(1) by (auto simp: kheap_ok_def)
  then obtain s' ps' F' where r: "kfree (fst B) s = (Inr (), s')" "heap_ok s' ps' F'"
    "block_freed s (live s ps F) B s' (live s' ps' F')"
    using kfree_heap assms(2) live_blocks_eq [OF h] by blast
  then show ?thesis
    by (auto simp: block_freed_def kheap_ok_def live_blocks_eq [OF h] live_blocks_eq [OF r(2)])
qed

interpretation heap: block_allocator kheap_ok live_blocks "0 :: vaddr" small kmalloc kfree
  by unfold_locales (rule kmalloc_small_law kfree_law; assumption)+

subsection \<open>Positions of blocks\<close>

lemma block_in_page:
  assumes "page_aligned a" "b < 8" "k < nblocks b"
  shows "unat a \<le> unat (blk a b k) \<and> unat (blk a b k) + bsize b \<le> unat a + 4096"
proof -
  have "(k + 1) * bsize b \<le> nblocks b * bsize b" using assms(3) by (intro mult_le_mono1) simp
  then have "boff b k + bsize b \<le> 4096"
    using bsize_facts(5) [OF assms(2)] by (simp add: boff_def mult.commute)
  then show ?thesis by (simp add: blk_facts(2) [OF assms])
qed

lemma block_aligned:
  assumes "page_aligned a" "b < 8" "k < nblocks b"
  shows "unat (blk a b k) mod bsize b = 0"
proof -
  obtain m where m: "unat a = 4096 * m" using assms(1) unfolding page_aligned_unat by blast
  then have "unat (blk a b k) = bsize b * (nblocks b * m + k)"
    using bsize_facts(5) [OF assms(2)]
    by (simp add: blk_facts(2) [OF assms] boff_def add_mult_distrib2 mult.assoc [symmetric])
  then show ?thesis by simp
qed

lemma live_blocks_apart:
  assumes pg: "pages_ok s ps F X" and p: "p \<in> set ps" "k < nblocks (bt s p)"
    and q: "q \<in> set ps" "j < nblocks (bt s q)" and ne: "q = p \<Longrightarrow> j \<noteq> k"
  shows "unat (blk (pa s q) (bt s q) j) + bsize (bt s q) \<le> unat (blk (pa s p) (bt s p) k)
    \<or> unat (blk (pa s p) (bt s p) k) + bsize (bt s p) \<le> unat (blk (pa s q) (bt s q) j)"
proof (cases "q = p")
  case True
  have "(j + 1) * bsize (bt s p) \<le> k * bsize (bt s p) \<or> (k + 1) * bsize (bt s p) \<le> j * bsize (bt s p)"
    using ne [OF True] mult_le_mono1 [of "j + 1" k "bsize (bt s p)"] mult_le_mono1 [of "k + 1" j "bsize (bt s p)"]
    by (cases j k rule: linorder_cases) auto
  then show ?thesis
    using True blk_facts(2) [OF page_of(4,3) [OF pg p(1)]] p(2) q(2) by (auto simp: boff_def)
next
  case False
  obtain m where m: "unat (pa s p) = 4096 * m"
    using page_of(4) [OF pg p(1)] unfolding page_aligned_unat by blast
  obtain l where l: "unat (pa s q) = 4096 * l"
    using page_of(4) [OF pg q(1)] unfolding page_aligned_unat by blast
  have "pa s q \<noteq> pa s p" using False pa_inject [OF pg q(1) p(1)] by simp
  then have "l \<noteq> m" using m l by (metis unsigned_word_eqI)
  then have "unat (pa s q) + 4096 \<le> unat (pa s p) \<or> unat (pa s p) + 4096 \<le> unat (pa s q)"
    unfolding m l by linarith
  then show ?thesis
    using block_in_page [OF page_of(4,3) [OF pg p(1)] p(2)] block_in_page [OF page_of(4,3) [OF pg q(1)] q(2)]
    by linarith
qed

subsection \<open>Small blocks\<close>

definition example_heap :: kheap where
  "example_heap = \<lparr>firstfree = 0x80040000, firstpaddr = 0x40000, lastpaddr = 0x80000,
     kmem = \<lambda>_. 0, pagerefs = \<lambda>_. \<lparr>next_samesize = 0, next_all = 0, pageaddr_and_blocktype = 0,
       freelist_offset = 0, nfree = 0\<rparr>,
     kheaproots = replicate 16 \<lparr>rpage = 0, pagerefs_inuse = replicate 8 0, numinuse = 0\<rparr>,
     sizebases = replicate 8 0, allbase = 0\<rparr>"

text \<open>The state before the first allocation: every variable of kmalloc.c is zero.\<close>

lemma empty_heap_ok:
  assumes "ram_ok s" and "kheaproots s = replicate 16 \<lparr>rpage = 0, pagerefs_inuse = replicate 8 0, numinuse = 0\<rparr>"
    and "sizebases s = replicate 8 0" and "allbase s = 0"
  shows "heap_ok s [] F" and "live_blocks s = {}"
proof -
  have r: "kheaproots s ! w = \<lparr>rpage = 0, pagerefs_inuse = replicate 8 0, numinuse = 0\<rparr>" if "w < 16" for w
    using assms(2) that by simp
  have sl: "slots \<lparr>rpage = 0, pagerefs_inuse = replicate 8 0, numinuse = 0\<rparr> = {}"
    by (auto simp: slots_def)
  have "roots_ok s"
    using assms(2) by (simp add: roots_ok_def root_ok_def r sl)
  moreover have "used_refs s = {}"
    by (simp add: used_refs_def root_refs_def r)
  ultimately show h: "heap_ok s [] F"
    using assms by (simp add: heap_inv_def lists_ok_def pages_ok_def)
  show "live_blocks s = {}"
    by (simp add: live_blocks_eq [OF h] live_def)
qed

lemma example_heap_ok: "kheap_ok example_heap" "live_blocks example_heap = {}" "ram_ok example_heap"
proof -
  show ram: "ram_ok example_heap"
    by (simp add: example_heap_def ram_ok_def page_aligned_def PAGE_FRAME_def)
  show "kheap_ok example_heap" "live_blocks example_heap = {}"
    using empty_heap_ok [OF ram] by (auto simp: kheap_ok_def example_heap_def)
qed

text \<open>C2: kmalloc of less than 2048 bytes never panics and keeps the heap well-formed; it returns
  NULL and hands out nothing, or it returns the address of a block that was not handed out, of
  the size of the smallest size class that holds the request, and the set of the blocks handed
  out grows by exactly that block; the memory of all the others is untouched.\<close>

theorem kmalloc_small:
  assumes "kheap_ok s" and "unat sz < 2048"
  shows "\<exists>r s' b. kmalloc sz s = (Inr r, s') \<and> kheap_ok s' \<and> blocktype sz = Inr b
    \<and> (if r = 0 then live_blocks s' = live_blocks s
       else r \<notin> fst ` live_blocks s \<and> live_blocks s' = insert (r, bsize b) (live_blocks s))
    \<and> (\<forall>(x, n)\<in>live_blocks s. \<forall>d<n. kmem s' (x + of_nat d) = kmem s (x + of_nat d))"
proof -
  have "small sz"
    using assms(2) by (simp add: small_def LARGEST_SUBPAGE_SIZE_def word_less_nat_alt)
  from kmalloc_kheap [OF assms(1) this] obtain r s' b where r: "kmalloc sz s = (Inr r, s')"
    "kheap_ok s'" "blocktype sz = Inr b" "block_taken s (live_blocks s) (bsize b) r s' (live_blocks s')"
    by blast
  then show ?thesis
    unfolding block_taken_def
    by (intro exI [of _ r] exI [of _ s'] exI [of _ b]) (simp split: if_splits)
qed

lemma kmalloc_small_witness:
  "\<exists>r s' b. kmalloc 100 example_heap = (Inr r, s') \<and> kheap_ok s' \<and> blocktype 100 = Inr b
    \<and> (if r = 0 then live_blocks s' = {} else live_blocks s' = {(r, bsize b)})"
  using kmalloc_small [of example_heap 100] example_heap_ok by auto

text \<open>C3: kfree of a block that was handed out never panics: the block, and only it, leaves the
  set of the blocks handed out, the heap stays well-formed, the memory of all the other blocks
  is untouched, and behind its first word the freed block holds 0xdeadbeef.\<close>

theorem kfree_block:
  assumes "kheap_ok s" and "(x, n) \<in> live_blocks s"
  shows "\<exists>s'. kfree x s = (Inr (), s') \<and> kheap_ok s' \<and> live_blocks s' = live_blocks s - {(x, n)}
    \<and> (\<forall>(y, m)\<in>live_blocks s - {(x, n)}. \<forall>d<m. kmem s' (y + of_nat d) = kmem s (y + of_nat d))
    \<and> (\<forall>i. 0 < i \<and> i < n div 4 \<longrightarrow> kmem s' (x + 4 * of_nat i) = 0xdeadbeef)"
proof -
  obtain ps F where h: "heap_ok s ps F" using assms(1) by (auto simp: kheap_ok_def)
  have "(x, n) \<in> live s ps F" using assms(2) by (simp add: live_blocks_eq [OF h])
  from kfree_heap [OF h this] obtain s' ps' F' where r: "kfree x s = (Inr (), s')" "heap_ok s' ps' F'"
    "block_freed s (live s ps F) (x, n) s' (live s' ps' F')" by auto
  have "block_freed s (live_blocks s) (x, n) s' (live_blocks s')"
    using r(3) by (simp add: live_blocks_eq [OF h] live_blocks_eq [OF r(2)])
  moreover have "kheap_ok s'" using r(2) by (auto simp: kheap_ok_def)
  ultimately show ?thesis
    using r(1) by (simp add: block_freed_def)
qed

text \<open>A heap with one block, at the end of the first page after the example's RAM.\<close>

lemma example_block:
  obtains s where "kheap_ok s" "live_blocks s = {(0x80040800, 2048)}"
    "kmalloc 1500 example_heap = (Inr 0x80040800, s)"
proof -
  have "small 1500" by (simp add: small_def LARGEST_SUBPAGE_SIZE_def)
  from kmalloc_kheap [OF example_heap_ok(1) this] obtain r s b where
    r: "kmalloc 1500 example_heap = (Inr r, s)" "kheap_ok s" "blocktype 1500 = Inr b"
      "block_taken example_heap {} (bsize b) r s (live_blocks s)"
    unfolding example_heap_ok(2) by blast
  have "fst (kmalloc 1500 example_heap) = Inr 0x80040800" by code_simp
  then have "r = 0x80040800" using r(1) by simp
  moreover have "blocktype 1500 = Inr 7" by (simp add: blocktype_def sizes_def)
  then have "bsize b = 2048" using r(3) by (simp add: bsize_def sizes_def)
  ultimately show ?thesis
    using that [of s] r by (simp add: block_taken_def)
qed

lemma kfree_block_witness:
  "\<exists>(s :: kheap) s'. kheap_ok s \<and> live_blocks s = {(0x80040800, 2048)} \<and> kfree 0x80040800 s = (Inr (), s')
     \<and> kheap_ok s' \<and> live_blocks s' = {}"
proof -
  obtain s where s: "kheap_ok s" "live_blocks s = {(0x80040800, 2048)}"
    "kmalloc 1500 example_heap = (Inr 0x80040800, s)"
    by (rule example_block)
  have "(0x80040800, 2048) \<in> live_blocks s" using s(2) by simp
  from kfree_block [OF s(1) this] obtain s' where
    "kfree 0x80040800 s = (Inr (), s')" "kheap_ok s'" "live_blocks s' = {}"
    unfolding s(2) by auto
  then show ?thesis using s(1,2) by - (intro exI [of _ s] exI [of _ s'] conjI)
qed



text \<open>The size class is the smallest one that holds the request; a request beyond 2048 bytes,
  which kmalloc never passes on, would panic.\<close>

theorem blocktype_least:
  "(case blocktype sz of
      Inr b \<Rightarrow> b < 8 \<and> unat sz \<le> bsize b \<and> (\<forall>c<b. bsize c < unat sz)
    | Inl e \<Rightarrow> e = PANIC \<and> 2048 < unat sz)"
proof (cases "blocktype sz")
  case (Inl e)
  then show ?thesis
    by (auto simp: blocktype_def sizes_def word_le_nat_alt split: if_splits)
next
  case (Inr b)
  then show ?thesis using blocktype_Inr [OF Inr] by simp
qed

lemma blocktype_least_witness:
  "blocktype 100 = Inr 3 \<and> 100 \<le> bsize 3 \<and> bsize 2 < 100"
proof -
  have b: "blocktype 100 = Inr 3" by (simp add: blocktype_def sizes_def)
  show ?thesis using blocktype_least [of 100] by (simp add: b)
qed

text \<open>C32: a block that is allocated and freed again leaves the same blocks handed out as before.\<close>

theorem kmalloc_kfree:
  assumes "kheap_ok s" and "unat sz < 2048" and "kmalloc sz s = (Inr p, s1)" and "p \<noteq> 0"
  shows "\<exists>s2. kfree p s1 = (Inr (), s2) \<and> kheap_ok s2 \<and> live_blocks s2 = live_blocks s"
  using assms
  by (intro heap.alloc_dealloc [of s sz]) (simp_all add: small_def LARGEST_SUBPAGE_SIZE_def word_less_nat_alt)

lemma kmalloc_kfree_witness:
  "\<exists>s1 s2. kmalloc 1500 example_heap = (Inr 0x80040800, s1) \<and> kfree 0x80040800 s1 = (Inr (), s2)
     \<and> live_blocks s2 = {}"
proof -
  obtain s where "kheap_ok s" "live_blocks s = {(0x80040800, 2048)}"
    and s: "kmalloc 1500 example_heap = (Inr 0x80040800, s)" by (rule example_block)
  obtain s2 where "kfree 0x80040800 s = (Inr (), s2)" "live_blocks s2 = {}"
    using kmalloc_kfree [OF example_heap_ok(1) _ s] example_heap_ok(2) by auto
  then show ?thesis using s by - (intro exI [of _ s] exI [of _ s2] conjI)
qed

text \<open>C33: however many blocks are requested, the calls all return, and no address is handed out
  twice or while its block is in use.\<close>

theorem kmalloc_many:
  assumes "kheap_ok s" and "\<forall>n\<in>set ns. unat n < 2048"
  shows "\<exists>ps s'. kmap kmalloc ns s = (Inr ps, s') \<and> kheap_ok s' \<and> length ps = length ns
    \<and> distinct (filter (\<lambda>p. p \<noteq> 0) ps)
    \<and> fst ` live_blocks s' = fst ` live_blocks s \<union> {p \<in> set ps. p \<noteq> 0}
    \<and> fst ` live_blocks s \<inter> {p \<in> set ps. p \<noteq> 0} = {}"
  using assms
  by (intro heap.alloc_many) (simp_all add: small_def LARGEST_SUBPAGE_SIZE_def word_less_nat_alt)

lemma kmalloc_many_witness:
  "\<exists>ps s'. kmap kmalloc [16, 100, 16] example_heap = (Inr ps, s') \<and> kheap_ok s' \<and> length ps = 3
    \<and> distinct (filter (\<lambda>p. p \<noteq> 0) ps) \<and> fst ` live_blocks s' = {p \<in> set ps. p \<noteq> 0}"
  using kmalloc_many [of example_heap "[16, 100, 16]"] example_heap_ok by auto

subsection \<open>Whole pages\<close>

lemma heap_ok_grow:
  assumes h: "heap_ok s ps F" and fp: "unat (firstpaddr s) \<le> unat fp" and ram: "ram_ok (s\<lparr>firstpaddr := fp\<rparr>)"
  shows "heap_ok (s\<lparr>firstpaddr := fp\<rparr>) ps F" and "live (s\<lparr>firstpaddr := fp\<rparr>) ps F = live s ps F"
proof -
  let ?t = "s\<lparr>firstpaddr := fp\<rparr>"
  have t: "?t = s\<lparr>kheaproots := kheaproots s, firstpaddr := fp\<rparr>" by simp
  have "roots_ok ?t"
    by (rule roots_ok_frame [of s]) (use h fp in \<open>simp_all add: heap_inv_def\<close>)
  note i = heap_inv_frame [OF h t this ram]
  show "heap_ok ?t ps F" "live ?t ps F = live s ps F"
    by (rule i; simp add: used_refs_def root_pages_def fp subset_insertI)+
qed

lemma subpage_kfree_foreign:
  assumes h: "heap_ok s ps F" and x: "page_aligned x" "\<forall>p\<in>set ps. x \<noteq> pa s p"
  shows "subpage_kfree x s = (Inr (- 1), s)"
proof -
  have pg: "pages_ok s ps F {}" and ls: "lists_ok s ps" and ram: "ram_ok s"
    using h by (simp_all add: heap_inv_def)
  have "List.find (holds_addr s x) ps = None"
    using x by (auto simp: find_None_iff holds_addr_def page_aligned_def)
  moreover have "plist (\<lambda>q. next_all (pagerefs s q)) (allbase s) ps"
    using ls by (simp add: lists_ok_def)
  ultimately have "find_owner TOTAL_PAGEREFS x (allbase s) s = (Inr 0, s)"
    using find_owner_eq [OF _ heap_pagerefs_bound [OF h] ram] page_of(2,3) [OF pg] by simp
  then show ?thesis
    by (simp add: subpage_kfree_def krun kbind_eq)
qed

text \<open>C34: a request of 2048 bytes or more gets whole fresh pages behind everything handed out before,
  enough of them for the request, if the RAM has them, and NULL otherwise; the small blocks are
  not affected. kfree accepts the address and gives nothing back: dumbvm leaks the pages.\<close>

theorem kmalloc_pages:
  assumes "kheap_ok s" and "2048 \<le> unat sz" and "unat (firstpaddr s) + unat sz + 4095 < 4294967296"
  defines "n \<equiv> (unat sz + 4095) div 4096"
  shows "\<exists>r s'. kmalloc sz s = (Inr r, s') \<and> kheap_ok s' \<and> live_blocks s' = live_blocks s
    \<and> (if unat (firstpaddr s) + 4096 * n \<le> unat (lastpaddr s)
       then unat r = 2147483648 + unat (firstpaddr s) \<and> page_aligned r
         \<and> unat (firstpaddr s') = unat (firstpaddr s) + 4096 * n \<and> unat sz \<le> 4096 * n
         \<and> kfree r s' = (Inr (), s')
       else r = 0 \<and> s' = s)"
proof -
  obtain ps F where h: "heap_ok s ps F" using assms(1) by (auto simp: kheap_ok_def)
  have ram: "ram_ok s" and pg: "pages_ok s ps F {}" using h by (simp_all add: heap_inv_def)
  let ?n = "(sz + PAGE_SIZE - 1) div PAGE_SIZE" and ?va = "firstpaddr s + MIPS_KSEG0"
  have n: "unat ?n = n"
    using unat_DIVROUNDUP [of sz PAGE_SIZE] assms(3) by (simp add: DIVROUNDUP_def n_def PAGE_SIZE_def)
  have bound: "unat (firstpaddr s) + unat ?n * 4096 < 4294967296" and enough: "unat sz \<le> 4096 * n"
  proof -
    have "unat sz + 4095 = 4096 * n + (unat sz + 4095) mod 4096" unfolding n_def by simp
    moreover have "(unat sz + 4095) mod 4096 < 4096" by simp
    ultimately show "unat (firstpaddr s) + unat ?n * 4096 < 4294967296" "unat sz \<le> 4096 * n"
      using assms(3) unfolding n by linarith+
  qed
  note e = alloc_kpages_eq [OF ram bound]
  have big: "LARGEST_SUBPAGE_SIZE \<le> sz"
    using assms(2) by (simp add: LARGEST_SUBPAGE_SIZE_def word_le_nat_alt)
  show ?thesis
  proof (cases "unat (firstpaddr s) + 4096 * n \<le> unat (lastpaddr s)")
    case False
    then have "alloc_kpages ?n s = (Inr 0, s)" using e(1) n by (simp add: mult.commute)
    then have "kmalloc sz s = (Inr 0, s)" using big by (simp add: kmalloc_def Let_def kbind_eq krun)
    then show ?thesis using False assms(1) by auto
  next
    case True
    let ?t = "s\<lparr>firstpaddr := firstpaddr s + ?n * PAGE_SIZE\<rparr>"
    have a: "alloc_kpages ?n s = (Inr ?va, ?t)" using e(1) n True by (simp add: mult.commute)
    have al: "page_aligned ?va"
      using ram_okD(1) [OF ram] by (simp only: page_aligned_unat e(3) mod_kseg0)
    have nz: "?va \<noteq> 0" using e(3) by auto
    have fp: "unat (firstpaddr s + ?n * PAGE_SIZE) = unat (firstpaddr s) + 4096 * n"
      using e(2) n by simp
    have "ram_ok ?t" by (rule alloc_kpages_ram_ok(1) [OF ram bound a])
    then have t: "heap_ok ?t ps F" "live ?t ps F = live s ps F"
      using heap_ok_grow [OF h] fp by simp_all
    have "kmalloc sz s = (Inr ?va, ?t)"
      using big nz al a by (simp add: kmalloc_def Let_def kbind_eq krun page_aligned_mod)
    moreover have "kfree ?va ?t = (Inr (), ?t)"
    proof -
      have "?va \<noteq> pa ?t p" if "p \<in> set ps" for p
        using kpage_not_next [OF ram page_of(2) [OF pg that]] by (simp add: pa_def) metis?
      then have "subpage_kfree ?va ?t = (Inr (- 1), ?t)"
        using subpage_kfree_foreign [OF t(1) al] by blast
      then show ?thesis
        using nz al by (simp add: kfree_def kbind_eq krun page_aligned_mod free_kpages_def)
    qed
    moreover have "kheap_ok ?t" "live_blocks ?t = live_blocks s"
      using t h by (auto simp: kheap_ok_def live_blocks_eq)
    ultimately show ?thesis
      using True al fp e(3) enough by auto
  qed
qed

lemma kmalloc_pages_witness:
  "\<exists>r s'. kmalloc 10000 example_heap = (Inr r, s') \<and> unat r = 2147483648 + 0x40000
     \<and> unat (firstpaddr s') = 0x43000 \<and> kfree r s' = (Inr (), s')"
  using kmalloc_pages [of example_heap 10000] example_heap_ok(1) by (auto simp: example_heap_def)

text \<open>C35: a request of more than 0xfffff000 bytes wraps around when it is rounded up to pages: kmalloc
  returns an address that is not NULL and reserves nothing, so the next page handed out is at
  the same address.\<close>

theorem kmalloc_huge_is_empty:
  assumes "ram_ok s" and "0xfffff000 < unat sz" and "firstpaddr s \<le> lastpaddr s"
  shows "kmalloc sz s = (Inr (firstpaddr s + MIPS_KSEG0), s) \<and> firstpaddr s + MIPS_KSEG0 \<noteq> 0"
proof -
  have al: "page_aligned (firstpaddr s + MIPS_KSEG0)" and nz: "firstpaddr s + MIPS_KSEG0 \<noteq> 0"
    using next_page(4,5) [OF assms(1)] by simp_all
  obtain d where d: "unat sz = 0xfffff001 + d" "d < 4095"
  proof
    show "unat sz = 0xfffff001 + (unat sz - 0xfffff001)" "unat sz - 0xfffff001 < 4095"
      using assms(2) unat_u32_less [of sz] by linarith+
  qed
  have "sz = of_nat (unat sz)" by simp
  then have "sz = of_nat (0xfffff001 + d)" unfolding d(1) .
  then have "sz + 0xfff = of_nat d" by simp
  then have "unat (sz + 0xfff) < 4096" using d(2) by simp
  then have "(sz + PAGE_SIZE - 1) div PAGE_SIZE = 0"
    by (simp add: PAGE_SIZE_def word_unat_eq_iff unat_div add.commute [of sz])
  moreover have "alloc_kpages 0 s = (Inr (firstpaddr s + MIPS_KSEG0), s)"
    using ram_okD(2) [OF assms(1)] assms(3)
    by (auto simp: alloc_kpages_def getppages_def ram_stealmem_def Let_def kmonad_defs PADDR_TO_KVADDR_def)
  moreover have "LARGEST_SUBPAGE_SIZE \<le> sz"
    using assms(2) by (simp add: LARGEST_SUBPAGE_SIZE_def word_le_nat_alt)
  ultimately show ?thesis
    using al nz by (simp add: kmalloc_def Let_def kbind_eq krun page_aligned_mod)
qed

lemma kmalloc_huge_is_empty_witness:
  "kmalloc 0xffffffff example_heap = (Inr 0x80040000, example_heap)"
  using kmalloc_huge_is_empty [of example_heap "0xffffffff"] example_heap_ok(3)
  by (simp add: example_heap_def MIPS_KSEG0_def)

end
