(* ===== verification/Kframe.thy ===== *)
theory Kframe
  imports Kheap
begin

text \<open>
  What kmalloc leaves alone. An operation keeps a relation between states when it never leaves
  it, whatever it returns; its rules follow the structure of the code, so that
  for a reflexive and transitive relation only the operations that change the state are left to
  show. The relation here: memory outside one page, and everything that is not the heap's.
\<close>

definition keeps :: "('s \<Rightarrow> 's \<Rightarrow> bool) \<Rightarrow> ('s, 'a) kernel \<Rightarrow> bool" where
  "keeps P m \<longleftrightarrow> (\<forall>s. P s (snd (m s)))"

definition preorder_on_states :: "('s \<Rightarrow> 's \<Rightarrow> bool) \<Rightarrow> bool" where
  "preorder_on_states P \<longleftrightarrow> (\<forall>s. P s s) \<and> (\<forall>s t u. P s t \<longrightarrow> P t u \<longrightarrow> P s u)"

lemma keepsD: "keeps P m \<Longrightarrow> m s = (r, t) \<Longrightarrow> P s t"
  unfolding keeps_def by (metis snd_conv)

lemma keeps_basic:
  assumes "preorder_on_states P"
  shows "keeps P (kreturn x)" "keeps P (kget f)" "keeps P (kassert b)" "keeps P (kfail e)"
  using assms by (simp_all add: keeps_def preorder_on_states_def kmonad_defs)

lemma keeps_bind:
  assumes "preorder_on_states P" and "keeps P m" and "\<And>x. keeps P (f x)"
  shows "keeps P (kbind m f)"
  using assms unfolding keeps_def preorder_on_states_def kbind_def
  by (auto split: prod.splits sum.splits) (metis snd_conv)+

lemma keeps_split:
  "(b \<Longrightarrow> keeps P m) \<Longrightarrow> (\<not> b \<Longrightarrow> keeps P m') \<Longrightarrow> keeps P (if b then m else m')"
  "(\<And>x. keeps P (g x)) \<Longrightarrow> keeps P (let x = v in g x)"
  by simp_all

lemma keeps_case:
  "keeps P m \<Longrightarrow> (\<And>x. keeps P (g x)) \<Longrightarrow> keeps P (case o' of None \<Rightarrow> m | Some x \<Rightarrow> g x)"
  "keeps P m1 \<Longrightarrow> (\<And>k. keeps P (h k)) \<Longrightarrow> keeps P (case n of 0 \<Rightarrow> m1 | Suc k \<Rightarrow> h k)"
  by (simp_all split: option.split nat.split)

lemma keeps_modify: "(\<And>s. P s (f s)) \<Longrightarrow> keeps P (kmodify f)"
  by (simp add: keeps_def kmodify_def)

subsection \<open>The heap\<close>

definition off_page :: "vaddr \<Rightarrow> 'a kheap_scheme \<Rightarrow> 'a kheap_scheme \<Rightarrow> bool" where
  "off_page a s t \<longleftrightarrow> (\<forall>x. x AND PAGE_FRAME \<noteq> a \<longrightarrow> kmem t x = kmem s x)
     \<and> kheap.more t = kheap.more s \<and> lastpaddr t = lastpaddr s
     \<and> (ram_ok s \<longrightarrow> ram_ok t \<and> unat (firstpaddr s) \<le> unat (firstpaddr t))"

lemma off_page_preorder: "preorder_on_states (off_page a)"
  by (auto simp: preorder_on_states_def off_page_def)

lemmas off_page_rules =
  keeps_basic [OF off_page_preorder] keeps_bind [OF off_page_preorder] keeps_split keeps_case

lemma keeps_setters:
  "keeps (off_page a) (set_pageref p f)" "keeps (off_page a) (set_root w g)"
  by (simp_all add: set_pageref_def set_root_def keeps_def kmodify_def off_page_def ram_ok_def)

lemma keeps_alloc_page: "keeps (off_page a) (alloc_kpages 1)"
proof -
  have "off_page a s (snd (alloc_kpages 1 s))" for s :: "'a kheap_scheme"
  proof (cases "ram_ok s")
    case True
    show ?thesis
      using next_page(1-3) [OF True] True by (auto simp: off_page_def)
  next
    case False
    then show ?thesis
      by (auto simp: off_page_def alloc_kpages_def getppages_def ram_stealmem_def Let_def kmonad_defs)
  qed
  then show ?thesis by (simp add: keeps_def)
qed

lemma keeps_allocpageref: "keeps (off_page a) allocpageref"
proof -
  have pg: "keeps (off_page a) (allocpagerefpage w)" for w
    unfolding allocpagerefpage_def free_kpages_def
    by (intro off_page_rules keeps_setters keeps_alloc_page)
  have "keeps (off_page a) (allocpageref_from ws)" for ws
    by (induction ws) (simp_all, (intro off_page_rules keeps_setters pg | assumption)+)
  then show ?thesis by (simp add: allocpageref_def)
qed

lemma keeps_find_page:
  assumes "preorder_on_states P"
  shows "keeps P (find_page n b pr)"
proof (induction n arbitrary: pr)
  case 0
  show ?case
    by (subst find_page.simps, simp only: nat.case) (intro keeps_basic keeps_bind keeps_split assms)
next
  case (Suc n)
  show ?case
    by (subst find_page.simps, simp only: nat.case) (intro keeps_basic keeps_bind keeps_split assms Suc)
qed

lemma find_page_same: "find_page n b pr s = (r, t) \<Longrightarrow> t = s"
  using keepsD [OF keeps_find_page [of "(=)"], of n b pr s r t] by (simp add: preorder_on_states_def)

lemma keeps_doalloc: "keeps (off_page a) (doalloc pr)"
  unfolding doalloc_def by (intro off_page_rules keeps_setters)

lemma keeps_carve_page:
  assumes "page_aligned a" "2147483648 \<le> unat a" "b < 8"
  shows "keeps (off_page a) (carve_page pr a b)"
proof -
  have "carve_mem a b (nblocks b) m x = m x" if "x AND PAGE_FRAME \<noteq> a" for m x
    using that blk_facts(1) [OF assms(1,3)] bsize_facts(6) [OF assms(3)] by (intro carve_mem_other) auto
  then show ?thesis
    by (auto simp: keeps_def carve_page_eq [OF assms] off_page_def ram_ok_def)
qed

text \<open>A small request writes to no page but the one that would be handed out next.\<close>

lemma kmalloc_off_page:
  assumes ram: "ram_ok s" and sm: "small sz" and k: "kmalloc sz s = (r, t)"
  shows "off_page (firstpaddr s + MIPS_KSEG0) s t"
proof -
  let ?a = "firstpaddr s + MIPS_KSEG0"
  note n = next_page [OF ram]
  obtain b where b: "blocktype sz = Inr b" using small_blocktype [OF sm] by blast
  have a: "page_aligned ?a" "2147483648 \<le> unat ?a" and b8: "b < 8"
    using n(4,6) blocktype_Inr(1) [OF b] by simp_all
  define rest where "rest = (\<lambda>prpage. if prpage = 0 then kreturn 0 else
        kbind (kassert (prpage mod PAGE_SIZE = 0)) (\<lambda>_.
        kbind allocpageref (\<lambda>pr.
        if pr = 0 then kbind (free_kpages prpage) (\<lambda>_. kreturn 0) else
        kbind (carve_page pr prpage b) (\<lambda>_. doalloc pr :: ('a kheap_scheme, vaddr) kernel))))"
  have rest: "keeps (off_page ?a) (rest p)" if "p = 0 \<or> p = ?a" for p
    using that by (auto simp: rest_def free_kpages_def
        intro!: off_page_rules keeps_allocpageref keeps_carve_page [OF a b8] keeps_doalloc)
  have run: "kmalloc sz s = kbind (find_page TOTAL_PAGEREFS b (sizebases s ! b)) (\<lambda>pr.
      if pr \<noteq> 0 then doalloc pr else kbind (alloc_kpages 1) rest) s"
    unfolding rest_def using sm b
    by (simp add: kmalloc_def small_def subpage_kmalloc_def krun not_le [symmetric])
  obtain x where f: "find_page TOTAL_PAGEREFS b (sizebases s ! b) s = (x, s)"
    using find_page_same by (metis surj_pair)
  have alloc: "off_page ?a s (snd (kbind (alloc_kpages 1) rest s))"
  proof -
    obtain p s1 where p: "alloc_kpages 1 s = (Inr p, s1)" "p = 0 \<or> p = ?a"
      using n(1) by (cases "exhausted s") auto
    have "off_page ?a s s1" by (rule keepsD [OF keeps_alloc_page p(1)])
    moreover have "off_page ?a s1 (snd (rest p s1))"
      using rest [OF p(2)] by (simp add: keeps_def)
    moreover have "kbind (alloc_kpages 1) rest s = rest p s1"
      by (rule kbind_eq, rule p(1), rule refl)
    ultimately show ?thesis
      using off_page_preorder [of ?a] unfolding preorder_on_states_def by metis
  qed
  show ?thesis
  proof (cases x)
    case (Inl e)
    then show ?thesis
      using f run k off_page_preorder [of ?a] by (auto simp: kbind_def preorder_on_states_def)
  next
    case (Inr pr)
    then have e: "kmalloc sz s = (if pr \<noteq> 0 then doalloc pr else kbind (alloc_kpages 1) rest) s"
      using f run by (simp add: kbind_def)
    have "off_page ?a s (snd (doalloc pr s))"
      using keeps_doalloc unfolding keeps_def by blast
    then have "off_page ?a s (snd (kmalloc sz s))"
      unfolding e using alloc by simp
    then show ?thesis using k by simp
  qed
qed

text \<open>Conversely the heap is not disturbed by changes of pages that are not the kernel's yet, and of
  variables that are not its own.\<close>

lemma heap_inv_outside:
  assumes inv: "heap_inv s ps F X" and ram: "ram_ok t"
    and vars: "pagerefs t = pagerefs s" "kheaproots t = kheaproots s" "sizebases t = sizebases s"
      "allbase t = allbase s" "lastpaddr t = lastpaddr s"
    and fp: "unat (firstpaddr s) \<le> unat (firstpaddr t)"
    and m: "\<And>x. kpage s (x AND PAGE_FRAME) \<Longrightarrow> kmem t x = kmem s x"
  shows "heap_inv t ps F X" and "live t ps F = live s ps F"
proof -
  have pg: "pages_ok s ps F X" using inv by (simp add: heap_inv_def)
  have same: "pa t q = pa s q" "bt t q = bt s q" for q by (simp_all add: vars pa_def bt_def)
  show "live t ps F = live s ps F" by (simp add: live_def same)
  have "lists_ok t ps"
    by (rule lists_ok_cong [of s]) (use inv in \<open>simp_all add: heap_inv_def same vars\<close>)
  moreover have "roots_ok t"
    by (rule roots_ok_frame [of s]) (use inv vars fp in \<open>simp_all add: heap_inv_def\<close>)
  moreover have "page_ok (kmem t) (pagerefs s q) (F q)" if "q \<in> set ps" for q
  proof (rule page_ok_other_page [OF page_of(1) [OF pg that]])
    show "kmem t x = kmem s x" if "x AND PAGE_FRAME = PR_PAGEADDR (pagerefs s q)" for x
      using m page_of(2) [OF pg \<open>q \<in> set ps\<close>] that by (simp add: pa_def)
  qed
  then have "pages_ok t ps F X"
    using pg kpage_mono [OF _ fp]
    by (auto simp: pages_ok_def same vars root_pages_def inj_on_def)
  ultimately show "heap_inv t ps F X"
    using inv ram by (simp add: heap_inv_def used_refs_def vars)
qed

lemma kheap_ok_outside:
  assumes "kheap_ok s" and "ram_ok t"
    and "pagerefs t = pagerefs s" "kheaproots t = kheaproots s" "sizebases t = sizebases s"
      "allbase t = allbase s" "lastpaddr t = lastpaddr s"
    and "unat (firstpaddr s) \<le> unat (firstpaddr t)"
    and "\<And>x. kpage s (x AND PAGE_FRAME) \<Longrightarrow> kmem t x = kmem s x"
  shows "kheap_ok t" and "live_blocks t = live_blocks s"
proof -
  obtain ps F where h: "heap_ok s ps F" using assms(1) by (auto simp: kheap_ok_def)
  note i = heap_inv_outside [OF h assms(2-)]
  show "kheap_ok t" using i(1) by (auto simp: kheap_ok_def)
  show "live_blocks t = live_blocks s"
    using i by (simp add: live_blocks_eq [OF h] live_blocks_eq [OF i(1)])
qed

lemma kheap_ok_ram: "kheap_ok s \<Longrightarrow> ram_ok s"
  by (auto simp: kheap_ok_def heap_inv_def)

end
