(* ===== verification/Kcheck.thy ===== *)
theory Kcheck
  imports Kheap
begin

text \<open>
  The heap's own view of itself (\<^verbatim>\<open>kern/vm/kmalloc.c\<close>): the consistency checks that the options
  SLOW and SLOWER compile in (\<^verbatim>\<open>checksubpage\<close>, \<^verbatim>\<open>checksubpages\<close>, without CHECKBEEF and
  CHECKGUARDS) and the map of free blocks that \<^verbatim>\<open>kheap_printstats\<close> prints (as a value instead
  of console output). The invariant of \<open>KmallocHeap\<close> is strong enough for all of their
  assertions.
\<close>

subsection \<open>The code\<close>

text \<open>A loop over a free list; a page has at most 256 blocks.\<close>

fun fl_loop :: "nat \<Rightarrow> (vaddr \<Rightarrow> ('a kheap_scheme, 'b) kernel) \<Rightarrow> vaddr \<Rightarrow> ('a kheap_scheme, 'b list) kernel" where
  "fl_loop n f fl =
     (if fl = 0 then kreturn [] else
      case n of 0 \<Rightarrow> kfail UNDEFINED
      | Suc n \<Rightarrow>
        kbind (f fl) (\<lambda>x. kbind (kget (\<lambda>s. kmem s fl)) (\<lambda>nx.
        kbind (fl_loop n f nx) (\<lambda>xs. kreturn (x # xs)))))"

declare fl_loop.simps [simp del]

definition MIPS_KSEG1 :: u32 where "MIPS_KSEG1 = 0xa0000000"

definition checksubpage :: "vaddr \<Rightarrow> ('a kheap_scheme, unit) kernel" where
  "checksubpage pr =
     kbind (kget (\<lambda>s. pagerefs s pr)) (\<lambda>r.
     if freelist_offset r = INVALID_OFFSET then kassert (nfree r = 0) else
     let prpage = PR_PAGEADDR r; blktype = PR_BLOCKTYPE r in
     kbind (kassert (blktype < of_nat NSIZES)) (\<lambda>_.
     let blocksize = sizes ! unat blktype in
     kbind (kassert (prpage \<ge> MIPS_KSEG0)) (\<lambda>_.
     kbind (kassert (prpage < MIPS_KSEG1)) (\<lambda>_.
     kbind (kassert (ucast (freelist_offset r) < PAGE_SIZE)) (\<lambda>_.
     kbind (kassert (ucast (freelist_offset r) mod blocksize = 0)) (\<lambda>_.
     kbind (fl_loop 256 (\<lambda>fla.
       kbind (kassert (fla \<ge> prpage \<and> fla < prpage + PAGE_SIZE)) (\<lambda>_.
       kbind (kassert ((fla - prpage) mod blocksize = 0)) (\<lambda>_.
       kbind (kget (\<lambda>s. kmem s fla)) (\<lambda>nx. kassert (nx \<noteq> fla))))) (prpage + ucast (freelist_offset r))) (\<lambda>xs.
     kassert (length xs = unat (nfree r)))))))))"

text \<open>A loop over a list of pagerefs that checks each of them; returns how many it saw.\<close>

fun check_list :: "nat \<Rightarrow> (pageref \<Rightarrow> vaddr) \<Rightarrow> nat \<Rightarrow> vaddr \<Rightarrow> ('a kheap_scheme, nat) kernel" where
  "check_list n nx count pr =
     (if pr = 0 then kreturn count else
      kbind (checksubpage pr) (\<lambda>_.
      kbind (kassert (count < TOTAL_PAGEREFS)) (\<lambda>_.
      case n of 0 \<Rightarrow> kfail UNDEFINED
      | Suc n \<Rightarrow> kbind (kget (\<lambda>s. nx (pagerefs s pr))) (check_list n nx (Suc count)))))"

declare check_list.simps [simp del]

fun check_sizes :: "nat list \<Rightarrow> nat \<Rightarrow> ('a kheap_scheme, nat) kernel" where
  "check_sizes [] sc = kreturn sc"
| "check_sizes (i # is) sc =
     kbind (kget (\<lambda>s. sizebases s ! i)) (\<lambda>pr.
     kbind (check_list TOTAL_PAGEREFS next_samesize sc pr) (check_sizes is))"

definition checksubpages :: "('a kheap_scheme, unit) kernel" where
  "checksubpages =
     kbind (check_sizes [0..<NSIZES] 0) (\<lambda>sc.
     kbind (kget allbase) (\<lambda>pr.
     kbind (check_list TOTAL_PAGEREFS next_all 0 pr) (\<lambda>ac.
     kassert (sc = ac))))"

text \<open>What \<open>subpage_stats\<close> prints: address, block size, number of free blocks, and the map.\<close>

definition subpage_stats :: "vaddr \<Rightarrow> ('a kheap_scheme, vaddr \<times> u32 \<times> u16 \<times> bool list) kernel" where
  "subpage_stats pr =
     kbind (kget (\<lambda>s. pagerefs s pr)) (\<lambda>r.
     let prpage = PR_PAGEADDR r; blktype = PR_BLOCKTYPE r in
     kbind (kassert (blktype < of_nat NSIZES)) (\<lambda>_.
     let sz = sizes ! unat blktype; n = PAGE_SIZE div sz in
     kbind (kassert (n \<le> 32 * 8)) (\<lambda>_.
     kbind (if freelist_offset r \<noteq> INVALID_OFFSET then
              fl_loop 256 (\<lambda>fla.
                let index = (fla - prpage) div sz in
                kbind (kassert (index < n)) (\<lambda>_. kreturn (unat index))) (prpage + ucast (freelist_offset r))
            else kreturn []) (\<lambda>is.
     kreturn (prpage, sz, nfree r, map (\<lambda>i. i \<in> set is) [0..<unat n])))))"

fun stats_list :: "nat \<Rightarrow> vaddr \<Rightarrow> ('a kheap_scheme, (vaddr \<times> u32 \<times> u16 \<times> bool list) list) kernel" where
  "stats_list n pr =
     (if pr = 0 then kreturn [] else
      kbind (subpage_stats pr) (\<lambda>x.
      case n of 0 \<Rightarrow> kfail UNDEFINED
      | Suc n \<Rightarrow>
        kbind (kget (\<lambda>s. next_all (pagerefs s pr))) (\<lambda>nx.
        kbind (stats_list n nx) (\<lambda>xs. kreturn (x # xs)))))"

declare stats_list.simps [simp del]

definition kheap_printstats :: "('a kheap_scheme, (vaddr \<times> u32 \<times> u16 \<times> bool list) list) kernel" where
  "kheap_printstats = kbind (kget allbase) (stats_list TOTAL_PAGEREFS)"

subsection \<open>Free lists\<close>

lemma fl_loop_eq:
  assumes "free_chain (kmem s) at ks" and "length ks \<le> n" and "ks = [] \<or> p = at (hd ks)"
    and "ks = [] \<Longrightarrow> p = 0" and "\<And>k. k \<in> set ks \<Longrightarrow> at k \<noteq> 0"
    and "\<And>k. k \<in> set ks \<Longrightarrow> f (at k) s = (Inr (g k), s)"
  shows "fl_loop n f p s = (Inr (map g ks), s)"
  using assms
proof (induction ks arbitrary: n p)
  case Nil
  then show ?case by (subst fl_loop.simps) (simp add: krun)
next
  case (Cons k ks)
  obtain n' where n: "n = Suc n'" "length ks \<le> n'" using Cons.prems(2) by (cases n) auto
  note c = free_chain_Cons [OF Cons.prems(1)]
  have k: "p = at k" "at k \<noteq> 0" "f (at k) s = (Inr (g k), s)"
    using Cons.prems(3,5,6) by simp_all
  have "fl_loop n' f (kmem s (at k)) s = (Inr (map g ks), s)"
  proof (rule Cons.IH [OF c(2) n(2)])
    show "ks = [] \<or> kmem s (at k) = at (hd ks)" "ks = [] \<Longrightarrow> kmem s (at k) = 0"
      using c(1) by (cases ks; simp)+
  qed (use Cons.prems(5,6) in auto)
  then show ?case
    using k n(1) by (subst fl_loop.simps) (simp add: krun kbind_eq)
qed

text \<open>A property of one page of a well-formed heap, by its free blocks.\<close>

lemma page_free_loop:
  assumes pg: "pages_ok s ps F X" and p: "p \<in> set ps"
    and ne: "freelist_offset (pagerefs s p) \<noteq> INVALID_OFFSET"
    and f: "\<And>k. k < nblocks (bt s p) \<Longrightarrow> k \<in> set (F p) \<Longrightarrow> f (blk (pa s p) (bt s p) k) s = (Inr (g k), s)"
  shows "fl_loop 256 f (pa s p + ucast (freelist_offset (pagerefs s p))) s = (Inr (map g (F p)), s)"
    and "\<exists>k. k < nblocks (bt s p) \<and> ucast (freelist_offset (pagerefs s p)) = (of_nat (boff (bt s p) k) :: u32)"
proof -
  let ?a = "pa s p" and ?b = "bt s p"
  have al: "page_aligned ?a" and b: "?b < 8" and hi: "2147483648 \<le> unat ?a"
    and ok: "page_ok (kmem s) (pagerefs s p) (F p)"
    using page_of [OF pg p] by simp_all
  obtain k ks where F: "F p = k # ks"
    using ok ne by (cases "F p") (auto simp: page_ok_def)
  have sub: "set (F p) \<subseteq> {..<nblocks ?b}" and ch: "free_chain (kmem s) (blk ?a ?b) (F p)"
    using ok by (simp_all add: page_ok_def bt_def pa_def)
  have k: "k < nblocks ?b" using sub F by simp
  have off: "freelist_offset (pagerefs s p) = of_nat (boff ?b k)"
    using ok F by (simp add: page_ok_def bt_def)
  have o: "ucast (freelist_offset (pagerefs s p)) = (of_nat (boff ?b k) :: u32)"
    unfolding off by (rule ucast_offset(1) [OF blk_facts(5) [OF al b k]])
  then show "\<exists>k. k < nblocks ?b \<and> ucast (freelist_offset (pagerefs s p)) = (of_nat (boff ?b k) :: u32)"
    using k by blast
  have "length (F p) \<le> 256"
    using length_free_le [OF ok] bsize_facts(7) [OF b] by (simp add: bt_def)
  then show "fl_loop 256 f (?a + ucast (freelist_offset (pagerefs s p))) s = (Inr (map g (F p)), s)"
    using F sub blk_nonzero [OF al b _ hi]
    by (intro fl_loop_eq [OF ch] f) (auto simp: o blk_def)
qed

lemma no_free_block:
  assumes pg: "pages_ok s ps F X" and p: "p \<in> set ps"
    and inv: "freelist_offset (pagerefs s p) = INVALID_OFFSET"
  shows "F p = []"
proof (rule ccontr)
  assume "F p \<noteq> []"
  then obtain k ks where F: "F p = k # ks" by (cases "F p") auto
  note ok = page_of(1) [OF pg p]
  have k: "k < nblocks (bt s p)" using ok F by (simp add: page_ok_def bt_def)
  note o = blk_facts(5) [OF page_of(4,3) [OF pg p] k]
  have "unat (freelist_offset (pagerefs s p)) = boff (bt s p) k"
    using ok F ucast_offset(2) [OF o] by (simp add: page_ok_def bt_def)
  then show False using inv o by (simp add: INVALID_OFFSET_def)
qed

lemma block_index:
  assumes "page_aligned a" "b < 8" "k < nblocks b"
  shows "(blk a b k - a) mod (sizes ! b) = 0" and "unat ((blk a b k - a) div (sizes ! b)) = k"
    and "unat (PAGE_SIZE div (sizes ! b)) = nblocks b"
proof -
  have u: "unat (blk a b k - a) = k * bsize b"
    using blk_facts(3,4) [OF assms] by (simp add: boff_def)
  have z: "0 < bsize b" using bsize_facts(2) [OF assms(2)] by simp
  show "(blk a b k - a) mod (sizes ! b) = 0"
    by (simp add: word_unat_eq_iff unat_mod u flip: bsize_def)
  show "unat ((blk a b k - a) div (sizes ! b)) = k"
    using z by (simp add: unat_div u flip: bsize_def)
  show "unat (PAGE_SIZE div (sizes ! b)) = nblocks b"
    by (simp add: unat_div PAGE_SIZE_def nblocks_def flip: bsize_def)
qed

lemma free_next_other:
  assumes "free_chain m at ks" "distinct ks" "k \<in> set ks" "inj_on at (set ks)" "at k \<noteq> 0"
  shows "m (at k) \<noteq> at k"
  using assms
proof (induction ks)
  case (Cons j js)
  show ?case
  proof (cases "k = j")
    case True
    have "m (at j) = (case js of [] \<Rightarrow> 0 | i # _ \<Rightarrow> at i)" by (rule free_chain_Cons(1) [OF Cons.prems(1)])
    moreover have "at i \<noteq> at j" if "i \<in> set js" for i
      using Cons.prems(2,4) that by (auto simp: inj_on_def)
    ultimately show ?thesis using True Cons.prems(5) by (cases js) auto
  next
    case False
    then have "k \<in> set js" "distinct js" "inj_on at (set js)"
      using Cons.prems(2-4) by (auto simp: inj_on_def)
    then show ?thesis using Cons.IH free_chain_Cons(2) [OF Cons.prems(1)] Cons.prems(5) by blast
  qed
qed simp

lemma checksubpage_ok:
  assumes inv: "heap_inv s ps F X" and p: "p \<in> set ps"
  shows "checksubpage p s = (Inr (), s)"
proof -
  let ?a = "pa s p" and ?b = "bt s p" and ?r = "pagerefs s p"
  have pg: "pages_ok s ps F X" and ram: "ram_ok s" using inv by (simp_all add: heap_inv_def)
  have al: "page_aligned ?a" and b: "?b < 8" and hi: "2147483648 \<le> unat ?a" and kp: "kpage s ?a"
    and ok: "page_ok (kmem s) ?r (F p)"
    using page_of [OF pg p] by simp_all
  have nf: "unat (nfree ?r) = length (F p)" and d: "distinct (F p)" and sub: "set (F p) \<subseteq> {..<nblocks ?b}"
    and ch: "free_chain (kmem s) (blk ?a ?b) (F p)"
    using ok by (simp_all add: page_ok_def bt_def pa_def)
  show ?thesis
  proof (cases "freelist_offset ?r = INVALID_OFFSET")
    case True
    have "F p = []" by (rule no_free_block [OF pg p True])
    then have "nfree ?r = 0" using nf by (simp add: unat_eq_zero)
    then show ?thesis using True by (simp add: checksubpage_def krun)
  next
    case False
    let ?f = "\<lambda>fla. kbind (kassert (fla \<ge> ?a \<and> fla < ?a + PAGE_SIZE)) (\<lambda>_.
       kbind (kassert ((fla - ?a) mod sizes ! ?b = 0)) (\<lambda>_.
       kbind (kget (\<lambda>s. kmem s fla)) (\<lambda>nx. kassert (nx \<noteq> fla))))"
    have inj: "inj_on (blk ?a ?b) (set (F p))"
      by (rule inj_onI) (use sub blk_inject [OF al b] in blast)
    have step: "?f (blk ?a ?b k) s = (Inr (), s)" if "k < nblocks ?b" "k \<in> set (F p)" for k
      using block_index(1) [OF al b that(1)] blk_facts(1) [OF al b that(1)]
        in_page_iff [OF al, of "blk ?a ?b k"] kpage_bound(2) [OF ram kp]
        free_next_other [OF ch d that(2) inj blk_nonzero [OF al b that(1) hi]]
      by (simp add: krun)
    note loop = page_free_loop [OF pg p False, of ?f "\<lambda>_. ()", OF step]
    obtain k where k: "k < nblocks ?b" "ucast (freelist_offset ?r) = (of_nat (boff ?b k) :: u32)"
      using loop(2) by blast
    have off: "ucast (freelist_offset ?r) < PAGE_SIZE" "ucast (freelist_offset ?r) mod sizes ! ?b = 0"
      using blk_facts(3-5) [OF al b k(1)] block_index(1) [OF al b k(1)]
      by (simp_all add: k(2) word_less_nat_alt PAGE_SIZE_def)
    have "MIPS_KSEG0 \<le> ?a" "?a < MIPS_KSEG1"
      using hi kpage_bound(2) [OF ram kp] by (simp_all add: MIPS_KSEG0_def MIPS_KSEG1_def word_le_nat_alt word_less_nat_alt)
    moreover have "PR_BLOCKTYPE ?r < 8" using b by (simp add: bt_def word_less_nat_alt)
    ultimately show ?thesis
      using False off nf loop(1)
      by (simp add: checksubpage_def Let_def krun flip: pa_def bt_def)
        (simp add: kbind_eq krun)?
  qed
qed

lemma check_list_ok:
  assumes inv: "heap_inv s ps F X" and l: "plist (\<lambda>q. nx (pagerefs s q)) pr qs"
    and "set qs \<subseteq> set ps" and "length qs \<le> n" and "count + length qs \<le> TOTAL_PAGEREFS"
  shows "check_list n nx count pr s = (Inr (count + length qs), s)"
  using assms(2-)
proof (induction qs arbitrary: pr n count)
  case Nil
  then show ?case by (subst check_list.simps) (simp add: krun)
next
  case (Cons q qs)
  obtain n' where n: "n = Suc n'" "length qs \<le> n'" using Cons.prems(3) by (cases n) auto
  have q: "pr = q" "q \<noteq> 0" and rest: "plist (\<lambda>q. nx (pagerefs s q)) (nx (pagerefs s q)) qs"
    using Cons.prems(1) by simp_all
  have c: "checksubpage q s = (Inr (), s)"
    by (rule checksubpage_ok [OF inv]) (use Cons.prems(2) in simp)
  have "check_list n' nx (Suc count) (nx (pagerefs s q)) s = (Inr (Suc count + length qs), s)"
    by (rule Cons.IH [OF rest _ n(2)]) (use Cons.prems in simp_all)
  then show ?case
    using q n(1) Cons.prems(4) by (subst check_list.simps) (simp add: kbind_eq c krun)
qed

lemma class_lengths:
  "\<forall>p\<in>set ps. f p < n \<Longrightarrow> (\<Sum>b\<leftarrow>[0..<n]. length (filter (\<lambda>p. f p = b) ps)) = length ps" for f :: "'a \<Rightarrow> nat"
proof (induction ps)
  case (Cons p ps)
  have "(\<Sum>b\<leftarrow>[0..<n]. length (filter (\<lambda>q. f q = b) (p # ps))) =
      (\<Sum>b\<leftarrow>[0..<n]. (if f p = b then 1 else 0) + length (filter (\<lambda>q. f q = b) ps))"
    by (rule arg_cong [where f = sum_list]) simp
  also have "\<dots> = (\<Sum>b\<leftarrow>[0..<n]. if f p = b then 1 else 0) + length ps"
    using Cons by (simp add: sum_list_addf)
  also have "(\<Sum>b\<leftarrow>[0..<n]. if f p = b then 1 else 0) = (1 :: nat)"
    using Cons.prems by (simp add: interv_sum_list_conv_sum_set_nat sum.delta)
  finally show ?case by simp
qed simp

lemma check_sizes_ok:
  assumes inv: "heap_inv s ps F X" and "set is \<subseteq> {..<8}"
    and "sc + (\<Sum>b\<leftarrow>is. length (filter (\<lambda>p. bt s p = b) ps)) \<le> TOTAL_PAGEREFS"
  shows "check_sizes is sc s = (Inr (sc + (\<Sum>b\<leftarrow>is. length (filter (\<lambda>p. bt s p = b) ps))), s)"
  using assms(2,3)
proof (induction "is" arbitrary: sc)
  case (Cons b bs)
  let ?qs = "filter (\<lambda>p. bt s p = b) ps"
  have "plist (\<lambda>q. next_samesize (pagerefs s q)) (sizebases s ! b) ?qs"
    using inv Cons.prems(1) by (simp add: heap_inv_def lists_ok_def)
  moreover have "length ?qs \<le> TOTAL_PAGEREFS"
    using Cons.prems(2) by simp
  ultimately have "check_list TOTAL_PAGEREFS next_samesize sc (sizebases s ! b) s = (Inr (sc + length ?qs), s)"
    using Cons.prems by (intro check_list_ok [OF inv]) auto
  then show ?case
    using Cons.IH [of "sc + length ?qs"] Cons.prems by (simp add: krun kbind_eq add.assoc)
qed (simp add: krun)

subsection \<open>Properties\<close>

text \<open>C36: on a well-formed heap none of the assertions of the code's own consistency checks fails, the
  loops of the checks end, and they change nothing.\<close>

theorem checksubpages_pass:
  assumes "kheap_ok s"
  shows "checksubpages s = (Inr (), s)"
proof -
  obtain ps F where h: "heap_ok s ps F" using assms by (auto simp: kheap_ok_def)
  have pg: "pages_ok s ps F {}" using h by (simp add: heap_inv_def)
  have n: "length ps \<le> TOTAL_PAGEREFS" by (rule heap_pagerefs_bound [OF h])
  have sum: "(\<Sum>b\<leftarrow>[0..<8]. length (filter (\<lambda>p. bt s p = b) ps)) = length ps"
    by (rule class_lengths) (use page_of(3) [OF pg] in simp)
  have "check_sizes [0..<8] 0 s = (Inr (length ps), s)"
    using check_sizes_ok [OF h, of "[0..<8]" 0] sum n by (simp add: lessThan_atLeast0)
  moreover have "check_list TOTAL_PAGEREFS next_all 0 (allbase s) s = (Inr (length ps), s)"
    using check_list_ok [OF h, of next_all "allbase s" ps TOTAL_PAGEREFS 0] h n
    by (simp add: heap_inv_def lists_ok_def)
  ultimately show ?thesis
    by (simp add: checksubpages_def kbind_eq krun)
qed

lemma checksubpages_pass_witness:
  "\<exists>s. kmalloc 1500 example_heap = (Inr 0x80040800, s) \<and> checksubpages s = (Inr (), s)"
proof -
  obtain s where s: "kheap_ok s" "live_blocks s = {(0x80040800, 2048)}"
    "kmalloc 1500 example_heap = (Inr 0x80040800, s)" by (rule example_block)
  from checksubpages_pass [OF s(1)] s(3) show ?thesis by - (intro exI [of _ s] conjI)
qed

text \<open>The address a line of the statistics is about, its block size and the blocks it shows as used.\<close>

definition shown_used :: "vaddr \<times> u32 \<times> u16 \<times> bool list \<Rightarrow> (vaddr \<times> nat) set" where
  "shown_used line = (case line of (a, z, nf, is) \<Rightarrow>
     {(a + of_nat (k * unat z), unat z) | k. k < length is \<and> \<not> is ! k})"

lemma subpage_stats_ok:
  assumes inv: "heap_inv s ps F X" and p: "p \<in> set ps"
  shows "\<exists>line. subpage_stats p s = (Inr line, s) \<and> shown_used line = page_live (pa s p) (bt s p) (F p)"
proof -
  let ?a = "pa s p" and ?b = "bt s p" and ?r = "pagerefs s p"
  have pg: "pages_ok s ps F X" using inv by (simp add: heap_inv_def)
  have al: "page_aligned ?a" and b: "?b < 8" and ok: "page_ok (kmem s) ?r (F p)"
    using page_of [OF pg p] by simp_all
  have nb: "unat (PAGE_SIZE div (sizes ! ?b)) = nblocks ?b"
    using bsize_facts(7,8) [OF b] by simp
  let ?line = "(?a, sizes ! ?b, nfree ?r, map (\<lambda>i. i \<in> set (F p)) [0..<nblocks ?b])"
  have is_eq: "(if freelist_offset ?r \<noteq> INVALID_OFFSET then
              fl_loop 256 (\<lambda>fla.
                let index = (fla - ?a) div (sizes ! ?b) in
                kbind (kassert (index < PAGE_SIZE div (sizes ! ?b))) (\<lambda>_. kreturn (unat index)))
                (?a + ucast (freelist_offset ?r))
            else kreturn []) s = (Inr (F p), s)"
  proof (cases "freelist_offset ?r = INVALID_OFFSET")
    case True
    have "F p = []" by (rule no_free_block [OF pg p True])
    then show ?thesis using True by (simp add: krun)
  next
    case False
    have "(let index = (blk ?a ?b k - ?a) div (sizes ! ?b) in
        kbind (kassert (index < PAGE_SIZE div (sizes ! ?b))) (\<lambda>_. kreturn (unat index))) s = (Inr k, s)"
      if "k < nblocks ?b" "k \<in> set (F p)" for k
      using block_index(2,3) [OF al b that(1)] that(1) by (simp add: Let_def word_less_nat_alt krun)
    then have "fl_loop 256 (\<lambda>fla.
        let index = (fla - ?a) div (sizes ! ?b) in
        kbind (kassert (index < PAGE_SIZE div (sizes ! ?b))) (\<lambda>_. kreturn (unat index)))
        (?a + ucast (freelist_offset ?r)) s = (Inr (map (\<lambda>k. k) (F p)), s)"
      by (rule page_free_loop(1) [OF pg p False])
    then show ?thesis using False by simp
  qed
  have "PR_BLOCKTYPE ?r < 8" "PAGE_SIZE div (sizes ! ?b) \<le> 256"
    using b nb bsize_facts(7) [OF b] by (simp_all add: bt_def word_less_nat_alt word_le_nat_alt)
  then have "subpage_stats p s = (Inr ?line, s)"
    using is_eq nb by (cases "freelist_offset ?r = INVALID_OFFSET")
      (simp_all add: subpage_stats_def Let_def krun kbind_eq flip: pa_def bt_def)
  moreover have "shown_used ?line = page_live ?a ?b (F p)"
  proof -
    have "sizes ! ?b = of_nat (bsize ?b)" by (simp add: bsize_def)
    then have "shown_used ?line = {(?a + of_nat (k * bsize ?b), bsize ?b) | k. k < nblocks ?b \<and> \<not> map (\<lambda>i. i \<in> set (F p)) [0..<nblocks ?b] ! k}"
      unfolding shown_used_def prod.case by (simp add: bsize_def)
    also have "\<dots> = {(?a + of_nat (k * bsize ?b), bsize ?b) | k. k < nblocks ?b \<and> k \<notin> set (F p)}"
      by (rule Collect_cong) (intro ex_cong1, simp cong: conj_cong)
    also have "\<dots> = page_live ?a ?b (F p)"
      unfolding page_live_def blk_def boff_def by blast
    finally show ?thesis .
  qed
  ultimately show ?thesis by blast
qed

lemma stats_list_ok:
  assumes inv: "heap_inv s ps F X" and l: "plist (\<lambda>q. next_all (pagerefs s q)) pr qs"
    and "set qs \<subseteq> set ps" and "length qs \<le> n"
  shows "\<exists>ls. stats_list n pr s = (Inr ls, s)
    \<and> (\<Union>(shown_used ` set ls)) = (\<Union>q\<in>set qs. page_live (pa s q) (bt s q) (F q))"
  using assms(2-)
proof (induction qs arbitrary: pr n)
  case Nil
  then show ?case by (subst stats_list.simps) (simp add: krun)
next
  case (Cons q qs)
  obtain n' where n: "n = Suc n'" "length qs \<le> n'" using Cons.prems(3) by (cases n) auto
  have q: "pr = q" "q \<noteq> 0" "q \<in> set ps" and rest: "plist (\<lambda>q. next_all (pagerefs s q)) (next_all (pagerefs s q)) qs"
    using Cons.prems(1,2) by simp_all
  obtain line where line: "subpage_stats q s = (Inr line, s)"
    "shown_used line = page_live (pa s q) (bt s q) (F q)"
    using subpage_stats_ok [OF inv q(3)] by blast
  obtain ls where ls: "stats_list n' (next_all (pagerefs s q)) s = (Inr ls, s)"
    "(\<Union>(shown_used ` set ls)) = (\<Union>q\<in>set qs. page_live (pa s q) (bt s q) (F q))"
    using Cons.IH [OF rest _ n(2)] Cons.prems(2) by auto
  have "stats_list n pr s = (Inr (line # ls), s)"
    using q line(1) ls(1) n(1) by (subst stats_list.simps) (simp add: kbind_eq krun)
  then show ?case using line(2) ls(2) by (intro exI [of _ "line # ls"]) simp
qed

text \<open>The heap statistics come to an end without a panic, and the blocks they show as used are
  exactly the blocks that were handed out and not freed.\<close>

theorem kheap_printstats_shows_live:
  assumes "kheap_ok s"
  shows "\<exists>ls. kheap_printstats s = (Inr ls, s) \<and> (\<Union>(shown_used ` set ls)) = live_blocks s"
proof -
  obtain ps F where h: "heap_ok s ps F" using assms by (auto simp: kheap_ok_def)
  have l: "plist (\<lambda>q. next_all (pagerefs s q)) (allbase s) ps"
    using h by (simp add: heap_inv_def lists_ok_def)
  obtain ls where "stats_list TOTAL_PAGEREFS (allbase s) s = (Inr ls, s)"
    "(\<Union>(shown_used ` set ls)) = live s ps F"
    using stats_list_ok [OF h l _ heap_pagerefs_bound [OF h]] by (auto simp: live_def)
  then show ?thesis
    by (intro exI [of _ ls]) (simp add: kheap_printstats_def krun live_blocks_eq [OF h])
qed

lemma kheap_printstats_shows_live_witness:
  "\<exists>(s :: kheap) ls. kheap_printstats s = (Inr ls, s) \<and> (\<Union>(shown_used ` set ls)) = {(0x80040800, 2048)}"
proof -
  obtain s where s: "kheap_ok s" "live_blocks s = {(0x80040800, 2048)}"
    "kmalloc 1500 example_heap = (Inr 0x80040800, s)" by (rule example_block)
  from kheap_printstats_shows_live [OF s(1)] obtain ls where
    "kheap_printstats s = (Inr ls, s)" "(\<Union>(shown_used ` set ls)) = {(0x80040800, 2048)}"
    unfolding s(2) by (elim exE conjE)
  then show ?thesis by - (intro exI [of _ s] exI [of _ ls] conjI)
qed

end
