(* ===== verification/Dumbvm.thy ===== *)
theory Dumbvm
  imports Kframe
begin

text \<open>
  The address spaces of dumbvm (\<^verbatim>\<open>kern/arch/mips/vm/dumbvm.c\<close>): two segments and a stack of
  twelve pages, each at consecutive physical pages, translated by \<open>vm_fault\<close> into the 64 entries
  of the TLB.

  The state extends the kernel heap: \<open>spaces\<close> holds the address spaces by the addresses kmalloc
  gave them, \<open>curspace\<close> is \<open>curthread->t_addrspace\<close>, and user pages are words of \<open>kmem\<close> at
  their KSEG0 addresses. A freed address space is no longer in \<open>spaces\<close>, so a use of it is
  \<open>UNDEFINED\<close>. Interrupts are off around the TLB accesses, so a fault is one step.
\<close>

subsection \<open>The code\<close>

definition DUMBVM_STACKPAGES :: u32 where "DUMBVM_STACKPAGES = 12"

abbreviation NUM_TLB :: nat where "NUM_TLB \<equiv> 64"
definition TLBLO_DIRTY :: u32 where "TLBLO_DIRTY = 0x400"
definition TLBLO_VALID :: u32 where "TLBLO_VALID = 0x200"
definition TLBLO_PPAGE :: u32 where "TLBLO_PPAGE = 0xfffff000"
definition TLBHI_INVALID :: "nat \<Rightarrow> u32" where "TLBHI_INVALID entryno = push_bit 12 (0x80000 + of_nat entryno)"
definition TLBLO_INVALID :: u32 where "TLBLO_INVALID = 0"

definition VM_FAULT_READ :: int where "VM_FAULT_READ = 0"
definition VM_FAULT_WRITE :: int where "VM_FAULT_WRITE = 1"
definition VM_FAULT_READONLY :: int where "VM_FAULT_READONLY = 2"

record addrspace =
  as_vbase1 :: vaddr
  as_pbase1 :: paddr
  as_npages1 :: u32
  as_vbase2 :: vaddr
  as_pbase2 :: paddr
  as_npages2 :: u32
  as_stackpbase :: paddr

text \<open>The size of the C structure, with \<open>as_load_complete\<close> and three pointers, which dumbvm
  does not use.\<close>

definition sizeof_addrspace :: u32 where "sizeof_addrspace = 44"

record vmstate = kheap +
  tlb :: "(u32 \<times> u32) list"
  spaces :: "vaddr \<Rightarrow> addrspace option"
  curspace :: vaddr

definition tlb_write :: "u32 \<Rightarrow> u32 \<Rightarrow> nat \<Rightarrow> ('a vmstate_scheme, unit) kernel" where
  "tlb_write hi lo i = kmodify (\<lambda>s. s\<lparr>tlb := (tlb s)[i := (hi, lo)]\<rparr>)"

definition get_space :: "vaddr \<Rightarrow> ('a vmstate_scheme, addrspace) kernel" where
  "get_space as =
     kbind (kget (\<lambda>s. spaces s as)) (\<lambda>sp. case sp of None \<Rightarrow> kfail UNDEFINED | Some a \<Rightarrow> kreturn a)"

definition set_space :: "vaddr \<Rightarrow> (addrspace \<Rightarrow> addrspace) \<Rightarrow> ('a vmstate_scheme, unit) kernel" where
  "set_space as f = kmodify (\<lambda>s. s\<lparr>spaces := (spaces s)(as := map_option f (spaces s as))\<rparr>)"

text \<open>The assertions of \<open>vm_fault\<close> about the address space.\<close>

definition as_set_up :: "addrspace \<Rightarrow> bool" where
  "as_set_up a \<longleftrightarrow> as_vbase1 a \<noteq> 0 \<and> as_pbase1 a \<noteq> 0 \<and> as_npages1 a \<noteq> 0
     \<and> as_vbase2 a \<noteq> 0 \<and> as_pbase2 a \<noteq> 0 \<and> as_npages2 a \<noteq> 0 \<and> as_stackpbase a \<noteq> 0
     \<and> as_vbase1 a AND PAGE_FRAME = as_vbase1 a \<and> as_pbase1 a AND PAGE_FRAME = as_pbase1 a
     \<and> as_vbase2 a AND PAGE_FRAME = as_vbase2 a \<and> as_pbase2 a AND PAGE_FRAME = as_pbase2 a
     \<and> as_stackpbase a AND PAGE_FRAME = as_stackpbase a"

text \<open>The segment that holds a page, and the physical page.\<close>

definition translate_page :: "addrspace \<Rightarrow> vaddr \<Rightarrow> paddr option" where
  "translate_page a faultaddress =
     (let vbase1 = as_vbase1 a; vtop1 = vbase1 + as_npages1 a * PAGE_SIZE;
          vbase2 = as_vbase2 a; vtop2 = vbase2 + as_npages2 a * PAGE_SIZE;
          stackbase = USERSTACK - DUMBVM_STACKPAGES * PAGE_SIZE; stacktop = USERSTACK in
      if faultaddress \<ge> vbase1 \<and> faultaddress < vtop1 then Some ((faultaddress - vbase1) + as_pbase1 a)
      else if faultaddress \<ge> vbase2 \<and> faultaddress < vtop2 then Some ((faultaddress - vbase2) + as_pbase2 a)
      else if faultaddress \<ge> stackbase \<and> faultaddress < stacktop then Some ((faultaddress - stackbase) + as_stackpbase a)
      else None)"

text \<open>The loop over the TLB: the first entry that is not valid is written.\<close>

fun tlb_fill :: "vaddr \<Rightarrow> paddr \<Rightarrow> nat list \<Rightarrow> ('a vmstate_scheme, unit) kernel" where
  "tlb_fill faultaddress paddr [] = kfail EFAULT"
| "tlb_fill faultaddress paddr (i # is) =
     kbind (kget (\<lambda>s. tlb s ! i)) (\<lambda>(ehi, elo).
     if elo AND TLBLO_VALID \<noteq> 0 then tlb_fill faultaddress paddr is
     else tlb_write faultaddress (paddr OR TLBLO_DIRTY OR TLBLO_VALID) i)"

definition vm_fault :: "int \<Rightarrow> vaddr \<Rightarrow> ('a vmstate_scheme, unit) kernel" where
  "vm_fault faulttype addr =
     (let faultaddress = addr AND PAGE_FRAME in
      if faulttype = VM_FAULT_READONLY then kfail PANIC
      else if faulttype \<noteq> VM_FAULT_READ \<and> faulttype \<noteq> VM_FAULT_WRITE then kfail EINVAL
      else
      kbind (kget curspace) (\<lambda>as.
      if as = 0 then kfail EFAULT else
      kbind (get_space as) (\<lambda>a.
      kbind (kassert (as_set_up a)) (\<lambda>_.
      case translate_page a faultaddress of
        None \<Rightarrow> kfail EFAULT
      | Some paddr \<Rightarrow>
        kbind (kassert (paddr AND PAGE_FRAME = paddr)) (\<lambda>_.
        tlb_fill faultaddress paddr [0..<NUM_TLB])))))"

definition as_create :: "('a vmstate_scheme, vaddr) kernel" where
  "as_create =
     kbind (kmalloc sizeof_addrspace) (\<lambda>as.
     if as = 0 then kreturn 0 else
     kbind (kmodify (\<lambda>s. s\<lparr>spaces := (spaces s)(as \<mapsto>
       \<lparr>as_vbase1 = 0, as_pbase1 = 0, as_npages1 = 0, as_vbase2 = 0, as_pbase2 = 0, as_npages2 = 0,
        as_stackpbase = 0\<rparr>)\<rparr>)) (\<lambda>_. kreturn as))"

definition as_destroy :: "vaddr \<Rightarrow> ('a vmstate_scheme, unit) kernel" where
  "as_destroy as = kbind (kfree as) (\<lambda>_. kmodify (\<lambda>s. s\<lparr>spaces := (spaces s)(as := None)\<rparr>))"

definition as_activate :: "vaddr \<Rightarrow> ('a vmstate_scheme, unit) kernel" where
  "as_activate as = kfor [0..<NUM_TLB] (\<lambda>i. tlb_write (TLBHI_INVALID i) TLBLO_INVALID i)"

text \<open>Returns the code's error number, which is 2 (not an errno of the table) for a third region.\<close>

definition as_define_region :: "vaddr \<Rightarrow> vaddr \<Rightarrow> u32 \<Rightarrow> bool \<Rightarrow> bool \<Rightarrow> bool \<Rightarrow> ('a vmstate_scheme, int) kernel" where
  "as_define_region as addr sz readable writeable executable =
     (let sz = sz + (addr AND NOT PAGE_FRAME);
          addr = addr AND PAGE_FRAME;
          sz = (sz + PAGE_SIZE - 1) AND PAGE_FRAME;
          npages = sz div PAGE_SIZE in
      kbind (get_space as) (\<lambda>a.
      if as_vbase1 a = 0 then
        kbind (set_space as (\<lambda>a. a\<lparr>as_vbase1 := addr, as_npages1 := npages\<rparr>)) (\<lambda>_. kreturn 0)
      else if as_vbase2 a = 0 then
        kbind (set_space as (\<lambda>a. a\<lparr>as_vbase2 := addr, as_npages2 := npages\<rparr>)) (\<lambda>_. kreturn 0)
      else kreturn 2))"

text \<open>\<open>bzero\<close> and \<open>memmove\<close> on whole words.\<close>

definition zero_mem :: "vaddr \<Rightarrow> u32 \<Rightarrow> (vaddr \<Rightarrow> u32) \<Rightarrow> vaddr \<Rightarrow> u32" where
  "zero_mem dst len m x = (if x - dst < len then 0 else m x)"

definition move_mem :: "vaddr \<Rightarrow> vaddr \<Rightarrow> u32 \<Rightarrow> (vaddr \<Rightarrow> u32) \<Rightarrow> vaddr \<Rightarrow> u32" where
  "move_mem dst src len m x = (if x - dst < len then m (src + (x - dst)) else m x)"

definition as_zero_region :: "paddr \<Rightarrow> u32 \<Rightarrow> ('a vmstate_scheme, unit) kernel" where
  "as_zero_region paddr npages =
     kmodify (\<lambda>s. s\<lparr>kmem := zero_mem (PADDR_TO_KVADDR paddr) (npages * PAGE_SIZE) (kmem s)\<rparr>)"

definition as_prepare_load :: "vaddr \<Rightarrow> ('a vmstate_scheme, unit) kernel" where
  "as_prepare_load as =
     kbind (get_space as) (\<lambda>a.
     kbind (kassert (as_pbase1 a = 0)) (\<lambda>_.
     kbind (kassert (as_pbase2 a = 0)) (\<lambda>_.
     kbind (kassert (as_stackpbase a = 0)) (\<lambda>_.
     kbind (getppages (as_npages1 a)) (\<lambda>p1.
     kbind (set_space as (as_pbase1_update (\<lambda>_. p1))) (\<lambda>_.
     if p1 = 0 then kfail ENOMEM else
     kbind (getppages (as_npages2 a)) (\<lambda>p2.
     kbind (set_space as (as_pbase2_update (\<lambda>_. p2))) (\<lambda>_.
     if p2 = 0 then kfail ENOMEM else
     kbind (getppages DUMBVM_STACKPAGES) (\<lambda>p3.
     kbind (set_space as (as_stackpbase_update (\<lambda>_. p3))) (\<lambda>_.
     if p3 = 0 then kfail ENOMEM else
     kbind (as_zero_region p1 (as_npages1 a)) (\<lambda>_.
     kbind (as_zero_region p2 (as_npages2 a)) (\<lambda>_.
     as_zero_region p3 DUMBVM_STACKPAGES))))))))))))"

definition as_complete_load :: "vaddr \<Rightarrow> ('a vmstate_scheme, unit) kernel" where
  "as_complete_load as = kreturn ()"

definition as_define_stack :: "vaddr \<Rightarrow> ('a vmstate_scheme, vaddr) kernel" where
  "as_define_stack as =
     kbind (get_space as) (\<lambda>a. kbind (kassert (as_stackpbase a \<noteq> 0)) (\<lambda>_. kreturn USERSTACK))"

definition move_region :: "paddr \<Rightarrow> paddr \<Rightarrow> u32 \<Rightarrow> ('a vmstate_scheme, unit) kernel" where
  "move_region dst src npages =
     kmodify (\<lambda>s. s\<lparr>kmem := move_mem (PADDR_TO_KVADDR dst) (PADDR_TO_KVADDR src) (npages * PAGE_SIZE) (kmem s)\<rparr>)"

definition as_copy :: "vaddr \<Rightarrow> ('a vmstate_scheme, vaddr) kernel" where
  "as_copy old =
     kbind as_create (\<lambda>new.
     if new = 0 then kfail ENOMEM else
     kbind (get_space old) (\<lambda>a.
     kbind (set_space new (\<lambda>n. n\<lparr>as_vbase1 := as_vbase1 a, as_npages1 := as_npages1 a,
       as_vbase2 := as_vbase2 a, as_npages2 := as_npages2 a\<rparr>)) (\<lambda>_.
     kbind (ktry (as_prepare_load new)) (\<lambda>r.
     case r of
       Inl e \<Rightarrow> kbind (as_destroy new) (\<lambda>_. kfail ENOMEM)
     | Inr _ \<Rightarrow>
       kbind (get_space new) (\<lambda>n.
       kbind (kassert (as_pbase1 n \<noteq> 0)) (\<lambda>_.
       kbind (kassert (as_pbase2 n \<noteq> 0)) (\<lambda>_.
       kbind (kassert (as_stackpbase n \<noteq> 0)) (\<lambda>_.
       kbind (move_region (as_pbase1 n) (as_pbase1 a) (as_npages1 a)) (\<lambda>_.
       kbind (move_region (as_pbase2 n) (as_pbase2 a) (as_npages2 a)) (\<lambda>_.
       kbind (move_region (as_stackpbase n) (as_stackpbase a) DUMBVM_STACKPAGES) (\<lambda>_.
       kreturn new)))))))))))"

subsection \<open>Page arithmetic\<close>

lemma page_aligned_mult: "page_aligned x \<longleftrightarrow> (\<exists>k. x = 4096 * k)"
proof
  assume "page_aligned x"
  then have "unat x mod 4096 = 0" by (simp add: page_aligned_unat)
  then obtain m where "unat x = 4096 * m" by auto
  have "x = of_nat (unat x)" by simp
  also have "\<dots> = 4096 * of_nat m" unfolding \<open>unat x = 4096 * m\<close> by simp
  finally have "x = 4096 * of_nat m" .
  then show "\<exists>k. x = 4096 * k" by blast
next
  assume "\<exists>k. x = 4096 * k"
  then obtain k where "x = 4096 * k" by blast
  then have "unat x = (4096 * unat k) mod (4096 * 1048576)"
    by (simp add: unat_word_ariths)
  then have "unat x mod 4096 = 0"
    by (simp only: mod_mult_mult1 mod_mult_self1_is_0)
  then show "page_aligned x" by (simp add: page_aligned_unat)
qed

lemma page_aligned_arith:
  assumes "page_aligned x" "page_aligned y"
  shows "page_aligned (x + y)" "page_aligned (x - y)"
proof -
  obtain k l where "x = 4096 * k" "y = 4096 * l" using assms unfolding page_aligned_mult by blast
  then have "x + y = 4096 * (k + l)" "x - y = 4096 * (k - l)" by (simp_all add: algebra_simps)
  then show "page_aligned (x + y)" "page_aligned (x - y)" unfolding page_aligned_mult by blast+
qed

lemma page_aligned_frame: "page_aligned (x AND PAGE_FRAME)"
  by (simp add: page_aligned_def and.assoc)

lemma page_aligned_consts: "page_aligned MIPS_KSEG0" "page_aligned USERSTACK" "page_aligned (n * PAGE_SIZE)"
proof -
  show "page_aligned MIPS_KSEG0" "page_aligned USERSTACK"
    by (simp_all add: page_aligned_def page_consts)
  have "n * PAGE_SIZE = 4096 * n" by (simp add: PAGE_SIZE_def)
  then show "page_aligned (n * PAGE_SIZE)" unfolding page_aligned_mult by blast
qed

lemma translate_aligned:
  assumes "as_set_up a" and "page_aligned x" and "translate_page a x = Some p"
  shows "page_aligned p"
proof -
  have al: "page_aligned (as_vbase1 a)" "page_aligned (as_pbase1 a)" "page_aligned (as_vbase2 a)"
    "page_aligned (as_pbase2 a)" "page_aligned (as_stackpbase a)"
    using assms(1) by (simp_all add: as_set_up_def page_aligned_def)
  note c = page_aligned_consts
  show ?thesis
    using assms(3)
    by (auto simp: translate_page_def Let_def simp del: One_nat_def split: if_splits
      intro!: page_aligned_arith(1) intro: page_aligned_arith al c assms(2))
qed

subsection \<open>The TLB\<close>

definition tlb_valid :: "u32 \<times> u32 \<Rightarrow> bool" where
  "tlb_valid e \<longleftrightarrow> snd e AND TLBLO_VALID \<noteq> 0"

text \<open>What the processor does: the entry of the page, if there is a valid one, gives the physical
  page; the fault handler is entered otherwise.\<close>

definition tlb_lookup :: "(u32 \<times> u32) list \<Rightarrow> vaddr \<Rightarrow> paddr option" where
  "tlb_lookup es x = map_option (\<lambda>e. (snd e AND TLBLO_PPAGE) + x mod PAGE_SIZE)
     (List.find (\<lambda>e. tlb_valid e \<and> fst e = x AND PAGE_FRAME) es)"

definition mem_access :: "int \<Rightarrow> vaddr \<Rightarrow> ('a vmstate_scheme, unit) kernel" where
  "mem_access ft x =
     kbind (kget (\<lambda>s. tlb_lookup (tlb s) x)) (\<lambda>h.
     case h of Some p \<Rightarrow> kreturn () | None \<Rightarrow> vm_fault ft x)"

text \<open>Every valid entry is a page of the address space, and no page has two of them.\<close>

definition tlb_ok :: "addrspace \<Rightarrow> (u32 \<times> u32) list \<Rightarrow> bool" where
  "tlb_ok a es \<longleftrightarrow> length es = NUM_TLB
     \<and> (\<forall>e\<in>set es. tlb_valid e \<longrightarrow> page_aligned (fst e) \<and> translate_page a (fst e) = Some (snd e AND TLBLO_PPAGE))
     \<and> (\<forall>i<NUM_TLB. \<forall>j<NUM_TLB. i \<noteq> j \<longrightarrow> tlb_valid (es ! i) \<longrightarrow> tlb_valid (es ! j) \<longrightarrow> fst (es ! i) \<noteq> fst (es ! j))"

lemma tlb_fill_eq:
  "tlb_fill x p is s = (case List.find (\<lambda>i. \<not> tlb_valid (tlb s ! i)) is of
     None \<Rightarrow> (Inl EFAULT, s)
   | Some i \<Rightarrow> (Inr (), s\<lparr>tlb := (tlb s)[i := (x, p OR TLBLO_DIRTY OR TLBLO_VALID)]\<rparr>))"
  by (induction "is") (auto simp: krun tlb_valid_def tlb_write_def split: prod.splits)

lemma new_entry:
  assumes "page_aligned p"
  shows "tlb_valid (x, p OR TLBLO_DIRTY OR TLBLO_VALID)"
    and "(p OR TLBLO_DIRTY OR TLBLO_VALID) AND TLBLO_PPAGE = p"
proof -
  have "(p OR d OR v) AND v = v" for d v :: u32
    by (rule bit_eqI) (auto simp: bit_simps)
  then have "(p OR TLBLO_DIRTY OR TLBLO_VALID) AND TLBLO_VALID = TLBLO_VALID" .
  then show "tlb_valid (x, p OR TLBLO_DIRTY OR TLBLO_VALID)"
    by (simp add: tlb_valid_def TLBLO_VALID_def)
  have "p AND 0xfffff000 = p" using assms by (simp add: page_aligned_def PAGE_FRAME_def)
  then show "(p OR TLBLO_DIRTY OR TLBLO_VALID) AND TLBLO_PPAGE = p"
    by (simp add: bit.conj_disj_distrib2 TLBLO_DIRTY_def TLBLO_VALID_def TLBLO_PPAGE_def)
qed

lemma tlb_ok_valid:
  assumes "tlb_ok a es" and "e \<in> set es" and "tlb_valid e"
  shows "page_aligned (fst e)" "translate_page a (fst e) = Some (snd e AND TLBLO_PPAGE)"
  using assms by (auto simp: tlb_ok_def)

lemma tlb_ok_unique:
  assumes "tlb_ok a es" and "e \<in> set es" "f \<in> set es" and "tlb_valid e" "tlb_valid f" and "fst e = fst f"
  shows "e = f"
proof -
  obtain i j where "i < NUM_TLB" "j < NUM_TLB" "es ! i = e" "es ! j = f"
    using assms(1-3) by (auto simp: tlb_ok_def in_set_conv_nth)
  then show ?thesis using assms(1,4-) by (cases "i = j") (auto simp: tlb_ok_def)
qed

lemma tlb_lookup_eq:
  assumes ok: "tlb_ok a es"
  shows "tlb_lookup es x = (if \<exists>e\<in>set es. tlb_valid e \<and> fst e = x AND PAGE_FRAME
     then map_option (\<lambda>p. p + x mod PAGE_SIZE) (translate_page a (x AND PAGE_FRAME)) else None)"
proof (cases "List.find (\<lambda>e. tlb_valid e \<and> fst e = x AND PAGE_FRAME) es")
  case None
  then show ?thesis by (auto simp: tlb_lookup_def find_None_iff)
next
  case (Some e)
  then have e: "e \<in> set es" "tlb_valid e" "fst e = x AND PAGE_FRAME"
    by (auto simp: find_Some_iff)
  then show ?thesis
    using Some tlb_ok_valid(2) [OF ok e(1,2)] by (auto simp: tlb_lookup_def)
qed

text \<open>The fault handler, past its assertions.\<close>

lemma vm_fault_eq:
  assumes cur: "curspace s \<noteq> 0" "spaces s (curspace s) = Some a" and a: "as_set_up a"
    and ft: "ft = VM_FAULT_READ \<or> ft = VM_FAULT_WRITE"
  shows "vm_fault ft x s = (case translate_page a (x AND PAGE_FRAME) of
      None \<Rightarrow> (Inl EFAULT, s)
    | Some p \<Rightarrow> tlb_fill (x AND PAGE_FRAME) p [0..<NUM_TLB] s)"
proof -
  have "page_aligned p" if "translate_page a (x AND PAGE_FRAME) = Some p" for p
    by (rule translate_aligned [OF a page_aligned_frame that])
  then show ?thesis
    using assms by (auto simp: vm_fault_def Let_def get_space_def krun kbind_assoc page_aligned_def
        VM_FAULT_READ_def VM_FAULT_WRITE_def VM_FAULT_READONLY_def split: option.split)
qed

lemma tlb_ok_fill:
  assumes ok: "tlb_ok a es" and i: "i < NUM_TLB" "\<not> tlb_valid (es ! i)"
    and x: "page_aligned x" "translate_page a x = Some p" "page_aligned p"
    and new: "\<forall>e\<in>set es. tlb_valid e \<longrightarrow> fst e \<noteq> x"
  shows "tlb_ok a (es[i := (x, p OR TLBLO_DIRTY OR TLBLO_VALID)])"
proof -
  let ?e = "(x, p OR TLBLO_DIRTY OR TLBLO_VALID)"
  have len: "length es = NUM_TLB" using ok by (simp add: tlb_ok_def)
  have "page_aligned (fst e) \<and> translate_page a (fst e) = Some (snd e AND TLBLO_PPAGE)"
    if "e \<in> set (es[i := ?e])" "tlb_valid e" for e
  proof -
    have "e = ?e \<or> e \<in> set es" using that(1) set_update_subset_insert [of es i ?e] by blast
    then show ?thesis
      using tlb_ok_valid [OF ok _ that(2)] x new_entry(2) [OF x(3)] by (elim disjE) simp_all
  qed
  moreover have "fst (es[i := ?e] ! j) \<noteq> fst (es[i := ?e] ! k)"
    if "j < NUM_TLB" "k < NUM_TLB" "j \<noteq> k" "tlb_valid (es[i := ?e] ! j)" "tlb_valid (es[i := ?e] ! k)" for j k
  proof -
    have m: "fst (es ! m) \<noteq> x" if "m < NUM_TLB" "tlb_valid (es ! m)" for m
      using new that len by simp
    consider "j = i" "k \<noteq> i" | "k = i" "j \<noteq> i" | "j \<noteq> i" "k \<noteq> i" using \<open>j \<noteq> k\<close> by blast
    then show ?thesis
    proof cases
      case 1
      then show ?thesis using m [of k] that len by auto
    next
      case 2
      then show ?thesis using m [of j] that len by auto
    next
      case 3
      then show ?thesis using ok that by (simp add: tlb_ok_def)
    qed
  qed
  ultimately show ?thesis using len by (simp add: tlb_ok_def)
qed

lemma mem_access_ok:
  assumes cur: "curspace s \<noteq> 0" "spaces s (curspace s) = Some a" and a: "as_set_up a"
    and ft: "ft = VM_FAULT_READ \<or> ft = VM_FAULT_WRITE" and ok: "tlb_ok a (tlb s)"
  shows "\<exists>r es. mem_access ft x s = (r, s\<lparr>tlb := es\<rparr>) \<and> tlb_ok a es \<and>
    (case r of
       Inr _ \<Rightarrow> \<exists>p. translate_page a (x AND PAGE_FRAME) = Some p
         \<and> tlb_lookup es x = Some (p + x mod PAGE_SIZE)
     | Inl e \<Rightarrow> e = EFAULT \<and> es = tlb s
         \<and> (translate_page a (x AND PAGE_FRAME) = None \<or> (\<forall>e\<in>set es. tlb_valid e)))"
proof -
  let ?x = "x AND PAGE_FRAME"
  have same: "s\<lparr>tlb := tlb s\<rparr> = s" by simp
  have len: "length (tlb s) = NUM_TLB" using ok by (simp add: tlb_ok_def)
  show ?thesis
  proof (cases "\<exists>e\<in>set (tlb s). tlb_valid e \<and> fst e = ?x")
    case True
    then obtain p where p: "translate_page a ?x = Some p"
      using tlb_ok_valid(2) [OF ok] by metis
    then have "tlb_lookup (tlb s) x = Some (p + x mod PAGE_SIZE)"
      using True by (simp add: tlb_lookup_eq [OF ok])
    then show ?thesis
      using p ok by (intro exI [of _ "Inr ()"] exI [of _ "tlb s"]) (simp add: mem_access_def krun)
  next
    case False
    then have "tlb_lookup (tlb s) x = None"
      unfolding tlb_lookup_eq [OF ok] by (rule if_not_P)
    then have "mem_access ft x s = vm_fault ft x s" by (simp add: mem_access_def krun)
    note run = this [unfolded vm_fault_eq [OF cur a ft]]
    show ?thesis
    proof (cases "translate_page a ?x")
      case None
      then show ?thesis
        using run ok by (intro exI [of _ "Inl EFAULT"] exI [of _ "tlb s"]) simp
    next
      case (Some p)
      note p = translate_aligned [OF a page_aligned_frame Some]
      show ?thesis
      proof (cases "List.find (\<lambda>i. \<not> tlb_valid (tlb s ! i)) [0..<NUM_TLB]")
        case None
        then have "\<forall>e\<in>set (tlb s). tlb_valid e"
          using len by (simp add: find_None_iff all_set_conv_all_nth)
        then show ?thesis
          using run Some None ok
          by (intro exI [of _ "Inl EFAULT"] exI [of _ "tlb s"]) (simp add: tlb_fill_eq)
      next
        case i: (Some i)
        then have i': "i < NUM_TLB" "\<not> tlb_valid (tlb s ! i)" by (auto simp: find_Some_iff)
        let ?e = "(?x, p OR TLBLO_DIRTY OR TLBLO_VALID)" let ?es = "(tlb s)[i := ?e]"
        have ok': "tlb_ok a ?es"
          by (rule tlb_ok_fill [OF ok i' page_aligned_frame Some p]) (use False in blast)
        have "?e \<in> set ?es" using i'(1) len by (simp add: set_update_memI)
        then have "tlb_lookup ?es x = Some (p + x mod PAGE_SIZE)"
          using Some new_entry(1) [OF p, of ?x] by (auto simp: tlb_lookup_eq [OF ok'])
        then show ?thesis
          using run Some i ok' by (intro exI [of _ "Inr ()"] exI [of _ ?es]) (simp add: tlb_fill_eq)
      qed
    qed
  qed
qed

lemma fold_update:
  "length (fold (\<lambda>i es. es[i := f i]) ixs es) = length es"
  "j < length es \<Longrightarrow> fold (\<lambda>i es. es[i := f i]) ixs es ! j = (if j \<in> set ixs then f j else es ! j)"
  by (induction ixs arbitrary: es) (auto simp: nth_list_update)

lemma as_activate_eq:
  assumes "length (tlb s) = NUM_TLB"
  shows "as_activate as s = (Inr (), s\<lparr>tlb := map (\<lambda>i. (TLBHI_INVALID i, TLBLO_INVALID)) [0..<NUM_TLB]\<rparr>)"
proof -
  have "kfor ixs (\<lambda>i. tlb_write (g i) l i) s = (Inr (), s\<lparr>tlb := fold (\<lambda>i es. es[i := (g i, l)]) ixs (tlb s)\<rparr>)"
    for ixs g l and s :: "'a vmstate_scheme"
    by (induction ixs arbitrary: s) (simp_all add: krun tlb_write_def)
  moreover have "fold (\<lambda>i es. es[i := (TLBHI_INVALID i, TLBLO_INVALID)]) [0..<NUM_TLB] (tlb s)
      = map (\<lambda>i. (TLBHI_INVALID i, TLBLO_INVALID)) [0..<NUM_TLB]"
    by (rule nth_equalityI) (use assms in \<open>simp_all add: fold_update del: upt_rec_numeral\<close>)
  ultimately show ?thesis unfolding as_activate_def by (simp del: upt_rec_numeral)
qed

lemma tlb_ok_activated: "tlb_ok a (map (\<lambda>i. (TLBHI_INVALID i, TLBLO_INVALID)) [0..<NUM_TLB])"
  by (auto simp: tlb_ok_def tlb_valid_def TLBLO_INVALID_def simp del: upt_rec_numeral)

text \<open>A program's accesses to its memory, one after the other; those that fail do not stop it.\<close>

fun mem_accesses :: "(int \<times> vaddr) list \<Rightarrow> ('a vmstate_scheme, unit) kernel" where
  "mem_accesses [] = kreturn ()"
| "mem_accesses ((ft, x) # xs) = kbind (ktry (mem_access ft x)) (\<lambda>_. mem_accesses xs)"

lemma mem_accesses_ok:
  assumes "curspace s \<noteq> 0" "spaces s (curspace s) = Some a" "as_set_up a" "tlb_ok a (tlb s)"
    and "\<forall>(ft, x)\<in>set xs. ft = VM_FAULT_READ \<or> ft = VM_FAULT_WRITE"
  shows "\<exists>es. mem_accesses xs s = (Inr (), s\<lparr>tlb := es\<rparr>) \<and> tlb_ok a es"
  using assms
proof (induction xs arbitrary: s)
  case Nil
  then show ?case by (intro exI [of _ "tlb s"]) (simp add: krun)
next
  case (Cons y xs)
  obtain ft x where y: "y = (ft, x)" by (cases y)
  have ft: "ft = VM_FAULT_READ \<or> ft = VM_FAULT_WRITE" using Cons.prems(5) y by simp
  obtain r es where r: "mem_access ft x s = (r, s\<lparr>tlb := es\<rparr>)" "tlb_ok a es" "\<forall>e. r = Inl e \<longrightarrow> e = EFAULT"
    using mem_access_ok [OF Cons.prems(1-3) ft Cons.prems(4), of x]
    by (elim exE conjE) (rule that, assumption, assumption, simp split: sum.splits)
  have t: "ktry (mem_access ft x) s = (Inr r, s\<lparr>tlb := es\<rparr>)"
    using r(1,3) by (cases r) (auto simp: ktry_def stops_def)
  have "\<exists>es'. mem_accesses xs (s\<lparr>tlb := es\<rparr>) = (Inr (), s\<lparr>tlb := es, tlb := es'\<rparr>) \<and> tlb_ok a es'"
    by (rule Cons.IH) (use Cons.prems r(2) in simp_all)
  then show ?case
    using t by (auto simp: y kbind_eq)
qed

subsection \<open>Loading\<close>

lemma range_iff:
  fixes x d len :: u32
  assumes "unat d + unat len \<le> 4294967296"
  shows "x - d < len \<longleftrightarrow> unat d \<le> unat x \<and> unat x < unat d + unat len"
proof (cases "d \<le> x")
  case True
  then show ?thesis by (simp add: word_less_nat_alt word_le_nat_alt unat_sub_u32) linarith
next
  case False
  then have lt: "unat x < unat d" by (simp add: word_le_nat_alt)
  have "\<not> x - d < len"
  proof
    assume "x - d < len"
    then have "unat (d + (x - d)) = unat d + unat (x - d)"
      using assms by (intro unat_add_u32) (simp add: word_less_nat_alt)
    then show False using lt by simp
  qed
  then show ?thesis using lt by simp
qed

lemma getppages_eq:
  assumes ok: "ram_ok s" and n: "unat (firstpaddr s) + unat n * 4096 < 4294967296"
  shows "getppages n s =
    (if unat (firstpaddr s) + unat n * 4096 \<le> unat (lastpaddr s)
     then (Inr (firstpaddr s), s\<lparr>firstpaddr := firstpaddr s + n * PAGE_SIZE\<rparr>)
     else (Inr 0, s))"
  using alloc_kpages_eq(2) [OF ok n]
  by (auto simp: getppages_def ram_stealmem_def Let_def kmonad_defs word_less_nat_alt alloc_kpages_eq(2) [OF ok n])

lemma ram_ok_grow:
  assumes "ram_ok s" and "unat (firstpaddr s) + unat n * 4096 \<le> unat (lastpaddr s)"
  shows "ram_ok (s\<lparr>firstpaddr := firstpaddr s + n * PAGE_SIZE\<rparr>)"
    and "unat (firstpaddr s + n * PAGE_SIZE) = unat (firstpaddr s) + unat n * 4096"
proof -
  have b: "unat (firstpaddr s) + unat n * 4096 < 4294967296"
    using assms ram_okD(3) [OF assms(1)] by simp
  note e = alloc_kpages_eq [OF assms(1) b]
  show "unat (firstpaddr s + n * PAGE_SIZE) = unat (firstpaddr s) + unat n * 4096" by (rule e(2))
  show "ram_ok (s\<lparr>firstpaddr := firstpaddr s + n * PAGE_SIZE\<rparr>)"
    by (rule alloc_kpages_ram_ok(1) [OF assms(1) b]) (use e(1) assms(2) in simp)
qed

text \<open>An address space whose segments are defined and not yet loaded, and the pages it needs.\<close>

definition unloaded :: "addrspace \<Rightarrow> bool" where
  "unloaded a \<longleftrightarrow> as_pbase1 a = 0 \<and> as_pbase2 a = 0 \<and> as_stackpbase a = 0"

definition as_pages :: "addrspace \<Rightarrow> nat" where
  "as_pages a = unat (as_npages1 a) + unat (as_npages2 a) + 12"

definition loaded_at :: "addrspace \<Rightarrow> paddr \<Rightarrow> addrspace" where
  "loaded_at a p = a\<lparr>as_pbase1 := p, as_pbase2 := p + as_npages1 a * PAGE_SIZE,
     as_stackpbase := p + as_npages1 a * PAGE_SIZE + as_npages2 a * PAGE_SIZE\<rparr>"

lemma prepare_load_ok:
  assumes sp: "spaces s as = Some a" and un: "unloaded a" and ram: "ram_ok s"
    and fits: "unat (firstpaddr s) + 4096 * as_pages a \<le> unat (lastpaddr s)"
  shows "\<exists>t. as_prepare_load as s = (Inr (), t) \<and> ram_ok t
    \<and> unat (firstpaddr t) = unat (firstpaddr s) + 4096 * as_pages a
    \<and> (\<exists>m. t = s\<lparr>firstpaddr := firstpaddr t, spaces := (spaces s)(as \<mapsto> loaded_at a (firstpaddr s)), kmem := m\<rparr>)
    \<and> (\<forall>x. kmem t x = (if 2147483648 + unat (firstpaddr s) \<le> unat x
            \<and> unat x < 2147483648 + unat (firstpaddr t) then 0 else kmem s x))"
proof -
  let ?n1 = "as_npages1 a" and ?n2 = "as_npages2 a" and ?f = "firstpaddr s"
  let ?f2 = "?f + ?n1 * PAGE_SIZE" let ?f3 = "?f2 + ?n2 * PAGE_SIZE" let ?f4 = "?f3 + DUMBVM_STACKPAGES * PAGE_SIZE"
  have st: "unat DUMBVM_STACKPAGES = 12" by (simp add: DUMBVM_STACKPAGES_def)
  have last: "unat (lastpaddr s) \<le> 532676608" by (rule ram_okD(3) [OF ram])
  define s1 where "s1 = s\<lparr>firstpaddr := ?f2, spaces := (spaces s)(as \<mapsto> a\<lparr>as_pbase1 := ?f\<rparr>)\<rparr>"
  have r1: "ram_ok s1" "unat ?f2 = unat ?f + unat ?n1 * 4096"
    using ram_ok_grow [OF ram, of ?n1] fits by (simp_all add: s1_def ram_ok_def as_pages_def)
  define s2 where "s2 = s1\<lparr>firstpaddr := ?f3, spaces := (spaces s)(as \<mapsto> a\<lparr>as_pbase1 := ?f, as_pbase2 := ?f2\<rparr>)\<rparr>"
  have r2: "ram_ok s2" "unat ?f3 = unat ?f2 + unat ?n2 * 4096"
    using ram_ok_grow [OF r1(1), of ?n2] fits r1(2) by (simp_all add: s1_def s2_def ram_ok_def as_pages_def)
  define s3 where "s3 = s2\<lparr>firstpaddr := ?f4, spaces := (spaces s)(as \<mapsto> loaded_at a ?f)\<rparr>"
  have r3: "ram_ok s3" "unat ?f4 = unat ?f3 + unat DUMBVM_STACKPAGES * 4096"
    using ram_ok_grow [OF r2(1), of DUMBVM_STACKPAGES] fits r1(2) r2(2)
    by (simp_all add: s1_def s2_def s3_def ram_ok_def as_pages_def st)
  have nz: "?f \<noteq> 0" "?f2 \<noteq> 0" "?f3 \<noteq> 0"
    using ram_okD(2) [OF ram] r1(2) r2(2) by auto
  have g1: "getppages ?n1 s = (Inr ?f, s\<lparr>firstpaddr := ?f2\<rparr>)"
    using getppages_eq [OF ram, of ?n1] fits last by (simp add: as_pages_def)
  have g2: "getppages ?n2 s1 = (Inr ?f2, s1\<lparr>firstpaddr := ?f3\<rparr>)"
    using getppages_eq [OF r1(1), of ?n2] fits last r1(2) by (simp add: as_pages_def s1_def)
  have g3: "getppages DUMBVM_STACKPAGES s2 = (Inr ?f3, s2\<lparr>firstpaddr := ?f4\<rparr>)"
    using getppages_eq [OF r2(1), of DUMBVM_STACKPAGES] fits last r1(2) r2(2)
    by (simp add: as_pages_def s1_def s2_def st)
  have run: "as_prepare_load as s = kbind (as_zero_region ?f ?n1) (\<lambda>_.
      kbind (as_zero_region ?f2 ?n2) (\<lambda>_. as_zero_region ?f3 DUMBVM_STACKPAGES)) s3"
    using sp un nz
    using g1 g2 g3 by (simp add: as_prepare_load_def get_space_def unloaded_def krun kbind_eq kbind_assoc set_space_def
        s1_def s2_def s3_def loaded_at_def)
  let ?K = "unat ?f + 2147483648"
  have K: "unat (PADDR_TO_KVADDR ?f) = ?K" "unat (PADDR_TO_KVADDR ?f2) = ?K + 4096 * unat ?n1"
    "unat (PADDR_TO_KVADDR ?f3) = ?K + 4096 * unat ?n1 + 4096 * unat ?n2"
    using fits last r1(2) r2(2)
    by (simp_all add: PADDR_TO_KVADDR_def MIPS_KSEG0_def as_pages_def unat_add_u32)
  have len: "unat (?n1 * PAGE_SIZE) = 4096 * unat ?n1" "unat (?n2 * PAGE_SIZE) = 4096 * unat ?n2"
    "unat (DUMBVM_STACKPAGES * PAGE_SIZE) = 49152"
    using fits last by (simp_all add: unat_mult_u32 PAGE_SIZE_def as_pages_def DUMBVM_STACKPAGES_def)
  let ?m = "zero_mem (PADDR_TO_KVADDR ?f3) (DUMBVM_STACKPAGES * PAGE_SIZE)
     (zero_mem (PADDR_TO_KVADDR ?f2) (?n2 * PAGE_SIZE) (zero_mem (PADDR_TO_KVADDR ?f) (?n1 * PAGE_SIZE) (kmem s)))"
  have m: "?m x = (if ?K \<le> unat x \<and> unat x < ?K + 4096 * as_pages a then 0 else kmem s x)" for x
    using fits last
    by (auto simp: zero_mem_def range_iff K len as_pages_def)
  define t where "t = s3\<lparr>kmem := ?m\<rparr>"
  have "as_prepare_load as s = (Inr (), t)"
    unfolding run by (simp add: as_zero_region_def krun t_def s3_def s2_def s1_def)
  moreover have "ram_ok t" using r3(1) ram_ok_cong [of t s3] by (simp add: t_def)
  moreover have "unat (firstpaddr t) = unat ?f + 4096 * as_pages a"
    using r1(2) r2(2) r3(2) by (simp add: t_def s3_def st as_pages_def)
  moreover have "t = s\<lparr>firstpaddr := firstpaddr t, spaces := (spaces s)(as \<mapsto> loaded_at a ?f), kmem := ?m\<rparr>"
    by (simp add: t_def s3_def s2_def s1_def)
  ultimately show ?thesis
    using m by (intro exI [of _ t] conjI exI [of _ ?m] allI) (simp_all add: t_def add.commute)
qed

text \<open>When the RAM has too few pages, some of them may be taken all the same (and are lost).\<close>

lemma prepare_load_fails:
  assumes sp: "spaces s as = Some a" and un: "unloaded a" and ram: "ram_ok s"
    and bound: "unat (firstpaddr s) + 4096 * as_pages a < 4294967296"
    and short: "unat (lastpaddr s) < unat (firstpaddr s) + 4096 * as_pages a"
  shows "\<exists>fp a'. as_prepare_load as s = (Inl ENOMEM, s\<lparr>firstpaddr := fp, spaces := (spaces s)(as \<mapsto> a')\<rparr>)
    \<and> ram_ok (s\<lparr>firstpaddr := fp\<rparr>) \<and> unat (firstpaddr s) \<le> unat fp"
proof -
  let ?n1 = "as_npages1 a" and ?n2 = "as_npages2 a" and ?f = "firstpaddr s" and ?l = "unat (lastpaddr s)"
  let ?f2 = "?f + ?n1 * PAGE_SIZE" let ?f3 = "?f2 + ?n2 * PAGE_SIZE"
  have st: "unat DUMBVM_STACKPAGES = 12" by (simp add: DUMBVM_STACKPAGES_def)
  note f = ram_okD [OF ram]
  have nz: "?f \<noteq> 0" using f(2) by auto
  have g1: "getppages ?n1 s = (if unat ?f + unat ?n1 * 4096 \<le> ?l
      then (Inr ?f, s\<lparr>firstpaddr := ?f2\<rparr>) else (Inr 0, s))"
    by (rule getppages_eq [OF ram]) (use bound in \<open>simp add: as_pages_def\<close>)
  show ?thesis
  proof (cases "unat ?f + unat ?n1 * 4096 \<le> ?l")
    case False
    then have "as_prepare_load as s = (Inl ENOMEM, s\<lparr>spaces := (spaces s)(as \<mapsto> a\<lparr>as_pbase1 := 0\<rparr>)\<rparr>)"
      using sp un g1 by (simp add: as_prepare_load_def get_space_def unloaded_def krun kbind_eq kbind_assoc set_space_def)
    then show ?thesis
      using ram by (intro exI [of _ ?f] exI [of _ "a\<lparr>as_pbase1 := 0\<rparr>"]) simp
  next
    case fit1: True
    define s1 where "s1 = s\<lparr>firstpaddr := ?f2, spaces := (spaces s)(as \<mapsto> a\<lparr>as_pbase1 := ?f\<rparr>)\<rparr>"
    have r1: "ram_ok (s\<lparr>firstpaddr := ?f2\<rparr>)" "unat ?f2 = unat ?f + unat ?n1 * 4096"
      using ram_ok_grow [OF ram fit1] by simp_all
    then have ram1: "ram_ok s1" by (simp add: s1_def ram_ok_def)
    have g2: "getppages ?n2 s1 = (if unat ?f2 + unat ?n2 * 4096 \<le> ?l
        then (Inr ?f2, s1\<lparr>firstpaddr := ?f3\<rparr>) else (Inr 0, s1))"
      using getppages_eq [OF ram1, of ?n2] bound r1(2) by (simp add: as_pages_def s1_def)
    show ?thesis
    proof (cases "unat ?f2 + unat ?n2 * 4096 \<le> ?l")
      case False
      then have "as_prepare_load as s = (Inl ENOMEM, s\<lparr>firstpaddr := ?f2,
          spaces := (spaces s)(as \<mapsto> a\<lparr>as_pbase1 := ?f, as_pbase2 := 0\<rparr>)\<rparr>)"
        using sp un g1 g2 nz fit1
        by (simp add: as_prepare_load_def get_space_def unloaded_def krun kbind_eq kbind_assoc set_space_def s1_def)
      then show ?thesis using r1 by (intro exI conjI) (assumption, simp_all)
    next
      case fit2: True
      define s2 where "s2 = s1\<lparr>firstpaddr := ?f3, spaces := (spaces s)(as \<mapsto> a\<lparr>as_pbase1 := ?f, as_pbase2 := ?f2\<rparr>)\<rparr>"
      have r2: "ram_ok (s1\<lparr>firstpaddr := ?f3\<rparr>)" "unat ?f3 = unat ?f2 + unat ?n2 * 4096"
        using ram_ok_grow [OF ram1, of ?n2] fit2 by (simp_all add: s1_def)
      then have ram2: "ram_ok s2" by (simp add: s2_def ram_ok_def)
      have nz2: "?f2 \<noteq> 0" using f(2) r1(2) by auto
      have g3: "getppages DUMBVM_STACKPAGES s2 = (Inr 0, s2)"
        using getppages_eq [OF ram2, of DUMBVM_STACKPAGES] bound short r1(2) r2(2)
        by (simp add: as_pages_def s1_def s2_def st)
      have "as_prepare_load as s = (Inl ENOMEM, s\<lparr>firstpaddr := ?f3,
          spaces := (spaces s)(as \<mapsto> a\<lparr>as_pbase1 := ?f, as_pbase2 := ?f2, as_stackpbase := 0\<rparr>)\<rparr>)"
        using sp un g1 g2 g3 nz nz2 fit1 fit2
        by (simp add: as_prepare_load_def get_space_def unloaded_def krun kbind_eq kbind_assoc set_space_def s1_def s2_def)
      moreover have "ram_ok (s\<lparr>firstpaddr := ?f3\<rparr>)" using r2(1) by (simp add: s1_def ram_ok_def)
      ultimately show ?thesis using r1(2) r2(2) by (intro exI conjI) (assumption, assumption, simp)
    qed
  qed
qed

subsection \<open>Copying\<close>

definition user_word :: "'a kheap_scheme \<Rightarrow> addrspace \<Rightarrow> vaddr \<Rightarrow> u32 option" where
  "user_word s a x = map_option (\<lambda>p. kmem s (PADDR_TO_KVADDR p + x mod PAGE_SIZE))
     (translate_page a (x AND PAGE_FRAME))"

text \<open>The pages of an address space were handed out by the allocator.\<close>

definition resident :: "'a ram_scheme \<Rightarrow> addrspace \<Rightarrow> bool" where
  "resident s a \<longleftrightarrow> page_aligned (as_vbase1 a) \<and> page_aligned (as_vbase2 a)
     \<and> unat (as_pbase1 a) + 4096 * unat (as_npages1 a) \<le> unat (firstpaddr s)
     \<and> unat (as_pbase2 a) + 4096 * unat (as_npages2 a) \<le> unat (firstpaddr s)
     \<and> unat (as_stackpbase a) + 4096 * 12 \<le> unat (firstpaddr s)"

text \<open>The segment of an address and the offset in it, which do not depend on where the segment is.\<close>

definition seg_of :: "addrspace \<Rightarrow> vaddr \<Rightarrow> (nat \<times> u32) option" where
  "seg_of a x =
     (let f = x AND PAGE_FRAME; o' = x mod PAGE_SIZE; stackbase = USERSTACK - DUMBVM_STACKPAGES * PAGE_SIZE in
      if f \<ge> as_vbase1 a \<and> f < as_vbase1 a + as_npages1 a * PAGE_SIZE then Some (0, f - as_vbase1 a + o')
      else if f \<ge> as_vbase2 a \<and> f < as_vbase2 a + as_npages2 a * PAGE_SIZE then Some (1, f - as_vbase2 a + o')
      else if f \<ge> stackbase \<and> f < USERSTACK then Some (2, f - stackbase + o') else None)"

definition seg_base :: "addrspace \<Rightarrow> nat \<Rightarrow> vaddr" where
  "seg_base a k = PADDR_TO_KVADDR (if k = 0 then as_pbase1 a else if k = 1 then as_pbase2 a else as_stackpbase a)"

definition seg_pages :: "addrspace \<Rightarrow> nat \<Rightarrow> nat" where
  "seg_pages a k = (if k = 0 then unat (as_npages1 a) else if k = 1 then unat (as_npages2 a) else 12)"

lemma user_word_eq:
  "user_word s a x = map_option (\<lambda>(k, d). kmem s (seg_base a k + d)) (seg_of a x)"
  by (simp add: user_word_def translate_page_def seg_of_def seg_base_def Let_def PADDR_TO_KVADDR_def ac_simps)

lemma seg_of_cong:
  "as_vbase1 b = as_vbase1 a \<Longrightarrow> as_npages1 b = as_npages1 a \<Longrightarrow> as_vbase2 b = as_vbase2 a \<Longrightarrow>
   as_npages2 b = as_npages2 a \<Longrightarrow> seg_of b x = seg_of a x"
  by (simp only: seg_of_def)

lemma in_segment:
  assumes "page_aligned v" and "v \<le> x AND PAGE_FRAME" "x AND PAGE_FRAME < v + m"
    and m: "unat m = 4096 * n"
  shows "unat ((x AND PAGE_FRAME) - v + x mod PAGE_SIZE) < 4096 * n"
proof -
  let ?o = "(x AND PAGE_FRAME) - v"
  have o: "unat ?o = unat (x AND PAGE_FRAME) - unat v"
    using assms(2) by (simp add: unat_sub_u32 word_le_nat_alt)
  have "unat (v + m) \<le> unat v + unat m" by (simp add: unat_word_ariths(1))
  then have "unat ?o < 4096 * n"
    using assms(2,3) m unfolding o by (simp add: word_le_nat_alt word_less_nat_alt)
  moreover obtain k where k: "unat ?o = 4096 * k"
    using page_aligned_arith(2) [OF page_aligned_frame assms(1), of x] unfolding page_aligned_unat by auto
  ultimately have "unat ?o + 4096 \<le> 4096 * n" by simp
  moreover have "unat (x mod PAGE_SIZE) < 4096" by (simp add: unat_page_offset)
  moreover have "4096 * n < 4294967296" using unat_u32_less [of m] m by simp
  ultimately show ?thesis by (subst unat_add_u32) auto
qed

lemma seg_of_bound:
  assumes "seg_of a x = Some (k, d)" and "page_aligned (as_vbase1 a)" "page_aligned (as_vbase2 a)"
    and n: "4096 * unat (as_npages1 a) < 4294967296" "4096 * unat (as_npages2 a) < 4294967296"
  shows "unat d < 4096 * seg_pages a k" and "k < 3"
proof -
  have len: "unat (n * PAGE_SIZE) = 4096 * unat n" if "4096 * unat n < 4294967296" for n
    using that by (simp add: unat_mult_u32 PAGE_SIZE_def)
  have sb: "page_aligned (USERSTACK - DUMBVM_STACKPAGES * PAGE_SIZE)"
    by (intro page_aligned_arith page_aligned_consts)
  have st: "unat (DUMBVM_STACKPAGES * PAGE_SIZE) = 4096 * 12" "USERSTACK = USERSTACK - DUMBVM_STACKPAGES * PAGE_SIZE + DUMBVM_STACKPAGES * PAGE_SIZE"
    by (simp_all add: DUMBVM_STACKPAGES_def PAGE_SIZE_def)
  show "k < 3" using assms(1) by (auto simp: seg_of_def Let_def split: if_splits)
  show "unat d < 4096 * seg_pages a k"
    using assms(1) in_segment [OF assms(2) _ _ len [OF n(1)], of x] in_segment [OF assms(3) _ _ len [OF n(2)], of x]
      in_segment [OF sb _ _ st(1), of x] st(2)
    by (auto simp: seg_of_def Let_def seg_pages_def split: if_splits)
qed

lemma move_mem_in:
  assumes "unat d < unat len"
  shows "move_mem dst src len m (dst + d) = m (src + d)"
  using assms by (simp add: move_mem_def word_less_nat_alt)

lemma move_mem_out:
  assumes "unat dst + unat len \<le> 4294967296" and "unat x < unat dst \<or> unat dst + unat len \<le> unat x"
  shows "move_mem dst src len m x = m x"
  using assms by (auto simp: move_mem_def range_iff)

text \<open>Three moves to consecutive regions behind all of their sources.\<close>

lemma three_moves:
  fixes m :: "vaddr \<Rightarrow> u32" and P :: "nat \<Rightarrow> nat"
  assumes len: "\<And>k. k < 3 \<Longrightarrow> unat (len k) = 4096 * P k"
    and dst: "unat (dst 1) = unat (dst 0) + 4096 * P 0" "unat (dst 2) = unat (dst 1) + 4096 * P 1"
      "unat (dst 2) + 4096 * P 2 \<le> 4294967296"
    and src: "\<And>k. k < 3 \<Longrightarrow> unat (src k) + 4096 * P k \<le> unat (dst 0)"
  defines "M \<equiv> move_mem (dst 2) (src 2) (len 2) (move_mem (dst 1) (src 1) (len 1) (move_mem (dst 0) (src 0) (len 0) m))"
  shows "k < 3 \<Longrightarrow> unat d < 4096 * P k \<Longrightarrow> M (dst k + d) = m (src k + d)"
    and "unat x < unat (dst 0) \<Longrightarrow> M x = m x"
proof -
  have len': "unat (len 0) = 4096 * P 0" "unat (len 1) = 4096 * P 1" "unat (len 2) = 4096 * P 2"
    using len [of 0] len [of 1] len [of 2] by simp_all
  have below: "M x = m x" if "unat x < unat (dst 0)" for x
    unfolding M_def using that dst len' by (simp add: move_mem_out)
  then show "unat x < unat (dst 0) \<Longrightarrow> M x = m x" .
  show "M (dst k + d) = m (src k + d)" if k: "k < 3" and d: "unat d < 4096 * P k"
  proof -
    have sd: "unat (src k + d) < unat (dst 0)"
      using src [OF k] d unat_word_ariths(1) [of "src k" d] by (simp add: le_less_trans [OF mod_less_eq_dividend])
    have ud: "unat (dst k + d) = unat (dst k) + unat d"
    proof (rule unat_add_u32)
      consider "k = 0" | "k = 1" | "k = 2" using k by linarith
      then show "unat (dst k) + unat d < 4294967296"
        by cases (use dst d in simp_all)
    qed
    consider "k = 0" | "k = 1" | "k = 2" using k by linarith
    then show ?thesis
    proof cases
      case 1
      have "M (dst k + d) = move_mem (dst 0) (src 0) (len 0) m (dst 0 + d)"
        unfolding M_def using 1 ud d dst len' by (simp add: move_mem_out)
      then show ?thesis using 1 d len' by (simp add: move_mem_in)
    next
      case 2
      have "M (dst k + d) = move_mem (dst 1) (src 1) (len 1) (move_mem (dst 0) (src 0) (len 0) m) (dst 1 + d)"
        unfolding M_def using 2 ud d dst len' by (simp add: move_mem_out)
      also have "\<dots> = move_mem (dst 0) (src 0) (len 0) m (src 1 + d)"
        using 2 d len' by (simp add: move_mem_in)
      also have "\<dots> = m (src 1 + d)"
        using 2 sd dst len' by (simp add: move_mem_out)
      finally show ?thesis using 2 by simp
    next
      case 3
      have "M (dst k + d) = move_mem (dst 1) (src 1) (len 1) (move_mem (dst 0) (src 0) (len 0) m) (src 2 + d)"
        unfolding M_def using 3 d len' by (simp add: move_mem_in)
      also have "\<dots> = m (src 2 + d)"
        using 3 sd dst len' by (simp add: move_mem_out)
      finally show ?thesis using 3 by simp
    qed
  qed
qed

definition fresh_space :: addrspace where
  "fresh_space = \<lparr>as_vbase1 = 0, as_pbase1 = 0, as_npages1 = 0, as_vbase2 = 0, as_pbase2 = 0,
     as_npages2 = 0, as_stackpbase = 0\<rparr>"

lemma as_create_ok:
  assumes h: "kheap_ok s"
  obtains new t where "as_create s = (Inr new, t)" "kheap_ok t" "lastpaddr t = lastpaddr s"
    "unat (firstpaddr s) \<le> unat (firstpaddr t)"
    "\<And>x. unat x < unat (firstpaddr s) + 2147483648 \<Longrightarrow> kmem t x = kmem s x"
    "if new = 0 then live_blocks t = live_blocks s
     else new \<notin> fst ` live_blocks s \<and> live_blocks t = insert (new, 64) (live_blocks s)
       \<and> spaces t = (spaces s)(new \<mapsto> fresh_space)"
proof -
  have ram: "ram_ok s" by (rule kheap_ok_ram [OF h])
  have sm: "small sizeof_addrspace"
    by (simp add: small_def sizeof_addrspace_def LARGEST_SUBPAGE_SIZE_def)
  obtain new t b where k: "kmalloc sizeof_addrspace s = (Inr new, t)" "kheap_ok t"
    "blocktype sizeof_addrspace = Inr b" "block_taken s (live_blocks s) (bsize b) new t (live_blocks t)"
    using kmalloc_kheap [OF h sm] by blast
  have "blocktype sizeof_addrspace = Inr 2" by (simp add: blocktype_def sizes_def sizeof_addrspace_def)
  then have b: "bsize b = 64" using k(3) by (simp add: bsize_def sizes_def)
  have off: "off_page (firstpaddr s + MIPS_KSEG0) s t" by (rule kmalloc_off_page [OF ram sm k(1)])
  have sp: "spaces t = spaces s"
    using off unfolding off_page_def by (cases s; cases t) simp
  have mem: "kmem t x = kmem s x" if "unat x < unat (firstpaddr s) + 2147483648" for x
  proof -
    have "x AND PAGE_FRAME \<noteq> firstpaddr s + MIPS_KSEG0"
      using that unat_page_frame [of x] next_page(6) [OF ram] by (auto simp: word_unat_eq_iff)
    then show ?thesis using off by (simp add: off_page_def)
  qed
  let ?t = "if new = 0 then t else t\<lparr>spaces := (spaces t)(new \<mapsto> fresh_space)\<rparr>"
  have run: "as_create s = (Inr new, ?t)"
    using k(1) by (simp add: as_create_def kbind_eq krun fresh_space_def)
  have same: "kheap_ok ?t" "live_blocks ?t = live_blocks t"
    using kheap_ok_outside [OF k(2), of ?t] kheap_ok_ram [OF k(2)] k(2) ram_ok_cong [of ?t t] by (auto simp: ram_ok_def)
  show ?thesis
  proof (rule that [OF run same(1)])
    show "lastpaddr ?t = lastpaddr s" "unat (firstpaddr s) \<le> unat (firstpaddr ?t)"
      using off ram by (auto simp: off_page_def)
    show "kmem ?t x = kmem s x" if "unat x < unat (firstpaddr s) + 2147483648" for x
      using mem [OF that] by simp
    show "if new = 0 then live_blocks ?t = live_blocks s
     else new \<notin> fst ` live_blocks s \<and> live_blocks ?t = insert (new, 64) (live_blocks s)
       \<and> spaces ?t = (spaces s)(new \<mapsto> fresh_space)"
      using k(4) b sp same(2) by (auto simp: block_taken_def split: if_splits)
  qed
qed

definition same_layout :: "addrspace \<Rightarrow> addrspace" where
  "same_layout a = fresh_space\<lparr>as_vbase1 := as_vbase1 a, as_npages1 := as_npages1 a,
     as_vbase2 := as_vbase2 a, as_npages2 := as_npages2 a\<rparr>"

lemma same_layout_simps [simp]:
  "unloaded (same_layout a)" "as_pages (same_layout a) = as_pages a"
  "seg_of (loaded_at (same_layout a) p) x = seg_of a x"
  "seg_pages (loaded_at (same_layout a) p) k = seg_pages a k"
  by (simp_all add: same_layout_def fresh_space_def unloaded_def as_pages_def loaded_at_def seg_pages_def)
    (rule seg_of_cong; simp)

lemma seg_base_loaded:
  assumes "unat p + 4096 * as_pages a < 2147483648"
  shows "unat (seg_base (loaded_at (same_layout a) p) 0) = unat p + 2147483648"
    and "unat (seg_base (loaded_at (same_layout a) p) 1) = unat p + 2147483648 + 4096 * seg_pages a 0"
    and "unat (seg_base (loaded_at (same_layout a) p) 2)
      = unat p + 2147483648 + 4096 * seg_pages a 0 + 4096 * seg_pages a 1"
  using assms
  by (simp_all add: seg_base_def loaded_at_def same_layout_def fresh_space_def PADDR_TO_KVADDR_def
      MIPS_KSEG0_def seg_pages_def as_pages_def unat_add_u32 unat_mult_u32 PAGE_SIZE_def)

lemma resident_seg:
  assumes "resident s a" and "ram_ok s" and "k < 3"
  shows "unat (seg_base a k) + 4096 * seg_pages a k \<le> 2147483648 + unat (firstpaddr s)"
    and "4096 * seg_pages a k \<le> 532676608"
proof -
  have "unat (firstpaddr s) \<le> 532676608" by (rule ram_okD(4) [OF assms(2)])
  then show "unat (seg_base a k) + 4096 * seg_pages a k \<le> 2147483648 + unat (firstpaddr s)"
    "4096 * seg_pages a k \<le> 532676608"
    using assms(1) by (auto simp: resident_def seg_base_def seg_pages_def PADDR_TO_KVADDR_def MIPS_KSEG0_def
        unat_add_u32)
qed

lemma seg_of_resident:
  assumes "resident s a" and "ram_ok s" and "seg_of a x = Some (k, d)"
  shows "k < 3" "unat d < 4096 * seg_pages a k"
    "unat (seg_base a k + d) < 2147483648 + unat (firstpaddr s)"
proof -
  have n: "4096 * unat (as_npages1 a) < 4294967296" "4096 * unat (as_npages2 a) < 4294967296"
    using resident_seg(2) [OF assms(1,2), of 0] resident_seg(2) [OF assms(1,2), of 1] by (simp_all add: seg_pages_def)
  have v: "page_aligned (as_vbase1 a)" "page_aligned (as_vbase2 a)"
    using assms(1) by (simp_all add: resident_def)
  show k: "k < 3" and d: "unat d < 4096 * seg_pages a k"
    using seg_of_bound [OF assms(3) v n] by simp_all
  show "unat (seg_base a k + d) < 2147483648 + unat (firstpaddr s)"
    using resident_seg(1) [OF assms(1,2) k] d unat_word_ariths(1) [of "seg_base a k" d]
    by (simp add: le_less_trans [OF mod_less_eq_dividend])
qed

text \<open>The moves of \<open>as_copy\<close>.\<close>

definition copied :: "addrspace \<Rightarrow> addrspace \<Rightarrow> (vaddr \<Rightarrow> u32) \<Rightarrow> vaddr \<Rightarrow> u32" where
  "copied b a m = move_mem (seg_base b 2) (seg_base a 2) (DUMBVM_STACKPAGES * PAGE_SIZE)
     (move_mem (seg_base b 1) (seg_base a 1) (as_npages2 a * PAGE_SIZE)
     (move_mem (seg_base b 0) (seg_base a 0) (as_npages1 a * PAGE_SIZE) m))"

lemma copied_ok:
  assumes res: "resident s a" and ram: "ram_ok s"
    and p: "unat (firstpaddr s) \<le> unat p" "unat p + 4096 * as_pages a < 2147483648"
  defines "b \<equiv> loaded_at (same_layout a) p"
  shows "k < 3 \<Longrightarrow> unat d < 4096 * seg_pages a k \<Longrightarrow> copied b a m (seg_base b k + d) = m (seg_base a k + d)"
    and "unat x < unat p + 2147483648 \<Longrightarrow> copied b a m x = m x"
proof -
  note base = seg_base_loaded [OF p(2), folded b_def]
  let ?len = "\<lambda>k. if k = 0 then as_npages1 a * PAGE_SIZE else if k = 1 then as_npages2 a * PAGE_SIZE
     else DUMBVM_STACKPAGES * PAGE_SIZE"
  have len: "unat (?len k) = 4096 * seg_pages a k" if "k < 3" for k
    using resident_seg(2) [OF res ram, of 0] resident_seg(2) [OF res ram, of 1]
    by (auto simp: seg_pages_def unat_mult_u32 PAGE_SIZE_def DUMBVM_STACKPAGES_def)
  have src: "unat (seg_base a k) + 4096 * seg_pages a k \<le> unat (seg_base b 0)" if "k < 3" for k
    using resident_seg(1) [OF res ram that] p(1) base(1) by simp
  have top: "unat (seg_base b 2) + 4096 * seg_pages a 2 \<le> 4294967296"
    using p(2) base(3) by (simp add: seg_pages_def as_pages_def)
  note tm = three_moves [where len = ?len and P = "seg_pages a" and dst = "seg_base b" and src = "seg_base a"
      and m = m, OF len _ _ top src]
  show "copied b a m (seg_base b k + d) = m (seg_base a k + d)"
    if "k < 3" "unat d < 4096 * seg_pages a k"
    using tm(1) [OF _ _ _ _ that] base by (simp add: copied_def)
  show "copied b a m x = m x" if "unat x < unat p + 2147483648"
    using tm(2) [of x] base that by (simp add: copied_def)
qed

lemma user_word_copied:
  assumes res: "resident s a" and ram: "ram_ok s"
    and p: "unat (firstpaddr s) \<le> unat p" "unat p + 4096 * as_pages a < 2147483648"
    and m: "\<And>x. unat x < unat (firstpaddr s) + 2147483648 \<Longrightarrow> m x = kmem s x"
    and t: "kmem t = copied (loaded_at (same_layout a) p) a m"
  shows "user_word t (loaded_at (same_layout a) p) x = user_word s a x" "user_word t a x = user_word s a x"
proof -
  note c = copied_ok [OF res ram p]
  have "kmem t (seg_base (loaded_at (same_layout a) p) k + d) = kmem s (seg_base a k + d)
      \<and> kmem t (seg_base a k + d) = kmem s (seg_base a k + d)"
    if "seg_of a x = Some (k, d)" for k d
  proof -
    note sg = seg_of_resident [OF res ram that]
    have "kmem t (seg_base (loaded_at (same_layout a) p) k + d) = m (seg_base a k + d)"
      unfolding t by (rule c(1) [OF sg(1,2)])
    moreover have "kmem t (seg_base a k + d) = m (seg_base a k + d)"
      unfolding t by (rule c(2)) (use sg(3) p(1) in simp)
    moreover have "m (seg_base a k + d) = kmem s (seg_base a k + d)"
      by (rule m) (use sg(3) in simp)
    ultimately show ?thesis by simp
  qed
  then show "user_word t (loaded_at (same_layout a) p) x = user_word s a x" "user_word t a x = user_word s a x"
    by (auto simp: user_word_eq option.map_comp split: option.split intro!: option.map_cong0)
qed

lemma as_copy_success:
  assumes sp: "spaces s2 new = Some (same_layout a)" "spaces s2 old = Some a" "new \<noteq> old"
    and p: "as_prepare_load new s2 = (Inr (), t)" "spaces t new = Some (loaded_at (same_layout a) p)"
      "p \<noteq> 0" "p + as_npages1 a * PAGE_SIZE \<noteq> 0" "p + as_npages1 a * PAGE_SIZE + as_npages2 a * PAGE_SIZE \<noteq> 0"
    and c: "as_create s = (Inr new, s1)" "new \<noteq> 0" "spaces s1 old = Some a"
      "set_space new (\<lambda>n. n\<lparr>as_vbase1 := as_vbase1 a, as_npages1 := as_npages1 a,
       as_vbase2 := as_vbase2 a, as_npages2 := as_npages2 a\<rparr>) s1 = (Inr (), s2)"
  shows "as_copy old s = (Inr new, t\<lparr>kmem := copied (loaded_at (same_layout a) p) a (kmem t)\<rparr>)"
proof -
  have "ktry (as_prepare_load new) s2 = (Inr (Inr ()), t)" using p(1) by (simp add: ktry_def)
  then show ?thesis
    using c p(2-) by (simp add: as_copy_def kbind_eq krun get_space_def move_region_def copied_def seg_base_def
        loaded_at_def same_layout_def fresh_space_def kbind_assoc)
qed

lemma as_copy_fails:
  assumes p: "as_prepare_load new s2 = (Inl ENOMEM, s3)" and k: "kfree new s3 = (Inr (), s4)"
    and c: "as_create s = (Inr new, s1)" "new \<noteq> 0" "spaces s1 old = Some a"
      "set_space new (\<lambda>n. n\<lparr>as_vbase1 := as_vbase1 a, as_npages1 := as_npages1 a,
       as_vbase2 := as_vbase2 a, as_npages2 := as_npages2 a\<rparr>) s1 = (Inr (), s2)"
  shows "as_copy old s = (Inl ENOMEM, s4\<lparr>spaces := (spaces s4)(new := None)\<rparr>)"
proof -
  have "ktry (as_prepare_load new) s2 = (Inr (Inl ENOMEM), s3)" using p by (simp add: ktry_def stops_def)
  then show ?thesis
    using c k by (simp add: as_copy_def kbind_eq krun get_space_def as_destroy_def kbind_assoc)
qed

lemma as_copy_ok:
  assumes h: "kheap_ok s" and old: "spaces s old = Some a" "old \<in> fst ` live_blocks s" and res: "resident s a"
  shows "\<exists>r t. as_copy old s = (r, t) \<and> kheap_ok t \<and>
    (case r of
       Inl e \<Rightarrow> e = ENOMEM \<and> live_blocks t = live_blocks s
     | Inr new \<Rightarrow> new \<notin> fst ` live_blocks s \<and> live_blocks t = insert (new, 64) (live_blocks s)
         \<and> (\<exists>p. spaces t = (spaces s)(new \<mapsto> loaded_at (same_layout a) p) \<and> unat (firstpaddr s) \<le> unat p
           \<and> unat p + 4096 * as_pages a \<le> unat (firstpaddr t)
           \<and> (\<forall>x. user_word t (loaded_at (same_layout a) p) x = user_word s a x
                 \<and> user_word t a x = user_word s a x)))"
proof -
  have ram: "ram_ok s" by (rule kheap_ok_ram [OF h])
  obtain new s1 where c: "as_create s = (Inr new, s1)" "kheap_ok s1" "lastpaddr s1 = lastpaddr s"
    "unat (firstpaddr s) \<le> unat (firstpaddr s1)"
    "\<And>x. unat x < unat (firstpaddr s) + 2147483648 \<Longrightarrow> kmem s1 x = kmem s x"
    "if new = 0 then live_blocks s1 = live_blocks s
     else new \<notin> fst ` live_blocks s \<and> live_blocks s1 = insert (new, 64) (live_blocks s)
       \<and> spaces s1 = (spaces s)(new \<mapsto> fresh_space)"
    using as_create_ok [OF h] by blast
  show ?thesis
  proof (cases "new = 0")
    case True
    then have "as_copy old s = (Inl ENOMEM, s1)" using c(1) by (simp add: as_copy_def kbind_eq krun)
    then show ?thesis using True c(2,6) by (intro exI [of _ "Inl ENOMEM"] exI [of _ s1]) simp
  next
    case False
    then have new: "new \<notin> fst ` live_blocks s" "live_blocks s1 = insert (new, 64) (live_blocks s)"
      "spaces s1 = (spaces s)(new \<mapsto> fresh_space)" "new \<noteq> old"
      using c(6) old(2) by auto
    have ram1: "ram_ok s1" by (rule kheap_ok_ram [OF c(2)])
    define s2 where "s2 = s1\<lparr>spaces := (spaces s)(new \<mapsto> same_layout a)\<rparr>"
    have ram2: "ram_ok s2" using ram1 ram_ok_cong [of s2 s1] by (simp add: s2_def)
    have sp1: "spaces s1 old = Some a" using old(1) new(3,4) by simp
    have set: "set_space new (\<lambda>n. n\<lparr>as_vbase1 := as_vbase1 a, as_npages1 := as_npages1 a,
       as_vbase2 := as_vbase2 a, as_npages2 := as_npages2 a\<rparr>) s1 = (Inr (), s2)"
      by (simp add: set_space_def krun s2_def new(3) same_layout_def)
    have sp2: "spaces s2 new = Some (same_layout a)" "spaces s2 old = Some a"
      using old(1) new(4) by (simp_all add: s2_def)
    have small: "4096 * as_pages a \<le> 2 * 532676608 + 49152"
      using resident_seg(2) [OF res ram, of 0] resident_seg(2) [OF res ram, of 1]
      by (simp add: seg_pages_def as_pages_def)
    note last = ram_okD [OF ram2]
    show ?thesis
    proof (cases "unat (firstpaddr s2) + 4096 * as_pages a \<le> unat (lastpaddr s2)")
      case fits: True
      let ?p = "firstpaddr s2" let ?b = "loaded_at (same_layout a) ?p"
      obtain t m where t: "as_prepare_load new s2 = (Inr (), t)" "ram_ok t"
        "unat (firstpaddr t) = unat ?p + 4096 * as_pages a"
        "t = s2\<lparr>firstpaddr := firstpaddr t, spaces := (spaces s2)(new \<mapsto> ?b), kmem := m\<rparr>"
        "\<And>x. kmem t x = (if 2147483648 + unat ?p \<le> unat x \<and> unat x < 2147483648 + unat (firstpaddr t)
           then 0 else kmem s2 x)"
        using prepare_load_ok [OF sp2(1) _ ram2] fits by auto
      have spt: "spaces t = (spaces s)(new \<mapsto> ?b)" by (subst t(4)) (simp add: s2_def)
      define u where "u = t\<lparr>kmem := copied ?b a (kmem t)\<rparr>"
      have pp: "unat (firstpaddr s) \<le> unat ?p" "unat ?p + 4096 * as_pages a < 2147483648"
        using c(4) fits last(3) by (simp_all add: s2_def)
      have nz: "?p \<noteq> 0" "?p + as_npages1 a * PAGE_SIZE \<noteq> 0"
        "?p + as_npages1 a * PAGE_SIZE + as_npages2 a * PAGE_SIZE \<noteq> 0"
      proof -
        have "unat (?p + as_npages1 a * PAGE_SIZE) = unat ?p + 4096 * unat (as_npages1 a)"
          "unat (?p + as_npages1 a * PAGE_SIZE + as_npages2 a * PAGE_SIZE)
             = unat ?p + 4096 * unat (as_npages1 a) + 4096 * unat (as_npages2 a)"
          using pp(2) by (simp_all add: as_pages_def unat_add_u32 unat_mult_u32 PAGE_SIZE_def)
        then show "?p \<noteq> 0" "?p + as_npages1 a * PAGE_SIZE \<noteq> 0"
          "?p + as_npages1 a * PAGE_SIZE + as_npages2 a * PAGE_SIZE \<noteq> 0"
          using last(2) by auto
      qed
      have mem: "kmem t x = kmem s x" if "unat x < unat (firstpaddr s) + 2147483648" for x
        using that c(4,5) by (simp add: t(5)) (simp add: s2_def)
      have run: "as_copy old s = (Inr new, u)"
        unfolding u_def using as_copy_success [OF sp2 new(4) t(1) _ nz c(1) False sp1 set] spt by simp
      have word: "user_word u ?b x = user_word s a x \<and> user_word u a x = user_word s a x" for x
        using user_word_copied [OF res ram pp mem, where t = u] by (simp add: u_def)
      have below: "kmem u x = kmem s1 x" if "kpage s1 (x AND PAGE_FRAME)" for x
      proof -
        have "unat (x AND PAGE_FRAME) + 4096 \<le> unat (firstpaddr s1) + 2147483648"
          using that by (simp add: kpage_def)
        moreover have "unat x = unat (x AND PAGE_FRAME) + unat x mod 4096" by (simp add: unat_page_frame)
        ultimately have x: "unat x < unat ?p + 2147483648"
          using mod_less_divisor [of 4096 "unat x"] by (simp add: s2_def)
        then have "kmem u x = kmem t x" unfolding u_def using copied_ok(2) [OF res ram pp] by simp
        also have "\<dots> = kmem s1 x" using x by (simp add: t(5)) (simp add: s2_def)
        finally show ?thesis .
      qed
      have fields: "pagerefs u = pagerefs s1" "kheaproots u = kheaproots s1" "sizebases u = sizebases s1"
        "allbase u = allbase s1" "lastpaddr u = lastpaddr s1"
        unfolding u_def by (subst t(4), simp add: s2_def)+
      have "ram_ok u" using t(2) ram_ok_cong [of u t] by (simp add: u_def)
      moreover have "unat (firstpaddr s1) \<le> unat (firstpaddr u)" using t(3) by (simp add: u_def s2_def)
      ultimately have "kheap_ok u" "live_blocks u = live_blocks s1"
        using kheap_ok_outside [OF c(2) _ fields _ below] by simp_all
      then show ?thesis
        using run new(1,2) word pp(1) spt t(3)
        by (intro exI [of _ "Inr new"] exI [of _ u]) (auto simp: u_def)
    next
      case False
      then obtain fp a' where f: "as_prepare_load new s2 = (Inl ENOMEM, s2\<lparr>firstpaddr := fp, spaces := (spaces s2)(new \<mapsto> a')\<rparr>)"
        "ram_ok (s2\<lparr>firstpaddr := fp\<rparr>)" "unat (firstpaddr s2) \<le> unat fp"
        using prepare_load_fails [OF sp2(1) _ ram2] small last(4) by auto
      let ?s3 = "s2\<lparr>firstpaddr := fp, spaces := (spaces s2)(new \<mapsto> a')\<rparr>"
      have "ram_ok ?s3" using f(2) by (simp add: ram_ok_def)
      then have h3: "kheap_ok ?s3" "live_blocks ?s3 = insert (new, 64) (live_blocks s)"
        using kheap_ok_outside [OF c(2), of ?s3] f(3) new(2) by (simp_all add: s2_def)
      obtain s4 where s4: "kfree new ?s3 = (Inr (), s4)" "kheap_ok s4"
        "live_blocks s4 = live_blocks ?s3 - {(new, 64)}"
        using kfree_law [OF h3(1), of "(new, 64)"] h3(2) by auto
      let ?t = "s4\<lparr>spaces := (spaces s4)(new := None)\<rparr>"
      have "live_blocks s4 = live_blocks s" using s4(3) h3(2) new(1) by (auto simp: image_iff)
      moreover have "ram_ok ?t" using kheap_ok_ram [OF s4(2)] by (simp add: ram_ok_def)
      ultimately have "kheap_ok ?t" "live_blocks ?t = live_blocks s"
        using kheap_ok_outside [OF s4(2), of ?t] by simp_all
      then show ?thesis
        using as_copy_fails [OF f(1) s4(1) c(1) \<open>new \<noteq> 0\<close> sp1 set]
        by (intro exI [of _ "Inl ENOMEM"] exI [of _ ?t]) simp
    qed
  qed
qed

subsection \<open>Properties\<close>

text \<open>C20: an access of a program to its memory, with the fault handler where the TLB has no entry,
  ends with the TLB mapping the page to the physical page of the segment it lies in, or with
  EFAULT and nothing changed, when the address is in no segment or all 64 entries are in use;
  no entry of another page or of another address space ever appears.\<close>

theorem vm_fault_serves:
  assumes "curspace s \<noteq> 0" and "spaces s (curspace s) = Some a" and "as_set_up a"
    and "ft = VM_FAULT_READ \<or> ft = VM_FAULT_WRITE" and "tlb_ok a (tlb s)"
  shows "\<exists>r es. mem_access ft x s = (r, s\<lparr>tlb := es\<rparr>) \<and> tlb_ok a es \<and>
    (case r of
       Inr _ \<Rightarrow> \<exists>p. translate_page a (x AND PAGE_FRAME) = Some p
         \<and> tlb_lookup es x = Some (p + x mod PAGE_SIZE)
     | Inl e \<Rightarrow> e = EFAULT \<and> es = tlb s
         \<and> (translate_page a (x AND PAGE_FRAME) = None \<or> (\<forall>e\<in>set es. tlb_valid e)))"
  using assms by (rule mem_access_ok)

definition example_space :: addrspace where
  "example_space = \<lparr>as_vbase1 = 0x400000, as_pbase1 = 0x1000, as_npages1 = 1, as_vbase2 = 0x10000000,
     as_pbase2 = 0x2000, as_npages2 = 1, as_stackpbase = 0x3000\<rparr>"

definition example_vm :: vmstate where
  "example_vm = \<lparr>firstfree = 0x80040000, firstpaddr = 0x40000, lastpaddr = 0x80000,
     kmem = \<lambda>_. 0, pagerefs = \<lambda>_. \<lparr>next_samesize = 0, next_all = 0, pageaddr_and_blocktype = 0,
       freelist_offset = 0, nfree = 0\<rparr>,
     kheaproots = replicate 16 \<lparr>rpage = 0, pagerefs_inuse = replicate 8 0, numinuse = 0\<rparr>,
     sizebases = replicate 8 0, allbase = 0,
     tlb = replicate 64 (0x80000000, 0), spaces = [0x80041000 \<mapsto> example_space], curspace = 0x80041000\<rparr>"

lemma example_vm_ok:
  "kheap_ok example_vm" "ram_ok example_vm" "curspace example_vm \<noteq> 0"
  "spaces example_vm (curspace example_vm) = Some example_space" "as_set_up example_space"
  "tlb_ok a (tlb example_vm)" "length (tlb example_vm) = 64"
proof -
  show ram: "ram_ok example_vm"
    by (simp add: example_vm_def ram_ok_def page_aligned_def PAGE_FRAME_def)
  show "kheap_ok example_vm"
    using empty_heap_ok [OF ram] by (auto simp: kheap_ok_def example_vm_def)
  show "tlb_ok a (tlb example_vm)" "length (tlb example_vm) = 64"
    by (simp_all add: tlb_ok_def tlb_valid_def example_vm_def)
qed (simp_all add: example_vm_def example_space_def as_set_up_def PAGE_FRAME_def)

lemma vm_fault_serves_witness:
  "\<exists>r es. mem_access VM_FAULT_WRITE 0x400123 example_vm = (r, example_vm\<lparr>tlb := es\<rparr>) \<and> tlb_ok example_space es"
proof -
  have "VM_FAULT_WRITE = VM_FAULT_READ \<or> VM_FAULT_WRITE = VM_FAULT_WRITE" by simp
  from vm_fault_serves [OF example_vm_ok(3-5) this example_vm_ok(6), of "0x400123"] show ?thesis by blast
qed

text \<open>C10: after a switch to an address space, whatever a program accesses, the TLB maps only pages of
  that address space, each to its own physical page and by one entry only: no translation of the
  address space before survives.\<close>

theorem as_activate_isolates:
  assumes "curspace s \<noteq> 0" and "spaces s (curspace s) = Some a" and "as_set_up a"
    and "length (tlb s) = 64" and "\<forall>(ft, x)\<in>set xs. ft = VM_FAULT_READ \<or> ft = VM_FAULT_WRITE"
  shows "\<exists>es. kbind (as_activate (curspace s)) (\<lambda>_. mem_accesses xs) s = (Inr (), s\<lparr>tlb := es\<rparr>)
    \<and> (\<forall>x p. tlb_lookup es x = Some p \<longrightarrow>
         (\<exists>q. translate_page a (x AND PAGE_FRAME) = Some q \<and> p = q + x mod PAGE_SIZE))
    \<and> (\<forall>e\<in>set es. \<forall>f\<in>set es. tlb_valid e \<longrightarrow> tlb_valid f \<longrightarrow> fst e = fst f \<longrightarrow> e = f)"
proof -
  let ?es = "map (\<lambda>i. (TLBHI_INVALID i, TLBLO_INVALID)) [0..<NUM_TLB]"
  obtain es where es: "mem_accesses xs (s\<lparr>tlb := ?es\<rparr>) = (Inr (), s\<lparr>tlb := ?es, tlb := es\<rparr>)" "tlb_ok a es"
    using mem_accesses_ok [of "s\<lparr>tlb := ?es\<rparr>" a xs] assms tlb_ok_activated [of a] by auto
  have "kbind (as_activate (curspace s)) (\<lambda>_. mem_accesses xs) s = (Inr (), s\<lparr>tlb := es\<rparr>)"
    by (rule kbind_eq, rule as_activate_eq [OF assms(4)]) (use es(1) in simp)
  moreover have "\<exists>q. translate_page a (x AND PAGE_FRAME) = Some q \<and> p = q + x mod PAGE_SIZE"
    if "tlb_lookup es x = Some p" for x p
    using that by (auto simp: tlb_lookup_eq [OF es(2)] split: if_splits)
  moreover note tlb_ok_unique [OF es(2)]
  ultimately show ?thesis by (intro exI [of _ es] conjI allI ballI impI) (assumption | blast)+
qed

lemma as_activate_isolates_witness:
  "\<exists>es. kbind (as_activate 0x80041000) (\<lambda>_. mem_accesses [(VM_FAULT_READ, 0x400000), (VM_FAULT_WRITE, 0x10000ffc)]) example_vm
      = (Inr (), example_vm\<lparr>tlb := es\<rparr>)"
proof -
  have cur: "curspace example_vm = 0x80041000" by (simp add: example_vm_def)
  have "\<forall>(ft, x)\<in>set [(VM_FAULT_READ, 0x400000 :: vaddr), (VM_FAULT_WRITE, 0x10000ffc)].
      ft = VM_FAULT_READ \<or> ft = VM_FAULT_WRITE" by simp
  from as_activate_isolates [OF example_vm_ok(3-5,7) this] show ?thesis unfolding cur by blast
qed

text \<open>C31: loading takes fresh, consecutive pages for the two segments and the stack, exactly as many as
  they need, fills them with zeros and touches no other memory; when the RAM has too few it is
  ENOMEM (with the pages taken so far lost).\<close>

theorem as_prepare_load_allocates:
  assumes "spaces s as = Some a" and "unloaded a" and "ram_ok s"
    and "unat (firstpaddr s) + 4096 * as_pages a < 4294967296"
  shows "\<exists>r t. as_prepare_load as s = (r, t) \<and> ram_ok t \<and>
    (if unat (firstpaddr s) + 4096 * as_pages a \<le> unat (lastpaddr s) then
       r = Inr () \<and> unat (firstpaddr t) = unat (firstpaddr s) + 4096 * as_pages a
       \<and> spaces t = (spaces s)(as \<mapsto> loaded_at a (firstpaddr s))
       \<and> (\<forall>x. kmem t x = (if 2147483648 + unat (firstpaddr s) \<le> unat x
            \<and> unat x < 2147483648 + unat (firstpaddr t) then 0 else kmem s x))
     else r = Inl ENOMEM \<and> kmem t = kmem s \<and> unat (firstpaddr s) \<le> unat (firstpaddr t))"
proof (cases "unat (firstpaddr s) + 4096 * as_pages a \<le> unat (lastpaddr s)")
  case True
  obtain t m where t: "as_prepare_load as s = (Inr (), t)" "ram_ok t"
    "unat (firstpaddr t) = unat (firstpaddr s) + 4096 * as_pages a"
    "t = s\<lparr>firstpaddr := firstpaddr t, spaces := (spaces s)(as \<mapsto> loaded_at a (firstpaddr s)), kmem := m\<rparr>"
    "\<forall>x. kmem t x = (if 2147483648 + unat (firstpaddr s) \<le> unat x
        \<and> unat x < 2147483648 + unat (firstpaddr t) then 0 else kmem s x)"
    using prepare_load_ok [OF assms(1-3) True] by blast
  have "spaces t = (spaces s)(as \<mapsto> loaded_at a (firstpaddr s))" by (subst t(4)) simp
  then show ?thesis using t(1-3,5) True by (intro exI [of _ "Inr ()"] exI [of _ t]) simp
next
  case False
  then obtain fp a' where f: "as_prepare_load as s = (Inl ENOMEM, s\<lparr>firstpaddr := fp, spaces := (spaces s)(as \<mapsto> a')\<rparr>)"
    "ram_ok (s\<lparr>firstpaddr := fp\<rparr>)" "unat (firstpaddr s) \<le> unat fp"
    using prepare_load_fails [OF assms] by auto
  then show ?thesis
    using False by (intro exI [of _ "Inl ENOMEM"] exI [of _ "s\<lparr>firstpaddr := fp, spaces := (spaces s)(as \<mapsto> a')\<rparr>"])
      (simp add: ram_ok_def)
qed

lemma as_prepare_load_allocates_witness:
  "\<exists>r t. as_prepare_load 0x80042000 (example_vm\<lparr>spaces := [0x80042000 \<mapsto> same_layout example_space]\<rparr>) = (r, t)
     \<and> r = Inr () \<and> unat (firstpaddr t) = 0x4e000"
proof -
  define s where "s = example_vm\<lparr>spaces := [0x80042000 \<mapsto> same_layout example_space]\<rparr>"
  have ram: "ram_ok s" using example_vm_ok(2) by (simp add: s_def ram_ok_def)
  have f: "unat (firstpaddr s) = 0x40000" "unat (lastpaddr s) = 0x80000" "as_pages (same_layout example_space) = 14"
    "spaces s 0x80042000 = Some (same_layout example_space)"
    by (simp_all add: s_def example_vm_def example_space_def as_pages_def same_layout_def fresh_space_def)
  obtain r t where "as_prepare_load 0x80042000 s = (r, t)" "r = Inr ()" "unat (firstpaddr t) = 0x4e000"
    using as_prepare_load_allocates [OF f(4) _ ram] unfolding f(1-3) by auto
  then show ?thesis unfolding s_def by blast
qed

text \<open>C9: a copied address space is a block of its own, has the same segments at the same addresses and
  every word of the old one's memory in fresh pages; the old one's memory and all of the heap
  are as before. The only failure is ENOMEM, and then no block is left behind.\<close>

theorem as_copy_copies:
  assumes "kheap_ok s" and "spaces s old = Some a" and "old \<in> fst ` live_blocks s" and "resident s a"
  shows "\<exists>r t. as_copy old s = (r, t) \<and> kheap_ok t \<and>
    (case r of
       Inl e \<Rightarrow> e = ENOMEM \<and> live_blocks t = live_blocks s
     | Inr new \<Rightarrow> new \<notin> fst ` live_blocks s \<and> live_blocks t = insert (new, 64) (live_blocks s)
         \<and> (\<exists>p. spaces t = (spaces s)(new \<mapsto> loaded_at (same_layout a) p) \<and> unat (firstpaddr s) \<le> unat p
           \<and> unat p + 4096 * as_pages a \<le> unat (firstpaddr t)
           \<and> (\<forall>x. user_word t (loaded_at (same_layout a) p) x = user_word s a x
                 \<and> user_word t a x = user_word s a x)))"
  using assms by (rule as_copy_ok)

lemma as_copy_copies_witness:
  "\<exists>(s :: vmstate) r t. spaces s 0x80040800 = Some example_space \<and> as_copy 0x80040800 s = (r, t) \<and> kheap_ok t"
proof -
  have sm: "small 1500" by (simp add: small_def LARGEST_SUBPAGE_SIZE_def)
  obtain t :: kheap where t: "kheap_ok t" "live_blocks t = {(0x80040800, 2048)}"
    "kmalloc 1500 example_heap = (Inr 0x80040800, t)" by (rule example_block)
  have fp: "unat (firstpaddr example_vm) \<le> unat (firstpaddr t)"
    using kmalloc_off_page [OF example_heap_ok(3) sm t(3)] example_heap_ok(3)
    by (simp add: off_page_def example_heap_def example_vm_def)
  define s :: vmstate where
    "s = kheap.extend t (vmstate.fields (replicate 64 (0, 0)) [0x80040800 \<mapsto> example_space] 0x80040800)"
  have fields: "pagerefs s = pagerefs t" "kheaproots s = kheaproots t" "sizebases s = sizebases t"
    "allbase s = allbase t" "lastpaddr s = lastpaddr t" "firstpaddr s = firstpaddr t" "kmem s = kmem t"
    "spaces s = [0x80040800 \<mapsto> example_space]"
    by (simp_all add: s_def kheap.defs vmstate.defs)
  have "ram_ok s" using kheap_ok_ram [OF t(1)] by (simp add: fields ram_ok_def)
  then have s: "kheap_ok s" "live_blocks s = live_blocks t"
    using kheap_ok_outside [OF t(1), of s] by (simp_all add: fields)
  have live: "0x80040800 \<in> fst ` live_blocks s" by (simp add: s(2) t(2))
  have res: "resident s example_space"
    using fp by (simp add: resident_def example_space_def example_vm_def fields page_aligned_def PAGE_FRAME_def)
  have sp: "spaces s 0x80040800 = Some example_space" by (simp add: fields)
  obtain q u where "as_copy 0x80040800 s = (q, u)" "kheap_ok u"
    using as_copy_copies [OF s(1) sp live res] by (elim exE conjE) (rule that)
  then show ?thesis using sp by - (intro exI [of _ s] exI [of _ q] exI [of _ u] conjI)
qed

text \<open>A region that does not wrap around is recorded as the smallest run of whole pages that covers
  it, as the first or the second segment of the address space; a third one is refused with the
  error number 2 and changes nothing.\<close>

theorem as_define_region_covers:
  assumes "spaces s as = Some a" and "unat x + unat sz + 4095 < 4294967296"
  shows "\<exists>base n. page_aligned base \<and> unat base \<le> unat x \<and> unat x < unat base + 4096
    \<and> unat x + unat sz \<le> unat base + 4096 * unat n \<and> unat base + 4096 * unat n < unat x + unat sz + 4096
    \<and> as_define_region as x sz rd wr ex s =
      (if as_vbase1 a = 0 then
         (Inr 0, s\<lparr>spaces := (spaces s)(as \<mapsto> a\<lparr>as_vbase1 := base, as_npages1 := n\<rparr>)\<rparr>)
       else if as_vbase2 a = 0 then
         (Inr 0, s\<lparr>spaces := (spaces s)(as \<mapsto> a\<lparr>as_vbase2 := base, as_npages2 := n\<rparr>)\<rparr>)
       else (Inr 2, s))"
proof -
  let ?base = "x AND PAGE_FRAME" and ?sz = "sz + (x AND NOT PAGE_FRAME)"
  let ?r = "(?sz + PAGE_SIZE - 1) AND PAGE_FRAME" let ?n = "?r div PAGE_SIZE"
  have "NOT PAGE_FRAME = 0xfff" by (simp add: PAGE_FRAME_def)
  then have off: "unat (x AND NOT PAGE_FRAME) = unat x mod 4096"
    by (simp add: and_0xfff unat_page_offset)
  have base: "unat ?base = unat x - unat x mod 4096" by (rule unat_page_frame)
  have le: "unat x mod 4096 \<le> unat x" by simp
  have sz: "unat ?sz = unat sz + unat x mod 4096"
    using assms(2) le by (subst unat_add_u32) (simp_all add: off)
  have "?sz + PAGE_SIZE - 1 = ?sz + 4095" by (simp add: PAGE_SIZE_def)
  then have up: "unat (?sz + PAGE_SIZE - 1) = unat sz + unat x mod 4096 + 4095"
    using assms(2) le sz by (simp only:, subst unat_add_u32) simp_all
  have r: "unat ?r = unat sz + unat x mod 4096 + 4095 - (unat sz + unat x mod 4096 + 4095) mod 4096"
    by (simp only: unat_page_frame up)
  have "unat ?r mod 4096 = 0" unfolding r by (simp add: minus_mod_eq_mult_div)
  moreover have "unat ?n = unat ?r div 4096" by (simp add: unat_div PAGE_SIZE_def)
  ultimately have n: "4096 * unat ?n = unat ?r" by auto
  have m: "(unat sz + unat x mod 4096 + 4095) mod 4096 < 4096" by simp
  have "unat x mod 4096 < 4096" by simp
  then have "unat ?base \<le> unat x \<and> unat x < unat ?base + 4096
      \<and> unat x + unat sz \<le> unat ?base + 4096 * unat ?n \<and> unat ?base + 4096 * unat ?n < unat x + unat sz + 4096"
    using m le unfolding n r base by linarith
  moreover have "as_define_region as x sz rd wr ex s =
      (if as_vbase1 a = 0 then
         (Inr 0, s\<lparr>spaces := (spaces s)(as \<mapsto> a\<lparr>as_vbase1 := ?base, as_npages1 := ?n\<rparr>)\<rparr>)
       else if as_vbase2 a = 0 then
         (Inr 0, s\<lparr>spaces := (spaces s)(as \<mapsto> a\<lparr>as_vbase2 := ?base, as_npages2 := ?n\<rparr>)\<rparr>)
       else (Inr 2, s))"
    using assms(1) by (simp add: as_define_region_def Let_def get_space_def set_space_def krun kbind_assoc)
  ultimately show ?thesis using page_aligned_frame by (intro exI [of _ ?base] exI [of _ ?n]) simp
qed

lemma as_define_region_covers_witness:
  "\<exists>base n. unat (base :: u32) \<le> unat (0x400010 :: u32)
     \<and> unat (0x400010 :: u32) + unat (100 :: u32) \<le> unat base + 4096 * unat (n :: u32)
     \<and> as_define_region 0x80041000 0x400010 100 True False True example_vm = (Inr 2, example_vm)"
proof -
  have sp: "spaces example_vm 0x80041000 = Some example_space"
    using example_vm_ok(4) by (simp add: example_vm_def)
  have two: "as_vbase1 example_space \<noteq> 0" "as_vbase2 example_space \<noteq> 0" by (simp_all add: example_space_def)
  have "unat (0x400010 :: u32) + unat (100 :: u32) + 4095 < 4294967296" by simp
  from as_define_region_covers [OF sp this, of True False True, simplified two if_False] show ?thesis by blast
qed

text \<open>C39: a program with a single segment passes loading and then panics the kernel with its first
  access: the handler asserts that both segments have pages.\<close>

theorem vm_fault_one_segment_panics:
  assumes "spaces s as = Some a" and "unloaded a" and "as_npages2 a = 0" and "as \<noteq> 0" and "curspace s = as"
    and "ram_ok s" and "unat (firstpaddr s) + 4096 * as_pages a \<le> unat (lastpaddr s)"
    and "ft = VM_FAULT_READ \<or> ft = VM_FAULT_WRITE"
  shows "\<exists>t. as_prepare_load as s = (Inr (), t) \<and> vm_fault ft x t = (Inl PANIC, t)"
proof -
  obtain t m where t: "as_prepare_load as s = (Inr (), t)"
    "t = s\<lparr>firstpaddr := firstpaddr t, spaces := (spaces s)(as \<mapsto> loaded_at a (firstpaddr s)), kmem := m\<rparr>"
    using prepare_load_ok [OF assms(1,2,6,7)] by blast
  have sp: "spaces t as = Some (loaded_at a (firstpaddr s))" "curspace t = as"
    using assms(5) by (subst t(2), simp)+
  have "\<not> as_set_up (loaded_at a (firstpaddr s))"
    using assms(3) by (simp add: as_set_up_def loaded_at_def)
  then have "vm_fault ft x t = (Inl PANIC, t)"
    using assms(4,8) sp by (auto simp: vm_fault_def Let_def get_space_def kmonad_defs
        VM_FAULT_READ_def VM_FAULT_WRITE_def VM_FAULT_READONLY_def)
  then show ?thesis using t(1) by blast
qed

lemma vm_fault_one_segment_panics_witness:
  "\<exists>t. as_prepare_load 0x80041000 (example_vm\<lparr>spaces := [0x80041000 \<mapsto> fresh_space\<lparr>as_vbase1 := 0x400000, as_npages1 := 1\<rparr>]\<rparr>)
       = (Inr (), t) \<and> vm_fault VM_FAULT_READ 0x400000 t = (Inl PANIC, t)"
proof -
  let ?a = "fresh_space\<lparr>as_vbase1 := 0x400000, as_npages1 := 1\<rparr>"
  define s where "s = example_vm\<lparr>spaces := [0x80041000 \<mapsto> ?a]\<rparr>"
  have "spaces s 0x80041000 = Some ?a" "unloaded ?a" "as_npages2 ?a = 0" "curspace s = 0x80041000" "ram_ok s"
    "unat (firstpaddr s) + 4096 * as_pages ?a \<le> unat (lastpaddr s)"
    using example_vm_ok(2)
    by (simp_all add: s_def example_vm_def unloaded_def fresh_space_def as_pages_def ram_ok_def)
  from vm_fault_one_segment_panics [OF this(1-3) _ this(4-6), of VM_FAULT_READ "0x400000"]
  show ?thesis unfolding s_def by simp
qed

end
