(* ===== verification/Sched.thy ===== *)
theory Sched
  imports Prelude
begin

text \<open>
  Spinlocks, interrupt priority, wait channels, the run queues and the context switch
  (\<^verbatim>\<open>kern/thread/spl.c\<close>, \<^verbatim>\<open>kern/thread/spinlock.c\<close>, \<^verbatim>\<open>kern/thread/thread.c\<close>,
  \<^verbatim>\<open>kern/thread/clock.c\<close>), after \<open>thread_bootstrap\<close> (so \<open>CURCPU_EXISTS()\<close> is true).

  The state is the whole machine; an operation runs on the CPU \<open>curcpu\<close>. Thread lists are lists
  (\<open>Threadlist\<close> proves that refinement). Threads, wait channels, CPUs and address spaces are
  numbered. An operation runs without interference from other CPUs, so a spinlock that is held
  elsewhere stays held: spinning for it is \<open>HANG\<close>, as is \<open>cpu_halt\<close>. What other CPUs and
  interrupts do while a CPU is idle is an argument of \<open>thread_switch\<close>, one state transition per
  \<open>cpu_idle\<close>; when it is used up the CPU idles forever. A context switch ends in the thread that
  is switched to, so \<open>thread_switch\<close> includes that thread's return from its own call, or its
  \<open>thread_startup\<close> when it is new (up to the call of its entry point).
  Memory for threads comes as arguments: \<open>None\<close> or \<open>False\<close> where kmalloc fails.
\<close>

subsection \<open>Data\<close>

type_synonym tid = nat

datatype threadstate = S_RUN | S_READY | S_SLEEP | S_ZOMBIE

datatype lockref = RunqueueLock nat | IpiLock nat | WchanLock nat

record spinlock =
  splk_lock :: u32
  splk_holder :: "nat option"

text \<open>Where a thread resumes: in \<open>thread_switch\<close>, with the level to restore, or in
  \<open>thread_startup\<close>.\<close>

datatype resume = InSwitch int | Startup

record thread =
  t_state :: threadstate
  t_wchan_name :: "nat option"
  t_context :: resume
  t_cpu :: nat
  t_in_interrupt :: bool
  t_curspl :: int
  t_iplhigh_count :: int
  t_addrspace :: "nat option"
  t_cwd :: "nat option"

record cpu =
  c_curthread :: tid
  c_zombies :: "tid list"
  c_hardclocks :: u8
  c_isidle :: bool
  c_runqueue :: "tid list"
  c_ipi_pending :: u32
  c_shootdown :: "nat list"
  c_numshootdown :: int
  c_irq :: bool
  c_active_as :: "nat option"

record machine =
  numcpus :: nat
  cpus :: "nat \<Rightarrow> cpu"
  curcpu :: nat
  threads :: "tid \<Rightarrow> thread option"
  wc_threads :: "nat \<Rightarrow> tid list"
  spinlocks :: "lockref \<Rightarrow> spinlock"
  vn_refcount :: "nat \<Rightarrow> int"

abbreviation this_cpu :: "machine \<Rightarrow> cpu" where "this_cpu s \<equiv> cpus s (curcpu s)"
abbreviation curthread :: "machine \<Rightarrow> tid" where "curthread s \<equiv> c_curthread (this_cpu s)"

definition set_cpu :: "nat \<Rightarrow> (cpu \<Rightarrow> cpu) \<Rightarrow> machine \<Rightarrow> machine" where
  "set_cpu i f s = s\<lparr>cpus := (cpus s)(i := f (cpus s i))\<rparr>"

definition set_this :: "(cpu \<Rightarrow> cpu) \<Rightarrow> (machine, unit) kernel" where
  "set_this f = kmodify (\<lambda>s. set_cpu (curcpu s) f s)"

definition get_thread :: "tid \<Rightarrow> (machine, thread) kernel" where
  "get_thread t = kbind (kget (\<lambda>s. threads s t)) (\<lambda>x. case x of None \<Rightarrow> kfail UNDEFINED | Some th \<Rightarrow> kreturn th)"

definition set_thread :: "tid \<Rightarrow> (thread \<Rightarrow> thread) \<Rightarrow> (machine, unit) kernel" where
  "set_thread t f = kmodify (\<lambda>s. s\<lparr>threads := (threads s)(t := map_option f (threads s t))\<rparr>)"

definition IPL_NONE :: int where "IPL_NONE = 0"
definition IPL_HIGH :: int where "IPL_HIGH = 1"

subsection \<open>Interrupt priority\<close>

definition splraise :: "int \<Rightarrow> int \<Rightarrow> (machine, unit) kernel" where
  "splraise oldspl newspl =
     kbind (kget curthread) (\<lambda>t. kbind (get_thread t) (\<lambda>cur.
     kbind (kassert (oldspl = IPL_NONE)) (\<lambda>_.
     kbind (kassert (newspl = IPL_HIGH)) (\<lambda>_.
     kbind (if t_iplhigh_count cur = 0 then set_this (c_irq_update (\<lambda>_. False)) else kreturn ()) (\<lambda>_.
     set_thread t (t_iplhigh_count_update (\<lambda>n. n + 1)))))))"

definition spllower :: "int \<Rightarrow> int \<Rightarrow> (machine, unit) kernel" where
  "spllower oldspl newspl =
     kbind (kget curthread) (\<lambda>t. kbind (get_thread t) (\<lambda>cur.
     kbind (kassert (oldspl = IPL_HIGH)) (\<lambda>_.
     kbind (kassert (newspl = IPL_NONE)) (\<lambda>_.
     kbind (set_thread t (t_iplhigh_count_update (\<lambda>n. n - 1))) (\<lambda>_.
     if t_iplhigh_count cur - 1 = 0 then set_this (c_irq_update (\<lambda>_. True)) else kreturn ())))))"

definition splx :: "int \<Rightarrow> (machine, int) kernel" where
  "splx spl =
     kbind (kget curthread) (\<lambda>t. kbind (get_thread t) (\<lambda>cur.
     if t_curspl cur < spl then
       kbind (splraise (t_curspl cur) spl) (\<lambda>_.
       kbind (set_thread t (t_curspl_update (\<lambda>_. spl))) (\<lambda>_. kreturn (t_curspl cur)))
     else if t_curspl cur > spl then
       kbind (set_thread t (t_curspl_update (\<lambda>_. spl))) (\<lambda>_.
       kbind (spllower (t_curspl cur) spl) (\<lambda>_. kreturn (t_curspl cur)))
     else kreturn spl))"

definition spl0 :: "(machine, int) kernel" where "spl0 = splx IPL_NONE"
definition splhigh :: "(machine, int) kernel" where "splhigh = splx IPL_HIGH"

text \<open>
  What \<open>mips_trap\<close> does to the interrupt state before and after it handles an interrupt: the
  hardware turned interrupts off, and the return from the exception restores what was there.
  \<open>irq_enter\<close> returns \<open>old_in\<close> and \<open>doadjust\<close>.
\<close>

definition irq_enter :: "(machine, bool \<times> bool) kernel" where
  "irq_enter =
     kbind (set_this (c_irq_update (\<lambda>_. False))) (\<lambda>_.
     kbind (kget curthread) (\<lambda>t. kbind (get_thread t) (\<lambda>cur.
     kbind (set_thread t (t_in_interrupt_update (\<lambda>_. True))) (\<lambda>_.
     if t_curspl cur = 0 then
       kbind (kassert (t_iplhigh_count cur = 0)) (\<lambda>_.
       kbind (set_thread t (t_curspl_update (\<lambda>_. IPL_HIGH))) (\<lambda>_.
       kbind (set_thread t (t_iplhigh_count_update (\<lambda>n. n + 1))) (\<lambda>_.
       kreturn (t_in_interrupt cur, True))))
     else kreturn (t_in_interrupt cur, False)))))"

definition irq_exit :: "bool \<Rightarrow> bool \<Rightarrow> (machine, unit) kernel" where
  "irq_exit old_in doadjust =
     kbind (kget curthread) (\<lambda>t. kbind (get_thread t) (\<lambda>cur.
     kbind (if doadjust then
              kbind (kassert (t_curspl cur = IPL_HIGH)) (\<lambda>_.
              kbind (kassert (t_iplhigh_count cur = 1)) (\<lambda>_.
              kbind (set_thread t (t_iplhigh_count_update (\<lambda>n. n - 1))) (\<lambda>_.
              set_thread t (t_curspl_update (\<lambda>_. 0)))))
            else kreturn ()) (\<lambda>_.
     kbind (set_thread t (t_in_interrupt_update (\<lambda>_. old_in))) (\<lambda>_.
     set_this (c_irq_update (\<lambda>_. doadjust))))))"

subsection \<open>Spinlocks\<close>

definition set_lock :: "lockref \<Rightarrow> spinlock \<Rightarrow> (machine, unit) kernel" where
  "set_lock l v = kmodify (\<lambda>s. s\<lparr>spinlocks := (spinlocks s)(l := v)\<rparr>)"

definition spinlock_init :: "lockref \<Rightarrow> (machine, unit) kernel" where
  "spinlock_init l = set_lock l \<lparr>splk_lock = 0, splk_holder = None\<rparr>"

definition spinlock_cleanup :: "lockref \<Rightarrow> (machine, unit) kernel" where
  "spinlock_cleanup l =
     kbind (kget (\<lambda>s. spinlocks s l)) (\<lambda>k.
     kbind (kassert (splk_holder k = None)) (\<lambda>_. kassert (splk_lock k = 0)))"

definition spinlock_acquire :: "lockref \<Rightarrow> (machine, unit) kernel" where
  "spinlock_acquire l =
     kbind (splraise IPL_NONE IPL_HIGH) (\<lambda>_.
     kbind (kget curcpu) (\<lambda>mycpu. kbind (kget (\<lambda>s. spinlocks s l)) (\<lambda>k.
     if splk_holder k = Some mycpu then kfail PANIC
     else if splk_lock k \<noteq> 0 then kfail HANG
     else set_lock l \<lparr>splk_lock = 1, splk_holder = Some mycpu\<rparr>)))"

definition spinlock_release :: "lockref \<Rightarrow> (machine, unit) kernel" where
  "spinlock_release l =
     kbind (kget curcpu) (\<lambda>mycpu. kbind (kget (\<lambda>s. spinlocks s l)) (\<lambda>k.
     kbind (kassert (splk_holder k = Some mycpu)) (\<lambda>_.
     kbind (set_lock l \<lparr>splk_lock = 0, splk_holder = None\<rparr>) (\<lambda>_.
     spllower IPL_HIGH IPL_NONE))))"

definition spinlock_do_i_hold :: "lockref \<Rightarrow> (machine, bool) kernel" where
  "spinlock_do_i_hold l = kget (\<lambda>s. splk_holder (spinlocks s l) = Some (curcpu s))"

subsection \<open>Interprocessor interrupts\<close>

definition TLBSHOOTDOWN_MAX :: nat where "TLBSHOOTDOWN_MAX = 16"
definition TLBSHOOTDOWN_ALL :: int where "TLBSHOOTDOWN_ALL = -1"
definition IPI_PANIC :: nat where "IPI_PANIC = 0"
definition IPI_OFFLINE :: nat where "IPI_OFFLINE = 1"
definition IPI_UNIDLE :: nat where "IPI_UNIDLE = 2"
definition IPI_TLBSHOOTDOWN :: nat where "IPI_TLBSHOOTDOWN = 3"

definition ipi_send :: "nat \<Rightarrow> nat \<Rightarrow> (machine, unit) kernel" where
  "ipi_send target code =
     kbind (kassert (code < 32)) (\<lambda>_.
     kbind (spinlock_acquire (IpiLock target)) (\<lambda>_.
     kbind (kmodify (set_cpu target (c_ipi_pending_update (\<lambda>p. p OR 2 ^ code)))) (\<lambda>_.
     spinlock_release (IpiLock target))))"

fun ipi_broadcast_from :: "nat list \<Rightarrow> nat \<Rightarrow> (machine, unit) kernel" where
  "ipi_broadcast_from [] code = kreturn ()"
| "ipi_broadcast_from (i # is) code =
     kbind (kget curcpu) (\<lambda>me.
     kbind (if i \<noteq> me then ipi_send i code else kreturn ()) (\<lambda>_. ipi_broadcast_from is code))"

definition ipi_broadcast :: "nat \<Rightarrow> (machine, unit) kernel" where
  "ipi_broadcast code = kbind (kget numcpus) (\<lambda>n. ipi_broadcast_from [0..<n] code)"

text \<open>The index of the request queue is the unsigned value of \<open>c_numshootdown\<close>; a write outside
  the queue is not defined.\<close>

definition ipi_tlbshootdown :: "nat \<Rightarrow> nat \<Rightarrow> (machine, unit) kernel" where
  "ipi_tlbshootdown target mapping =
     kbind (spinlock_acquire (IpiLock target)) (\<lambda>_.
     kbind (kget (\<lambda>s. word_of_int (c_numshootdown (cpus s target)) :: u32)) (\<lambda>n.
     kbind (if n = of_nat TLBSHOOTDOWN_MAX then
              kmodify (set_cpu target (c_numshootdown_update (\<lambda>_. TLBSHOOTDOWN_ALL)))
            else if unat n < TLBSHOOTDOWN_MAX then
              kmodify (set_cpu target (\<lambda>c. c\<lparr>c_shootdown := (c_shootdown c)[unat n := mapping],
                c_numshootdown := int (unat n) + 1\<rparr>))
            else kfail UNDEFINED) (\<lambda>_.
     kbind (kmodify (set_cpu target (c_ipi_pending_update (\<lambda>p. p OR 2 ^ IPI_TLBSHOOTDOWN)))) (\<lambda>_.
     spinlock_release (IpiLock target)))))"

text \<open>\<open>vm_tlbshootdown_all\<close> and \<open>vm_tlbshootdown\<close> of dumbvm panic.\<close>

definition interprocessor_interrupt :: "(machine, unit) kernel" where
  "interprocessor_interrupt =
     kbind (kget curcpu) (\<lambda>me.
     kbind (spinlock_acquire (IpiLock me)) (\<lambda>_.
     kbind (kget (\<lambda>s. c_ipi_pending (cpus s me))) (\<lambda>bits.
     if bits AND 2 ^ IPI_PANIC \<noteq> 0 then kfail HANG
     else if bits AND 2 ^ IPI_OFFLINE \<noteq> 0 then
       kbind (spinlock_acquire (RunqueueLock me)) (\<lambda>_.
       kbind (spinlock_release (RunqueueLock me)) (\<lambda>_. kfail HANG))
     else
     kbind (if bits AND 2 ^ IPI_TLBSHOOTDOWN \<noteq> 0 then
              kbind (kget (\<lambda>s. c_numshootdown (cpus s me))) (\<lambda>n.
              if n = TLBSHOOTDOWN_ALL then kfail PANIC
              else if 0 < n then kfail PANIC
              else set_this (c_numshootdown_update (\<lambda>_. 0)))
            else kreturn ()) (\<lambda>_.
     kbind (set_this (c_ipi_pending_update (\<lambda>_. 0))) (\<lambda>_.
     spinlock_release (IpiLock me))))))"

subsection \<open>Threads and run queues\<close>

text \<open>
  \<open>thread_create\<close>: the new thread's number, if there is memory for it. The code leaves \<open>t_cpu\<close>
  and \<open>t_context\<close> null; both callers set \<open>t_cpu\<close>, and \<open>switchframe_init\<close> or the first switch
  sets \<open>t_context\<close>, before either is read, so the values here are placeholders.
\<close>

definition thread_create :: "tid option \<Rightarrow> (machine, tid option) kernel" where
  "thread_create mem =
     (case mem of None \<Rightarrow> kreturn None
      | Some t \<Rightarrow>
        kbind (kmodify (\<lambda>s. s\<lparr>threads := (threads s)(t \<mapsto>
          \<lparr>t_state = S_READY, t_wchan_name = None, t_context = Startup, t_cpu = curcpu s, t_in_interrupt = False,
           t_curspl = IPL_HIGH, t_iplhigh_count = 1, t_addrspace = None, t_cwd = None\<rparr>)\<rparr>)) (\<lambda>_.
        kreturn (Some t)))"

definition thread_destroy :: "tid \<Rightarrow> (machine, unit) kernel" where
  "thread_destroy t =
     kbind (kget curthread) (\<lambda>c.
     kbind (kassert (t \<noteq> c)) (\<lambda>_.
     kbind (get_thread t) (\<lambda>th.
     kbind (kassert (t_state th \<noteq> S_RUN)) (\<lambda>_.
     kbind (kassert (t_cwd th = None)) (\<lambda>_.
     kbind (kassert (t_addrspace th = None)) (\<lambda>_.
     kmodify (\<lambda>s. s\<lparr>threads := (threads s)(t := None)\<rparr>)))))))"

text \<open>
  \<open>cpu_create\<close>: the arguments say whether there is memory for the CPU, for its slot in the array
  of CPUs, for its first thread and for that thread's stack (CPU 0 runs on the boot stack), and
  what the uninitialised request queue holds.
\<close>

definition cpu_create :: "bool \<Rightarrow> bool \<Rightarrow> tid option \<Rightarrow> bool \<Rightarrow> nat list \<Rightarrow> (machine, nat) kernel" where
  "cpu_create mem slot thread_mem stack garbage =
     kbind (if mem then kreturn () else kfail PANIC) (\<lambda>_.
     kbind (kget numcpus) (\<lambda>n.
     kbind (kmodify (set_cpu n (\<lambda>_. \<lparr>c_curthread = 0, c_zombies = [], c_hardclocks = 0, c_isidle = False,
       c_runqueue = [], c_ipi_pending = 0, c_shootdown = garbage, c_numshootdown = 0, c_irq = False,
       c_active_as = None\<rparr>))) (\<lambda>_.
     kbind (spinlock_init (RunqueueLock n)) (\<lambda>_.
     kbind (spinlock_init (IpiLock n)) (\<lambda>_.
     kbind (if slot then kmodify (numcpus_update (\<lambda>_. n + 1)) else kfail PANIC) (\<lambda>_.
     kbind (thread_create thread_mem) (\<lambda>r.
     case r of None \<Rightarrow> kfail PANIC
     | Some t \<Rightarrow>
       kbind (kmodify (set_cpu n (c_curthread_update (\<lambda>_. t)))) (\<lambda>_.
       kbind (if n \<noteq> 0 \<and> \<not> stack then kfail PANIC else kreturn ()) (\<lambda>_.
       kbind (set_thread t (t_cpu_update (\<lambda>_. n))) (\<lambda>_. kreturn n))))))))))"

definition thread_bootstrap :: "bool \<Rightarrow> bool \<Rightarrow> tid option \<Rightarrow> nat list \<Rightarrow> (machine, unit) kernel" where
  "thread_bootstrap mem slot thread_mem garbage =
     kbind (kmodify (numcpus_update (\<lambda>_. 0))) (\<lambda>_.
     kbind (cpu_create mem slot thread_mem False garbage) (\<lambda>n.
     kbind (kmodify (curcpu_update (\<lambda>_. n))) (\<lambda>_.
     kbind (kget curthread) (\<lambda>t. set_thread t (t_cpu_update (\<lambda>_. n))))))"

text \<open>The zombies are removed from the head of the list, as many as it has.\<close>

fun exorcise_list :: "tid list \<Rightarrow> (machine, unit) kernel" where
  "exorcise_list [] = kreturn ()"
| "exorcise_list (z # zs) =
     kbind (set_this (c_zombies_update (\<lambda>_. zs))) (\<lambda>_.
     kbind (kget curthread) (\<lambda>c.
     kbind (kassert (z \<noteq> c)) (\<lambda>_.
     kbind (get_thread z) (\<lambda>th.
     kbind (kassert (t_state th = S_ZOMBIE)) (\<lambda>_.
     kbind (thread_destroy z) (\<lambda>_. exorcise_list zs))))))"

definition exorcise :: "(machine, unit) kernel" where
  "exorcise = kbind (kget (\<lambda>s. c_zombies (this_cpu s))) exorcise_list"

definition thread_panic :: "(machine, unit) kernel" where
  "thread_panic = kbind (ipi_broadcast IPI_PANIC) (\<lambda>_. set_this (c_runqueue_update (\<lambda>_. [])))"

definition thread_shutdown :: "(machine, unit) kernel" where
  "thread_shutdown = ipi_broadcast IPI_OFFLINE"

definition thread_make_runnable :: "tid \<Rightarrow> bool \<Rightarrow> (machine, unit) kernel" where
  "thread_make_runnable target already_have_lock =
     kbind (get_thread target) (\<lambda>th.
     let targetcpu = t_cpu th in
     kbind (if already_have_lock then
              kbind (spinlock_do_i_hold (RunqueueLock targetcpu)) kassert
            else spinlock_acquire (RunqueueLock targetcpu)) (\<lambda>_.
     kbind (kget (\<lambda>s. c_isidle (cpus s targetcpu))) (\<lambda>isidle.
     kbind (kmodify (set_cpu targetcpu (c_runqueue_update (\<lambda>q. q @ [target])))) (\<lambda>_.
     kbind (if isidle then ipi_send targetcpu IPI_UNIDLE else kreturn ()) (\<lambda>_.
     if \<not> already_have_lock then spinlock_release (RunqueueLock targetcpu) else kreturn ())))))"

text \<open>\<open>thread_fork\<close>: \<open>stack\<close> tells whether there is memory for the stack.\<close>

definition thread_fork :: "tid option \<Rightarrow> bool \<Rightarrow> (machine, tid) kernel" where
  "thread_fork mem stack =
     kbind (thread_create mem) (\<lambda>r.
     case r of None \<Rightarrow> kfail ENOMEM
     | Some t \<Rightarrow>
       if \<not> stack then kbind (thread_destroy t) (\<lambda>_. kfail ENOMEM) else
       kbind (kget curthread) (\<lambda>c. kbind (get_thread c) (\<lambda>cur.
       kbind (set_thread t (t_cpu_update (\<lambda>_. t_cpu cur))) (\<lambda>_.
       kbind (case t_cwd cur of None \<Rightarrow> kreturn ()
              | Some v \<Rightarrow> kbind (kmodify (\<lambda>s. s\<lparr>vn_refcount := (vn_refcount s)(v := vn_refcount s v + 1)\<rparr>)) (\<lambda>_.
                          set_thread t (t_cwd_update (\<lambda>_. Some v)))) (\<lambda>_.
       kbind (set_thread t (t_iplhigh_count_update (\<lambda>n. n + 1))) (\<lambda>_.
       kbind (set_thread t (t_context_update (\<lambda>_. Startup))) (\<lambda>_.
       kbind (thread_make_runnable t False) (\<lambda>_. kreturn t))))))))"

subsection \<open>The context switch\<close>

text \<open>The idle loop; the run queue lock is free while the CPU waits.\<close>

fun idle_loop :: "(machine \<Rightarrow> machine) list \<Rightarrow> (machine, tid) kernel" where
  "idle_loop env =
     kbind (kget (\<lambda>s. c_runqueue (this_cpu s))) (\<lambda>q.
     case q of
       next # rest \<Rightarrow> kbind (set_this (c_runqueue_update (\<lambda>_. rest))) (\<lambda>_. kreturn next)
     | [] \<Rightarrow>
       kbind (kget curcpu) (\<lambda>me.
       kbind (spinlock_release (RunqueueLock me)) (\<lambda>_.
       case env of [] \<Rightarrow> kfail HANG
       | e # env' \<Rightarrow> kbind (kmodify e) (\<lambda>_.
         kbind (spinlock_acquire (RunqueueLock me)) (\<lambda>_. idle_loop env')))))"

declare idle_loop.simps [simp del]

text \<open>What a thread does when the CPU has switched to it.\<close>

definition activate_address_space :: "(machine, unit) kernel" where
  "activate_address_space =
     kbind (kget curthread) (\<lambda>t. kbind (get_thread t) (\<lambda>cur.
     case t_addrspace cur of None \<Rightarrow> kreturn ()
     | Some as \<Rightarrow> set_this (c_active_as_update (\<lambda>_. Some as))))"

definition thread_resume :: "(machine, unit) kernel" where
  "thread_resume =
     kbind (kget curthread) (\<lambda>t. kbind (get_thread t) (\<lambda>cur.
     kbind (set_thread t (\<lambda>th. th\<lparr>t_wchan_name := None, t_state := S_RUN\<rparr>)) (\<lambda>_.
     kbind (kget curcpu) (\<lambda>me.
     kbind (spinlock_release (RunqueueLock me)) (\<lambda>_.
     kbind activate_address_space (\<lambda>_.
     kbind exorcise (\<lambda>_.
     case t_context cur of
       InSwitch spl \<Rightarrow> kbind (splx spl) (\<lambda>_. kreturn ())
     | Startup \<Rightarrow> kbind spl0 (\<lambda>_. kreturn ()))))))))"

definition thread_switch :: "(machine \<Rightarrow> machine) list \<Rightarrow> threadstate \<Rightarrow> nat \<Rightarrow> (machine, unit) kernel" where
  "thread_switch env newstate wc =
     kbind splhigh (\<lambda>spl.
     kbind (kget curcpu) (\<lambda>me. kbind (kget curthread) (\<lambda>cur.
     kbind (kget (\<lambda>s. c_isidle (this_cpu s))) (\<lambda>isidle.
     if isidle then kbind (splx spl) (\<lambda>_. kreturn ()) else
     kbind (spinlock_acquire (RunqueueLock me)) (\<lambda>_.
     kbind (kget (\<lambda>s. c_runqueue (this_cpu s))) (\<lambda>q.
     if newstate = S_READY \<and> q = [] then
       kbind (spinlock_release (RunqueueLock me)) (\<lambda>_. kbind (splx spl) (\<lambda>_. kreturn ()))
     else
     kbind (case newstate of
              S_RUN \<Rightarrow> kfail PANIC
            | S_READY \<Rightarrow> thread_make_runnable cur True
            | S_SLEEP \<Rightarrow>
              kbind (set_thread cur (t_wchan_name_update (\<lambda>_. Some wc))) (\<lambda>_.
              kbind (kmodify (\<lambda>s. s\<lparr>wc_threads := (wc_threads s)(wc := wc_threads s wc @ [cur])\<rparr>)) (\<lambda>_.
              spinlock_release (WchanLock wc)))
            | S_ZOMBIE \<Rightarrow>
              kbind (set_thread cur (t_wchan_name_update (\<lambda>_. None))) (\<lambda>_.
              set_this (c_zombies_update (\<lambda>z. z @ [cur])))) (\<lambda>_.
     kbind (set_thread cur (t_state_update (\<lambda>_. newstate))) (\<lambda>_.
     kbind (set_this (c_isidle_update (\<lambda>_. True))) (\<lambda>_.
     kbind (idle_loop env) (\<lambda>next.
     kbind (set_this (c_isidle_update (\<lambda>_. False))) (\<lambda>_.
     kbind (set_this (c_curthread_update (\<lambda>_. next))) (\<lambda>_.
     kbind (set_thread cur (t_context_update (\<lambda>_. InSwitch spl))) (\<lambda>_.
     thread_resume)))))))))))))"

text \<open>\<open>thread_exit\<close>: a thread that is switched to again after it exited would panic, so nothing
  follows the switch. That the address space is freed is not part of this state (\<open>Dumbvm\<close> has
  \<open>as_destroy\<close>).\<close>

definition thread_exit :: "(machine \<Rightarrow> machine) list \<Rightarrow> (machine, unit) kernel" where
  "thread_exit env =
     kbind (kget curthread) (\<lambda>t. kbind (get_thread t) (\<lambda>cur.
     kbind (case t_cwd cur of None \<Rightarrow> kreturn ()
            | Some v \<Rightarrow> kbind (kmodify (\<lambda>s. s\<lparr>vn_refcount := (vn_refcount s)(v := vn_refcount s v - 1)\<rparr>)) (\<lambda>_.
                        set_thread t (t_cwd_update (\<lambda>_. None)))) (\<lambda>_.
     kbind (case t_addrspace cur of None \<Rightarrow> kreturn ()
            | Some as \<Rightarrow> kbind (set_thread t (t_addrspace_update (\<lambda>_. None))) (\<lambda>_.
                         set_this (c_active_as_update (\<lambda>_. None)))) (\<lambda>_.
     kbind splhigh (\<lambda>_. thread_switch env S_ZOMBIE 0)))))"

definition thread_yield :: "(machine \<Rightarrow> machine) list \<Rightarrow> (machine, unit) kernel" where
  "thread_yield env = thread_switch env S_READY 0"

definition schedule :: "(machine, unit) kernel" where
  "schedule = kreturn ()"

subsection \<open>Wait channels\<close>

definition wchan_create :: "nat \<Rightarrow> bool \<Rightarrow> (machine, bool) kernel" where
  "wchan_create wc mem =
     (if \<not> mem then kreturn False else
      kbind (spinlock_init (WchanLock wc)) (\<lambda>_.
      kbind (kmodify (\<lambda>s. s\<lparr>wc_threads := (wc_threads s)(wc := [])\<rparr>)) (\<lambda>_. kreturn True)))"

definition wchan_destroy :: "nat \<Rightarrow> (machine, unit) kernel" where
  "wchan_destroy wc =
     kbind (spinlock_cleanup (WchanLock wc)) (\<lambda>_.
     kbind (kget (\<lambda>s. wc_threads s wc)) (\<lambda>q. kassert (q = [])))"

definition wchan_lock :: "nat \<Rightarrow> (machine, unit) kernel" where
  "wchan_lock wc = spinlock_acquire (WchanLock wc)"

definition wchan_unlock :: "nat \<Rightarrow> (machine, unit) kernel" where
  "wchan_unlock wc = spinlock_release (WchanLock wc)"

definition wchan_wakeone :: "nat \<Rightarrow> (machine, unit) kernel" where
  "wchan_wakeone wc =
     kbind (spinlock_acquire (WchanLock wc)) (\<lambda>_.
     kbind (kget (\<lambda>s. wc_threads s wc)) (\<lambda>q.
     kbind (kmodify (\<lambda>s. s\<lparr>wc_threads := (wc_threads s)(wc := tl q)\<rparr>)) (\<lambda>_.
     kbind (spinlock_release (WchanLock wc)) (\<lambda>_.
     case q of [] \<Rightarrow> kreturn () | target # _ \<Rightarrow> thread_make_runnable target False))))"

fun make_all_runnable :: "tid list \<Rightarrow> (machine, unit) kernel" where
  "make_all_runnable [] = kreturn ()"
| "make_all_runnable (t # ts) = kbind (thread_make_runnable t False) (\<lambda>_. make_all_runnable ts)"

definition wchan_wakeall :: "nat \<Rightarrow> (machine, unit) kernel" where
  "wchan_wakeall wc =
     kbind (spinlock_acquire (WchanLock wc)) (\<lambda>_.
     kbind (kget (\<lambda>s. wc_threads s wc)) (\<lambda>q.
     kbind (kmodify (\<lambda>s. s\<lparr>wc_threads := (wc_threads s)(wc := [])\<rparr>)) (\<lambda>_.
     kbind (spinlock_release (WchanLock wc)) (\<lambda>_. make_all_runnable q))))"

definition wchan_sleep :: "(machine \<Rightarrow> machine) list \<Rightarrow> nat \<Rightarrow> (machine, unit) kernel" where
  "wchan_sleep env wc =
     kbind (kget curthread) (\<lambda>t. kbind (get_thread t) (\<lambda>cur.
     kbind (kassert (\<not> t_in_interrupt cur)) (\<lambda>_. thread_switch env S_SLEEP wc)))"

definition wchan_isempty :: "nat \<Rightarrow> (machine, bool) kernel" where
  "wchan_isempty wc =
     kbind (spinlock_acquire (WchanLock wc)) (\<lambda>_.
     kbind (kget (\<lambda>s. wc_threads s wc = [])) (\<lambda>r.
     kbind (spinlock_release (WchanLock wc)) (\<lambda>_. kreturn r)))"

subsection \<open>Load balancing\<close>

text \<open>The total of the run queue lengths and this CPU's own.\<close>

fun count_threads :: "nat list \<Rightarrow> u32 \<Rightarrow> u32 \<Rightarrow> (machine, u32 \<times> u32) kernel" where
  "count_threads [] my_count total_count = kreturn (my_count, total_count)"
| "count_threads (i # is) my_count total_count =
     kbind (spinlock_acquire (RunqueueLock i)) (\<lambda>_.
     kbind (kget (\<lambda>s. of_nat (length (c_runqueue (cpus s i))) :: u32)) (\<lambda>n.
     kbind (kget curcpu) (\<lambda>me.
     kbind (spinlock_release (RunqueueLock i)) (\<lambda>_.
     count_threads is (if i = me then n else my_count) (total_count + n)))))"

text \<open>The threads to send away, from the tail of the run queue; taking more than there are would
  put a null pointer on the list of victims.\<close>

fun take_victims :: "nat \<Rightarrow> tid list \<Rightarrow> (machine, tid list) kernel" where
  "take_victims 0 victims = kreturn victims"
| "take_victims (Suc n) victims =
     kbind (kget (\<lambda>s. c_runqueue (this_cpu s))) (\<lambda>q.
     if q = [] then kfail UNDEFINED else
     kbind (set_this (c_runqueue_update butlast)) (\<lambda>_. take_victims n (last q # victims)))"

text \<open>One CPU is given victims until it has its share or none are left; \<open>to_send\<close> goes down by one
  in every round. Returns the victims and the number left to send.\<close>

fun give_victims :: "nat \<Rightarrow> u32 \<Rightarrow> tid list \<Rightarrow> nat \<Rightarrow> (machine, tid list \<times> nat) kernel" where
  "give_victims i one_share victims 0 = kreturn (victims, 0)"
| "give_victims i one_share victims (Suc to_send) =
     kbind (kget (\<lambda>s. of_nat (length (c_runqueue (cpus s i))) :: u32)) (\<lambda>n.
     if \<not> n < one_share then kreturn (victims, Suc to_send) else
     kbind (kget curthread) (\<lambda>cur.
     case victims of [] \<Rightarrow> kfail UNDEFINED
     | t # ts \<Rightarrow>
       if t = cur then give_victims i one_share (ts @ [t]) to_send
       else
         kbind (set_thread t (t_cpu_update (\<lambda>_. i))) (\<lambda>_.
         kbind (kmodify (set_cpu i (c_runqueue_update (\<lambda>q. q @ [t])))) (\<lambda>_.
         kbind (kget (\<lambda>s. c_isidle (cpus s i))) (\<lambda>isidle.
         kbind (if isidle then ipi_send i IPI_UNIDLE else kreturn ()) (\<lambda>_.
         give_victims i one_share ts to_send))))))"

fun migrate_to :: "nat list \<Rightarrow> u32 \<Rightarrow> tid list \<Rightarrow> nat \<Rightarrow> (machine, tid list) kernel" where
  "migrate_to [] one_share victims to_send = kreturn victims"
| "migrate_to (i # is) one_share victims to_send =
     (if to_send = 0 then kreturn victims else
      kbind (kget curcpu) (\<lambda>me.
      if i = me then migrate_to is one_share victims to_send else
      kbind (spinlock_acquire (RunqueueLock i)) (\<lambda>_.
      kbind (give_victims i one_share victims to_send) (\<lambda>(victims, to_send).
      kbind (spinlock_release (RunqueueLock i)) (\<lambda>_. migrate_to is one_share victims to_send)))))"

definition thread_consider_migration :: "(machine, unit) kernel" where
  "thread_consider_migration =
     kbind (kget numcpus) (\<lambda>n.
     kbind (count_threads [0..<n] 0 0) (\<lambda>(my_count, total_count).
     let one_share = DIVROUNDUP total_count (of_nat n) in
     if my_count < one_share then kreturn () else
     let to_send = unat (my_count - one_share) in
     kbind (kget curcpu) (\<lambda>me.
     kbind (spinlock_acquire (RunqueueLock me)) (\<lambda>_.
     kbind (take_victims to_send []) (\<lambda>victims.
     kbind (spinlock_release (RunqueueLock me)) (\<lambda>_.
     kbind (migrate_to [0..<n] one_share victims to_send) (\<lambda>left.
     if left = [] then kreturn () else
     kbind (spinlock_acquire (RunqueueLock me)) (\<lambda>_.
     kbind (set_this (c_runqueue_update (\<lambda>q. q @ left))) (\<lambda>_.
     spinlock_release (RunqueueLock me))))))))))"

subsection \<open>The clock\<close>

definition SCHEDULE_HARDCLOCKS :: u8 where "SCHEDULE_HARDCLOCKS = 4"

definition timerclock :: "nat \<Rightarrow> (machine, unit) kernel" where
  "timerclock lbolt = wchan_wakeall lbolt"

definition hardclock :: "(machine \<Rightarrow> machine) list \<Rightarrow> (machine, unit) kernel" where
  "hardclock env =
     kbind (set_this (c_hardclocks_update (\<lambda>n. n + 1))) (\<lambda>_.
     kbind (kget (\<lambda>s. c_hardclocks (this_cpu s))) (\<lambda>n.
     kbind (if n mod SCHEDULE_HARDCLOCKS = 0 then schedule else kreturn ()) (\<lambda>_.
     kbind (if n mod 4 = 0 then
              kbind (set_this (c_hardclocks_update (\<lambda>_. 0))) (\<lambda>_. thread_consider_migration)
            else kreturn ()) (\<lambda>_.
     thread_yield env))))"

fun clocksleep :: "(machine \<Rightarrow> machine) list \<Rightarrow> nat \<Rightarrow> nat \<Rightarrow> (machine, unit) kernel" where
  "clocksleep env lbolt 0 = kreturn ()"
| "clocksleep env lbolt (Suc num_secs) =
     kbind (wchan_sleep env lbolt) (\<lambda>_. clocksleep env lbolt num_secs)"

end
