(* ===== verification/SchedRun.thy ===== *)
theory SchedRun
  imports Sched
begin

text \<open>
  Running the operations of \<open>Sched\<close> step by step. \<open>at_spl c n s\<close> is \<open>s\<close> with the current thread at
  level \<open>c\<close> with \<open>n\<close> raises, \<open>locked l s\<close> is \<open>s\<close> with spinlock \<open>l\<close> held by this CPU; the lemmas give
  the exact state after spl changes, spinlocks, interprocessor interrupts, making a thread
  runnable, reaping zombies and resuming a thread.
\<close>

subsection \<open>Locks and levels\<close>

definition lock_free :: spinlock where "lock_free = \<lparr>splk_lock = 0, splk_holder = None\<rparr>"
definition lock_held :: "nat \<Rightarrow> spinlock" where "lock_held i = \<lparr>splk_lock = 1, splk_holder = Some i\<rparr>"

lemma lock_simps [simp]:
  "splk_lock lock_free = 0" "splk_holder lock_free = None"
  "splk_lock (lock_held i) = 1" "splk_holder (lock_held i) = Some i"
  by (simp_all add: lock_free_def lock_held_def)

lemma spl_fields_commute:
  "th\<lparr>t_iplhigh_count := n, t_curspl := c\<rparr> = th\<lparr>t_curspl := c, t_iplhigh_count := n\<rparr>"
  by simp

definition at_spl :: "int \<Rightarrow> int \<Rightarrow> machine \<Rightarrow> machine" where
  "at_spl c n s = s\<lparr>
     cpus := (cpus s)(curcpu s := (this_cpu s)\<lparr>c_irq := (n = 0)\<rparr>),
     threads := (threads s)(curthread s :=
       map_option (\<lambda>th. th\<lparr>t_curspl := c, t_iplhigh_count := n\<rparr>) (threads s (curthread s)))\<rparr>"

definition locked :: "lockref \<Rightarrow> machine \<Rightarrow> machine" where
  "locked l s = s\<lparr>spinlocks := (spinlocks s)(l := lock_held (curcpu s))\<rparr>"

definition unlocked :: "lockref \<Rightarrow> machine \<Rightarrow> machine" where
  "unlocked l s = s\<lparr>spinlocks := (spinlocks s)(l := lock_free)\<rparr>"

definition on_cpu :: "machine \<Rightarrow> bool" where
  "on_cpu s \<longleftrightarrow> threads s (curthread s) \<noteq> None"

lemma kbind_get_thread: "threads s t = Some th \<Longrightarrow> kbind (get_thread t) f s = f th s"
  by (simp add: kbind_def get_thread_def kmonad_defs)

lemma get_thread_Some: "threads s t = Some th \<Longrightarrow> get_thread t s = (Inr th, s)"
  by (simp add: get_thread_def kmonad_defs)

lemma at_spl_sel [simp]:
  "numcpus (at_spl c n s) = numcpus s" "curcpu (at_spl c n s) = curcpu s"
  "wc_threads (at_spl c n s) = wc_threads s" "spinlocks (at_spl c n s) = spinlocks s"
  "vn_refcount (at_spl c n s) = vn_refcount s"
  "c_curthread (cpus (at_spl c n s) i) = c_curthread (cpus s i)"
  "c_runqueue (cpus (at_spl c n s) i) = c_runqueue (cpus s i)"
  "c_zombies (cpus (at_spl c n s) i) = c_zombies (cpus s i)"
  "c_isidle (cpus (at_spl c n s) i) = c_isidle (cpus s i)"
  "c_hardclocks (cpus (at_spl c n s) i) = c_hardclocks (cpus s i)"
  "c_irq (cpus (at_spl c n s) (curcpu s)) \<longleftrightarrow> n = 0"
  "t \<noteq> curthread s \<Longrightarrow> threads (at_spl c n s) t = threads s t"
  "threads s (curthread s) = Some th \<Longrightarrow>
     threads (at_spl c n s) (curthread s) = Some (th\<lparr>t_curspl := c, t_iplhigh_count := n\<rparr>)"
  "on_cpu (at_spl c n s) \<longleftrightarrow> on_cpu s"
  by (simp_all add: at_spl_def on_cpu_def)

lemma at_spl_twice [simp]: "at_spl c n (at_spl c' n' s) = at_spl c n s"
  by (cases "threads s (curthread s)") (simp_all add: at_spl_def)

lemma locked_sel [simp]:
  "numcpus (locked l s) = numcpus s" "curcpu (locked l s) = curcpu s" "cpus (locked l s) = cpus s"
  "wc_threads (locked l s) = wc_threads s" "threads (locked l s) = threads s"
  "vn_refcount (locked l s) = vn_refcount s"
  "spinlocks (locked l s) = (spinlocks s)(l := lock_held (curcpu s))" "on_cpu (locked l s) \<longleftrightarrow> on_cpu s"
  by (simp_all add: locked_def on_cpu_def)

lemma unlocked_sel [simp]:
  "numcpus (unlocked l s) = numcpus s" "curcpu (unlocked l s) = curcpu s" "cpus (unlocked l s) = cpus s"
  "wc_threads (unlocked l s) = wc_threads s" "threads (unlocked l s) = threads s"
  "vn_refcount (unlocked l s) = vn_refcount s"
  "spinlocks (unlocked l s) = (spinlocks s)(l := lock_free)" "on_cpu (unlocked l s) \<longleftrightarrow> on_cpu s"
  by (simp_all add: unlocked_def on_cpu_def)

lemma unlocked_locked [simp]: "spinlocks s l = lock_free \<Longrightarrow> unlocked l (locked l s) = s"
  by (simp add: unlocked_def locked_def fun_upd_idem)

lemma splraise_at:
  assumes "on_cpu s" and "0 \<le> n"
  shows "splraise IPL_NONE IPL_HIGH (at_spl c n s) = (Inr (), at_spl c (n + 1) s)"
proof -
  obtain th where th: "threads s (curthread s) = Some th" using assms(1) by (auto simp: on_cpu_def)
  show ?thesis
    using assms(2)
    by (cases "n = 0") (simp_all add: splraise_def krun kbind_assoc kbind_get_thread th set_this_def
        set_thread_def set_cpu_def at_spl_def o_def)
qed

lemma spllower_at:
  assumes "on_cpu s" and "1 \<le> n"
  shows "spllower IPL_HIGH IPL_NONE (at_spl c n s) = (Inr (), at_spl c (n - 1) s)"
proof -
  obtain th where th: "threads s (curthread s) = Some th" using assms(1) by (auto simp: on_cpu_def)
  show ?thesis
    using assms(2)
    by (cases "n = 1") (simp_all add: spllower_def krun kbind_assoc kbind_get_thread th set_this_def
        set_thread_def set_cpu_def at_spl_def o_def)
qed

lemma splhigh_at:
  assumes "on_cpu s" and "0 \<le> n"
  shows "splhigh (at_spl 0 n s) = (Inr 0, at_spl 1 (n + 1) s)"
    and "splhigh (at_spl 1 n s) = (Inr 1, at_spl 1 n s)"
proof -
  obtain th where th: "threads s (curthread s) = Some th" using assms(1) by (auto simp: on_cpu_def)
  have r: "splraise 0 1 (at_spl 0 n s) = (Inr (), at_spl 0 (n + 1) s)"
    using splraise_at [OF assms] by (simp add: IPL_NONE_def IPL_HIGH_def)
  show "splhigh (at_spl 0 n s) = (Inr 0, at_spl 1 (n + 1) s)"
    by (simp add: splhigh_def splx_def IPL_HIGH_def krun kbind_get_thread th kbind_def [of "splraise 0 1"] r)
      (simp add: kmonad_defs set_thread_def at_spl_def th spl_fields_commute)
  show "splhigh (at_spl 1 n s) = (Inr 1, at_spl 1 n s)"
    by (simp add: splhigh_def splx_def IPL_HIGH_def krun kbind_get_thread th)
qed

lemma splx_at:
  assumes "on_cpu s"
  shows "1 \<le> n \<Longrightarrow> splx 0 (at_spl 1 n s) = (Inr 1, at_spl 0 (n - 1) s)"
    and "splx 1 (at_spl 1 n s) = (Inr 1, at_spl 1 n s)"
    and "splx 0 (at_spl 0 n s) = (Inr 0, at_spl 0 n s)"
proof -
  obtain th where th: "threads s (curthread s) = Some th" using assms(1) by (auto simp: on_cpu_def)
  show "splx 1 (at_spl 1 n s) = (Inr 1, at_spl 1 n s)" "splx 0 (at_spl 0 n s) = (Inr 0, at_spl 0 n s)"
    by (simp_all add: splx_def krun kbind_get_thread th)
  show "splx 0 (at_spl 1 n s) = (Inr 1, at_spl 0 (n - 1) s)" if "1 \<le> n"
  proof -
    have set: "set_thread (curthread s) (t_curspl_update (\<lambda>_. 0)) (at_spl 1 n s) = (Inr (), at_spl 0 n s)"
      by (simp add: krun set_thread_def at_spl_def th spl_fields_commute)
    have low: "spllower 1 0 (at_spl 0 n s) = (Inr (), at_spl 0 (n - 1) s)"
      using spllower_at [OF assms that] by (simp add: IPL_NONE_def IPL_HIGH_def)
    show ?thesis
      by (simp add: splx_def krun kbind_get_thread th)
        (simp add: kmonad_defs set low)
  qed
qed

lemma acquire_at:
  assumes "on_cpu s" and "0 \<le> n" and "spinlocks s l = lock_free"
  shows "spinlock_acquire l (at_spl c n s) = (Inr (), at_spl c (n + 1) (locked l s))"
  using assms by (simp add: spinlock_acquire_def kbind_def splraise_at kget_def set_lock_def kmodify_def)
    (simp add: at_spl_def locked_def lock_held_def)

lemma release_at:
  assumes "on_cpu s" and "1 \<le> n" and "spinlocks s l = lock_held (curcpu s)"
  shows "spinlock_release l (at_spl c n s) = (Inr (), at_spl c (n - 1) (unlocked l s))"
proof -
  have set: "set_lock l \<lparr>splk_lock = 0, splk_holder = None\<rparr> (at_spl c n s) = (Inr (), at_spl c n (unlocked l s))"
    by (simp add: set_lock_def krun at_spl_def unlocked_def lock_free_def)
  show ?thesis
    using assms by (simp add: spinlock_release_def kbind_def kget_def kassert_def set spllower_at)
qed


subsection \<open>Making a thread runnable\<close>

definition enqueued :: "tid \<Rightarrow> machine \<Rightarrow> machine" where
  "enqueued t s = (case threads s t of None \<Rightarrow> s
     | Some th \<Rightarrow> set_cpu (t_cpu th) (\<lambda>c. c\<lparr>c_runqueue := c_runqueue c @ [t],
         c_ipi_pending := if c_isidle c then c_ipi_pending c OR 2 ^ IPI_UNIDLE else c_ipi_pending c\<rparr>) s)"

lemma set_cpu_sel [simp]:
  "numcpus (set_cpu i f s) = numcpus s" "curcpu (set_cpu i f s) = curcpu s"
  "wc_threads (set_cpu i f s) = wc_threads s" "threads (set_cpu i f s) = threads s"
  "vn_refcount (set_cpu i f s) = vn_refcount s" "spinlocks (set_cpu i f s) = spinlocks s"
  "cpus (set_cpu i f s) = (cpus s)(i := f (cpus s i))"
  by (simp_all add: set_cpu_def)

lemma enqueued_sel [simp]:
  "numcpus (enqueued t s) = numcpus s" "curcpu (enqueued t s) = curcpu s"
  "wc_threads (enqueued t s) = wc_threads s" "threads (enqueued t s) = threads s"
  "vn_refcount (enqueued t s) = vn_refcount s" "spinlocks (enqueued t s) = spinlocks s"
  "c_curthread (cpus (enqueued t s) i) = c_curthread (cpus s i)"
  "c_zombies (cpus (enqueued t s) i) = c_zombies (cpus s i)"
  "c_isidle (cpus (enqueued t s) i) = c_isidle (cpus s i)"
  "c_irq (cpus (enqueued t s) i) = c_irq (cpus s i)"
  "on_cpu (enqueued t s) \<longleftrightarrow> on_cpu s"
  by (auto simp: enqueued_def on_cpu_def split: option.splits)

text \<open>Changing the lists of a CPU does not depend on the interrupt level.\<close>

definition spl_blind :: "(cpu \<Rightarrow> cpu) \<Rightarrow> bool" where
  "spl_blind f \<longleftrightarrow> (\<forall>c b. f (c_irq_update (\<lambda>_. b) c) = c_irq_update (\<lambda>_. b) (f c) \<and>
     c_curthread (f c) = c_curthread c)"

lemma set_cpu_at_spl:
  assumes "spl_blind f"
  shows "set_cpu i f (at_spl c n s) = at_spl c n (set_cpu i f s)"
  using assms by (auto simp: set_cpu_def at_spl_def spl_blind_def fun_eq_iff)

lemma set_cpu_locked: "set_cpu i f (locked l s) = locked l (set_cpu i f s)"
  by (simp add: set_cpu_def locked_def)

lemma ipi_send_at:
  assumes "on_cpu s" and "0 \<le> n" and "spinlocks s (IpiLock target) = lock_free" and "code < 32"
  shows "ipi_send target code (at_spl c n s) =
    (Inr (), at_spl c n (set_cpu target (c_ipi_pending_update (\<lambda>p. p OR 2 ^ code)) s))"
proof -
  have b: "spl_blind (c_ipi_pending_update (\<lambda>p. p OR 2 ^ code))" by (simp add: spl_blind_def)
  have oc: "on_cpu (set_cpu target (c_ipi_pending_update (\<lambda>p. p OR 2 ^ code)) s)"
    using assms(1) by (auto simp: on_cpu_def)
  have "spinlock_release (IpiLock target) (at_spl c (n + 1) (locked (IpiLock target)
      (set_cpu target (c_ipi_pending_update (\<lambda>p. p OR 2 ^ code)) s))) =
    (Inr (), at_spl c n (set_cpu target (c_ipi_pending_update (\<lambda>p. p OR 2 ^ code)) s))"
    using release_at [of "locked (IpiLock target) (set_cpu target (c_ipi_pending_update (\<lambda>p. p OR 2 ^ code)) s)"
        "n + 1" "IpiLock target" c] oc assms(2,3) by simp
  then show ?thesis
    using assms acquire_at [OF assms(1-3)]
    by (simp add: ipi_send_def krun kbind_def [of "spinlock_acquire (IpiLock target)"] set_cpu_at_spl [OF b] set_cpu_locked)
qed

lemma make_runnable_at:
  assumes oc: "on_cpu s" and n: "0 \<le> n" and t: "threads s t = Some th"
    and f: "spinlocks s (RunqueueLock (t_cpu th)) = lock_free" "spinlocks s (IpiLock (t_cpu th)) = lock_free"
  shows "thread_make_runnable t False (at_spl c n s) = (Inr (), at_spl c n (enqueued t s))"
proof -
  let ?rq = "RunqueueLock (t_cpu th)"
  obtain th' where t': "threads (at_spl c n s) t = Some th'" and cpu: "t_cpu th' = t_cpu th"
    using t by (cases "t = curthread s") auto
  define s1 where "s1 = set_cpu (t_cpu th) (c_runqueue_update (\<lambda>q. q @ [t])) s"
  have b: "spl_blind (c_runqueue_update (\<lambda>q. q @ [t]))" by (simp add: spl_blind_def)
  have oc1: "on_cpu s1" using oc by (auto simp: s1_def on_cpu_def)
  define s2 where "s2 = (if c_isidle (cpus s (t_cpu th)) then set_cpu (t_cpu th) (c_ipi_pending_update (\<lambda>p. p OR 2 ^ IPI_UNIDLE)) s1 else s1)"
  have oc2: "on_cpu s2" using oc1 by (auto simp: s2_def on_cpu_def)
  have ipi: "ipi_send (t_cpu th) IPI_UNIDLE (at_spl c (n + 1) (locked ?rq s1)) =
      (Inr (), at_spl c (n + 1) (locked ?rq (set_cpu (t_cpu th) (c_ipi_pending_update (\<lambda>p. p OR 2 ^ IPI_UNIDLE)) s1)))"
    using ipi_send_at [of "locked ?rq s1" "n + 1" "t_cpu th" IPI_UNIDLE c] oc1 n f
    by (simp add: s1_def IPI_UNIDLE_def set_cpu_locked)
  have step: "(if c_isidle (cpus s (t_cpu th)) then ipi_send (t_cpu th') IPI_UNIDLE else kreturn ())
      (at_spl c (n + 1) (locked ?rq s1)) = (Inr (), at_spl c (n + 1) (locked ?rq s2))"
    using ipi by (simp add: s2_def kreturn_def cpu)
  have acq: "spinlock_acquire ?rq (at_spl c n s) = (Inr (), at_spl c (n + 1) (locked ?rq s))"
    by (rule acquire_at [OF oc n f(1)])
  have rel: "spinlock_release ?rq (at_spl c (n + 1) (locked ?rq s2)) = (Inr (), at_spl c n s2)"
    using release_at [of "locked ?rq s2" "n + 1" ?rq c] oc2 n f by (simp add: s2_def s1_def)
  have e: "enqueued t s = s2"
    by (cases "cpus s (t_cpu th)") (simp add: enqueued_def t s2_def s1_def set_cpu_def)
  show ?thesis
    unfolding e
    by (simp add: thread_make_runnable_def Let_def kbind_get_thread t' cpu kbind_def [of "spinlock_acquire ?rq"] acq krun
        set_cpu_at_spl [OF b] set_cpu_locked kbind_def [of "if _ then _ else _"] s1_def [symmetric] step rel
        split del: if_split)
qed


subsection \<open>Reaping the dead\<close>

definition reapable :: "machine \<Rightarrow> bool" where
  "reapable s \<longleftrightarrow> distinct (c_zombies (this_cpu s)) \<and> curthread s \<notin> set (c_zombies (this_cpu s)) \<and>
     (\<forall>z \<in> set (c_zombies (this_cpu s)). \<exists>th. threads s z = Some th \<and> t_state th = S_ZOMBIE \<and>
        t_cwd th = None \<and> t_addrspace th = None)"

definition reaped :: "machine \<Rightarrow> machine" where
  "reaped s = (set_cpu (curcpu s) (c_zombies_update (\<lambda>_. [])) s)\<lparr>
     threads := \<lambda>t. if t \<in> set (c_zombies (this_cpu s)) then None else threads s t\<rparr>"

definition drop_zombie :: "tid \<Rightarrow> tid list \<Rightarrow> machine \<Rightarrow> machine" where
  "drop_zombie z zs s = (set_cpu (curcpu s) (c_zombies_update (\<lambda>_. zs)) s)\<lparr>threads := (threads s)(z := None)\<rparr>"

lemma exorcise_step:
  assumes "z \<noteq> curthread s" and "threads s z = Some th" and "t_state th = S_ZOMBIE"
    and "t_cwd th = None" and "t_addrspace th = None"
  shows "exorcise_list (z # zs) s = exorcise_list zs (drop_zombie z zs s)"
  using assms
  by (simp add: set_this_def krun get_thread_def kbind_assoc thread_destroy_def kbind_get_thread drop_zombie_def
      kbind_def [of "kmodify _"] kbind_def [of "kassert _"] kmodify_def kassert_def kreturn_bind)

lemma exorcise_list_run:
  assumes "c_zombies (this_cpu s) = zs" and "reapable s"
  shows "exorcise_list zs s = (Inr (), reaped s)"
  using assms
proof (induction zs arbitrary: s)
  case Nil
  then have "(cpus s)(curcpu s := (this_cpu s)\<lparr>c_zombies := []\<rparr>) = cpus s"
    by (intro ext) (cases "this_cpu s", simp)
  then show ?case using Nil by (simp add: reaped_def kreturn_def set_cpu_def)
next
  case (Cons z zs)
  obtain th where th: "threads s z = Some th" "t_state th = S_ZOMBIE" "t_cwd th = None" "t_addrspace th = None"
    and z: "z \<noteq> curthread s" "z \<notin> set zs"
    using Cons.prems by (auto simp: reapable_def)
  have r: "reapable (drop_zombie z zs s)"
    using Cons.prems by (auto simp: reapable_def drop_zombie_def)
  have e: "reaped (drop_zombie z zs s) = reaped s"
    using Cons.prems(1) by (auto simp: reaped_def drop_zombie_def set_cpu_def fun_eq_iff)
  have "exorcise_list (z # zs) s = exorcise_list zs (drop_zombie z zs s)"
    by (rule exorcise_step [OF z(1) th])
  also have "\<dots> = (Inr (), reaped (drop_zombie z zs s))"
    by (rule Cons.IH [OF _ r]) (simp add: drop_zombie_def)
  finally show ?case by (simp add: e)
qed

lemma exorcise_run: "reapable s \<Longrightarrow> exorcise s = (Inr (), reaped s)"
  by (simp add: exorcise_def krun exorcise_list_run)


subsection \<open>Resuming a thread\<close>

definition running :: "tid \<Rightarrow> machine \<Rightarrow> machine" where
  "running t s = s\<lparr>threads := (threads s)(t :=
     map_option (\<lambda>th. th\<lparr>t_wchan_name := None, t_state := S_RUN\<rparr>) (threads s t))\<rparr>"

definition activated :: "machine \<Rightarrow> machine" where
  "activated s = (case Option.bind (threads s (curthread s)) t_addrspace of None \<Rightarrow> s
     | Some as \<Rightarrow> set_cpu (curcpu s) (c_active_as_update (\<lambda>_. Some as)) s)"

definition resumed :: "machine \<Rightarrow> machine" where
  "resumed s = reaped (activated (running (curthread s) s))"

fun resume_level :: "resume \<Rightarrow> int" where
  "resume_level (InSwitch spl) = spl"
| "resume_level Startup = 0"

lemma running_sel [simp]:
  "numcpus (running t s) = numcpus s" "curcpu (running t s) = curcpu s" "cpus (running t s) = cpus s"
  "wc_threads (running t s) = wc_threads s" "vn_refcount (running t s) = vn_refcount s"
  "spinlocks (running t s) = spinlocks s" "on_cpu (running t s) \<longleftrightarrow> on_cpu s"
  by (auto simp: running_def on_cpu_def)

lemma activated_sel [simp]:
  "numcpus (activated s) = numcpus s" "curcpu (activated s) = curcpu s" "threads (activated s) = threads s"
  "wc_threads (activated s) = wc_threads s" "vn_refcount (activated s) = vn_refcount s"
  "spinlocks (activated s) = spinlocks s" "on_cpu (activated s) \<longleftrightarrow> on_cpu s"
  "c_curthread (cpus (activated s) i) = c_curthread (cpus s i)"
  "c_runqueue (cpus (activated s) i) = c_runqueue (cpus s i)"
  "c_zombies (cpus (activated s) i) = c_zombies (cpus s i)"
  "c_isidle (cpus (activated s) i) = c_isidle (cpus s i)"
  by (auto simp: activated_def on_cpu_def split: option.splits)

lemma reaped_sel [simp]:
  "numcpus (reaped s) = numcpus s" "curcpu (reaped s) = curcpu s"
  "wc_threads (reaped s) = wc_threads s" "vn_refcount (reaped s) = vn_refcount s"
  "spinlocks (reaped s) = spinlocks s"
  "c_curthread (cpus (reaped s) i) = c_curthread (cpus s i)"
  "c_runqueue (cpus (reaped s) i) = c_runqueue (cpus s i)"
  "c_zombies (cpus (reaped s) i) = (if i = curcpu s then [] else c_zombies (cpus s i))"
  "c_isidle (cpus (reaped s) i) = c_isidle (cpus s i)"
  by (auto simp: reaped_def set_cpu_def)

lemma reaped_at_spl:
  "curthread s \<notin> set (c_zombies (this_cpu s)) \<Longrightarrow> reaped (at_spl c n s) = at_spl c n (reaped s)"
  by (auto simp: reaped_def at_spl_def set_cpu_def fun_eq_iff)

lemma running_at_spl: "running (curthread s) (at_spl c n s) = at_spl c n (running (curthread s) s)"
  by (intro machine.equality ext) (auto simp: running_def at_spl_def map_option_case split: option.splits)

lemma activated_at_spl: "activated (at_spl c n s) = at_spl c n (activated s)"
  by (intro machine.equality ext)
    (auto simp: activated_def at_spl_def set_cpu_def map_option_case split: option.splits)

lemma running_unlocked: "running t (unlocked l s) = unlocked l (running t s)"
  by (simp add: running_def unlocked_def)

lemma reapable_running:
  "curthread s \<notin> set (c_zombies (this_cpu s)) \<Longrightarrow> reapable (running (curthread s) s) \<longleftrightarrow> reapable s"
  by (auto simp: reapable_def running_def)

lemma activate_run:
  assumes "on_cpu s"
  shows "activate_address_space s = (Inr (), activated s)"
  using assms by (auto simp: activate_address_space_def krun kbind_get_thread on_cpu_def activated_def
      set_this_def split: option.splits)

lemma thread_resume_at:
  assumes th: "threads s (curthread s) = Some th"
    and lock: "spinlocks s (RunqueueLock (curcpu s)) = lock_held (curcpu s)"
    and level: "resume_level (t_context th) = 0 \<or> resume_level (t_context th) = 1"
    and dead: "reapable s"
  shows "thread_resume (at_spl 1 2 s) =
    (Inr (), at_spl (resume_level (t_context th)) (resume_level (t_context th))
       (resumed (unlocked (RunqueueLock (curcpu s)) s)))"
proof -
  let ?rq = "RunqueueLock (curcpu s)"
  let ?u = "unlocked ?rq s"
  let ?r = "running (curthread s) ?u"
  have oc: "on_cpu s" by (simp add: on_cpu_def th)
  have z: "curthread s \<notin> set (c_zombies (this_cpu s))" using dead by (simp add: reapable_def)
  have run: "set_thread (curthread s) (\<lambda>t. t\<lparr>t_wchan_name := None, t_state := S_RUN\<rparr>) (at_spl 1 2 s) =
      (Inr (), at_spl 1 2 (running (curthread s) s))"
    using running_at_spl [of s 1 2] by (simp add: set_thread_def krun) (simp add: running_def)
  have rel: "spinlock_release ?rq (at_spl 1 2 (running (curthread s) s)) = (Inr (), at_spl 1 1 ?r)"
    using release_at [of "running (curthread s) s" 2 ?rq 1] oc lock
    by (simp add: running_unlocked)
  have act: "activate_address_space (at_spl 1 1 ?r) = (Inr (), at_spl 1 1 (activated ?r))"
    using activate_run [of "at_spl 1 1 ?r"] oc by (simp add: activated_at_spl)
  have da: "reapable ?u" using dead by (simp add: reapable_def)
  have "reapable ?r" using reapable_running [of ?u] z da by simp
  then have "reapable (at_spl 1 1 (activated ?r))"
    using z by (auto simp: reapable_def at_spl_def)
  then have ex: "exorcise (at_spl 1 1 (activated ?r)) = (Inr (), at_spl 1 1 (resumed ?u))"
    using z by (simp add: exorcise_run reaped_at_spl resumed_def)
  have oc': "on_cpu (resumed ?u)"
    using z th by (auto simp: on_cpu_def resumed_def reaped_def running_def)
  have "thread_resume (at_spl 1 2 s) = (case t_context th of
       InSwitch spl \<Rightarrow> kbind (splx spl) (\<lambda>_. kreturn ())
     | Startup \<Rightarrow> kbind spl0 (\<lambda>_. kreturn ())) (at_spl 1 1 (resumed ?u))"
    by (simp add: thread_resume_def krun kbind_get_thread th kbind_def [of "set_thread _ _"]
        kbind_def [of "spinlock_release _"] kbind_def [of activate_address_space]
        kbind_def [of exorcise] run rel act ex)
  also have "\<dots> = (Inr (), at_spl (resume_level (t_context th)) (resume_level (t_context th)) (resumed ?u))"
    using level splx_at [OF oc', of 1]
    by (cases "t_context th") (auto simp: kbind_def spl0_def IPL_NONE_def kreturn_def)
  finally show ?thesis .
qed

end
