(* ===== verification/SchedSwitch.thy ===== *)
theory SchedSwitch
  imports SchedRun
begin

text \<open>
  The exact effect of \<open>thread_switch\<close>: \<open>placed\<close> puts the current thread where its new state says,
  \<open>frozen\<close> saves its context, \<open>handed\<close> gives the CPU to the head of the run queue, \<open>resumed\<close> is that
  thread's return from its own switch.
\<close>

text \<open>Where the thread that gives up the CPU goes.\<close>

fun placed :: "threadstate \<Rightarrow> nat \<Rightarrow> machine \<Rightarrow> machine" where
  "placed S_READY wc s = enqueued (curthread s) s"
| "placed S_SLEEP wc s = s\<lparr>
     threads := (threads s)(curthread s := map_option (t_wchan_name_update (\<lambda>_. Some wc)) (threads s (curthread s))),
     wc_threads := (wc_threads s)(wc := wc_threads s wc @ [curthread s])\<rparr>"
| "placed S_ZOMBIE wc s = (set_cpu (curcpu s) (\<lambda>c. c\<lparr>c_zombies := c_zombies c @ [curthread s]\<rparr>) s)\<lparr>
     threads := (threads s)(curthread s := map_option (t_wchan_name_update (\<lambda>_. None)) (threads s (curthread s)))\<rparr>"
| "placed S_RUN wc s = s"

definition frozen :: "threadstate \<Rightarrow> int \<Rightarrow> machine \<Rightarrow> machine" where
  "frozen ns spl s = s\<lparr>threads := (threads s)(curthread s := map_option
     (\<lambda>th. th\<lparr>t_state := ns, t_context := InSwitch spl, t_curspl := 1, t_iplhigh_count := 2\<rparr>)
     (threads s (curthread s)))\<rparr>"

definition handed :: "machine \<Rightarrow> machine" where
  "handed s = set_cpu (curcpu s) (\<lambda>c. c\<lparr>c_curthread := hd (c_runqueue c), c_runqueue := tl (c_runqueue c)\<rparr>) s"

text \<open>The lock of the wait channel is held exactly when going to sleep.\<close>

definition departing :: "threadstate \<Rightarrow> nat \<Rightarrow> int \<Rightarrow> machine \<Rightarrow> machine" where
  "departing ns wc spl s =
     (if ns = S_SLEEP then at_spl spl (spl + 1) (locked (WchanLock wc) s) else at_spl spl spl s)"

definition switched :: "threadstate \<Rightarrow> nat \<Rightarrow> int \<Rightarrow> machine \<Rightarrow> machine" where
  "switched ns wc spl s = resumed (handed (frozen ns spl (placed ns wc s)))"

lemma placed_sel [simp]:
  "numcpus (placed ns wc s) = numcpus s" "curcpu (placed ns wc s) = curcpu s"
  "vn_refcount (placed ns wc s) = vn_refcount s" "spinlocks (placed ns wc s) = spinlocks s"
  "c_curthread (cpus (placed ns wc s) i) = c_curthread (cpus s i)"
  "c_isidle (cpus (placed ns wc s) i) = c_isidle (cpus s i)"
  "c_irq (cpus (placed ns wc s) i) = c_irq (cpus s i)"
  "on_cpu (placed ns wc s) \<longleftrightarrow> on_cpu s"
  "t \<noteq> curthread s \<Longrightarrow> threads (placed ns wc s) t = threads s t"
  by (cases ns; auto simp: on_cpu_def)+

lemma enqueued_runqueue: "threads s t = Some th \<Longrightarrow>
    c_runqueue (cpus (enqueued t s) i) = c_runqueue (cpus s i) @ (if i = t_cpu th then [t] else [])"
  by (simp add: enqueued_def)

lemma placed_runqueue:
  assumes "on_cpu s" and "\<forall>th. threads s (curthread s) = Some th \<longrightarrow> t_cpu th = curcpu s"
  shows "c_runqueue (cpus (placed ns wc s) i) =
    c_runqueue (cpus s i) @ (if i = curcpu s \<and> ns = S_READY then [curthread s] else [])"
  using assms by (cases ns) (auto simp: on_cpu_def enqueued_runqueue)

text \<open>The placing step of \<open>thread_switch\<close>.\<close>

definition place :: "threadstate \<Rightarrow> nat \<Rightarrow> tid \<Rightarrow> (machine, unit) kernel" where
  "place newstate wc cur = (case newstate of
              S_RUN \<Rightarrow> kfail PANIC
            | S_READY \<Rightarrow> thread_make_runnable cur True
            | S_SLEEP \<Rightarrow>
              kbind (set_thread cur (t_wchan_name_update (\<lambda>_. Some wc))) (\<lambda>_.
              kbind (kmodify (\<lambda>s. s\<lparr>wc_threads := (wc_threads s)(wc := wc_threads s wc @ [cur])\<rparr>)) (\<lambda>_.
              spinlock_release (WchanLock wc)))
            | S_ZOMBIE \<Rightarrow>
              kbind (set_thread cur (t_wchan_name_update (\<lambda>_. None))) (\<lambda>_.
              set_this (c_zombies_update (\<lambda>z. z @ [cur]))))"

lemma place_ready:
  assumes oc: "on_cpu s" and cpu: "\<forall>th. threads s (curthread s) = Some th \<longrightarrow> t_cpu th = curcpu s"
    and idle: "\<not> c_isidle (this_cpu s)"
  shows "place S_READY wc (curthread s) (at_spl 1 2 (locked (RunqueueLock (curcpu s)) s)) =
    (Inr (), at_spl 1 2 (locked (RunqueueLock (curcpu s)) (placed S_READY wc s)))"
proof -
  let ?rq = "RunqueueLock (curcpu s)"
  obtain th where th: "threads s (curthread s) = Some th" and c: "t_cpu th = curcpu s"
    using oc cpu by (auto simp: on_cpu_def)
  have b: "spl_blind (c_runqueue_update (\<lambda>q. q @ [curthread s]))" by (simp add: spl_blind_def)
  have e: "enqueued (curthread s) s = set_cpu (curcpu s) (c_runqueue_update (\<lambda>q. q @ [curthread s])) s"
    using idle by (intro machine.equality ext cpu.equality) (auto simp: enqueued_def th c set_cpu_def)
  have t: "threads (at_spl 1 2 (locked ?rq s)) (curthread s) = Some (th\<lparr>t_curspl := 1, t_iplhigh_count := 2\<rparr>)"
    by (simp add: at_spl_def th)
  show ?thesis
    by (simp add: place_def thread_make_runnable_def Let_def kbind_get_thread t c spinlock_do_i_hold_def
        krun kbind_assoc idle e set_cpu_at_spl [OF b] set_cpu_locked)
qed

lemma place_sleep:
  assumes oc: "on_cpu s" and f: "spinlocks s (WchanLock wc) = lock_free"
  shows "place S_SLEEP wc (curthread s) (at_spl 1 3 (locked (RunqueueLock (curcpu s)) (locked (WchanLock wc) s))) =
    (Inr (), at_spl 1 2 (locked (RunqueueLock (curcpu s)) (placed S_SLEEP wc s)))"
proof -
  let ?rq = "RunqueueLock (curcpu s)"
  let ?p = "locked ?rq (locked (WchanLock wc) (placed S_SLEEP wc s))"
  have "place S_SLEEP wc (curthread s) (at_spl 1 3 (locked ?rq (locked (WchanLock wc) s))) =
      spinlock_release (WchanLock wc) (at_spl 1 3 ?p)"
    by (simp add: place_def krun set_thread_def, rule arg_cong [of _ _ "spinlock_release (WchanLock wc)"],
        intro machine.equality ext) (auto simp: at_spl_def locked_def map_option_case split: option.splits)
  also have "\<dots> = (Inr (), at_spl 1 2 (unlocked (WchanLock wc) ?p))"
    using release_at [of ?p 3 "WchanLock wc" 1] oc by (auto simp: on_cpu_def)
  also have "unlocked (WchanLock wc) ?p = locked ?rq (placed S_SLEEP wc s)"
    using f by (simp add: unlocked_def locked_def fun_upd_twist fun_upd_idem)
  finally show ?thesis .
qed

lemma place_zombie:
  "place S_ZOMBIE wc (curthread s) (at_spl 1 2 (locked (RunqueueLock (curcpu s)) s)) =
    (Inr (), at_spl 1 2 (locked (RunqueueLock (curcpu s)) (placed S_ZOMBIE wc s)))"
  by (simp add: place_def krun set_thread_def set_this_def, intro machine.equality ext)
    (auto simp: at_spl_def locked_def set_cpu_def map_option_case split: option.splits)


text \<open>From the placing step on.\<close>

definition dispatch :: "(machine \<Rightarrow> machine) list \<Rightarrow> threadstate \<Rightarrow> tid \<Rightarrow> int \<Rightarrow> (machine, unit) kernel" where
  "dispatch env newstate cur spl =
     kbind (set_thread cur (t_state_update (\<lambda>_. newstate))) (\<lambda>_.
     kbind (set_this (c_isidle_update (\<lambda>_. True))) (\<lambda>_.
     kbind (idle_loop env) (\<lambda>next.
     kbind (set_this (c_isidle_update (\<lambda>_. False))) (\<lambda>_.
     kbind (set_this (c_curthread_update (\<lambda>_. next))) (\<lambda>_.
     kbind (set_thread cur (t_context_update (\<lambda>_. InSwitch spl))) (\<lambda>_.
     thread_resume))))))"

lemma thread_switch_split: "thread_switch env newstate wc =
     kbind splhigh (\<lambda>spl.
     kbind (kget curcpu) (\<lambda>me. kbind (kget curthread) (\<lambda>cur.
     kbind (kget (\<lambda>s. c_isidle (this_cpu s))) (\<lambda>isidle.
     if isidle then kbind (splx spl) (\<lambda>_. kreturn ()) else
     kbind (spinlock_acquire (RunqueueLock me)) (\<lambda>_.
     kbind (kget (\<lambda>s. c_runqueue (this_cpu s))) (\<lambda>q.
     if newstate = S_READY \<and> q = [] then
       kbind (spinlock_release (RunqueueLock me)) (\<lambda>_. kbind (splx spl) (\<lambda>_. kreturn ()))
     else kbind (place newstate wc cur) (\<lambda>_. dispatch env newstate cur spl)))))))"
  unfolding thread_switch_def place_def dispatch_def ..

definition suspended :: "thread \<Rightarrow> bool" where
  "suspended th \<longleftrightarrow> t_curspl th = 1 \<and> t_iplhigh_count th = 2 \<and>
     (resume_level (t_context th) = 0 \<or> resume_level (t_context th) = 1) \<and>
     (t_in_interrupt th \<longrightarrow> resume_level (t_context th) = 1)"

lemma dispatch_run:
  assumes q: "c_runqueue (this_cpu s) = next # rest" and idle: "\<not> c_isidle (this_cpu s)"
    and cur: "next \<noteq> curthread s" "on_cpu s"
    and th: "threads s next = Some th" and susp: "suspended th"
    and dead: "reapable (handed (frozen ns spl s))"
    and free: "spinlocks s (RunqueueLock (curcpu s)) = lock_free"
  shows "dispatch env ns (curthread s) spl (at_spl 1 2 (locked (RunqueueLock (curcpu s)) s)) =
    (Inr (), at_spl (resume_level (t_context th)) (resume_level (t_context th)) (resumed (handed (frozen ns spl s))))"
proof -
  let ?rq = "RunqueueLock (curcpu s)"
  let ?h = "handed (frozen ns spl s)"
  have run: "idle_loop env s' = (Inr next, set_cpu (curcpu s) (c_runqueue_update (\<lambda>_. rest)) s')"
    if "c_runqueue (this_cpu s') = next # rest" "curcpu s' = curcpu s" for s'
    using that by (subst idle_loop.simps) (simp add: krun set_this_def)
  have "dispatch env ns (curthread s) spl (at_spl 1 2 (locked ?rq s)) = thread_resume (at_spl 1 2 (locked ?rq ?h))"
    apply (simp add: dispatch_def krun set_thread_def set_this_def kbind_def [of "idle_loop _"] run q)
    apply (rule arg_cong [of _ _ thread_resume], intro machine.equality ext)
    using idle cur th susp
    apply (auto simp: handed_def frozen_def at_spl_def set_cpu_def locked_def on_cpu_def q suspended_def
        map_option_case split: option.splits)
    done
  also have "\<dots> = (Inr (), at_spl (resume_level (t_context th)) (resume_level (t_context th))
      (resumed (unlocked (RunqueueLock (curcpu (locked ?rq ?h))) (locked ?rq ?h))))"
    using th cur q susp dead
    by (intro thread_resume_at)
      (auto simp: handed_def frozen_def set_cpu_def suspended_def reapable_def)
  also have "unlocked (RunqueueLock (curcpu (locked ?rq ?h))) (locked ?rq ?h) = ?h"
    using free by (simp add: handed_def frozen_def)
  finally show ?thesis .
qed


lemma splhigh_departing:
  assumes "on_cpu s" and "spl = 0 \<or> spl = 1"
  shows "splhigh (departing ns wc spl s) =
    (Inr spl, if ns = S_SLEEP then at_spl 1 2 (locked (WchanLock wc) s) else at_spl 1 1 s)"
  using assms splhigh_at [of "locked (WchanLock wc) s" "spl + 1"] splhigh_at [of s spl]
  by (auto simp: departing_def)

lemma thread_switch_runs:
  assumes oc: "on_cpu s" and spl: "spl = 0 \<or> spl = 1" and ns: "ns \<noteq> S_RUN"
    and cpu: "\<forall>th. threads s (curthread s) = Some th \<longrightarrow> t_cpu th = curcpu s"
    and idle: "\<not> c_isidle (this_cpu s)"
    and free: "spinlocks s (RunqueueLock (curcpu s)) = lock_free" "spinlocks s (WchanLock wc) = lock_free"
    and q: "c_runqueue (this_cpu s) = next # rest"
    and nx: "next \<noteq> curthread s" "threads s next = Some th" "suspended th"
    and dead: "reapable (handed (frozen ns spl (placed ns wc s)))"
  shows "thread_switch env ns wc (departing ns wc spl s) =
    (Inr (), at_spl (resume_level (t_context th)) (resume_level (t_context th)) (switched ns wc spl s))"
proof -
  let ?rq = "RunqueueLock (curcpu s)"
  let ?m = "if ns = S_SLEEP then locked (WchanLock wc) s else s"
  let ?n = "if ns = S_SLEEP then 3 else 2 :: int"
  have acq: "spinlock_acquire ?rq (at_spl 1 (?n - 1) ?m) = (Inr (), at_spl 1 ?n (locked ?rq ?m))"
    using acquire_at [of ?m "?n - 1" ?rq 1] oc free by auto
  have pl: "place ns wc (curthread s) (at_spl 1 ?n (locked ?rq ?m)) = (Inr (), at_spl 1 2 (locked ?rq (placed ns wc s)))"
    using place_ready [OF oc cpu idle] place_sleep [OF oc free(2)] place_zombie ns by (cases ns) auto
  obtain rest' where q': "c_runqueue (this_cpu (placed ns wc s)) = next # rest'"
    using q by (auto simp: placed_runqueue [OF oc cpu])
  have di: "dispatch env ns (curthread s) spl (at_spl 1 2 (locked ?rq (placed ns wc s))) =
    (Inr (), at_spl (resume_level (t_context th)) (resume_level (t_context th)) (switched ns wc spl s))"
    using dispatch_run [of "placed ns wc s" "next" rest' th ns spl env] q' idle nx oc free(1) dead
    by (simp add: switched_def)
  have "splhigh (departing ns wc spl s) = (Inr spl, at_spl 1 (?n - 1) ?m)"
    using splhigh_departing [OF oc spl] by auto
  then have "thread_switch env ns wc (departing ns wc spl s) =
      kbind (place ns wc (curthread s)) (\<lambda>_. dispatch env ns (curthread s) spl) (at_spl 1 ?n (locked ?rq ?m))"
    using idle q acq by (cases "ns = S_SLEEP") (simp_all add: thread_switch_split kbind_def [of splhigh] krun
        kbind_def [of "spinlock_acquire ?rq"])
  then show ?thesis
    by (simp add: kbind_def pl di del: at_spl_sel)
qed

lemma thread_yield_alone:
  assumes oc: "on_cpu s" and spl: "spl = 0 \<or> spl = 1"
    and idle: "\<not> c_isidle (this_cpu s)"
    and free: "spinlocks s (RunqueueLock (curcpu s)) = lock_free"
    and q: "c_runqueue (this_cpu s) = []"
  shows "thread_yield env (at_spl spl spl s) = (Inr (), at_spl spl spl s)"
proof -
  let ?rq = "RunqueueLock (curcpu s)"
  have h: "splhigh (at_spl spl spl s) = (Inr spl, at_spl 1 1 s)"
    using splhigh_departing [OF oc spl, of S_READY] by (simp add: departing_def)
  have acq: "spinlock_acquire ?rq (at_spl 1 1 s) = (Inr (), at_spl 1 2 (locked ?rq s))"
    using acquire_at [of s 1 ?rq 1] oc free by auto
  have rel: "spinlock_release ?rq (at_spl 1 2 (locked ?rq s)) = (Inr (), at_spl 1 1 s)"
    using release_at [of "locked ?rq s" 2 ?rq 1] oc free by auto
  have x: "splx spl (at_spl 1 1 s) = (Inr 1, at_spl spl spl s)"
    using splx_at [OF oc, of 1] spl by auto
  show ?thesis
    using idle q by (simp add: thread_yield_def thread_switch_split kbind_def [of splhigh] h krun
        kbind_def [of "spinlock_acquire ?rq"] acq kbind_def [of "spinlock_release ?rq"] rel kbind_def [of "splx _"] x)
qed

end
