(* ===== verification/SchedInv.thy ===== *)
theory SchedInv
  imports SchedSwitch "HOL-Library.Multiset"
begin

text \<open>
  The invariant of the scheduler between two operations, \<open>sched_ok\<close>, and that a context switch
  keeps it. \<open>places\<close> is the multiset of all threads over the places of the machine.
\<close>

subsection \<open>The places of threads\<close>

definition cpu_places :: "cpu \<Rightarrow> tid multiset" where
  "cpu_places c = add_mset (c_curthread c) (mset (c_runqueue c) + mset (c_zombies c))"

definition places :: "nat set \<Rightarrow> machine \<Rightarrow> tid multiset" where
  "places W s = (\<Sum>i<numcpus s. cpu_places (cpus s i)) + (\<Sum>w\<in>W. mset (wc_threads s w))"

definition queued_ok :: "nat \<Rightarrow> thread \<Rightarrow> bool" where
  "queued_ok i th \<longleftrightarrow> suspended th \<and> t_cpu th = i \<and> (t_state th = S_READY \<or> t_state th = S_SLEEP)"

definition asleep_ok :: "nat \<Rightarrow> nat \<Rightarrow> thread \<Rightarrow> bool" where
  "asleep_ok n wc th \<longleftrightarrow> suspended th \<and> t_cpu th < n \<and> t_state th = S_SLEEP \<and> t_wchan_name th = Some wc"

definition dead_ok :: "thread \<Rightarrow> bool" where
  "dead_ok th \<longleftrightarrow> t_state th = S_ZOMBIE \<and> t_cwd th = None \<and> t_addrspace th = None"

text \<open>The first thread of a CPU is still in the state \<open>thread_create\<close> left it in.\<close>

definition running_ok :: "nat \<Rightarrow> bool \<Rightarrow> thread \<Rightarrow> bool" where
  "running_ok i irq th \<longleftrightarrow> (t_state th = S_RUN \<or> t_state th = S_READY) \<and> t_cpu th = i \<and>
     (t_in_interrupt th \<longrightarrow> t_curspl th = 1) \<and>
     (t_curspl th = 0 \<or> t_curspl th = 1) \<and> t_iplhigh_count th = t_curspl th \<and> (irq \<longleftrightarrow> t_curspl th = 0)"

definition threads_ok :: "machine \<Rightarrow> (thread \<Rightarrow> bool) \<Rightarrow> tid list \<Rightarrow> bool" where
  "threads_ok s P ts \<longleftrightarrow> (\<forall>t \<in> set ts. \<exists>th. threads s t = Some th \<and> P th)"

definition cpu_ok :: "machine \<Rightarrow> nat \<Rightarrow> bool" where
  "cpu_ok s i \<longleftrightarrow>
     \<not> c_isidle (cpus s i) \<and>
     threads_ok s (running_ok i (c_irq (cpus s i))) [c_curthread (cpus s i)] \<and>
     threads_ok s (queued_ok i) (c_runqueue (cpus s i)) \<and>
     threads_ok s dead_ok (c_zombies (cpus s i))"

text \<open>
  Between two operations: no spinlock is held, every thread is in exactly one place of the
  machine, and each is as its place requires.
\<close>

definition sched_ok :: "nat set \<Rightarrow> machine \<Rightarrow> bool" where
  "sched_ok W s \<longleftrightarrow> finite W \<and> curcpu s < numcpus s \<and> (\<forall>l. spinlocks s l = lock_free) \<and>
     (\<forall>t. count (places W s) t = (if threads s t = None then 0 else 1)) \<and>
     (\<forall>i<numcpus s. cpu_ok s i) \<and>
     (\<forall>w\<in>W. threads_ok s (asleep_ok (numcpus s) w) (wc_threads s w))"

lemma threads_ok_simps [simp]:
  "threads_ok s P []" "threads_ok s P (t # ts) \<longleftrightarrow> (\<exists>th. threads s t = Some th \<and> P th) \<and> threads_ok s P ts"
  "threads_ok s P (ts @ us) \<longleftrightarrow> threads_ok s P ts \<and> threads_ok s P us"
  by (auto simp: threads_ok_def)

lemma threads_ok_cong:
  "(\<And>t. t \<in> set ts \<Longrightarrow> threads s t = threads s' t) \<Longrightarrow> threads_ok s P ts = threads_ok s' P ts"
  by (simp add: threads_ok_def)

lemma threads_ok_subset: "threads_ok s P ts \<Longrightarrow> set us \<subseteq> set ts \<Longrightarrow> threads_ok s P us"
  by (auto simp: threads_ok_def)

text \<open>One CPU and one wait channel at a time.\<close>

lemma places_cpu:
  assumes "i < numcpus s"
  shows "places W s = cpu_places (cpus s i) + ((\<Sum>j\<in>{..<numcpus s} - {i}. cpu_places (cpus s j)) + (\<Sum>w\<in>W. mset (wc_threads s w)))"
  using assms by (simp add: places_def sum.remove [of "{..<numcpus s}" i] ac_simps)

lemma sum_others_cong:
  assumes "\<And>j. j \<noteq> i \<Longrightarrow> cpu_places (cpus t j) = cpu_places (cpus s j)"
  shows "(\<Sum>j\<in>A - {i}. cpu_places (cpus t j)) = (\<Sum>j\<in>A - {i}. cpu_places (cpus s j))"
  using assms by (intro sum.cong) auto

lemma places_update:
  assumes "numcpus t = numcpus s" and i: "i < numcpus s"
    and others: "\<And>j. j \<noteq> i \<Longrightarrow> cpu_places (cpus t j) = cpu_places (cpus s j)"
    and wc: "wc_threads t = wc_threads s"
  shows "places W t + cpu_places (cpus s i) = places W s + cpu_places (cpus t i)"
  using places_cpu [OF i, of W] places_cpu [of i t W] i
  by (simp add: assms(1) wc sum_others_cong [OF others] ac_simps)

lemma places_wc_update:
  assumes "numcpus t = numcpus s" and W: "finite W" "w \<in> W"
    and cpu: "\<And>j. cpu_places (cpus t j) = cpu_places (cpus s j)"
    and wc: "wc_threads t = (wc_threads s)(w := q)"
  shows "places W t + mset (wc_threads s w) = places W s + mset q"
proof -
  have "(\<Sum>v\<in>W. mset (((wc_threads s)(w := q)) v)) = mset q + (\<Sum>v\<in>W - {w}. mset (wc_threads s v))"
    using W by (subst sum.remove [of W w]) (auto intro!: sum.cong)
  moreover have "(\<Sum>v\<in>W. mset (wc_threads s v)) = mset (wc_threads s w) + (\<Sum>v\<in>W - {w}. mset (wc_threads s v))"
    using W by (subst sum.remove [of W w]) auto
  ultimately show ?thesis
    by (simp add: places_def assms(1) cpu wc ac_simps)
qed

lemma distinct_count_le: "(\<And>t. count (mset xs) t \<le> 1) \<Longrightarrow> distinct xs"
proof (induction xs)
  case (Cons x xs)
  have "count (mset xs) x = 0" using Cons.prems [of x] by simp
  moreover have "distinct xs"
  proof (rule Cons.IH)
    show "count (mset xs) t \<le> 1" for t by (rule order_trans [OF _ Cons.prems [of t]]) simp
  qed
  ultimately show ?case by (simp del: count_mset)
qed simp

text \<open>A thread that is somewhere is nowhere else.\<close>

lemma in_places_cpu: "i < numcpus s \<Longrightarrow> cpu_places (cpus s i) \<subseteq># places W s"
  by (subst places_cpu) (auto simp: add.commute)

lemma sched_ok_distinct:
  assumes ok: "sched_ok W s" and i: "i < numcpus s"
  shows "c_curthread (cpus s i) \<notin> set (c_runqueue (cpus s i))"
    and "c_curthread (cpus s i) \<notin> set (c_zombies (cpus s i))"
    and "distinct (c_runqueue (cpus s i))" and "distinct (c_zombies (cpus s i))"
    and "set (c_runqueue (cpus s i)) \<inter> set (c_zombies (cpus s i)) = {}"
proof -
  have le: "count (cpu_places (cpus s i)) t \<le> 1" for t
    using ok in_places_cpu [OF i, of W, THEN mset_subset_eq_count, of t]
    by (auto simp: sched_ok_def split: if_splits intro: order_trans)
  have d: "distinct (c_curthread (cpus s i) # c_runqueue (cpus s i) @ c_zombies (cpus s i))"
    by (rule distinct_count_le) (use le in \<open>simp add: cpu_places_def\<close>)
  show "c_curthread (cpus s i) \<notin> set (c_runqueue (cpus s i))"
    "c_curthread (cpus s i) \<notin> set (c_zombies (cpus s i))"
    "distinct (c_runqueue (cpus s i))" "distinct (c_zombies (cpus s i))"
    "set (c_runqueue (cpus s i)) \<inter> set (c_zombies (cpus s i)) = {}"
    using d by auto
qed


subsection \<open>A switch\<close>

definition dying :: "threadstate \<Rightarrow> machine \<Rightarrow> tid list" where
  "dying ns s = c_zombies (this_cpu s) @ (if ns = S_ZOMBIE then [curthread s] else [])"

definition left_behind :: "threadstate \<Rightarrow> nat \<Rightarrow> int \<Rightarrow> thread \<Rightarrow> thread" where
  "left_behind ns wc spl th = th\<lparr>t_state := ns, t_context := InSwitch spl, t_curspl := 1, t_iplhigh_count := 2,
     t_wchan_name := (if ns = S_SLEEP then Some wc else t_wchan_name th)\<rparr>"

definition set_going :: "thread \<Rightarrow> thread" where
  "set_going th = th\<lparr>t_wchan_name := None, t_state := S_RUN, t_curspl := resume_level (t_context th),
     t_iplhigh_count := resume_level (t_context th)\<rparr>"

lemma handed_sel [simp]:
  "numcpus (handed s) = numcpus s" "curcpu (handed s) = curcpu s" "threads (handed s) = threads s"
  "wc_threads (handed s) = wc_threads s" "vn_refcount (handed s) = vn_refcount s" "spinlocks (handed s) = spinlocks s"
  "i \<noteq> curcpu s \<Longrightarrow> cpus (handed s) i = cpus s i"
  "c_curthread (cpus (handed s) i) = (if i = curcpu s then hd (c_runqueue (this_cpu s)) else c_curthread (cpus s i))"
  "c_runqueue (cpus (handed s) i) = (if i = curcpu s then tl (c_runqueue (this_cpu s)) else c_runqueue (cpus s i))"
  "c_zombies (cpus (handed s) i) = c_zombies (cpus s i)"
  "c_isidle (cpus (handed s) i) = c_isidle (cpus s i)"
  by (simp_all add: handed_def)

lemma frozen_sel [simp]:
  "numcpus (frozen ns spl s) = numcpus s" "curcpu (frozen ns spl s) = curcpu s" "cpus (frozen ns spl s) = cpus s"
  "wc_threads (frozen ns spl s) = wc_threads s" "vn_refcount (frozen ns spl s) = vn_refcount s"
  "spinlocks (frozen ns spl s) = spinlocks s"
  by (simp_all add: frozen_def)

lemma others_untouched [simp]:
  "i \<noteq> curcpu s \<Longrightarrow> cpus (at_spl c n s) i = cpus s i"
  "i \<noteq> curcpu s \<Longrightarrow> cpus (reaped s) i = cpus s i"
  "i \<noteq> curcpu s \<Longrightarrow> cpus (activated s) i = cpus s i"
  by (auto simp: at_spl_def reaped_def activated_def split: option.splits)

lemma placed_parts:
  assumes cth: "threads s (curthread s) = Some cth" and cpu: "t_cpu cth = curcpu s" and ns: "ns \<noteq> S_RUN"
    and idle: "\<not> c_isidle (this_cpu s)"
  shows "i \<noteq> curcpu s \<Longrightarrow> cpus (placed ns wc s) i = cpus s i"
    and "c_runqueue (cpus (placed ns wc s) (curcpu s)) = c_runqueue (this_cpu s) @ (if ns = S_READY then [curthread s] else [])"
    and "c_zombies (cpus (placed ns wc s) (curcpu s)) = dying ns s"
    and "wc_threads (placed ns wc s) = (if ns = S_SLEEP then (wc_threads s)(wc := wc_threads s wc @ [curthread s]) else wc_threads s)"
    and "threads (frozen ns spl (placed ns wc s)) (curthread s) =
      Some (if ns = S_ZOMBIE then (left_behind ns wc spl cth)\<lparr>t_wchan_name := None\<rparr> else left_behind ns wc spl cth)"
    and "u \<noteq> curthread s \<Longrightarrow> threads (frozen ns spl (placed ns wc s)) u = threads s u"
  using ns by (cases ns; auto simp: enqueued_def cth cpu dying_def frozen_def left_behind_def)+

lemma resumed_threads:
  assumes "threads s (curthread s) = Some th"
  shows "threads (resumed s) = (\<lambda>u. if u \<in> set (c_zombies (this_cpu s)) then None
    else if u = curthread s then Some (th\<lparr>t_wchan_name := None, t_state := S_RUN\<rparr>) else threads s u)"
  using assms by (auto simp: resumed_def reaped_def running_def fun_eq_iff)

lemma switched_parts:
  assumes ok: "sched_ok W s" and q: "c_runqueue (this_cpu s) = next # rest"
    and th': "threads s next = Some th'" and cth: "threads s (curthread s) = Some cth"
    and ns: "ns \<noteq> S_RUN"
    and t: "t = at_spl (resume_level (t_context th')) (resume_level (t_context th')) (switched ns wc spl s)"
  shows "numcpus t = numcpus s" "curcpu t = curcpu s" "spinlocks t = spinlocks s" "vn_refcount t = vn_refcount s"
    and "\<And>i. i \<noteq> curcpu s \<Longrightarrow> cpus t i = cpus s i"
    and "c_curthread (cpus t (curcpu s)) = next"
    and "c_runqueue (cpus t (curcpu s)) = rest @ (if ns = S_READY then [curthread s] else [])"
    and "c_zombies (cpus t (curcpu s)) = []" and "c_isidle (cpus t (curcpu s)) = c_isidle (this_cpu s)"
    and "c_irq (cpus t (curcpu s)) \<longleftrightarrow> resume_level (t_context th') = 0"
    and "wc_threads t = (if ns = S_SLEEP then (wc_threads s)(wc := wc_threads s wc @ [curthread s]) else wc_threads s)"
    and "threads t = (\<lambda>u. if u \<in> set (dying ns s) then None else if u = next then Some (set_going th')
      else if u = curthread s then Some (left_behind ns wc spl cth) else threads s u)"
proof -
  have i: "curcpu s < numcpus s" and cok: "cpu_ok s (curcpu s)" using ok by (auto simp: sched_ok_def)
  have cpu: "t_cpu cth = curcpu s" and idle: "\<not> c_isidle (this_cpu s)"
    using cok cth by (simp_all add: cpu_ok_def running_ok_def)
  note d = sched_ok_distinct [OF ok i]
  have ne: "next \<noteq> curthread s" "next \<notin> set (c_zombies (this_cpu s))" "curthread s \<notin> set (c_zombies (this_cpu s))"
    using d q by auto
  note pl = placed_parts [OF cth cpu ns idle]
  let ?h = "handed (frozen ns spl (placed ns wc s))"
  have cur: "curthread ?h = next" using q by (simp add: pl)
  have z: "c_zombies (this_cpu ?h) = dying ns s" by (simp add: pl)
  have h: "threads ?h next = Some th'" using ne th' pl(6) by simp
  show "numcpus t = numcpus s" "curcpu t = curcpu s" "spinlocks t = spinlocks s" "vn_refcount t = vn_refcount s"
    by (simp_all add: t switched_def resumed_def)
  show "cpus t i = cpus s i" if "i \<noteq> curcpu s" for i
    using that by (simp add: t switched_def resumed_def pl)
  show "c_curthread (cpus t (curcpu s)) = next"
    using cur by (simp add: t switched_def resumed_def)
  show "c_runqueue (cpus t (curcpu s)) = rest @ (if ns = S_READY then [curthread s] else [])"
    using q by (simp add: t switched_def resumed_def pl)
  show "c_zombies (cpus t (curcpu s)) = []" "c_isidle (cpus t (curcpu s)) = c_isidle (this_cpu s)"
    by (simp_all add: t switched_def resumed_def)
  show "c_irq (cpus t (curcpu s)) \<longleftrightarrow> resume_level (t_context th') = 0"
    by (simp add: t at_spl_def) (simp add: switched_def resumed_def)
  show "wc_threads t = (if ns = S_SLEEP then (wc_threads s)(wc := wc_threads s wc @ [curthread s]) else wc_threads s)"
    by (simp add: t switched_def resumed_def pl)
  have th2: "threads (resumed ?h) next = Some (th'\<lparr>t_wchan_name := None, t_state := S_RUN\<rparr>)"
    using h cur z ne resumed_threads [of ?h th'] by (auto simp: dying_def)
  have u: "threads t u = (if u = next then Some (set_going th') else threads (resumed ?h) u)" for u
    using cur th2 by (simp add: t switched_def at_spl_def set_going_def) (simp add: resumed_def cur)
  show "threads t = (\<lambda>u. if u \<in> set (dying ns s) then None else if u = next then Some (set_going th')
      else if u = curthread s then Some (left_behind ns wc spl cth) else threads s u)"
    using resumed_threads [of ?h th'] h cur z ne pl(5,6)
    by (auto simp: u fun_eq_iff dying_def)
qed


lemma threads_ok_after:
  assumes ok: "threads_ok s P ts" and "\<And>u th. u \<in> set ts \<Longrightarrow> threads s u = Some th \<Longrightarrow> P th \<Longrightarrow> \<exists>th'. threads t u = Some th' \<and> P' th'"
  shows "threads_ok t P' ts"
  using assms by (fastforce simp: threads_ok_def)

lemma count_one_exclusive:
  assumes "\<And>x. count M x \<le> 1" and "A + B \<subseteq># M" and "x \<in># A"
  shows "x \<notin># B"
proof
  assume "x \<in># B"
  then have "2 \<le> count A x + count B x" using assms(3) by (metis count_greater_eq_one_iff add_mono nat_1_add_1)
  also have "\<dots> \<le> count M x" using assms(2) by (metis mset_subset_eq_count plus_multiset.rep_eq)
  finally show False using assms(1) [of x] by simp
qed

lemma in_sum_member: "finite A \<Longrightarrow> a \<in> A \<Longrightarrow> u \<in># f a \<Longrightarrow> u \<in># (\<Sum>x\<in>A. f x)"
  for f :: "'a \<Rightarrow> 'b multiset"
  by (simp add: sum.remove [of A a])

lemma sched_ok_exclusive:
  assumes ok: "sched_ok W s" and i: "i < numcpus s" and u: "u \<in># cpu_places (cpus s i)"
  shows "j < numcpus s \<Longrightarrow> j \<noteq> i \<Longrightarrow> u \<notin># cpu_places (cpus s j)" and "w \<in> W \<Longrightarrow> u \<notin> set (wc_threads s w)"
proof -
  have le: "count (places W s) x \<le> 1" for x using ok by (simp add: sched_ok_def)
  have W: "finite W" using ok by (simp add: sched_ok_def)
  let ?rest = "(\<Sum>j\<in>{..<numcpus s} - {i}. cpu_places (cpus s j)) + (\<Sum>w\<in>W. mset (wc_threads s w))"
  have "u \<notin># ?rest"
    by (rule count_one_exclusive [of "places W s", OF le _ u]) (simp add: places_cpu [OF i])
  then show "j < numcpus s \<Longrightarrow> j \<noteq> i \<Longrightarrow> u \<notin># cpu_places (cpus s j)"
    and "w \<in> W \<Longrightarrow> u \<notin> set (wc_threads s w)"
    using W in_sum_member [of "{..<numcpus s} - {i}" j u "\<lambda>j. cpu_places (cpus s j)"]
        in_sum_member [of W w u "\<lambda>w. mset (wc_threads s w)"] by auto
qed

lemma in_cpu_places: "u \<in># cpu_places c \<longleftrightarrow> u = c_curthread c \<or> u \<in> set (c_runqueue c) \<or> u \<in> set (c_zombies c)"
  by (auto simp: cpu_places_def)

lemma switched_ok:
  assumes ok: "sched_ok W s" and q: "c_runqueue (this_cpu s) = next # rest"
    and th': "threads s next = Some th'" and cth: "threads s (curthread s) = Some cth"
    and ns: "ns \<noteq> S_RUN" and spl: "spl = 0 \<or> spl = 1" "t_in_interrupt cth \<Longrightarrow> spl = 1"
    and wc: "ns = S_SLEEP \<Longrightarrow> wc \<in> W" and dead: "ns = S_ZOMBIE \<Longrightarrow> t_cwd cth = None \<and> t_addrspace cth = None"
    and t: "t = at_spl (resume_level (t_context th')) (resume_level (t_context th')) (switched ns wc spl s)"
  shows "sched_ok W t" and "places W t + mset (dying ns s) = places W s"
proof -
  let ?me = "curcpu s"
  let ?cur = "curthread s"
  note p = switched_parts [OF ok q th' cth ns t]
  have i: "?me < numcpus s" and W: "finite W" and free: "\<forall>l. spinlocks s l = lock_free"
    and cok: "\<And>j. j < numcpus s \<Longrightarrow> cpu_ok s j"
    and wok: "\<And>w. w \<in> W \<Longrightarrow> threads_ok s (asleep_ok (numcpus s) w) (wc_threads s w)"
    and once: "\<And>u. count (places W s) u = (if threads s u = None then 0 else 1)"
    using ok by (auto simp: sched_ok_def)
  have qok: "queued_ok ?me th'" and rok: "running_ok ?me (c_irq (this_cpu s)) cth"
    and zok: "threads_ok s dead_ok (c_zombies (this_cpu s))" and restok: "threads_ok s (queued_ok ?me) rest"
    using cok [OF i] q th' cth by (simp_all add: cpu_ok_def)
  note d = sched_ok_distinct [OF ok i, unfolded q]
  note ex = sched_ok_exclusive [OF ok i]
  have ne: "next \<noteq> ?cur" "next \<notin> set (dying ns s)" using d by (auto simp: dying_def)
  show pl: "places W t + mset (dying ns s) = places W s"
  proof (cases "ns = S_SLEEP")
    case False
    have "places W t + cpu_places (this_cpu s) = places W s + cpu_places (cpus t ?me)"
      using False p by (intro places_update i) auto
    moreover have "cpu_places (this_cpu s) = cpu_places (cpus t ?me) + mset (dying ns s)"
      using ns False p(6-8) by (cases ns) (simp_all add: cpu_places_def q dying_def)
    ultimately show ?thesis by (simp add: ac_simps)
  next
    case True
    define m where "m = t\<lparr>wc_threads := wc_threads s\<rparr>"
    have "places W m + cpu_places (this_cpu s) = places W s + cpu_places (cpus m ?me)"
      using p by (intro places_update i) (auto simp: m_def)
    moreover have "places W t + mset (wc_threads m wc) = places W m + mset (wc_threads s wc @ [?cur])"
      using True p wc W by (intro places_wc_update) (auto simp: m_def)
    moreover have "cpu_places (this_cpu s) = cpu_places (cpus m ?me) + mset (dying ns s) + {#?cur#} - {#next#} + {#next#} - {#?cur#} + {#?cur#}"
      using True p(6-8) by (simp add: cpu_places_def q dying_def m_def)
    ultimately show ?thesis using p(6-8) True
      by (simp add: cpu_places_def q dying_def m_def)
  qed
  have gone: "threads t u = None \<longleftrightarrow> threads s u = None \<or> u \<in> set (dying ns s)" for u
    using th' cth ne by (auto simp: p(12))
  have once': "count (places W t) u = (if threads t u = None then 0 else 1)" for u
  proof -
    have c: "count (places W t) u + count (mset (dying ns s)) u = (if threads s u = None then 0 else 1)"
      using once [of u] by (simp flip: pl)
    have "threads s u \<noteq> None" if "u \<in> set (dying ns s)"
      using zok cth that by (auto simp: dying_def threads_ok_def split: if_splits)
    moreover have "count (mset (dying ns s)) u = (if u \<in> set (dying ns s) then 1 else 0)"
      using d by (intro distinct_count_atmost_1 [THEN iffD1, rule_format]) (auto simp: dying_def)
    ultimately show ?thesis using c gone by (auto split: if_splits)
  qed
  have keep: "threads t u = threads s u" if "u \<notin># cpu_places (this_cpu s)" for u
    using that q by (auto simp: p(12) in_cpu_places dying_def split: if_splits)
  have other: "cpu_ok t j" if "j < numcpus s" "j \<noteq> ?me" for j
  proof -
    have "threads t u = threads s u" if "u \<in># cpu_places (cpus s j)" for u
      using ex(1) that \<open>j < numcpus s\<close> \<open>j \<noteq> ?me\<close> by (intro keep) auto
    then show ?thesis
      using cok [OF that(1)] p(5) [OF that(2)] by (simp add: cpu_ok_def in_cpu_places threads_ok_def)
  qed
  have me: "cpu_ok t ?me"
  proof -
    have "threads_ok t (queued_ok ?me) rest"
      by (rule threads_ok_after [OF restok]) (use d in \<open>auto simp: p(12) dying_def\<close>)
    moreover have "queued_ok ?me (left_behind ns wc spl cth)" if "ns = S_READY"
      using rok that spl by (auto simp: queued_ok_def running_ok_def left_behind_def suspended_def)
    moreover have "running_ok ?me (resume_level (t_context th') = 0) (set_going th')"
      using qok by (auto simp: queued_ok_def running_ok_def set_going_def suspended_def)
    ultimately show ?thesis
      using p cok [OF i] ne by (auto simp: cpu_ok_def dying_def d)
  qed
  have chan: "threads_ok t (asleep_ok (numcpus t) w) (wc_threads t w)" if "w \<in> W" for w
  proof -
    have "threads_ok t (asleep_ok (numcpus s) w) (wc_threads s w)"
    proof (rule threads_ok_after [OF wok [OF that]])
      fix u th
      assume u: "u \<in> set (wc_threads s w)" and "threads s u = Some th" "asleep_ok (numcpus s) w th"
      have "threads t u = threads s u" using ex(2) [of u w] u that by (intro keep) blast
      then show "\<exists>th'. threads t u = Some th' \<and> asleep_ok (numcpus s) w th'" using \<open>threads s u = Some th\<close> \<open>asleep_ok (numcpus s) w th\<close> by simp
    qed
    moreover have "asleep_ok (numcpus s) wc (left_behind ns wc spl cth)" if "ns = S_SLEEP"
      using rok that spl i by (auto simp: asleep_ok_def running_ok_def left_behind_def suspended_def)
    ultimately show ?thesis
      using p ne by (auto simp: dying_def d)
  qed
  show "sched_ok W t"
    unfolding sched_ok_def
    using W i free once' other me chan p(1-3) by (metis (no_types, lifting))
qed

end
