(* ===== verification/SchedOps.thy ===== *)
theory SchedOps
  imports SchedInv
begin

text \<open>
  Yield, sleep and exit from a state with \<open>sched_ok\<close>: what they do and that they keep it; with an
  empty run queue the CPU idles.
\<close>

subsection \<open>Giving up the CPU\<close>

lemma sched_ok_current:
  assumes "sched_ok W s"
  obtains cth where "threads s (curthread s) = Some cth" "running_ok (curcpu s) (c_irq (this_cpu s)) cth"
    "t_curspl cth = 0 \<or> t_curspl cth = 1" "s = at_spl (t_curspl cth) (t_curspl cth) s"
proof -
  obtain cth where cth: "threads s (curthread s) = Some cth" and r: "running_ok (curcpu s) (c_irq (this_cpu s)) cth"
    using assms by (auto simp: sched_ok_def cpu_ok_def)
  have "cth = cth\<lparr>t_curspl := t_curspl cth, t_iplhigh_count := t_curspl cth\<rparr>"
    using r by (cases cth) (simp add: running_ok_def)
  moreover have "this_cpu s = (this_cpu s)\<lparr>c_irq := (t_curspl cth = 0)\<rparr>"
    using r by (cases "this_cpu s") (simp add: running_ok_def)
  ultimately have "s = at_spl (t_curspl cth) (t_curspl cth) s"
    by (intro machine.equality ext) (auto simp: at_spl_def cth)
  then show ?thesis using that cth r by (auto simp: running_ok_def)
qed

lemma switch_reapable:
  assumes ok: "sched_ok W s" and q: "c_runqueue (this_cpu s) = next # rest"
    and cth: "threads s (curthread s) = Some cth" and ns: "ns \<noteq> S_RUN"
    and dead: "ns = S_ZOMBIE \<Longrightarrow> t_cwd cth = None \<and> t_addrspace cth = None"
  shows "reapable (handed (frozen ns spl (placed ns wc s)))"
proof -
  have i: "curcpu s < numcpus s" and cok: "cpu_ok s (curcpu s)" using ok by (auto simp: sched_ok_def)
  have cpu: "t_cpu cth = curcpu s" and idle: "\<not> c_isidle (this_cpu s)"
    using cok cth by (simp_all add: cpu_ok_def running_ok_def)
  note d = sched_ok_distinct [OF ok i, unfolded q]
  note pl = placed_parts [OF cth cpu ns idle]
  have zok: "threads_ok s dead_ok (c_zombies (this_cpu s))" using cok by (simp add: cpu_ok_def)
  have "\<exists>th. threads (frozen ns spl (placed ns wc s)) z = Some th \<and> dead_ok th" if "z \<in> set (dying ns s)" for z
  proof (cases "z = curthread s")
    case True
    then show ?thesis using that d dead pl(5) by (auto simp: dying_def dead_ok_def left_behind_def split: if_splits)
  next
    case False
    then show ?thesis using that zok pl(6) by (auto simp: dying_def threads_ok_def split: if_splits)
  qed
  then show ?thesis
    using d q by (auto simp: reapable_def pl dead_ok_def) (auto simp: dying_def split: if_splits)
qed

lemma switch_ok:
  assumes ok: "sched_ok W s" and q: "c_runqueue (this_cpu s) = next # rest"
    and cth: "threads s (curthread s) = Some cth" and ns: "ns \<noteq> S_RUN"
    and wc: "ns = S_SLEEP \<Longrightarrow> wc \<in> W" and dead: "ns = S_ZOMBIE \<Longrightarrow> t_cwd cth = None \<and> t_addrspace cth = None"
  obtains t where "thread_switch env ns wc (departing ns wc (t_curspl cth) s) = (Inr (), t)"
    "sched_ok W t" "places W t + mset (dying ns s) = places W s" "curthread t = next" "curcpu t = curcpu s"
    "numcpus t = numcpus s"
    "c_runqueue (this_cpu t) = rest @ (if ns = S_READY then [curthread s] else [])"
    "wc_threads t = (if ns = S_SLEEP then (wc_threads s)(wc := wc_threads s wc @ [curthread s]) else wc_threads s)"
    "\<And>i. i \<noteq> curcpu s \<Longrightarrow> cpus t i = cpus s i"
proof -
  have i: "curcpu s < numcpus s" and cok: "cpu_ok s (curcpu s)" and free: "\<forall>l. spinlocks s l = lock_free"
    using ok by (auto simp: sched_ok_def)
  have r: "t_cpu cth = curcpu s" "\<not> c_isidle (this_cpu s)" "t_curspl cth = 0 \<or> t_curspl cth = 1" "t_in_interrupt cth \<Longrightarrow> t_curspl cth = 1"
    using cok cth by (auto simp: cpu_ok_def running_ok_def)
  obtain th' where th': "threads s next = Some th'" and qok: "queued_ok (curcpu s) th'"
    using cok q by (auto simp: cpu_ok_def)
  have ne: "next \<noteq> curthread s" using sched_ok_distinct(1) [OF ok i] q by auto
  let ?t = "at_spl (resume_level (t_context th')) (resume_level (t_context th')) (switched ns wc (t_curspl cth) s)"
  have "thread_switch env ns wc (departing ns wc (t_curspl cth) s) = (Inr (), ?t)"
    using r cth q free ne th' qok switch_reapable [OF ok q cth ns dead]
    by (intro thread_switch_runs) (auto simp: on_cpu_def queued_ok_def ns)
  then show ?thesis
    using that switched_ok [OF ok q th' cth ns r(3,4) wc dead refl] switched_parts [OF ok q th' cth ns refl]
    by (smt (verit))
qed


lemma thread_switch_idles:
  assumes ok: "sched_ok W s" and q: "c_runqueue (this_cpu s) = []"
    and cth: "threads s (curthread s) = Some cth" and ns: "ns = S_SLEEP \<or> ns = S_ZOMBIE"
  shows "fst (thread_switch [] ns wc (departing ns wc (t_curspl cth) s)) = Inl HANG"
proof -
  let ?rq = "RunqueueLock (curcpu s)"
  let ?m = "if ns = S_SLEEP then locked (WchanLock wc) s else s"
  let ?n = "if ns = S_SLEEP then 3 else 2 :: int"
  let ?x = "at_spl 1 2 (locked ?rq (placed ns wc s))"
  have i: "curcpu s < numcpus s" and cok: "cpu_ok s (curcpu s)" and free: "\<forall>l. spinlocks s l = lock_free"
    using ok by (auto simp: sched_ok_def)
  have cpu: "t_cpu cth = curcpu s" and idle: "\<not> c_isidle (this_cpu s)" and spl: "t_curspl cth = 0 \<or> t_curspl cth = 1"
    using cok cth by (simp_all add: cpu_ok_def running_ok_def)
  have oc: "on_cpu s" by (simp add: on_cpu_def cth)
  have r: "ns \<noteq> S_RUN" using ns by auto
  note pl' = placed_parts [OF cth cpu r idle]
  have acq: "spinlock_acquire ?rq (at_spl 1 (?n - 1) ?m) = (Inr (), at_spl 1 ?n (locked ?rq ?m))"
    using acquire_at [of ?m "?n - 1" ?rq 1] oc free by auto
  have pl: "place ns wc (curthread s) (at_spl 1 ?n (locked ?rq ?m)) = (Inr (), ?x)"
    using place_sleep [OF oc] place_zombie ns free by auto
  have high: "splhigh (departing ns wc (t_curspl cth) s) = (Inr (t_curspl cth), at_spl 1 (?n - 1) ?m)"
    using splhigh_departing [OF oc spl] by auto
  have "thread_switch [] ns wc (departing ns wc (t_curspl cth) s) =
      kbind (place ns wc (curthread s)) (\<lambda>_. dispatch [] ns (curthread s) (t_curspl cth)) (at_spl 1 ?n (locked ?rq ?m))"
    using idle q acq ns high by (cases "ns = S_SLEEP") (auto simp: thread_switch_split kbind_def [of splhigh] krun
        kbind_def [of "spinlock_acquire ?rq"])
  then have "thread_switch [] ns wc (departing ns wc (t_curspl cth) s) = dispatch [] ns (curthread s) (t_curspl cth) ?x"
    by (simp add: kbind_def pl del: at_spl_sel)
  also have "fst \<dots> = Inl HANG"
  proof -
    define y where "y = (placed ns wc s)\<lparr>
        threads := (threads (placed ns wc s))(curthread s := map_option (t_state_update (\<lambda>_. ns)) (threads (placed ns wc s) (curthread s))),
        cpus := (cpus (placed ns wc s))(curcpu s := (cpus (placed ns wc s) (curcpu s))\<lparr>c_isidle := True\<rparr>)\<rparr>"
    have ocy: "on_cpu y" using ns cth by (auto simp: y_def on_cpu_def)
    have rel: "spinlock_release ?rq (at_spl 1 2 (locked ?rq y)) = (Inr (), at_spl 1 1 y)"
      using release_at [of "locked ?rq y" 2 ?rq 1] ocy free by (simp add: y_def)
    have "dispatch [] ns (curthread s) (t_curspl cth) ?x =
        kbind (idle_loop []) (\<lambda>next.
         kbind (set_this (c_isidle_update (\<lambda>_. False))) (\<lambda>_.
         kbind (set_this (c_curthread_update (\<lambda>_. next))) (\<lambda>_.
         kbind (set_thread (curthread s) (t_context_update (\<lambda>_. InSwitch (t_curspl cth)))) (\<lambda>_.
         thread_resume)))) (at_spl 1 2 (locked ?rq y))"
      by (simp add: dispatch_def krun set_thread_def set_this_def, rule arg_cong [of _ _ "kbind _ _"],
          intro machine.equality ext)
        (auto simp: at_spl_def locked_def set_cpu_def y_def map_option_case split: option.splits)
    moreover have cy: "c_runqueue (cpus y (curcpu s)) = []" "curcpu y = curcpu s"
      using pl'(2) q ns by (auto simp: y_def)
    have "idle_loop [] (at_spl 1 2 (locked ?rq y)) = (Inl HANG, at_spl 1 1 y)"
      by (subst idle_loop.simps) (simp add: krun cy kbind_def [of "spinlock_release _"] rel)
    ultimately show ?thesis by (simp add: kbind_def [of "idle_loop []"])
  qed
  finally show ?thesis .
qed


text \<open>The three ways to give up the CPU, from a state between operations.\<close>

lemma thread_yield_ok:
  assumes ok: "sched_ok W s"
  obtains t where "thread_yield env s = (Inr (), t)" "sched_ok W t" "curcpu t = curcpu s" "numcpus t = numcpus s"
    "c_runqueue (this_cpu s) = [] \<Longrightarrow> t = s"
    "\<And>n r. c_runqueue (this_cpu s) = n # r \<Longrightarrow> curthread t = n \<and> c_runqueue (this_cpu t) = r @ [curthread s] \<and>
       places W t + mset (c_zombies (this_cpu s)) = places W s"
    "wc_threads t = wc_threads s" "\<And>i. i \<noteq> curcpu s \<Longrightarrow> cpus t i = cpus s i"
proof -
  obtain cth where c: "threads s (curthread s) = Some cth" "t_curspl cth = 0 \<or> t_curspl cth = 1"
    "running_ok (curcpu s) (c_irq (this_cpu s)) cth" and s: "s = at_spl (t_curspl cth) (t_curspl cth) s"
    using sched_ok_current [OF ok] by metis
  have y: "thread_yield env s = thread_switch env S_READY 0 (departing S_READY 0 (t_curspl cth) s)"
    using s by (simp add: thread_yield_def departing_def)
  have idle: "\<not> c_isidle (this_cpu s)" and free: "\<forall>l. spinlocks s l = lock_free"
    using ok by (auto simp: sched_ok_def cpu_ok_def)
  show ?thesis
  proof (cases "c_runqueue (this_cpu s)")
    case Nil
    have "thread_yield env s = (Inr (), s)"
      using thread_yield_alone [of s "t_curspl cth" env] c idle free Nil s by (simp add: on_cpu_def)
    then show ?thesis using that ok Nil by auto
  next
    case (Cons n r)
    show ?thesis
      by (rule switch_ok [OF ok Cons c(1), of S_READY 0 env])
        (use Cons in \<open>auto simp: y dying_def intro!: that\<close>)
  qed
qed

lemma departing_sleep:
  assumes "sched_ok W s" and "threads s (curthread s) = Some cth"
  shows "wchan_lock wc s = (Inr (), departing S_SLEEP wc (t_curspl cth) s)"
proof -
  obtain c where "threads s (curthread s) = Some c" "t_curspl c = 0 \<or> t_curspl c = 1" and s: "s = at_spl (t_curspl c) (t_curspl c) s"
    using sched_ok_current [OF assms(1)] by metis
  then have "wchan_lock wc (at_spl (t_curspl cth) (t_curspl cth) s) =
      (Inr (), at_spl (t_curspl cth) (t_curspl cth + 1) (locked (WchanLock wc) s))"
    unfolding wchan_lock_def using assms by (intro acquire_at) (auto simp: on_cpu_def sched_ok_def)
  then show ?thesis using s \<open>threads s (curthread s) = Some c\<close> assms(2) by (simp add: departing_def)
qed

definition sleep_on :: "(machine \<Rightarrow> machine) list \<Rightarrow> nat \<Rightarrow> (machine, unit) kernel" where
  "sleep_on env wc = kbind (wchan_lock wc) (\<lambda>_. wchan_sleep env wc)"

definition in_interrupt :: "machine \<Rightarrow> bool" where
  "in_interrupt s \<longleftrightarrow> (\<exists>cth. threads s (curthread s) = Some cth \<and> t_in_interrupt cth)"

lemma sleep_on_switch:
  assumes ok: "sched_ok W s" and c: "threads s (curthread s) = Some cth" and irq: "\<not> in_interrupt s"
  shows "sleep_on env wc s = thread_switch env S_SLEEP wc (departing S_SLEEP wc (t_curspl cth) s)"
proof -
  have "\<not> t_in_interrupt cth" using irq c by (simp add: in_interrupt_def)
  moreover obtain cth' where "threads (departing S_SLEEP wc (t_curspl cth) s) (curthread s) = Some cth'"
    "t_in_interrupt cth' = t_in_interrupt cth" "curthread (departing S_SLEEP wc (t_curspl cth) s) = curthread s"
    using c by (simp add: departing_def at_spl_def)
  ultimately show ?thesis
    by (simp add: sleep_on_def kbind_def [of "wchan_lock _"] departing_sleep [OF ok c] wchan_sleep_def krun kbind_get_thread)
qed

lemma sleep_on_ok:
  assumes ok: "sched_ok W s" and q: "c_runqueue (this_cpu s) = n # r" and wc: "wc \<in> W" and irq: "\<not> in_interrupt s"
  obtains t where "sleep_on env wc s = (Inr (), t)" "sched_ok W t" "curthread t = n" "curcpu t = curcpu s" "numcpus t = numcpus s"
    "wc_threads t = (wc_threads s)(wc := wc_threads s wc @ [curthread s])"
    "places W t + mset (c_zombies (this_cpu s)) = places W s" "\<And>i. i \<noteq> curcpu s \<Longrightarrow> cpus t i = cpus s i"
proof -
  obtain cth where c: "threads s (curthread s) = Some cth" using sched_ok_current [OF ok] by metis
  show ?thesis
    by (rule switch_ok [OF ok q c, of S_SLEEP wc env])
      (use wc in \<open>auto simp: sleep_on_switch [OF ok c irq] dying_def intro!: that\<close>)
qed


subsection \<open>Exit\<close>

text \<open>What the thread drops before it switches away for the last time.\<close>

definition stripped :: "machine \<Rightarrow> machine" where
  "stripped s = (case threads s (curthread s) of None \<Rightarrow> s
     | Some cth \<Rightarrow> at_spl 1 1 (s\<lparr>
         vn_refcount := (case t_cwd cth of None \<Rightarrow> vn_refcount s | Some v \<Rightarrow> (vn_refcount s)(v := vn_refcount s v - 1)),
         threads := (threads s)(curthread s \<mapsto> cth\<lparr>t_cwd := None, t_addrspace := None\<rparr>),
         cpus := (cpus s)(curcpu s := (this_cpu s)\<lparr>c_active_as :=
           (if t_addrspace cth = None then c_active_as (this_cpu s) else None)\<rparr>)\<rparr>))"

lemma stripped_parts:
  assumes c: "threads s (curthread s) = Some cth"
  shows "numcpus (stripped s) = numcpus s" "curcpu (stripped s) = curcpu s"
    "wc_threads (stripped s) = wc_threads s" "spinlocks (stripped s) = spinlocks s"
    "c_curthread (cpus (stripped s) i) = c_curthread (cpus s i)"
    "c_runqueue (cpus (stripped s) i) = c_runqueue (cpus s i)"
    "c_zombies (cpus (stripped s) i) = c_zombies (cpus s i)"
    "c_isidle (cpus (stripped s) i) = c_isidle (cpus s i)"
    "\<not> c_irq (cpus (stripped s) (curcpu s))" "i \<noteq> curcpu s \<Longrightarrow> cpus (stripped s) i = cpus s i"
    "threads (stripped s) (curthread s) = Some (cth\<lparr>t_cwd := None, t_addrspace := None, t_curspl := 1, t_iplhigh_count := 1\<rparr>)"
    "u \<noteq> curthread s \<Longrightarrow> threads (stripped s) u = threads s u"
  by (auto simp: stripped_def c at_spl_def)

lemma cpu_places_cong:
  "c_curthread c = c_curthread d \<Longrightarrow> c_runqueue c = c_runqueue d \<Longrightarrow> c_zombies c = c_zombies d \<Longrightarrow>
   cpu_places c = cpu_places d"
  by (simp add: cpu_places_def)

lemma places_cong:
  assumes "numcpus t = numcpus s" and "wc_threads t = wc_threads s"
    and "\<And>i. cpu_places (cpus t i) = cpu_places (cpus s i)"
  shows "places W t = places W s"
  by (simp add: places_def assms)

lemma stripped_ok:
  assumes ok: "sched_ok W s"
  shows "sched_ok W (stripped s)" and "places W (stripped s) = places W s"
proof -
  obtain cth where c: "threads s (curthread s) = Some cth" and r: "running_ok (curcpu s) (c_irq (this_cpu s)) cth"
    using sched_ok_current [OF ok] by metis
  note p = stripped_parts [OF c]
  show pl: "places W (stripped s) = places W s"
    by (rule places_cong) (simp_all add: p cpu_places_def)
  have i: "curcpu s < numcpus s" and cok: "\<And>j. j < numcpus s \<Longrightarrow> cpu_ok s j" using ok by (auto simp: sched_ok_def)
  have cur: "curthread s \<in># cpu_places (this_cpu s)" by (simp add: in_cpu_places)
  note ex = sched_ok_exclusive [OF ok i cur]
  have "cpu_ok (stripped s) j" if j: "j < numcpus s" for j
  proof (cases "j = curcpu s")
    case True
    have "threads_ok (stripped s) (queued_ok j) (c_runqueue (cpus s j))" "threads_ok (stripped s) dead_ok (c_zombies (cpus s j))"
      using cok [OF j] sched_ok_distinct(1,2) [OF ok i] True unfolding cpu_ok_def
      by (metis threads_ok_cong p(12))+
    then show ?thesis
      using cok [OF j] True r by (simp add: cpu_ok_def p running_ok_def)
  next
    case False
    have "threads (stripped s) u = threads s u" if "u \<in># cpu_places (cpus s j)" for u
      using ex(1) [OF j False] that by (intro p(12)) auto
    then show ?thesis
      using cok [OF j] p(10) [OF False] by (simp add: cpu_ok_def in_cpu_places threads_ok_def)
  qed
  moreover have "threads_ok (stripped s) (asleep_ok (numcpus s) w) (wc_threads s w)" if "w \<in> W" for w
  proof -
    have "threads_ok s (asleep_ok (numcpus s) w) (wc_threads s w)" using ok that by (simp add: sched_ok_def)
    then show ?thesis using ex(2) [OF that] p(12) by (metis threads_ok_cong)
  qed
  moreover have "threads (stripped s) u = None \<longleftrightarrow> threads s u = None" for u
    using p(11,12) c by (cases "u = curthread s") auto
  ultimately show "sched_ok W (stripped s)"
    using ok p by (simp add: sched_ok_def pl)
qed

lemma thread_exit_switch:
  assumes ok: "sched_ok W s"
  shows "thread_exit env s = thread_switch env S_ZOMBIE 0 (departing S_ZOMBIE 0 1 (stripped s))"
proof -
  obtain cth where c: "threads s (curthread s) = Some cth" and spl: "t_curspl cth = 0 \<or> t_curspl cth = 1"
    and s: "s = at_spl (t_curspl cth) (t_curspl cth) s"
    using sched_ok_current [OF ok] by metis
  have strip: "at_spl 1 1 (stripped s) = stripped s" by (simp add: stripped_def c)
  define x where "x = s\<lparr>
         vn_refcount := (case t_cwd cth of None \<Rightarrow> vn_refcount s | Some v \<Rightarrow> (vn_refcount s)(v := vn_refcount s v - 1)),
         threads := (threads s)(curthread s \<mapsto> cth\<lparr>t_cwd := None, t_addrspace := None\<rparr>),
         cpus := (cpus s)(curcpu s := (this_cpu s)\<lparr>c_active_as :=
           (if t_addrspace cth = None then c_active_as (this_cpu s) else None)\<rparr>)\<rparr>"
  have "thread_exit env s = kbind splhigh (\<lambda>_. thread_switch env S_ZOMBIE 0) x"
    by (cases "t_cwd cth"; cases "t_addrspace cth";
        simp add: thread_exit_def krun kbind_assoc kbind_get_thread c set_thread_def set_this_def;
        rule arg_cong [of _ _ "kbind _ _"]; intro machine.equality ext;
        simp add: x_def set_cpu_def c)
  also have "x = at_spl (t_curspl cth) (t_curspl cth) x"
  proof -
    have "c_irq (this_cpu s) = (t_curspl cth = 0)" using s by (metis at_spl_sel(11))
    moreover have "t_iplhigh_count cth = t_curspl cth" using ok c by (auto simp: sched_ok_def cpu_ok_def running_ok_def)
    ultimately show ?thesis by (intro machine.equality ext) (auto simp: x_def at_spl_def intro!: cpu.equality thread.equality)
  qed
  also have "kbind splhigh (\<lambda>_. thread_switch env S_ZOMBIE 0) (at_spl (t_curspl cth) (t_curspl cth) x) =
      thread_switch env S_ZOMBIE 0 (at_spl 1 1 x)"
    using splhigh_at [of x "t_curspl cth"] spl by (auto simp: kbind_def on_cpu_def x_def)
  also have "at_spl 1 1 x = stripped s" by (simp add: stripped_def c x_def)
  finally show ?thesis by (simp add: departing_def strip)
qed

lemma thread_exit_ok:
  assumes ok: "sched_ok W s" and q: "c_runqueue (this_cpu s) = n # r"
  obtains t where "thread_exit env s = (Inr (), t)" "sched_ok W t" "curthread t = n" "curcpu t = curcpu s" "numcpus t = numcpus s"
    "wc_threads t = wc_threads s"
    "places W t + mset (c_zombies (this_cpu s) @ [curthread s]) = places W s" "\<And>i. i \<noteq> curcpu s \<Longrightarrow> cpus t i = cpus s i"
proof -
  obtain cth where c: "threads s (curthread s) = Some cth" using sched_ok_current [OF ok] by metis
  note p = stripped_parts [OF c]
  let ?c = "cth\<lparr>t_cwd := None, t_addrspace := None, t_curspl := 1, t_iplhigh_count := 1\<rparr>"
  have q': "c_runqueue (this_cpu (stripped s)) = n # r" and c': "threads (stripped s) (curthread (stripped s)) = Some ?c"
    using q p by simp_all
  show ?thesis
    by (rule switch_ok [OF stripped_ok(1) [OF ok] q' c', of S_ZOMBIE 0 env])
      (auto simp: thread_exit_switch [OF ok] dying_def p stripped_ok(2) [OF ok] intro!: that)
qed

end
