(* ===== verification/SchedWake.thy ===== *)
theory SchedWake
  imports SchedOps
begin

text \<open>
  Making threads runnable again: threads on their way between two places (\<open>sched_but\<close>), and the
  two wake operations of wait channels.
\<close>

subsection \<open>Threads on the way from one place to another\<close>

text \<open>As \<open>sched_ok\<close>, with the threads of \<open>F\<close> in no place.\<close>

definition floating_ok :: "nat \<Rightarrow> thread \<Rightarrow> bool" where
  "floating_ok n th \<longleftrightarrow> t_cpu th < n \<and> queued_ok (t_cpu th) th"

definition sched_but :: "tid list \<Rightarrow> nat set \<Rightarrow> machine \<Rightarrow> bool" where
  "sched_but F W s \<longleftrightarrow> finite W \<and> curcpu s < numcpus s \<and> (\<forall>l. spinlocks s l = lock_free) \<and>
     (\<forall>t. count (places W s + mset F) t = (if threads s t = None then 0 else 1)) \<and>
     (\<forall>i<numcpus s. cpu_ok s i) \<and>
     (\<forall>w\<in>W. threads_ok s (asleep_ok (numcpus s) w) (wc_threads s w)) \<and>
     threads_ok s (floating_ok (numcpus s)) F"

lemma sched_but_Nil [simp]: "sched_but [] W s \<longleftrightarrow> sched_ok W s"
  by (simp add: sched_but_def sched_ok_def)

lemma sched_but_current:
  assumes "sched_but F W s"
  obtains cth where "threads s (curthread s) = Some cth" "t_curspl cth = 0 \<or> t_curspl cth = 1"
    "s = at_spl (t_curspl cth) (t_curspl cth) s"
proof -
  obtain cth where cth: "threads s (curthread s) = Some cth" and r: "running_ok (curcpu s) (c_irq (this_cpu s)) cth"
    using assms by (auto simp: sched_but_def cpu_ok_def)
  have "cth = cth\<lparr>t_curspl := t_curspl cth, t_iplhigh_count := t_curspl cth\<rparr>"
    using r by (cases cth) (simp add: running_ok_def)
  moreover have "this_cpu s = (this_cpu s)\<lparr>c_irq := (t_curspl cth = 0)\<rparr>"
    using r by (cases "this_cpu s") (simp add: running_ok_def)
  ultimately have "s = at_spl (t_curspl cth) (t_curspl cth) s"
    by (intro machine.equality ext) (auto simp: at_spl_def cth)
  then show ?thesis using that cth r by (auto simp: running_ok_def)
qed

lemma enqueued_at_spl: "enqueued t (at_spl c n s) = at_spl c n (enqueued t s)"
proof (cases "threads s t")
  case None
  then have "threads (at_spl c n s) t = None" by (auto simp: at_spl_def)
  then show ?thesis using None by (simp add: enqueued_def)
next
  case (Some th)
  then obtain th' where "threads (at_spl c n s) t = Some th'" "t_cpu th' = t_cpu th"
    by (cases "t = curthread s") auto
  moreover have "spl_blind (\<lambda>c. c\<lparr>c_runqueue := c_runqueue c @ [t],
      c_ipi_pending := if c_isidle c then c_ipi_pending c OR 2 ^ IPI_UNIDLE else c_ipi_pending c\<rparr>)"
    by (simp add: spl_blind_def)
  ultimately show ?thesis using Some by (simp add: enqueued_def set_cpu_at_spl)
qed

lemma but_make_runnable:
  assumes ok: "sched_but (t # F) W s"
  shows "thread_make_runnable t False s = (Inr (), enqueued t s)" and "sched_but F W (enqueued t s)"
    and "places W (enqueued t s) = add_mset t (places W s)"
proof -
  obtain cth where c: "threads s (curthread s) = Some cth" "t_curspl cth = 0 \<or> t_curspl cth = 1"
    and s: "s = at_spl (t_curspl cth) (t_curspl cth) s"
    using sched_but_current [OF ok] by metis
  obtain th where t: "threads s t = Some th" and f: "t_cpu th < numcpus s" "queued_ok (t_cpu th) th"
    using ok by (auto simp: sched_but_def floating_ok_def)
  have free: "\<forall>l. spinlocks s l = lock_free" using ok by (simp add: sched_but_def)
  have oc: "on_cpu s" using c by (simp add: on_cpu_def)
  have idle: "\<not> c_isidle (cpus s (t_cpu th))" using ok f by (simp add: sched_but_def cpu_ok_def)
  have en: "enqueued t s = set_cpu (t_cpu th) (\<lambda>c. c\<lparr>c_runqueue := c_runqueue c @ [t]\<rparr>) s"
    using idle by (simp add: enqueued_def t set_cpu_def)
  have "enqueued t (at_spl (t_curspl cth) (t_curspl cth) s) = at_spl (t_curspl cth) (t_curspl cth) (enqueued t s)"
    by (rule enqueued_at_spl)
  then show "thread_make_runnable t False s = (Inr (), enqueued t s)"
    using make_runnable_at [OF oc _ t, of "t_curspl cth" "t_curspl cth"] c(2) free s by auto
  show pl: "places W (enqueued t s) = add_mset t (places W s)"
    using places_update [of "enqueued t s" s "t_cpu th" W] f
    by (simp add: en cpu_places_def)
  show "sched_but F W (enqueued t s)"
    using ok f t pl [unfolded en] unfolding sched_but_def en cpu_ok_def by (auto simp: threads_ok_def)
qed

lemma but_make_all:
  "sched_but F W s \<Longrightarrow> \<exists>t. make_all_runnable F s = (Inr (), t) \<and> sched_ok W t \<and> places W t = places W s + mset F \<and>
     curcpu t = curcpu s \<and> numcpus t = numcpus s \<and> wc_threads t = wc_threads s \<and> threads t = threads s \<and>
     (\<forall>i. c_curthread (cpus t i) = c_curthread (cpus s i) \<and>
       c_runqueue (cpus t i) = c_runqueue (cpus s i) @ filter (\<lambda>u. map_option t_cpu (threads s u) = Some i) F)"
proof (induction F arbitrary: s)
  case (Cons t F)
  note m = but_make_runnable [OF Cons.prems]
  obtain th where t: "threads s t = Some th" using Cons.prems by (auto simp: sched_but_def)
  show ?case
    using Cons.IH [OF m(2)] m(1,3)
    by (auto simp: kbind_def enqueued_runqueue [OF t] t)
qed (simp add: kreturn_def)


subsection \<open>Waking threads\<close>

definition set_wchan :: "nat \<Rightarrow> tid list \<Rightarrow> machine \<Rightarrow> machine" where
  "set_wchan wc q s = s\<lparr>wc_threads := (wc_threads s)(wc := q)\<rparr>"

lemma set_wchan_sel [simp]:
  "numcpus (set_wchan wc q s) = numcpus s" "curcpu (set_wchan wc q s) = curcpu s" "cpus (set_wchan wc q s) = cpus s"
  "threads (set_wchan wc q s) = threads s" "spinlocks (set_wchan wc q s) = spinlocks s"
  "wc_threads (set_wchan wc q s) = (wc_threads s)(wc := q)" "on_cpu (set_wchan wc q s) \<longleftrightarrow> on_cpu s"
  by (simp_all add: set_wchan_def on_cpu_def)

lemma set_wchan_commute:
  "set_wchan wc q (at_spl c n s) = at_spl c n (set_wchan wc q s)" "set_wchan wc q (locked l s) = locked l (set_wchan wc q s)"
  by (simp_all add: set_wchan_def at_spl_def locked_def)

lemma sched_ok_critical:
  assumes ok: "sched_but F W s"
  obtains c where "c = 0 \<or> c = 1" "on_cpu s" "s = at_spl c c s"
    "\<And>l. spinlock_acquire l s = (Inr (), at_spl c (c + 1) (locked l s))"
    "\<And>l s'. on_cpu s' \<Longrightarrow> spinlocks s' l = lock_free \<Longrightarrow>
       spinlock_release l (at_spl c (c + 1) (locked l s')) = (Inr (), at_spl c c s')"
proof -
  obtain cth where c: "threads s (curthread s) = Some cth" "t_curspl cth = 0 \<or> t_curspl cth = 1"
    and s: "s = at_spl (t_curspl cth) (t_curspl cth) s"
    using sched_but_current [OF ok] by metis
  have free: "\<forall>l. spinlocks s l = lock_free" using ok by (simp add: sched_but_def)
  have oc: "on_cpu s" using c by (simp add: on_cpu_def)
  have acq: "spinlock_acquire l s = (Inr (), at_spl (t_curspl cth) (t_curspl cth + 1) (locked l s))" for l
    using acquire_at [OF oc, of "t_curspl cth" l "t_curspl cth"] c free s by auto
  have rel: "spinlock_release l (at_spl (t_curspl cth) (t_curspl cth + 1) (locked l s')) = (Inr (), at_spl (t_curspl cth) (t_curspl cth) s')"
    if "on_cpu s'" "spinlocks s' l = lock_free" for l s'
    using release_at [of "locked l s'" "t_curspl cth + 1" l "t_curspl cth"] that c by auto
  show ?thesis using that c(2) oc s acq rel by metis
qed

lemma wakeone_run:
  assumes ok: "sched_ok W s"
  shows "wchan_wakeone wc s = (case wc_threads s wc of [] \<Rightarrow> (Inr (), s)
    | t # q \<Rightarrow> thread_make_runnable t False (set_wchan wc q s))"
proof -
  obtain c where c: "c = 0 \<or> c = 1" "on_cpu s" and s: "s = at_spl c c s"
    and acq: "\<And>l. spinlock_acquire l s = (Inr (), at_spl c (c + 1) (locked l s))"
    and rel: "\<And>l s'. on_cpu s' \<Longrightarrow> spinlocks s' l = lock_free \<Longrightarrow>
       spinlock_release l (at_spl c (c + 1) (locked l s')) = (Inr (), at_spl c c s')"
    using sched_ok_critical [of "[]" W s] ok by (metis sched_but_Nil)
  have free: "\<forall>l. spinlocks s l = lock_free" using ok by (simp add: sched_ok_def)
  have s': "at_spl c c (set_wchan wc q s) = set_wchan wc q s" for q
    using s set_wchan_commute(1) by metis
  have up: "s'\<lparr>wc_threads := (wc_threads s')(wc := q)\<rparr> = set_wchan wc q s'" for s' q
    by (simp add: set_wchan_def)
  have nil: "wc_threads s wc = [] \<Longrightarrow> set_wchan wc [] s = s"
    by (simp add: set_wchan_def fun_upd_idem)
  show ?thesis
    using free c
    by (cases "wc_threads s wc") (simp_all add: s [symmetric] wchan_wakeone_def kbind_def [of "spinlock_acquire _"] acq krun
      up [unfolded fun_upd_def] up set_wchan_commute kbind_def [of "spinlock_release _"] rel s' nil)
qed

lemma wakeall_run:
  assumes ok: "sched_ok W s"
  shows "wchan_wakeall wc s = make_all_runnable (wc_threads s wc) (set_wchan wc [] s)"
proof -
  obtain c where c: "c = 0 \<or> c = 1" "on_cpu s" and s: "s = at_spl c c s"
    and acq: "\<And>l. spinlock_acquire l s = (Inr (), at_spl c (c + 1) (locked l s))"
    and rel: "\<And>l s'. on_cpu s' \<Longrightarrow> spinlocks s' l = lock_free \<Longrightarrow>
       spinlock_release l (at_spl c (c + 1) (locked l s')) = (Inr (), at_spl c c s')"
    using sched_ok_critical [of "[]" W s] ok by (metis sched_but_Nil)
  have free: "\<forall>l. spinlocks s l = lock_free" using ok by (simp add: sched_ok_def)
  have s': "at_spl c c (set_wchan wc q s) = set_wchan wc q s" for q
    using s set_wchan_commute(1) by metis
  have up: "s'\<lparr>wc_threads := (wc_threads s')(wc := q)\<rparr> = set_wchan wc q s'" for s' q
    by (simp add: set_wchan_def)
  show ?thesis
    using free c
    by (simp add: wchan_wakeall_def kbind_def [of "spinlock_acquire _"] acq krun
      up [unfolded fun_upd_def] up set_wchan_commute kbind_def [of "spinlock_release _"] rel s')
qed

lemma take_from_wchan:
  assumes ok: "sched_ok W s" and wc: "wc \<in> W" and q: "wc_threads s wc = F @ q"
  shows "sched_but F W (set_wchan wc q s)" and "places W (set_wchan wc q s) + mset F = places W s"
proof -
  have W: "finite W" using ok by (simp add: sched_ok_def)
  show pl: "places W (set_wchan wc q s) + mset F = places W s"
    using places_wc_update [of "set_wchan wc q s" s W wc q] W wc q by (simp add: ac_simps)
  have "threads_ok s (asleep_ok (numcpus s) wc) (F @ q)" using ok wc q unfolding sched_ok_def by metis
  then have "threads_ok (set_wchan wc q s) (floating_ok (numcpus s)) F" "threads_ok s (asleep_ok (numcpus s) wc) q"
    by (auto simp: threads_ok_def floating_ok_def asleep_ok_def queued_ok_def)
  then show "sched_but F W (set_wchan wc q s)"
    using ok pl by (auto simp: sched_but_def sched_ok_def cpu_ok_def threads_ok_def)
qed

lemma wchan_wakeone_ok:
  assumes ok: "sched_ok W s" and wc: "wc \<in> W"
  obtains t where "wchan_wakeone wc s = (Inr (), t)" "sched_ok W t" "places W t = places W s"
    "wc_threads t = (wc_threads s)(wc := tl (wc_threads s wc))"
    "curcpu t = curcpu s" "numcpus t = numcpus s" "threads t = threads s"
    "\<And>i. c_curthread (cpus t i) = c_curthread (cpus s i)"
    "\<And>i. c_runqueue (cpus t i) = c_runqueue (cpus s i) @
       filter (\<lambda>u. map_option t_cpu (threads s u) = Some i) (take 1 (wc_threads s wc))"
proof (cases "wc_threads s wc")
  case Nil
  then show ?thesis using that [of s] ok wakeone_run [OF ok, of wc] by (simp add: fun_upd_idem)
next
  case (Cons t q)
  note b = take_from_wchan [OF ok wc, of "[t]" q, simplified, OF Cons]
  obtain th where th: "threads s t = Some th" using b(1) by (auto simp: sched_but_def)
  show ?thesis
    using that [of "enqueued t (set_wchan wc q s)"] but_make_runnable [OF b(1)] b(2) wakeone_run [OF ok, of wc] Cons
      enqueued_runqueue [of "set_wchan wc q s" t th] th by simp
qed

lemma wchan_wakeall_ok:
  assumes ok: "sched_ok W s" and wc: "wc \<in> W"
  obtains t where "wchan_wakeall wc s = (Inr (), t)" "sched_ok W t" "places W t = places W s"
    "wc_threads t = (wc_threads s)(wc := [])"
    "curcpu t = curcpu s" "numcpus t = numcpus s" "threads t = threads s"
    "\<And>i. c_curthread (cpus t i) = c_curthread (cpus s i)"
    "\<And>i. c_runqueue (cpus t i) = c_runqueue (cpus s i) @
       filter (\<lambda>u. map_option t_cpu (threads s u) = Some i) (wc_threads s wc)"
proof -
  note b = take_from_wchan [OF ok wc, of "wc_threads s wc" "[]", simplified]
  show ?thesis
    using but_make_all [OF b(1)] b(2) wakeall_run [OF ok, of wc] that by auto
qed

end
