(* ===== verification/SchedBalance.thy ===== *)
theory SchedBalance
  imports SchedWake
begin

text \<open>
  Load balancing: the loops of \<open>thread_consider_migration\<close> one by one, and the loads of the CPUs
  afterwards.
\<close>

subsection \<open>Counting\<close>

lemma count_threads_run:
  assumes ok: "sched_ok W s" and b: "unat tot + (\<Sum>i\<leftarrow>is. length (c_runqueue (cpus s i))) < 2 ^ 32"
  shows "\<exists>m t. count_threads is my tot s = (Inr (m, t), s) \<and>
    unat t = unat tot + (\<Sum>i\<leftarrow>is. length (c_runqueue (cpus s i))) \<and>
    (curcpu s \<in> set is \<longrightarrow> unat m = length (c_runqueue (this_cpu s))) \<and> (curcpu s \<notin> set is \<longrightarrow> m = my)"
  using b
proof (induction "is" arbitrary: my tot)
  case Nil
  then show ?case by (simp add: kreturn_def)
next
  case (Cons i "is")
  obtain c where c: "c = 0 \<or> c = 1" "on_cpu s" and s: "s = at_spl c c s"
    and acq: "\<And>l. spinlock_acquire l s = (Inr (), at_spl c (c + 1) (locked l s))"
    and rel: "\<And>l s'. on_cpu s' \<Longrightarrow> spinlocks s' l = lock_free \<Longrightarrow>
       spinlock_release l (at_spl c (c + 1) (locked l s')) = (Inr (), at_spl c c s')"
    using sched_ok_critical [of "[]" W s] ok by (metis sched_but_Nil)
  have free: "\<forall>l. spinlocks s l = lock_free" using ok by (simp add: sched_ok_def)
  let ?n = "of_nat (length (c_runqueue (cpus s i))) :: u32"
  have n: "unat ?n = length (c_runqueue (cpus s i))" using Cons.prems by simp
  have tn: "unat (tot + ?n) = unat tot + length (c_runqueue (cpus s i))"
    using Cons.prems n by (subst unat_add_u32) simp_all
  have step: "count_threads (i # is) my tot s = count_threads is (if i = curcpu s then ?n else my) (tot + ?n) s"
    using c free s by (simp add: kbind_def [of "spinlock_acquire _"] acq krun kbind_def [of "spinlock_release _"] rel)
  obtain m t where mt: "count_threads is (if i = curcpu s then ?n else my) (tot + ?n) s = (Inr (m, t), s)"
    "unat t = unat (tot + ?n) + (\<Sum>i\<leftarrow>is. length (c_runqueue (cpus s i)))"
    "curcpu s \<in> set is \<longrightarrow> unat m = length (c_runqueue (this_cpu s))"
    "curcpu s \<notin> set is \<longrightarrow> m = (if i = curcpu s then ?n else my)"
    using Cons.IH [of "tot + ?n" "if i = curcpu s then ?n else my"] Cons.prems tn by auto
  show ?case
    unfolding step using mt tn n by (auto split: if_splits)
qed

subsection \<open>Taking threads off the run queue\<close>

definition set_runqueue :: "nat \<Rightarrow> tid list \<Rightarrow> machine \<Rightarrow> machine" where
  "set_runqueue i q s = set_cpu i (c_runqueue_update (\<lambda>_. q)) s"

lemma set_runqueue_sel [simp]:
  "numcpus (set_runqueue i q s) = numcpus s" "curcpu (set_runqueue i q s) = curcpu s"
  "wc_threads (set_runqueue i q s) = wc_threads s" "threads (set_runqueue i q s) = threads s"
  "spinlocks (set_runqueue i q s) = spinlocks s" "on_cpu (set_runqueue i q s) \<longleftrightarrow> on_cpu s"
  "c_curthread (cpus (set_runqueue i q s) j) = c_curthread (cpus s j)"
  "c_zombies (cpus (set_runqueue i q s) j) = c_zombies (cpus s j)"
  "c_isidle (cpus (set_runqueue i q s) j) = c_isidle (cpus s j)"
  "c_irq (cpus (set_runqueue i q s) j) = c_irq (cpus s j)"
  "c_runqueue (cpus (set_runqueue i q s) j) = (if j = i then q else c_runqueue (cpus s j))"
  "j \<noteq> i \<Longrightarrow> cpus (set_runqueue i q s) j = cpus s j"
  by (auto simp: set_runqueue_def on_cpu_def)

lemma set_runqueue_commute:
  "set_runqueue i q (at_spl c n s) = at_spl c n (set_runqueue i q s)"
  "set_runqueue i q (locked l s) = locked l (set_runqueue i q s)"
  by (simp_all add: set_runqueue_def set_cpu_at_spl spl_blind_def set_cpu_locked)

lemma set_runqueue_same [simp]: "c_runqueue (cpus s i) = q \<Longrightarrow> set_runqueue i q s = s"
  by (intro machine.equality ext) (auto simp: set_runqueue_def)

lemma set_runqueue_twice [simp]: "set_runqueue i q (set_runqueue i q' s) = set_runqueue i q s"
  by (intro machine.equality ext) (auto simp: set_runqueue_def)

lemma take_victims_run:
  "n \<le> length (c_runqueue (this_cpu s)) \<Longrightarrow>
   take_victims n V s = (Inr (drop (length (c_runqueue (this_cpu s)) - n) (c_runqueue (this_cpu s)) @ V),
     set_runqueue (curcpu s) (take (length (c_runqueue (this_cpu s)) - n) (c_runqueue (this_cpu s))) s)"
proof (induction n arbitrary: V s)
  case 0
  then show ?case by (simp add: kreturn_def)
next
  case (Suc n)
  let ?q = "c_runqueue (this_cpu s)"
  have ne: "?q \<noteq> []" using Suc.prems by auto
  then obtain q x where q: "?q = q @ [x]" by (metis rev_exhaust)
  have m: "set_cpu (curcpu s) (c_runqueue_update butlast) s = set_runqueue (curcpu s) q s"
    using q by (intro machine.equality ext cpu.equality) (auto simp: set_runqueue_def)
  have "take_victims (Suc n) V s = take_victims n (x # V) (set_runqueue (curcpu s) q s)"
    using q by (simp add: krun set_this_def m)
  also have "\<dots> = (Inr (drop (length q - n) q @ x # V), set_runqueue (curcpu s) (take (length q - n) q) s)"
    using Suc.IH [of "set_runqueue (curcpu s) q s" "x # V"] Suc.prems q by simp
  also have "drop (length q - n) q @ x # V = drop (length ?q - Suc n) ?q @ V"
    using Suc.prems q by simp
  finally show ?case using q by simp
qed

lemma take_off_runqueue:
  assumes ok: "sched_ok W s" and q: "c_runqueue (this_cpu s) = q @ V"
  shows "sched_but V W (set_runqueue (curcpu s) q s)" and "places W (set_runqueue (curcpu s) q s) + mset V = places W s"
proof -
  have i: "curcpu s < numcpus s" using ok by (simp add: sched_ok_def)
  show pl: "places W (set_runqueue (curcpu s) q s) + mset V = places W s"
    using places_update [of "set_runqueue (curcpu s) q s" s "curcpu s" W] i q
    by (simp add: cpu_places_def ac_simps)
  have "threads_ok s (queued_ok (curcpu s)) (q @ V)" using ok i q unfolding sched_ok_def cpu_ok_def by metis
  then have "threads_ok s (floating_ok (numcpus s)) V" "threads_ok s (queued_ok (curcpu s)) q"
    using i by (fastforce simp: threads_ok_def floating_ok_def queued_ok_def)+
  then show "sched_but V W (set_runqueue (curcpu s) q s)"
    using ok pl by (auto simp: sched_but_def sched_ok_def cpu_ok_def threads_ok_def)
qed

lemma put_on_runqueue:
  assumes ok: "sched_but (V @ F) W s" and i: "i < numcpus s"
    and cpu: "\<And>u th. u \<in> set V \<Longrightarrow> threads s u = Some th \<Longrightarrow> t_cpu th = i"
  shows "sched_but F W (set_runqueue i (c_runqueue (cpus s i) @ V) s)"
    and "places W (set_runqueue i (c_runqueue (cpus s i) @ V) s) = places W s + mset V"
proof -
  let ?t = "set_runqueue i (c_runqueue (cpus s i) @ V) s"
  show pl: "places W ?t = places W s + mset V"
    using places_update [of ?t s i W] i by (simp add: cpu_places_def ac_simps)
  have "threads_ok s (floating_ok (numcpus s)) V" "threads_ok s (floating_ok (numcpus s)) F"
    using ok by (auto simp: sched_but_def)
  then have "threads_ok s (queued_ok i) V"
    using cpu by (fastforce simp: threads_ok_def floating_ok_def)
  then have cpu': "cpu_ok ?t j" if "j < numcpus s" for j
    using ok that by (auto simp: sched_but_def cpu_ok_def threads_ok_def)
  have eq: "places W ?t + mset F = places W s + mset (V @ F)" by (simp add: pl)
  have once: "\<forall>u. count (places W ?t + mset F) u = (if threads ?t u = None then 0 else 1)"
    using ok by (simp only: eq sched_but_def set_runqueue_sel simp_thms)
  have "\<forall>w\<in>W. threads_ok ?t (asleep_ok (numcpus ?t) w) (wc_threads ?t w)" "threads_ok ?t (floating_ok (numcpus ?t)) F"
    using ok by (auto simp: sched_but_def threads_ok_def)
  moreover have "finite W" "curcpu ?t < numcpus ?t" "\<forall>l. spinlocks ?t l = lock_free"
    using ok by (auto simp: sched_but_def)
  ultimately show "sched_but F W ?t"
    using once cpu' unfolding sched_but_def set_runqueue_sel by blast
qed


subsection \<open>Moving a thread to another CPU\<close>

definition retargeted :: "nat \<Rightarrow> tid \<Rightarrow> machine \<Rightarrow> machine" where
  "retargeted i t s = s\<lparr>threads := (threads s)(t := map_option (t_cpu_update (\<lambda>_. i)) (threads s t))\<rparr>"

lemma retargeted_sel [simp]:
  "numcpus (retargeted i t s) = numcpus s" "curcpu (retargeted i t s) = curcpu s"
  "wc_threads (retargeted i t s) = wc_threads s" "cpus (retargeted i t s) = cpus s"
  "spinlocks (retargeted i t s) = spinlocks s" "on_cpu (retargeted i t s) \<longleftrightarrow> on_cpu s"
  "u \<noteq> t \<Longrightarrow> threads (retargeted i t s) u = threads s u"
  "places W (retargeted i t s) = places W s"
  by (auto simp: retargeted_def on_cpu_def places_def)

lemma retargeted_commute:
  assumes "t \<noteq> curthread s"
  shows "retargeted i t (at_spl c n s) = at_spl c n (retargeted i t s)"
    and "retargeted i t (locked l s) = locked l (retargeted i t s)"
  using assms by (auto simp: retargeted_def at_spl_def locked_def fun_upd_twist)

lemma floating_nowhere:
  assumes ok: "sched_but (t # F) W s"
  shows "t \<notin># places W s" and "t \<notin> set F" and "i < numcpus s \<Longrightarrow> t \<notin># cpu_places (cpus s i)"
    and "w \<in> W \<Longrightarrow> t \<notin> set (wc_threads s w)"
proof -
  have W: "finite W" using ok by (simp add: sched_but_def)
  have "count (places W s + mset (t # F)) t \<le> 1" using ok by (simp only: sched_but_def) (metis zero_le le_refl)
  then have c: "count (places W s) t = 0" "count (mset F) t = 0" by simp_all
  then show n: "t \<notin># places W s" and "t \<notin> set F" by (simp_all add: not_in_iff)
  show "i < numcpus s \<Longrightarrow> t \<notin># cpu_places (cpus s i)"
    using in_places_cpu [of i s W] n by (meson mset_subset_eqD)
  show "t \<notin> set (wc_threads s w)" if "w \<in> W"
    using in_sum_member [OF W that, of t "\<lambda>w. mset (wc_threads s w)"] n by (auto simp: places_def)
qed

lemma retarget_ok:
  assumes ok: "sched_but (t # F) W s" and i: "i < numcpus s"
  shows "sched_but (t # F) W (retargeted i t s)"
proof -
  let ?t = "retargeted i t s"
  note no = floating_nowhere [OF ok]
  obtain th where t: "threads s t = Some th" and f: "floating_ok (numcpus s) th"
    using ok by (auto simp: sched_but_def)
  have "cpu_ok ?t j" if "j < numcpus s" for j
  proof -
    have "threads ?t u = threads s u" if "u \<in># cpu_places (cpus s j)" for u
      using no(3) [OF \<open>j < numcpus s\<close>] that by (intro retargeted_sel) auto
    then show ?thesis
      using ok that by (simp add: sched_but_def cpu_ok_def in_cpu_places threads_ok_def)
  qed
  moreover have "threads_ok ?t (asleep_ok (numcpus s) w) (wc_threads s w)" if "w \<in> W" for w
  proof -
    have "threads_ok s (asleep_ok (numcpus s) w) (wc_threads s w)" using ok that by (simp add: sched_but_def)
    then show ?thesis using no(4) [OF that] by (metis threads_ok_cong retargeted_sel(7))
  qed
  moreover have "floating_ok (numcpus s) (t_cpu_update (\<lambda>_. i) th)"
    using f i by (simp add: floating_ok_def queued_ok_def suspended_def)
  then have "threads_ok ?t (floating_ok (numcpus s)) (t # F)"
  proof -
    have "threads_ok s (floating_ok (numcpus s)) F" using ok by (simp add: sched_but_def)
    then have "threads_ok ?t (floating_ok (numcpus s)) F" using no(2) by (metis threads_ok_cong retargeted_sel(7))
    then show ?thesis using \<open>floating_ok (numcpus s) (t_cpu_update (\<lambda>_. i) th)\<close> by (simp add: retargeted_def t)
  qed
  moreover have "(threads ?t u = None) = (threads s u = None)" for u
    by (simp add: retargeted_def)
  ultimately show ?thesis
    using ok unfolding sched_but_def by simp
qed

text \<open>Handing out victims to one CPU.\<close>

lemma give_victims_run:
  "\<lbrakk>sched_but V W s; s = at_spl c c s; i < numcpus s; n \<le> length V;
    length (c_runqueue (cpus s i)) + n < 2 ^ 32\<rbrakk> \<Longrightarrow>
   \<exists>k t. give_victims i share V n (at_spl c (c + 1) (locked (RunqueueLock i) s)) =
       (Inr (drop k V, n - k), at_spl c (c + 1) (locked (RunqueueLock i) t)) \<and>
     k = min n (unat share - length (c_runqueue (cpus s i))) \<and> sched_but (drop k V) W t \<and> t = at_spl c c t \<and>
     places W t = places W s + mset (take k V) \<and>
     numcpus t = numcpus s \<and> curcpu t = curcpu s \<and> wc_threads t = wc_threads s \<and>
     (\<forall>j. j \<noteq> i \<longrightarrow> cpus t j = cpus s j) \<and>
     c_runqueue (cpus t i) = c_runqueue (cpus s i) @ take k V \<and>
     (\<forall>u. u \<notin> set V \<longrightarrow> threads t u = threads s u)"
proof (induction n arbitrary: V s)
  case 0
  then show ?case by (intro exI [of _ 0] exI [of _ s]) (simp add: kreturn_def)
next
  case (Suc n)
  obtain v V' where V: "V = v # V'" using Suc.prems(4) by (cases V) auto
  note ok = Suc.prems(1) [unfolded V]
  let ?X = "at_spl c (c + 1) (locked (RunqueueLock i) s)"
  have len: "(of_nat (length (c_runqueue (cpus s i))) :: u32) < share \<longleftrightarrow> length (c_runqueue (cpus s i)) < unat share"
    using Suc.prems(5) by (simp add: word_less_nat_alt)
  show ?case
  proof (cases "length (c_runqueue (cpus s i)) < unat share")
    case False
    then have "give_victims i share V (Suc n) ?X = (Inr (V, Suc n), ?X)"
      by (simp add: krun len)
    then show ?thesis
      using False Suc.prems by (intro exI [of _ 0] exI [of _ s]) simp
  next
    case True
    let ?r = "retargeted i v s"
    let ?s1 = "set_runqueue i (c_runqueue (cpus ?r i) @ [v]) ?r"
    have me: "curcpu s < numcpus s" using ok by (simp add: sched_but_def)
    have vne: "v \<noteq> curthread s" using floating_nowhere(3) [OF ok me] by (auto simp: in_cpu_places)
    have idle: "\<not> c_isidle (cpus s i)" using ok Suc.prems(3) by (simp add: sched_but_def cpu_ok_def)
    obtain th where th: "threads s v = Some th" using ok by (auto simp: sched_but_def)
    have add: "set_cpu i (c_runqueue_update (\<lambda>q. q @ [v])) s' = set_runqueue i (c_runqueue (cpus s' i) @ [v]) s'" for s'
      by (intro machine.equality ext cpu.equality) (auto simp: set_runqueue_def)
    have ret: "set_thread v (t_cpu_update (\<lambda>_. i)) ?X = (Inr (), at_spl c (c + 1) (locked (RunqueueLock i) ?r))"
      using retargeted_commute(1) [of v "locked (RunqueueLock i) s" i c "c + 1"] retargeted_commute(2) [OF vne, of i "RunqueueLock i"] vne
      by (simp add: set_thread_def krun) (simp add: retargeted_def)
    have "give_victims i share V (Suc n) ?X = give_victims i share V' n (at_spl c (c + 1) (locked (RunqueueLock i) ?s1))"
      using True vne idle
      by (simp add: V krun len kbind_def [of "set_thread _ _"] ret add set_runqueue_commute)
    moreover have cpu_v: "t_cpu x = i" if "u \<in> set [v]" "threads ?r u = Some x" for u x
      using that by (auto simp: retargeted_def th)
    have okr: "sched_but ([v] @ V') W ?r" using retarget_ok [OF ok Suc.prems(3)] by simp
    have ir: "i < numcpus ?r" using Suc.prems(3) by simp
    have ok1: "sched_but V' W ?s1" by (rule put_on_runqueue(1) [OF okr ir cpu_v])
    moreover have pl1: "places W ?s1 = add_mset v (places W s)"
      using put_on_runqueue(2) [OF okr ir cpu_v] by simp
    moreover have lev: "?s1 = at_spl c c ?s1"
      using Suc.prems(2) vne by (metis retargeted_commute(1) set_runqueue_commute(1))
    moreover obtain k t where kt: "give_victims i share V' n (at_spl c (c + 1) (locked (RunqueueLock i) ?s1)) =
       (Inr (drop k V', n - k), at_spl c (c + 1) (locked (RunqueueLock i) t))"
      "k = min n (unat share - Suc (length (c_runqueue (cpus s i))))" "sched_but (drop k V') W t" "t = at_spl c c t"
      "places W t = places W ?s1 + mset (take k V')"
      "numcpus t = numcpus s" "curcpu t = curcpu s" "wc_threads t = wc_threads s"
      "\<forall>j. j \<noteq> i \<longrightarrow> cpus t j = cpus s j" "c_runqueue (cpus t i) = (c_runqueue (cpus s i) @ [v]) @ take k V'"
      "\<forall>u. u \<notin> set V' \<longrightarrow> threads t u = threads ?s1 u"
      using Suc.IH [OF ok1 lev] Suc.prems(3-5) V by auto
    ultimately show ?thesis
      using True V by (intro exI [of _ "Suc k"] exI [of _ t]) auto
  qed
qed


lemma min_add_min: "min n a + min (n - min n a) b = min n (a + b)" for a b n :: nat
  unfolding min_def by arith

lemma migrate_to_run:
  "\<lbrakk>sched_but V W s; s = at_spl c c s; c = 0 \<or> c = 1; distinct is; set is \<subseteq> {..<numcpus s}; n \<le> length V;
    \<forall>i\<in>set is. length (c_runqueue (cpus s i)) + n < 2 ^ 32\<rbrakk> \<Longrightarrow>
   \<exists>K t. migrate_to is share V n s = (Inr (drop K V), t) \<and>
     K = min n (\<Sum>i\<leftarrow>filter (\<lambda>i. i \<noteq> curcpu s) is. unat share - length (c_runqueue (cpus s i))) \<and>
     sched_but (drop K V) W t \<and> t = at_spl c c t \<and>
     places W t = places W s + mset (take K V) \<and>
     numcpus t = numcpus s \<and> curcpu t = curcpu s \<and> wc_threads t = wc_threads s \<and>
     (\<forall>j. j \<notin> set is \<or> j = curcpu s \<longrightarrow> cpus t j = cpus s j) \<and>
     (\<forall>j\<in>set is. j \<noteq> curcpu s \<longrightarrow> (\<exists>new. c_runqueue (cpus t j) = c_runqueue (cpus s j) @ new \<and>
        (new \<noteq> [] \<longrightarrow> length (c_runqueue (cpus t j)) \<le> unat share))) \<and>
     (\<forall>u. u \<notin> set V \<longrightarrow> threads t u = threads s u)"
proof (induction "is" arbitrary: V n s)
  case Nil
  then show ?case by (intro exI [of _ 0] exI [of _ s]) (simp add: kreturn_def)
next
  case (Cons i "is")
  show ?case
  proof (cases "n = 0 \<or> i = curcpu s")
    case True
    show ?thesis
    proof (cases "n = 0")
      case True
      then show ?thesis using Cons.prems by (intro exI [of _ 0] exI [of _ s]) (simp add: kreturn_def)
    next
      case False
      then have i: "i = curcpu s" using True by simp
      have "migrate_to (i # is) share V n s = migrate_to is share V n s"
        using False i by (simp add: krun)
      then show ?thesis using Cons.IH [OF Cons.prems(1-3), of n] Cons.prems i by auto
    qed
  next
    case False
    then have n: "n \<noteq> 0" and i: "i \<noteq> curcpu s" by simp_all
    note ok = Cons.prems(1) and lev = Cons.prems(2)
    have oc: "on_cpu s" and free: "\<forall>l. spinlocks s l = lock_free"
      using ok by (auto simp: sched_but_def cpu_ok_def on_cpu_def)
    have acq: "spinlock_acquire (RunqueueLock i) s = (Inr (), at_spl c (c + 1) (locked (RunqueueLock i) s))"
      using acquire_at [OF oc, of c "RunqueueLock i" c] free Cons.prems(3) lev by auto
    obtain k t where t: "give_victims i share V n (at_spl c (c + 1) (locked (RunqueueLock i) s)) =
        (Inr (drop k V, n - k), at_spl c (c + 1) (locked (RunqueueLock i) t))"
      "k = min n (unat share - length (c_runqueue (cpus s i)))" "sched_but (drop k V) W t" "t = at_spl c c t"
      "places W t = places W s + mset (take k V)"
      "numcpus t = numcpus s" "curcpu t = curcpu s" "wc_threads t = wc_threads s"
      "\<forall>j. j \<noteq> i \<longrightarrow> cpus t j = cpus s j" "c_runqueue (cpus t i) = c_runqueue (cpus s i) @ take k V"
      "\<forall>u. u \<notin> set V \<longrightarrow> threads t u = threads s u"
      using give_victims_run [OF ok lev, of i n share] Cons.prems by auto
    have oct: "on_cpu t" and freet: "\<forall>l. spinlocks t l = lock_free"
      using t(3) by (auto simp: sched_but_def cpu_ok_def on_cpu_def)
    have rel: "spinlock_release (RunqueueLock i) (at_spl c (c + 1) (locked (RunqueueLock i) t)) = (Inr (), t)"
      using release_at [of "locked (RunqueueLock i) t" "c + 1" "RunqueueLock i" c] oct freet Cons.prems(3) t(4) by auto
    have step: "migrate_to (i # is) share V n s = migrate_to is share (drop k V) (n - k) t"
      using n i by (simp add: krun kbind_def [of "spinlock_acquire _"] acq kbind_def [of "give_victims _ _ _ _"] t(1)
          kbind_def [of "spinlock_release _"] rel)
    have same: "cpus t j = cpus s j" if "j \<in> set is" for j
      using t(9) Cons.prems(4) that by auto
    have bound: "length (c_runqueue (cpus t j)) + (n - k) < 2 ^ 32" if "j \<in> set is" for j
    proof -
      have "length (c_runqueue (cpus s j)) + n < 2 ^ 32" using Cons.prems(7) that by simp
      then show ?thesis unfolding same [OF that] by linarith
    qed
    have prem: "distinct is" "set is \<subseteq> {..<numcpus t}" "n - k \<le> length (drop k V)"
      "\<forall>i\<in>set is. length (c_runqueue (cpus t i)) + (n - k) < 2 ^ 32"
      using Cons.prems(4-6) t(6) bound by auto
    obtain K t' where t': "migrate_to is share (drop k V) (n - k) t = (Inr (drop K (drop k V)), t')"
      "K = min (n - k) (\<Sum>i\<leftarrow>filter (\<lambda>i. i \<noteq> curcpu t) is. unat share - length (c_runqueue (cpus t i)))"
      "sched_but (drop K (drop k V)) W t'" "t' = at_spl c c t'"
      "places W t' = places W t + mset (take K (drop k V))"
      "numcpus t' = numcpus t" "curcpu t' = curcpu t" "wc_threads t' = wc_threads t"
      "\<forall>j. j \<notin> set is \<or> j = curcpu t \<longrightarrow> cpus t' j = cpus t j"
      "\<forall>j\<in>set is. j \<noteq> curcpu t \<longrightarrow> (\<exists>new. c_runqueue (cpus t' j) = c_runqueue (cpus t j) @ new \<and>
        (new \<noteq> [] \<longrightarrow> length (c_runqueue (cpus t' j)) \<le> unat share))"
      "\<forall>u. u \<notin> set (drop k V) \<longrightarrow> threads t' u = threads t u"
      using Cons.IH [OF t(3,4) Cons.prems(3) prem] by (elim exE conjE) (rule that)
    have sum: "(\<Sum>i\<leftarrow>filter (\<lambda>i. i \<noteq> curcpu t) is. unat share - length (c_runqueue (cpus t i))) =
        (\<Sum>i\<leftarrow>filter (\<lambda>i. i \<noteq> curcpu s) is. unat share - length (c_runqueue (cpus s i)))"
      using same t(7) by (intro arg_cong [of _ _ sum_list] map_cong) auto
    have ki: "k + K = min n (\<Sum>j\<leftarrow>filter (\<lambda>j. j \<noteq> curcpu s) (i # is). unat share - length (c_runqueue (cpus s j)))"
      using t(2) t'(2) i by (simp add: sum min_add_min)
    have mset_take: "mset (take (k + K) V) = mset (take k V) + mset (take K (drop k V))"
      by (simp add: take_add)
    have here: "\<exists>new. c_runqueue (cpus t' i) = c_runqueue (cpus s i) @ new \<and>
        (new \<noteq> [] \<longrightarrow> length (c_runqueue (cpus t' i)) \<le> unat share)"
    proof -
      have "cpus t' i = cpus t i" using t'(9) Cons.prems(4) by auto
      moreover have "length (take k V) = k" using t(2) Cons.prems(6) by simp
      moreover have "k = 0 \<or> length (c_runqueue (cpus s i)) + k \<le> unat share" using t(2) unfolding min_def by arith
      ultimately show ?thesis using t(10) by (intro exI [of _ "take k V"]) auto
    qed
    have "cpus t' j = cpus s j" if "j \<notin> set (i # is) \<or> j = curcpu s" for j
      using that t'(9) t(7,9) i by auto
    moreover have "\<exists>new. c_runqueue (cpus t' j) = c_runqueue (cpus s j) @ new \<and>
        (new \<noteq> [] \<longrightarrow> length (c_runqueue (cpus t' j)) \<le> unat share)" if "j \<in> set (i # is)" "j \<noteq> curcpu s" for j
      using that here t'(10) t(7) same by (cases "j = i") auto
    moreover have "threads t' u = threads s u" if "u \<notin> set V" for u
      using that t'(11) t(11) in_set_dropD by metis
    moreover have d: "drop K (drop k V) = drop (k + K) V" by (simp add: add.commute)
    have "migrate_to is share (drop k V) (n - k) t = (Inr (drop (k + K) V), t')" using t'(1) by (simp only: d)
    moreover have "sched_but (drop (k + K) V) W t'" using t'(3) by (simp only: d)
    moreover have "places W t' = places W s + mset (take (k + K) V)" using t'(5) t(5) by (simp add: mset_take)
    moreover have "numcpus t' = numcpus s" "curcpu t' = curcpu s" "wc_threads t' = wc_threads s"
      using t'(6-8) t(6-8) by simp_all
    ultimately show ?thesis
      unfolding step using ki t'(4) by blast
  qed
qed


subsection \<open>The whole migration\<close>

definition load :: "machine \<Rightarrow> nat \<Rightarrow> nat" where
  "load s i = length (c_runqueue (cpus s i))"

definition total_load :: "machine \<Rightarrow> nat" where
  "total_load s = (\<Sum>i<numcpus s. load s i)"

definition fair_share :: "machine \<Rightarrow> nat" where
  "fair_share s = (total_load s + numcpus s - 1) div numcpus s"

lemma total_load_list: "total_load s = (\<Sum>i\<leftarrow>[0..<numcpus s]. length (c_runqueue (cpus s i)))"
  by (simp add: total_load_def load_def interv_sum_list_conv_sum_set_nat atLeast0LessThan)

lemma sum_list_filter_upt: "(\<Sum>i\<leftarrow>filter (\<lambda>i. i \<noteq> m) [0..<n]. f i) = (\<Sum>i\<in>{..<n} - {m}. f i :: nat)"
proof -
  have "distinct (filter (\<lambda>i. i \<noteq> m) [0..<n])" "set (filter (\<lambda>i. i \<noteq> m) [0..<n]) = {..<n} - {m}" by auto
  then show ?thesis by (metis sum.distinct_set_conv_list)
qed

lemma ceil_mult: "0 < n \<Longrightarrow> t \<le> n * ((t + n - 1) div n)" for n t :: nat
proof -
  assume n: "0 < n"
  have "t + n - 1 = n * ((t + n - 1) div n) + (t + n - 1) mod n" by simp
  moreover have "(t + n - 1) mod n \<le> n - 1" using n by (metis Suc_pred' less_Suc_eq_le mod_less_divisor)
  ultimately show ?thesis using n by linarith
qed

text \<open>The other CPUs together lack at least what this one has too much.\<close>

lemma room_elsewhere:
  assumes m: "m < numcpus s"
  shows "load s m - fair_share s \<le> (\<Sum>i\<in>{..<numcpus s} - {m}. fair_share s - load s i)"
proof -
  let ?n = "numcpus s" and ?f = "fair_share s" and ?O = "{..<numcpus s} - {m}"
  have "total_load s \<le> ?n * ?f" using ceil_mult [of ?n "total_load s"] m by (simp add: fair_share_def)
  moreover have "total_load s = load s m + (\<Sum>i\<in>?O. load s i)"
    using m by (simp add: total_load_def sum.remove)
  moreover have "(\<Sum>i\<in>?O. ?f) \<le> (\<Sum>i\<in>?O. (?f - load s i) + load s i)" by (rule sum_mono) simp
  then have "(?n - 1) * ?f \<le> (\<Sum>i\<in>?O. ?f - load s i) + (\<Sum>i\<in>?O. load s i)"
    using m by (simp add: sum.distrib)
  moreover have "?n * ?f = ?f + (?n - 1) * ?f" using m by (cases ?n) simp_all
  ultimately show ?thesis by linarith
qed

lemma load_le_total: "i < numcpus s \<Longrightarrow> load s i \<le> total_load s"
  unfolding total_load_def by (rule member_le_sum) auto

lemma load_add_le_total: "i < numcpus s \<Longrightarrow> j < numcpus s \<Longrightarrow> i \<noteq> j \<Longrightarrow> load s i + load s j \<le> total_load s"
  unfolding total_load_def
  using sum_mono2 [of "{..<numcpus s}" "{i, j}" "load s"] by simp

lemma migration_run:
  assumes ok: "sched_ok W s" and small: "total_load s + numcpus s < 2 ^ 32"
  obtains t where "thread_consider_migration s = (Inr (), t)" "sched_ok W t" "places W t = places W s"
    "numcpus t = numcpus s" "curcpu t = curcpu s" "wc_threads t = wc_threads s"
    "load t (curcpu s) = min (load s (curcpu s)) (fair_share s)"
    "\<And>i. i < numcpus s \<Longrightarrow> i \<noteq> curcpu s \<Longrightarrow> load s i \<le> load t i \<and> load t i \<le> max (load s i) (fair_share s)"
proof -
  let ?n = "numcpus s" and ?me = "curcpu s" and ?q = "c_runqueue (this_cpu s)"
  have me: "?me < ?n" and free: "\<forall>l. spinlocks s l = lock_free" using ok by (auto simp: sched_ok_def)
  have tot: "total_load s < 2 ^ 32" using small me by linarith
  obtain m tc where ct: "count_threads [0..<?n] 0 0 s = (Inr (m, tc), s)" and tc: "unat tc = total_load s" and m: "unat m = load s ?me"
    using count_threads_run [OF ok, of 0 "[0..<?n]" 0] tot me by (auto simp: total_load_list load_def)
  have un: "unat (of_nat ?n :: u32) = ?n" using small by (intro unat_of_nat_u32) simp
    have share: "unat (DIVROUNDUP tc (of_nat ?n)) = fair_share s"
      using unat_DIVROUNDUP [of tc "of_nat ?n"] small me un tc by (simp add: fair_share_def)
    let ?f = "DIVROUNDUP tc (of_nat ?n)"
    show ?thesis
    proof (cases "m < ?f")
      case True
      have "thread_consider_migration s = (Inr (), s)"
        using True by (simp add: thread_consider_migration_def krun kbind_def [of "count_threads _ _ _"] ct Let_def)
      then show ?thesis using True ok m share by (intro that) (auto simp: word_less_nat_alt)
    next
      case False
      define d where "d = unat (m - ?f)"
      have d: "d = load s ?me - fair_share s" "fair_share s \<le> load s ?me"
        using False m share by (simp_all add: d_def unat_sub word_less_nat_alt word_le_nat_alt)
      obtain c where c: "c = 0 \<or> c = 1" and oc: "on_cpu s" and s: "s = at_spl c c s"
        and acq: "\<And>l. spinlock_acquire l s = (Inr (), at_spl c (c + 1) (locked l s))"
        and rel: "\<And>l s'. on_cpu s' \<Longrightarrow> spinlocks s' l = lock_free \<Longrightarrow>
           spinlock_release l (at_spl c (c + 1) (locked l s')) = (Inr (), at_spl c c s')"
        using sched_ok_critical [of "[]" W s] ok by (metis sched_but_Nil)
      define V where "V = drop (load s ?me - d) ?q"
      define s1 where "s1 = set_runqueue ?me (take (load s ?me - d) ?q) s"
      have V: "length V = d" using d by (simp add: V_def load_def)
      have tv: "take_victims d [] (at_spl c (c + 1) (locked (RunqueueLock ?me) s)) =
          (Inr V, at_spl c (c + 1) (locked (RunqueueLock ?me) s1))"
        using take_victims_run [of d "at_spl c (c + 1) (locked (RunqueueLock ?me) s)" "[]"] d
        by (simp add: V_def s1_def load_def set_runqueue_commute)
      have q: "?q = take (load s ?me - d) ?q @ V" by (simp add: V_def)
      have ok1: "sched_but V W s1" and pl1: "places W s1 + mset V = places W s"
        using take_off_runqueue [OF ok q] by (simp_all add: s1_def)
      have lev1: "s1 = at_spl c c s1" unfolding s1_def using s set_runqueue_commute(1) by metis
      have rel1: "spinlock_release (RunqueueLock ?me) (at_spl c (c + 1) (locked (RunqueueLock ?me) s1)) = (Inr (), s1)"
        using rel [of s1 "RunqueueLock ?me"] oc free lev1 by (simp add: s1_def)
      have bound: "\<forall>i\<in>set [0..<?n]. length (c_runqueue (cpus s1 i)) + d < 2 ^ 32"
      proof
        fix i assume "i \<in> set [0..<?n]"
        then have i: "i < ?n" by simp
        show "length (c_runqueue (cpus s1 i)) + d < 2 ^ 32"
        proof (cases "i = ?me")
          case True
          then show ?thesis using load_le_total [OF me] d tot by (simp add: s1_def load_def)
        next
          case False
          then show ?thesis using load_add_le_total [OF i me False] d tot by (simp add: s1_def load_def)
        qed
      qed
      have inj: "distinct [0..<?n]" "set [0..<?n] \<subseteq> {..<numcpus s1}" "d \<le> length V" by (auto simp: s1_def V)
      obtain K t where t: "migrate_to [0..<?n] ?f V d s1 = (Inr (drop K V), t)"
        "K = min d (\<Sum>i\<leftarrow>filter (\<lambda>i. i \<noteq> curcpu s1) [0..<?n]. unat ?f - length (c_runqueue (cpus s1 i)))"
        "sched_but (drop K V) W t" "t = at_spl c c t" "places W t = places W s1 + mset (take K V)"
        "numcpus t = numcpus s1" "curcpu t = curcpu s1" "wc_threads t = wc_threads s1"
        "\<forall>j. j \<notin> set [0..<?n] \<or> j = curcpu s1 \<longrightarrow> cpus t j = cpus s1 j"
        "\<forall>j\<in>set [0..<?n]. j \<noteq> curcpu s1 \<longrightarrow> (\<exists>new. c_runqueue (cpus t j) = c_runqueue (cpus s1 j) @ new \<and>
          (new \<noteq> [] \<longrightarrow> length (c_runqueue (cpus t j)) \<le> unat ?f))"
        using migrate_to_run [OF ok1 lev1 c inj bound, of ?f] by (elim exE conjE) (rule that)
      have "(\<Sum>i\<leftarrow>filter (\<lambda>i. i \<noteq> curcpu s1) [0..<?n]. unat ?f - length (c_runqueue (cpus s1 i))) =
          (\<Sum>i\<in>{..<?n} - {?me}. fair_share s - load s i)"
        unfolding sum_list_filter_upt share by (intro sum.cong) (auto simp: s1_def load_def)
      then have K: "K = d" using t(2) room_elsewhere [OF me] d by simp
      have left: "drop K V = []" using K V by simp
      have run: "thread_consider_migration s = (Inr (), t)"
        using False by (simp add: thread_consider_migration_def krun kbind_def [of "count_threads _ _ _"] ct Let_def d_def [symmetric]
          kbind_def [of "spinlock_acquire _"] acq kbind_def [of "take_victims _ _"] tv kbind_def [of "spinlock_release _"] rel1
          kbind_def [of "migrate_to _ _ _ _"] t(1) left)
      show ?thesis
      proof (rule that [OF run])
        show "sched_ok W t" using t(3) left by simp
        show "places W t = places W s" using t(5) pl1 K V by simp
        show "numcpus t = ?n" "curcpu t = ?me" "wc_threads t = wc_threads s" using t(6-8) by (simp_all add: s1_def)
        show "load t ?me = min (load s ?me) (fair_share s)"
          using t(9) d by (simp add: load_def s1_def)
        show "load s i \<le> load t i \<and> load t i \<le> max (load s i) (fair_share s)" if "i < ?n" "i \<noteq> ?me" for i
          using t(10) that share by (force simp: load_def s1_def)
      qed
    qed
qed

end
