(* ===== verification/SchedSafe.thy ===== *)
theory SchedSafe
  imports SchedBalance
begin

text \<open>
  Fork, interrupts and the clock tick, and the one-step theorem for all operations of the
  scheduler, \<open>run_op_ok\<close>.
\<close>

subsection \<open>New threads\<close>

definition forked :: "tid \<Rightarrow> machine \<Rightarrow> machine" where
  "forked t s = (case threads s (curthread s) of None \<Rightarrow> s
     | Some cth \<Rightarrow> s\<lparr>
         vn_refcount := (case t_cwd cth of None \<Rightarrow> vn_refcount s | Some v \<Rightarrow> (vn_refcount s)(v := vn_refcount s v + 1)),
         threads := (threads s)(t \<mapsto> \<lparr>t_state = S_READY, t_wchan_name = None, t_context = Startup, t_cpu = t_cpu cth,
           t_in_interrupt = False, t_curspl = 1, t_iplhigh_count = 2, t_addrspace = None, t_cwd = t_cwd cth\<rparr>)\<rparr>)"

lemma thread_fork_no_memory: "thread_fork None st s = (Inl ENOMEM, s)"
  by (simp add: thread_fork_def thread_create_def krun)

lemma thread_fork_run:
  assumes c: "threads s (curthread s) = Some cth" and t: "threads s t = None"
  shows "thread_fork (Some t) True s = kbind (thread_make_runnable t False) (\<lambda>_. kreturn t) (forked t s)"
    and "thread_fork (Some t) False s = (Inl ENOMEM, s)"
proof -
  have ne: "t \<noteq> curthread s" using c t by auto
  show "thread_fork (Some t) True s = kbind (thread_make_runnable t False) (\<lambda>_. kreturn t) (forked t s)"
    by (cases "t_cwd cth"; simp add: thread_fork_def thread_create_def krun kbind_assoc kbind_get_thread c ne
        ne [symmetric] set_thread_def forked_def IPL_HIGH_def)
  show "thread_fork (Some t) False s = (Inl ENOMEM, s)"
    using ne t by (simp add: thread_fork_def thread_create_def thread_destroy_def krun kbind_assoc kbind_get_thread)
      (simp add: fun_upd_idem)
qed

lemma forked_but:
  assumes ok: "sched_ok W s" and t: "threads s t = None"
  shows "sched_but [t] W (forked t s)" and "places W (forked t s) = places W s"
    and "c_runqueue (cpus (forked t s) i) = c_runqueue (cpus s i)" and "curcpu (forked t s) = curcpu s" "numcpus (forked t s) = numcpus s"
    and "\<exists>th. threads (forked t s) t = Some th \<and> t_cpu th = curcpu s"
proof -
  obtain cth where c: "threads s (curthread s) = Some cth" and r: "running_ok (curcpu s) (c_irq (this_cpu s)) cth"
    using sched_ok_current [OF ok] by metis
  have i: "curcpu s < numcpus s" using ok by (simp add: sched_ok_def)
  have p: "numcpus (forked t s) = numcpus s" "curcpu (forked t s) = curcpu s" "cpus (forked t s) = cpus s"
    "wc_threads (forked t s) = wc_threads s" "spinlocks (forked t s) = spinlocks s"
    "u \<noteq> t \<Longrightarrow> threads (forked t s) u = threads s u" for u
    by (simp_all add: forked_def c)
  obtain nth where n: "threads (forked t s) t = Some nth" "floating_ok (numcpus s) nth" "t_cpu nth = curcpu s"
    using r i by (simp add: forked_def c floating_ok_def queued_ok_def suspended_def running_ok_def)
  show pl: "places W (forked t s) = places W s" by (simp add: places_def p)
  show "c_runqueue (cpus (forked t s) i) = c_runqueue (cpus s i)" "curcpu (forked t s) = curcpu s" "numcpus (forked t s) = numcpus s"
    by (simp_all add: p)
  show "\<exists>th. threads (forked t s) t = Some th \<and> t_cpu th = curcpu s" using n by blast
  have keep: "threads_ok s P ts \<Longrightarrow> threads_ok (forked t s) P ts" for P ts
    unfolding threads_ok_def using t p(6) by (metis option.distinct(1))
  have "cpu_ok (forked t s) j" if "j < numcpus s" for j
    using ok that by (auto simp: sched_ok_def cpu_ok_def p intro: keep)
      (metis keep threads_ok_simps(1,2))
  moreover have "count (places W (forked t s) + mset [t]) u = (if threads (forked t s) u = None then 0 else 1)" for u
    using ok t n p(6) [of u] by (cases "u = t") (auto simp: sched_ok_def pl)
  ultimately show "sched_but [t] W (forked t s)"
    using ok n unfolding sched_but_def sched_ok_def by (auto simp: p intro: keep)
qed

lemma thread_fork_ok:
  assumes ok: "sched_ok W s" and t: "threads s t = None"
  obtains s' where "thread_fork (Some t) True s = (Inr t, s')" "sched_ok W s'" "places W s' = add_mset t (places W s)"
    "c_runqueue (this_cpu s') = c_runqueue (this_cpu s) @ [t]" "curcpu s' = curcpu s" "numcpus s' = numcpus s"
proof -
  obtain cth where c: "threads s (curthread s) = Some cth" using sched_ok_current [OF ok] by metis
  note f = forked_but [OF ok t]
  note m = but_make_runnable [OF f(1)]
  obtain th where th: "threads (forked t s) t = Some th" "t_cpu th = curcpu s" using f(6) by blast
  show ?thesis
  proof (rule that)
    show "thread_fork (Some t) True s = (Inr t, enqueued t (forked t s))"
      using thread_fork_run(1) [OF c t] m(1) by (simp add: kbind_def kreturn_def)
    show "sched_ok W (enqueued t (forked t s))" using m(2) by simp
    show "places W (enqueued t (forked t s)) = add_mset t (places W s)" using m(3) f(2) by simp
    show "c_runqueue (this_cpu (enqueued t (forked t s))) = c_runqueue (this_cpu s) @ [t]"
      using enqueued_runqueue [OF th(1)] f th(2) by simp
  qed (simp_all add: f)
qed


subsection \<open>The clock\<close>

lemma sched_ok_cong:
  assumes ok: "sched_ok W s"
    and "numcpus t = numcpus s" "curcpu t < numcpus s" "spinlocks t = spinlocks s" "threads t = threads s" "wc_threads t = wc_threads s"
    and "\<And>i. c_curthread (cpus t i) = c_curthread (cpus s i) \<and> c_runqueue (cpus t i) = c_runqueue (cpus s i) \<and>
       c_zombies (cpus t i) = c_zombies (cpus s i) \<and> c_isidle (cpus t i) = c_isidle (cpus s i) \<and> c_irq (cpus t i) = c_irq (cpus s i)"
  shows "sched_ok W t" and "places W t = places W s"
proof -
  show pl: "places W t = places W s" using assms(2,6,7) by (intro places_cong) (auto simp: cpu_places_def)
  show "sched_ok W t" using ok assms(2-) by (simp add: sched_ok_def pl cpu_ok_def threads_ok_def)
qed

lemma hardclock_ok:
  assumes ok: "sched_ok W s" and small: "total_load s + numcpus s < 2 ^ 32"
  obtains t where "hardclock env s = (Inr (), t)" "sched_ok W t" "numcpus t = numcpus s" "curcpu t = curcpu s"
proof -
  have i: "curcpu s < numcpus s" using ok by (simp add: sched_ok_def)
  define h where "h = (\<lambda>f. set_cpu (curcpu s) (c_hardclocks_update f) s)"
  have h_sel: "numcpus (h f) = numcpus s" "curcpu (h f) = curcpu s" "total_load (h f) = total_load s" for f
    by (auto simp: h_def total_load_def load_def intro!: sum.cong)
  have h: "sched_ok W (h f)" for f
    by (rule sched_ok_cong(1) [OF ok]) (auto simp: h_def i)
  let ?n = "c_hardclocks (this_cpu s) + 1"
  have hh: "set_cpu (curcpu s) (c_hardclocks_update (\<lambda>_. 0)) (h f) = h (\<lambda>_. 0)" for f
    by (auto simp: h_def set_cpu_def)
  let ?mid = "if ?n mod 4 = 0 then kbind (set_this (c_hardclocks_update (\<lambda>_. 0))) (\<lambda>_. thread_consider_migration) else kreturn ()"
  obtain u where u: "?mid (h (\<lambda>n. n + 1)) = (Inr (), u)" "sched_ok W u" "numcpus u = numcpus s" "curcpu u = curcpu s"
  proof (cases "?n mod 4 = 0")
    case True
    obtain u where "thread_consider_migration (h (\<lambda>_. 0)) = (Inr (), u)" "sched_ok W u" "numcpus u = numcpus s" "curcpu u = curcpu s"
      by (rule migration_run [OF h, of "\<lambda>_. 0"]) (use small h_sel in auto)
    then show ?thesis using True that by (simp add: set_this_def krun h_sel hh)
  next
    case False
    then show ?thesis using that [of "h (\<lambda>n. n + 1)"] h h_sel by (simp add: kreturn_def)
  qed
  have run: "hardclock env s = thread_yield env u"
  proof -
    have n: "c_hardclocks (this_cpu (h (\<lambda>n. n + 1))) = ?n" by (simp add: h_def)
    have hs: "set_cpu (curcpu s) (c_hardclocks_update f) s = h f" for f by (simp add: h_def)
    have "hardclock env s = kbind ?mid (\<lambda>_. thread_yield env) (h (\<lambda>n. n + 1))"
      by (simp only: hardclock_def set_this_def krun(1,2) hs schedule_def if_cancel kreturn_bind n)
    then show ?thesis by (simp only: kbind_def u(1)) simp
  qed
  show ?thesis
    by (rule thread_yield_ok [OF u(2), of env]) (use that run u in auto)
qed


subsection \<open>Any sequence of operations\<close>

text \<open>
  What the CPUs do between interrupts, one operation at a time; \<open>RunOn i\<close> lets CPU \<open>i\<close> go on. An
  operation that leaves its CPU with nothing to run ends in \<open>HANG\<close>: no other CPU acts here.
\<close>

datatype sched_op = Yield | SleepOn nat | WakeOne nat | WakeAll nat | Fork "tid option" bool | Exit | Tick | IrqEnter | IrqExit | RunOn nat

fun run_op :: "sched_op \<Rightarrow> (machine, unit) kernel" where
  "run_op Yield = thread_yield []"
| "run_op (SleepOn wc) = sleep_on [] wc"
| "run_op (WakeOne wc) = wchan_wakeone wc"
| "run_op (WakeAll wc) = wchan_wakeall wc"
| "run_op (Fork mem stack) = kbind (thread_fork mem stack) (\<lambda>_. kreturn ())"
| "run_op Exit = thread_exit []"
| "run_op Tick = hardclock []"
| "run_op IrqEnter = kbind irq_enter (\<lambda>_. kreturn ())"
| "run_op IrqExit = irq_exit False True"
| "run_op (RunOn i) = kmodify (curcpu_update (\<lambda>_. i))"

text \<open>
  The channels of \<open>W\<close> exist, interrupt handlers do not sleep, an interrupt comes when the CPU has
  interrupts on, a new thread's memory is not in use, CPU \<open>i\<close> exists, and there is
  not memory for \<open>2 ^ 32\<close> threads.
\<close>

fun allowed :: "nat set \<Rightarrow> machine \<Rightarrow> sched_op \<Rightarrow> bool" where
  "allowed W s (SleepOn wc) \<longleftrightarrow> wc \<in> W \<and> \<not> in_interrupt s"
| "allowed W s (WakeOne wc) \<longleftrightarrow> wc \<in> W"
| "allowed W s (WakeAll wc) \<longleftrightarrow> wc \<in> W"
| "allowed W s (Fork (Some t) stack) \<longleftrightarrow> threads s t = None"
| "allowed W s Tick \<longleftrightarrow> total_load s + numcpus s < 2 ^ 32"
| "allowed W s IrqEnter \<longleftrightarrow> c_irq (this_cpu s)"
| "allowed W s IrqExit \<longleftrightarrow> in_interrupt s"
| "allowed W s (RunOn i) \<longleftrightarrow> i < numcpus s"
| "allowed W s op \<longleftrightarrow> True"

lemma current_changed_ok:
  assumes ok: "sched_ok W s" and c: "threads s (curthread s) = Some cth"
    and t: "t = s\<lparr>cpus := (cpus s)(curcpu s := (this_cpu s)\<lparr>c_irq := b\<rparr>), threads := (threads s)(curthread s \<mapsto> th)\<rparr>"
    and r: "running_ok (curcpu s) b th"
  shows "sched_ok W t"
proof -
  have i: "curcpu s < numcpus s" and cok: "\<And>j. j < numcpus s \<Longrightarrow> cpu_ok s j" using ok by (auto simp: sched_ok_def)
  have pl: "places W t = places W s" by (rule places_cong) (simp_all add: t cpu_places_def)
  have cur: "curthread s \<in># cpu_places (this_cpu s)" by (simp add: in_cpu_places)
  note ex = sched_ok_exclusive [OF ok i cur]
  have same: "threads t u = threads s u" if "u \<noteq> curthread s" for u using that by (simp add: t)
  have "cpu_ok t j" if j: "j < numcpus s" for j
  proof (cases "j = curcpu s")
    case True
    have "threads_ok t (queued_ok j) (c_runqueue (cpus s j))" "threads_ok t dead_ok (c_zombies (cpus s j))"
      using cok [OF j] sched_ok_distinct(1,2) [OF ok i] True unfolding cpu_ok_def
      by (metis threads_ok_cong same)+
    then show ?thesis using cok [OF j] True r by (simp add: cpu_ok_def) (simp add: t)
  next
    case False
    have "threads t u = threads s u" if "u \<in># cpu_places (cpus s j)" for u
      using ex(1) [OF j False] that by (intro same) auto
    moreover have "cpus t j = cpus s j" using False by (simp add: t)
    ultimately show ?thesis
      using cok [OF j] by (simp add: cpu_ok_def in_cpu_places threads_ok_def)
  qed
  moreover have "threads_ok t (asleep_ok (numcpus s) w) (wc_threads s w)" if "w \<in> W" for w
  proof -
    have "threads_ok s (asleep_ok (numcpus s) w) (wc_threads s w)" using ok that by (simp add: sched_ok_def)
    then show ?thesis using ex(2) [OF that] same by (metis threads_ok_cong)
  qed
  moreover have "threads t u = None \<longleftrightarrow> threads s u = None" for u
    using same [of u] c by (cases "u = curthread s") (auto simp: t)
  ultimately show "sched_ok W t" using ok by (simp add: sched_ok_def pl) (simp add: t)
qed

lemma irq_enter_ok:
  assumes ok: "sched_ok W s" and on: "c_irq (this_cpu s)"
  shows "\<exists>x t. irq_enter s = (Inr x, t) \<and> sched_ok W t"
proof -
  obtain cth where c: "threads s (curthread s) = Some cth" and r: "running_ok (curcpu s) True cth"
    using sched_ok_current [OF ok] on by metis
  let ?th = "cth\<lparr>t_in_interrupt := True, t_curspl := 1, t_iplhigh_count := 1\<rparr>"
  have "irq_enter s = (Inr (t_in_interrupt cth, True), s\<lparr>cpus := (cpus s)(curcpu s := (this_cpu s)\<lparr>c_irq := False\<rparr>),
      threads := (threads s)(curthread s \<mapsto> ?th)\<rparr>)"
    using r by (simp add: irq_enter_def krun kbind_assoc kbind_get_thread c set_this_def set_thread_def running_ok_def
        set_cpu_def IPL_HIGH_def o_def, (intro machine.equality ext)?)
      (auto simp: running_ok_def intro!: thread.equality)
  moreover have "running_ok (curcpu s) False ?th" using r by (simp add: running_ok_def)
  ultimately show ?thesis using current_changed_ok [OF ok c refl] by blast
qed

lemma irq_exit_ok:
  assumes ok: "sched_ok W s" and irq: "in_interrupt s"
  shows "\<exists>t. irq_exit False True s = (Inr (), t) \<and> sched_ok W t"
proof -
  obtain cth where c: "threads s (curthread s) = Some cth" and r: "running_ok (curcpu s) (c_irq (this_cpu s)) cth"
    using sched_ok_current [OF ok] by metis
  have off: "t_curspl cth = 1" "t_iplhigh_count cth = 1" using irq c r by (auto simp: in_interrupt_def running_ok_def)
  let ?th = "cth\<lparr>t_in_interrupt := False, t_curspl := 0, t_iplhigh_count := 0\<rparr>"
  have "irq_exit False True s = (Inr (), s\<lparr>cpus := (cpus s)(curcpu s := (this_cpu s)\<lparr>c_irq := True\<rparr>),
      threads := (threads s)(curthread s \<mapsto> ?th)\<rparr>)"
    using off by (simp add: irq_exit_def krun kbind_assoc kbind_get_thread c set_this_def set_thread_def
        set_cpu_def IPL_HIGH_def o_def, (intro machine.equality ext)?)
      (auto simp: running_ok_def intro!: thread.equality)
  moreover have "running_ok (curcpu s) True ?th" using r by (simp add: running_ok_def)
  ultimately show ?thesis using current_changed_ok [OF ok c refl] by blast
qed

lemma run_op_ok:
  assumes ok: "sched_ok W s" and al: "allowed W s op"
  shows "(\<exists>t. run_op op s = (Inr (), t) \<and> sched_ok W t) \<or> run_op op s = (Inl ENOMEM, s) \<or>
    fst (run_op op s) = Inl HANG \<and> c_runqueue (this_cpu s) = [] \<and> ((\<exists>wc. op = SleepOn wc) \<or> op = Exit)"
proof -
  obtain cth where c: "threads s (curthread s) = Some cth" using sched_ok_current [OF ok] by metis
  show ?thesis
  proof (cases op)
    case Yield
    show ?thesis by (rule thread_yield_ok [OF ok, of "[]"]) (simp add: Yield)
  next
    case (SleepOn wc)
    show ?thesis
    proof (cases "c_runqueue (this_cpu s)")
      case Nil
      then show ?thesis using thread_switch_idles [OF ok Nil c, of S_SLEEP wc] SleepOn al by (simp add: sleep_on_switch [OF ok c])
    next
      case (Cons n r)
      show ?thesis by (rule sleep_on_ok [OF ok Cons, of wc "[]"]) (use al in \<open>auto simp: SleepOn\<close>)
    qed
  next
    case (WakeOne wc)
    show ?thesis by (rule wchan_wakeone_ok [OF ok, of wc]) (use al in \<open>auto simp: WakeOne\<close>)
  next
    case (WakeAll wc)
    show ?thesis by (rule wchan_wakeall_ok [OF ok, of wc]) (use al in \<open>auto simp: WakeAll\<close>)
  next
    case (Fork mem stack)
    show ?thesis
    proof (cases "\<exists>t. mem = Some t \<and> stack")
      case True
      then obtain t where m: "mem = Some t" stack by blast
      have t: "threads s t = None" using al m by (simp add: Fork)
      show ?thesis by (rule thread_fork_ok [OF ok t]) (simp add: Fork m kbind_def kreturn_def)
    next
      case False
      then have "thread_fork mem stack s = (Inl ENOMEM, s)"
        using al Fork thread_fork_no_memory thread_fork_run(2) [OF c] by (cases mem; cases stack) auto
      then show ?thesis by (simp add: Fork kbind_def)
    qed
  next
    case Exit
    show ?thesis
    proof (cases "c_runqueue (this_cpu s)")
      case Nil
      have q: "c_runqueue (this_cpu (stripped s)) = []" using Nil stripped_parts [OF c] by simp
      have c': "threads (stripped s) (curthread (stripped s)) = Some (cth\<lparr>t_cwd := None, t_addrspace := None, t_curspl := 1, t_iplhigh_count := 1\<rparr>)"
        using stripped_parts [OF c] by simp
      show ?thesis using thread_switch_idles [OF stripped_ok(1) [OF ok] q c', of S_ZOMBIE 0] Nil Exit
        by (simp add: thread_exit_switch [OF ok])
    next
      case (Cons n r)
      show ?thesis by (rule thread_exit_ok [OF ok Cons, of "[]"]) (simp add: Exit)
    qed
  next
    case Tick
    show ?thesis by (rule hardclock_ok [OF ok, of "[]"]) (use al in \<open>auto simp: Tick\<close>)
  next
    case IrqEnter
    then show ?thesis using irq_enter_ok [OF ok] al by (auto simp: kbind_def kreturn_def)
  next
    case IrqExit
    then show ?thesis using irq_exit_ok [OF ok] al by auto
  next
    case (RunOn i)
    have "sched_ok W (s\<lparr>curcpu := i\<rparr>)" by (rule sched_ok_cong(1) [OF ok]) (use al RunOn in auto)
    then show ?thesis by (simp add: RunOn kmodify_def)
  qed
qed

end
