(* ===== verification/SchedProps.thy ===== *)
theory SchedProps
  imports SchedSafe
begin

text \<open>
  The properties of the scheduler.
\<close>

subsection \<open>Boot\<close>

lemma bootstrap_run:
  "thread_bootstrap True True (Some t) garbage m = (Inr (), m\<lparr>numcpus := 1, curcpu := 0,
     cpus := (cpus m)(0 := \<lparr>c_curthread = t, c_zombies = [], c_hardclocks = 0, c_isidle = False,
       c_runqueue = [], c_ipi_pending = 0, c_shootdown = garbage, c_numshootdown = 0, c_irq = False, c_active_as = None\<rparr>),
     spinlocks := (spinlocks m)(RunqueueLock 0 := lock_free, IpiLock 0 := lock_free),
     threads := (threads m)(t \<mapsto> \<lparr>t_state = S_READY, t_wchan_name = None, t_context = Startup, t_cpu = 0, t_in_interrupt = False,
           t_curspl = 1, t_iplhigh_count = 1, t_addrspace = None, t_cwd = None\<rparr>)\<rparr>)"
  by (simp add: thread_bootstrap_def cpu_create_def krun kbind_assoc spinlock_init_def set_lock_def thread_create_def
      set_thread_def set_cpu_def lock_free_def IPL_HIGH_def)

definition power_on :: "machine \<Rightarrow> bool" where
  "power_on m \<longleftrightarrow> threads m = Map.empty \<and> (\<forall>l. spinlocks m l = lock_free) \<and> (\<forall>w. wc_threads m w = [])"

lemma bootstrap_ok:
  assumes "power_on m" and "finite W"
  obtains s where "thread_bootstrap True True (Some t) garbage m = (Inr (), s)" "sched_ok W s"
    "numcpus s = 1" "curcpu s = 0" "curthread s = t" "c_runqueue (this_cpu s) = []" "threads s = [t \<mapsto> the (threads s t)]"
proof (rule that [OF bootstrap_run], goal_cases)
  case 1
  show ?case
    using assms by (auto simp: sched_ok_def power_on_def places_def cpu_places_def cpu_ok_def running_ok_def)
qed (use assms in \<open>auto simp: power_on_def\<close>)

inductive reachable :: "nat set \<Rightarrow> machine \<Rightarrow> machine \<Rightarrow> bool" for W s0 where
  start: "reachable W s0 s0"
| step: "reachable W s0 s \<Longrightarrow> allowed W s op \<Longrightarrow> run_op op s = (r, t) \<Longrightarrow> r \<noteq> Inl HANG \<Longrightarrow> reachable W s0 t"

lemma reachable_ok: "reachable W s0 s \<Longrightarrow> sched_ok W s0 \<Longrightarrow> sched_ok W s"
proof (induction rule: reachable.induct)
  case (step s op r t)
  then show ?case using run_op_ok [of W s op] by auto
qed simp


fun yields :: "nat \<Rightarrow> (machine, unit) kernel" where
  "yields 0 = kreturn ()"
| "yields (Suc n) = kbind (thread_yield []) (\<lambda>_. yields n)"

text \<open>C13: the scheduler is round-robin: after any number of yields on a CPU, its running thread followed
  by its run queue is the original sequence rotated that many times, so every runnable thread
  gets the CPU after at most as many yields as there are threads before it.\<close>

theorem thread_yield_rotates:
  assumes "sched_ok W s"
  shows "\<exists>t. yields n s = (Inr (), t) \<and> sched_ok W t \<and>
    curthread t # c_runqueue (this_cpu t) = rotate n (curthread s # c_runqueue (this_cpu s))"
  using assms
proof (induction n arbitrary: s)
  case (Suc n)
  obtain t where t: "thread_yield [] s = (Inr (), t)" "sched_ok W t"
    and r: "curthread t # c_runqueue (this_cpu t) = rotate1 (curthread s # c_runqueue (this_cpu s))"
  proof (rule thread_yield_ok [OF Suc.prems, of "[]"])
    fix t
    assume t: "thread_yield [] s = (Inr (), t)" "sched_ok W t"
      and e: "c_runqueue (this_cpu s) = [] \<Longrightarrow> t = s"
      and n: "\<And>n r. c_runqueue (this_cpu s) = n # r \<Longrightarrow> curthread t = n \<and> c_runqueue (this_cpu t) = r @ [curthread s] \<and>
       places W t + mset (c_zombies (this_cpu s)) = places W s"
    show ?thesis using that [OF t] e n by (cases "c_runqueue (this_cpu s)") auto
  qed
  show ?case
    using Suc.IH [OF t(2)] t(1) by (auto simp: kbind_def r rotate1_rotate_swap)
qed (simp add: kreturn_def)

text \<open>C17: load balancing: \<open>thread_consider_migration\<close> keeps on this CPU at most its fair share of the runnable
  threads (the total divided by the number of CPUs, rounded up) and exactly that when it had
  more, never takes a thread from another CPU, never lifts another CPU above the fair share, and
  loses no thread.\<close>

theorem thread_consider_migration_balances:
  assumes "sched_ok W s" and "total_load s + numcpus s < 2 ^ 32"
  shows "\<exists>t. thread_consider_migration s = (Inr (), t) \<and> sched_ok W t \<and> places W t = places W s \<and>
    load t (curcpu s) = min (load s (curcpu s)) (fair_share s) \<and>
    (\<forall>i<numcpus s. i \<noteq> curcpu s \<longrightarrow> load s i \<le> load t i \<and> load t i \<le> max (load s i) (fair_share s))"
  by (rule migration_run [OF assms]) auto


text \<open>C23: a thread that goes to sleep on a wait channel lets the head of the run queue run and stays off every
  run queue until it is woken: waking the channel then puts it, still in its \<open>thread_switch\<close>, at
  the tail of the run queue of its own CPU, where the one that slept longest comes first.\<close>

theorem sleepers_wake_in_order:
  assumes "sched_ok W s" and "wc \<in> W" and "c_runqueue (this_cpu s) = n # r" and "\<not> in_interrupt s"
  shows "\<exists>t u. sleep_on [] wc s = (Inr (), t) \<and> sched_ok W t \<and> curthread t = n \<and>
    wc_threads t wc = wc_threads s wc @ [curthread s] \<and>
    wchan_wakeall wc t = (Inr (), u) \<and> sched_ok W u \<and> wc_threads u wc = [] \<and> curthread u = n \<and>
    (\<forall>i. c_runqueue (cpus u i) = c_runqueue (cpus t i) @
       filter (\<lambda>x. map_option t_cpu (threads t x) = Some i) (wc_threads s wc @ [curthread s]))"
proof -
  obtain t where t: "sleep_on [] wc s = (Inr (), t)" "sched_ok W t" "curthread t = n"
    "wc_threads t = (wc_threads s)(wc := wc_threads s wc @ [curthread s])"
    by (rule sleep_on_ok [OF assms(1,3,2,4), of "[]"]) (rule that)
  obtain u where u: "wchan_wakeall wc t = (Inr (), u)" "sched_ok W u" "wc_threads u = (wc_threads t)(wc := [])"
    "curcpu u = curcpu t" "\<And>i. c_curthread (cpus u i) = c_curthread (cpus t i)"
    "\<And>i. c_runqueue (cpus u i) = c_runqueue (cpus t i) @
       filter (\<lambda>x. map_option t_cpu (threads t x) = Some i) (wc_threads t wc)"
    by (rule wchan_wakeall_ok [OF t(2) assms(2)]) (rule that)
  show ?thesis
    by (intro exI [of _ t] exI [of _ u] conjI allI) (simp_all add: t u)
qed

subsection \<open>TLB shootdown requests\<close>

fun shootdowns :: "nat \<Rightarrow> nat list \<Rightarrow> (machine, unit) kernel" where
  "shootdowns target [] = kreturn ()"
| "shootdowns target (m # ms) = kbind (ipi_tlbshootdown target m) (\<lambda>_. shootdowns target ms)"

definition requested :: "nat \<Rightarrow> (cpu \<Rightarrow> cpu) \<Rightarrow> machine \<Rightarrow> machine" where
  "requested target f s = set_cpu target (\<lambda>c. c_ipi_pending_update (\<lambda>p. p OR 2 ^ IPI_TLBSHOOTDOWN) (f c)) s"

lemma tlbshootdown_run:
  assumes ok: "sched_ok W s" and n: "n = (word_of_int (c_numshootdown (cpus s target)) :: u32)"
    and f: "f = (if n = 16 then c_numshootdown_update (\<lambda>_. -1)
      else (\<lambda>c. c\<lparr>c_shootdown := (c_shootdown c)[unat n := m], c_numshootdown := int (unat n) + 1\<rparr>))"
  shows "n = 16 \<or> unat n < 16 \<Longrightarrow> ipi_tlbshootdown target m s = (Inr (), requested target f s) \<and> sched_ok W (requested target f s)"
    and "\<not> (n = 16 \<or> unat n < 16) \<Longrightarrow> fst (ipi_tlbshootdown target m s) = Inl UNDEFINED"
proof -
  obtain c where c: "c = 0 \<or> c = 1" and oc: "on_cpu s" and s: "s = at_spl c c s"
    and acq: "\<And>l. spinlock_acquire l s = (Inr (), at_spl c (c + 1) (locked l s))"
    and rel: "\<And>l s'. on_cpu s' \<Longrightarrow> spinlocks s' l = lock_free \<Longrightarrow>
       spinlock_release l (at_spl c (c + 1) (locked l s')) = (Inr (), at_spl c c s')"
    using sched_ok_critical [of "[]" W s] ok by (metis sched_but_Nil)
  have free: "\<forall>l. spinlocks s l = lock_free" and i: "curcpu s < numcpus s" using ok by (simp_all add: sched_ok_def)
  let ?l = "IpiLock target"
  have num: "word_of_int (c_numshootdown (cpus (at_spl c (c + 1) (locked ?l s)) target)) = n"
    using n by (simp add: at_spl_def)
  show "fst (ipi_tlbshootdown target m s) = Inl UNDEFINED" if "\<not> (n = 16 \<or> unat n < 16)"
    using that by (simp add: ipi_tlbshootdown_def kbind_def [of "spinlock_acquire _"] acq krun num TLBSHOOTDOWN_MAX_def kbind_def kfail_def)
  assume ok16: "n = 16 \<or> unat n < 16"
  have b: "spl_blind f" "spl_blind (c_ipi_pending_update (\<lambda>p. p OR 2 ^ IPI_TLBSHOOTDOWN))"
    by (simp_all add: f spl_blind_def)
  have up: "(if n = of_nat TLBSHOOTDOWN_MAX then kmodify (set_cpu target (c_numshootdown_update (\<lambda>_. TLBSHOOTDOWN_ALL)))
            else if unat n < TLBSHOOTDOWN_MAX then
              kmodify (set_cpu target (\<lambda>c. c\<lparr>c_shootdown := (c_shootdown c)[unat n := m], c_numshootdown := int (unat n) + 1\<rparr>))
            else kfail UNDEFINED) = kmodify (set_cpu target f)"
    using ok16 by (auto simp: f TLBSHOOTDOWN_MAX_def TLBSHOOTDOWN_ALL_def)
  have r: "set_cpu target (c_ipi_pending_update (\<lambda>p. p OR 2 ^ IPI_TLBSHOOTDOWN)) (set_cpu target f s) = requested target f s"
    by (simp add: requested_def set_cpu_def)
  have rs: "on_cpu (requested target f s)" "spinlocks (requested target f s) ?l = lock_free"
    using oc free by (auto simp: requested_def on_cpu_def f)
  have lev: "at_spl c c (requested target f s) = requested target f s"
    using s unfolding r [symmetric] by (metis set_cpu_at_spl b)
  have "ipi_tlbshootdown target m s = kbind (if n = of_nat TLBSHOOTDOWN_MAX then kmodify (set_cpu target (c_numshootdown_update (\<lambda>_. TLBSHOOTDOWN_ALL)))
            else if unat n < TLBSHOOTDOWN_MAX then
              kmodify (set_cpu target (\<lambda>c. c\<lparr>c_shootdown := (c_shootdown c)[unat n := m], c_numshootdown := int (unat n) + 1\<rparr>))
            else kfail UNDEFINED) (\<lambda>_.
       kbind (kmodify (set_cpu target (c_ipi_pending_update (\<lambda>p. p OR 2 ^ IPI_TLBSHOOTDOWN)))) (\<lambda>_. spinlock_release ?l))
       (at_spl c (c + 1) (locked ?l s))"
    by (simp only: ipi_tlbshootdown_def kbind_def [of "spinlock_acquire _"] acq prod.case sum.case krun num)
  also have "\<dots> = (Inr (), requested target f s)"
    unfolding up by (simp add: krun set_cpu_at_spl b set_cpu_locked r rel [OF rs] lev)
  finally have "ipi_tlbshootdown target m s = (Inr (), requested target f s)" .
  moreover have "sched_ok W (requested target f s)"
    by (rule sched_ok_cong(1) [OF ok]) (auto simp: requested_def i f)
  ultimately show "ipi_tlbshootdown target m s = (Inr (), requested target f s) \<and> sched_ok W (requested target f s)" ..
qed

text \<open>C30: a CPU's queue of TLB shootdown requests: up to 16 requests are stored in order; the 17th
  replaces them by ``flush everything''; but the code then takes that mark, -1, as an index, so any
  further request before the CPU has handled its interrupt writes outside the queue (behaviour C
  does not define).\<close>

lemma shootdowns_store:
  "\<lbrakk>sched_ok W s; c_numshootdown (cpus s target) = int k; length (c_shootdown (cpus s target)) = 16; k + length ms \<le> 16\<rbrakk> \<Longrightarrow>
   \<exists>t. shootdowns target ms s = (Inr (), t) \<and> sched_ok W t \<and> c_numshootdown (cpus t target) = int (k + length ms) \<and>
     c_shootdown (cpus t target) = overlay k ms (c_shootdown (cpus s target))"
proof (induction ms arbitrary: k s)
  case Nil
  then show ?case by (simp add: kreturn_def overlay_def)
next
  case (Cons m ms)
  let ?n = "word_of_int (c_numshootdown (cpus s target)) :: u32"
  have n: "?n = of_nat k" "unat ?n = k" using Cons.prems by simp_all
  have n16: "?n \<noteq> 16" "unat ?n < 16" using n(2) Cons.prems(4) by auto
  let ?f = "\<lambda>c. c\<lparr>c_shootdown := (c_shootdown c)[k := m], c_numshootdown := int k + 1\<rparr>"
  have r: "ipi_tlbshootdown target m s = (Inr (), requested target ?f s)" "sched_ok W (requested target ?f s)"
    using tlbshootdown_run(1) [OF Cons.prems(1) refl refl, of target m] n16 n(2) by auto
  have "overlay (Suc k) ms ((c_shootdown (cpus s target))[k := m]) = overlay k (m # ms) (c_shootdown (cpus s target))"
    using Cons.prems by (simp add: overlay_def take_Suc_conv_app_nth)
  then show ?case
    using Cons.IH [OF r(2), of "Suc k"] Cons.prems r(1) by (simp add: kbind_def requested_def)
qed

lemma shootdowns_append: "shootdowns target (ms @ ms') s = kbind (shootdowns target ms) (\<lambda>_. shootdowns target ms') s"
  by (induction ms arbitrary: s) (simp_all add: krun kbind_def split: prod.splits sum.splits)

theorem tlbshootdown_queue_overruns:
  assumes "sched_ok W s" and "c_numshootdown (cpus s target) = 0" and "length (c_shootdown (cpus s target)) = 16"
  shows "(length ms \<le> 16 \<longrightarrow> (\<exists>t. shootdowns target ms s = (Inr (), t) \<and>
      c_numshootdown (cpus t target) = int (length ms) \<and> take (length ms) (c_shootdown (cpus t target)) = ms)) \<and>
    (length ms = 17 \<longrightarrow> (\<exists>t. shootdowns target ms s = (Inr (), t) \<and> c_numshootdown (cpus t target) = TLBSHOOTDOWN_ALL)) \<and>
    (17 < length ms \<longrightarrow> fst (shootdowns target ms s) = Inl UNDEFINED)"
proof -
  have store: "\<exists>t. shootdowns target xs s = (Inr (), t) \<and> sched_ok W t \<and> c_numshootdown (cpus t target) = int (length xs) \<and>
     c_shootdown (cpus t target) = overlay 0 xs (c_shootdown (cpus s target))" if "length xs \<le> 16" for xs
    using shootdowns_store [of W s target 0 xs] assms that by simp
  have full: "\<exists>t. shootdowns target xs s = (Inr (), t) \<and> sched_ok W t \<and> c_numshootdown (cpus t target) = -1"
    if "length xs = 17" for xs
  proof -
    obtain ys y where xs: "xs = ys @ [y]" "length ys = 16" using \<open>length xs = 17\<close> by (cases xs rule: rev_cases) auto
    obtain t where t: "shootdowns target ys s = (Inr (), t)" "sched_ok W t" "c_numshootdown (cpus t target) = 16"
      using store [of ys] xs by auto
    have n: "word_of_int (c_numshootdown (cpus t target)) = (16 :: u32)" by (simp add: t(3))
    let ?u = "requested target (c_numshootdown_update (\<lambda>_. -1)) t"
    have u: "ipi_tlbshootdown target y t = (Inr (), ?u)" "sched_ok W ?u"
      using tlbshootdown_run(1) [OF t(2) n [symmetric] refl, of y] by simp_all
    have "shootdowns target xs s = (Inr (), ?u)"
      unfolding xs(1) shootdowns_append by (simp add: kbind_def t(1) u(1) kreturn_def)
    moreover have "c_numshootdown (cpus ?u target) = -1" by (simp add: requested_def)
    ultimately show ?thesis using u(2) by blast
  qed
  have "fst (shootdowns target ms s) = Inl UNDEFINED" if long: "17 < length ms"
  proof -
    have "length (take 17 ms) = 17" using long by simp
    with id_take_nth_drop [OF long] obtain ys y zs where ms: "ms = ys @ y # zs" "length ys = 17" by blast
    obtain t where t: "shootdowns target ys s = (Inr (), t)" "sched_ok W t" "c_numshootdown (cpus t target) = -1"
      using full ms(2) by blast
    have n: "word_of_int (c_numshootdown (cpus t target)) = (-1 :: u32)" by (simp add: t(3))
    have "\<not> ((-1 :: u32) = 16 \<or> unat (-1 :: u32) < 16)" by (simp add: unsigned_minus_1_eq_mask mask_eq_exp_minus_1)
    then have "fst (ipi_tlbshootdown target y t) = Inl UNDEFINED"
      using tlbshootdown_run(2) [OF t(2) n [symmetric] refl, of y] by blast
    then show ?thesis using t(1) by (auto simp: ms(1) shootdowns_append kbind_def split: prod.splits sum.splits)
  qed
  then show ?thesis
    using store [of ms] full [of ms] by (auto simp: overlay_def TLBSHOOTDOWN_ALL_def)
qed

subsection \<open>Sleeping for a time\<close>

lemma release_not_held:
  assumes "splk_holder (spinlocks s l) \<noteq> Some (curcpu s)"
  shows "fst (spinlock_release l s) = Inl PANIC"
  using assms by (simp add: spinlock_release_def krun kbind_def kassert_def)

text \<open>C40: \<open>clocksleep\<close> does not work: it calls \<open>wchan_sleep\<close> without the lock of \<open>lbolt\<close>, which
  \<open>thread_switch\<close> releases, so every sleep of a second or more stops the machine.\<close>

theorem clocksleep_panics:
  assumes "sched_ok W s"
  shows "fst (clocksleep env lbolt (Suc n) s) = Inl PANIC"
proof -
  obtain cth where c: "threads s (curthread s) = Some cth" "running_ok (curcpu s) (c_irq (this_cpu s)) cth"
    and spl: "t_curspl cth = 0 \<or> t_curspl cth = 1" and s: "s = at_spl (t_curspl cth) (t_curspl cth) s"
    using sched_ok_current [OF assms] by metis
  have oc: "on_cpu s" by (simp add: on_cpu_def c)
  have idle: "\<not> c_isidle (this_cpu s)" and free: "\<forall>l. spinlocks s l = lock_free"
    using assms by (auto simp: sched_ok_def cpu_ok_def)
  let ?rq = "RunqueueLock (curcpu s)"
  have h: "splhigh s = (Inr (t_curspl cth), at_spl 1 1 s)"
    using splhigh_departing [OF oc spl, of S_READY] s by (simp add: departing_def)
  have acq: "spinlock_acquire ?rq (at_spl 1 1 s) = (Inr (), at_spl 1 2 (locked ?rq s))"
    using acquire_at [of s 1 ?rq 1] oc free by auto
  have "fst (place S_SLEEP lbolt (curthread s) (at_spl 1 2 (locked ?rq s))) = Inl PANIC"
    by (simp add: place_def krun set_thread_def, rule release_not_held) (simp add: free)
  then obtain x where pl: "place S_SLEEP lbolt (curthread s) (at_spl 1 2 (locked ?rq s)) = (Inl PANIC, x)"
    by (metis prod.collapse)
  have "thread_switch env S_SLEEP lbolt s = (Inl PANIC, x)"
    using pl by (simp add: thread_switch_split kbind_def [of splhigh] h krun idle
        kbind_def [of "spinlock_acquire ?rq"] acq kbind_def [of "place _ _ _"])
  then show ?thesis
    using c by (cases "t_in_interrupt cth")
      (simp_all add: wchan_sleep_def krun kbind_assoc kbind_get_thread kbind_def [of "thread_switch _ _ _"]
        kbind_def [of "kassert _"] kassert_def)
qed


subsection \<open>A machine to apply them to\<close>

definition off_machine :: machine where
  "off_machine = \<lparr>numcpus = 0, cpus = \<lambda>_. \<lparr>c_curthread = 0, c_zombies = [], c_hardclocks = 0, c_isidle = False,
       c_runqueue = [], c_ipi_pending = 0, c_shootdown = replicate 16 0, c_numshootdown = 0, c_irq = False, c_active_as = None\<rparr>,
     curcpu = 0, threads = Map.empty, wc_threads = \<lambda>_. [], spinlocks = \<lambda>_. lock_free, vn_refcount = \<lambda>_. 0\<rparr>"

definition booted :: machine where
  "booted = snd (thread_bootstrap True True (Some 0) (replicate 16 0) off_machine)"

definition waiting_thread :: thread where
  "waiting_thread = \<lparr>t_state = S_READY, t_wchan_name = None, t_context = Startup, t_cpu = 0, t_in_interrupt = False,
           t_curspl = 1, t_iplhigh_count = 2, t_addrspace = None, t_cwd = None\<rparr>"

text \<open>CPU 0 runs thread 0 and has threads 2, 3 and 4 waiting; CPU 1 runs thread 1.\<close>

definition two_cpus :: machine where
  "two_cpus = off_machine\<lparr>numcpus := 2,
     cpus := (cpus off_machine)(0 := (cpus off_machine 0)\<lparr>c_runqueue := [2, 3, 4]\<rparr>, 1 := (cpus off_machine 0)\<lparr>c_curthread := 1\<rparr>),
     threads := [0 \<mapsto> waiting_thread\<lparr>t_iplhigh_count := 1\<rparr>, 1 \<mapsto> waiting_thread\<lparr>t_iplhigh_count := 1, t_cpu := 1\<rparr>,
       2 \<mapsto> waiting_thread, 3 \<mapsto> waiting_thread, 4 \<mapsto> waiting_thread]\<rparr>"

lemma power_on_off_machine: "power_on off_machine"
  by (simp add: power_on_def off_machine_def)

lemma booted_boot: "thread_bootstrap True True (Some 0) (replicate 16 0) off_machine = (Inr (), booted)"
  by (simp add: booted_def bootstrap_run)

lemma two_cpus_ok: "finite W \<Longrightarrow> sched_ok W two_cpus"
proof -
  assume W: "finite W"
  have two: "{..<2::nat} = {0, 1}" by auto
  have "cpu_ok two_cpus i" if "i < 2" for i
    using that by (auto simp: less_2_cases_iff cpu_ok_def two_cpus_def off_machine_def waiting_thread_def running_ok_def
        queued_ok_def suspended_def)
  then show ?thesis
    using W by (simp add: sched_ok_def places_def two cpu_places_def) (simp add: two_cpus_def off_machine_def two)
qed


theorem thread_yield_rotates_witness:
  "\<exists>t. yields 6 two_cpus = (Inr (), t) \<and> curthread t = 3 \<and> c_runqueue (this_cpu t) = [4, 0, 2]"
proof -
  have "rotate 6 [0::nat, 2, 3, 4] = [3, 4, 0, 2]" by code_simp
  then show ?thesis
    using thread_yield_rotates [OF two_cpus_ok [of "{}"], of 6] by (auto simp: two_cpus_def off_machine_def)
qed

theorem thread_consider_migration_balances_witness:
  "\<exists>t. thread_consider_migration two_cpus = (Inr (), t) \<and> load t 0 = 2 \<and> load t 1 \<le> 2 \<and> places {} t = places {} two_cpus"
proof -
  have two: "{..<2::nat} = {0, 1}" by auto
  have l: "load two_cpus 0 = 3" "load two_cpus 1 = 0" "numcpus two_cpus = 2" "curcpu two_cpus = 0"
    by (simp_all add: load_def two_cpus_def off_machine_def)
  have "total_load two_cpus = 3" "fair_share two_cpus = 2"
    by (simp_all add: fair_share_def total_load_def l l(2) [unfolded One_nat_def] two)
  then obtain t where "thread_consider_migration two_cpus = (Inr (), t)" "places {} t = places {} two_cpus"
    "load t 0 = 2" "\<forall>i<2. i \<noteq> 0 \<longrightarrow> load two_cpus i \<le> load t i \<and> load t i \<le> max (load two_cpus i) 2"
    using thread_consider_migration_balances [OF two_cpus_ok [of "{}"]] l by auto
  moreover from this(4) have "load t 1 \<le> 2" using l(2) by (drule_tac spec [of _ 1]) simp
  ultimately show ?thesis by blast
qed

theorem sleepers_wake_in_order_witness:
  "\<exists>t u. sleep_on [] 9 two_cpus = (Inr (), t) \<and> curthread t = 2 \<and> wc_threads t 9 = [0] \<and>
     wchan_wakeall 9 t = (Inr (), u) \<and> wc_threads u 9 = []"
  using sleepers_wake_in_order [OF two_cpus_ok [of "{9}"], of 9 2 "[3, 4]"]
  by (auto simp: two_cpus_def off_machine_def in_interrupt_def waiting_thread_def)

theorem tlbshootdown_queue_overruns_witness:
  "fst (shootdowns 1 [0..<18] two_cpus) = Inl UNDEFINED"
  using tlbshootdown_queue_overruns [OF two_cpus_ok [of "{}"], of 1 "[0..<18]"]
  by (simp add: two_cpus_def off_machine_def del: upt_rec_numeral)

theorem clocksleep_panics_witness: "fst (clocksleep [] 9 (Suc 0) two_cpus) = Inl PANIC"
  by (rule clocksleep_panics [OF two_cpus_ok [of "{}"]]) simp

end
