(* ===== verification/Waiters.thy ===== *)
theory Waiters
  imports Prelude
begin

text \<open>
  What the machines of concurrent threads share. A thread is at a place of the code, \<open>f t\<close>; \<open>f\<close> is
  its program counter as a function of the thread.

  \<^item> \<open>guards l held f\<close>: the spinlock \<open>l\<close> is held by exactly the thread at a place where it is held.
  \<^item> The locale \<open>wait_channel\<close> is the contract of a wait channel with a client machine
    (\<^verbatim>\<open>kern/thread/thread.c\<close>): the client says at which places a thread is on the list but has not
    gone off its CPU (\<open>queued\<close>), at which it is asleep, and which threads a waker has taken off the
    list and not yet made runnable (\<open>waking\<close>). The list holds exactly the threads that are asleep
    and not about to be woken; every operation on the channel keeps that.
\<close>

definition guards :: "nat option \<Rightarrow> ('p \<Rightarrow> bool) \<Rightarrow> (nat \<Rightarrow> 'p) \<Rightarrow> bool" where
  "guards l held f \<longleftrightarrow> (\<forall>t. l = Some t \<longleftrightarrow> held (f t))"

lemma guards_acquire: "guards None H f \<Longrightarrow> H p \<Longrightarrow> guards (Some t) H (f(t := p))"
  by (auto simp: guards_def)

lemma guards_release: "guards l H f \<Longrightarrow> H (f t) \<Longrightarrow> \<not> H p \<Longrightarrow> guards None H (f(t := p))"
  unfolding guards_def by (metis fun_upd_apply option.distinct(1) option.inject)

lemma guards_keep: "guards l H f \<Longrightarrow> H p = H (f t) \<Longrightarrow> guards l H (f(t := p))"
  by (auto simp: guards_def)

lemma guards_unique: "guards l H f \<Longrightarrow> H (f t) \<Longrightarrow> H (f u) \<Longrightarrow> u = t"
  unfolding guards_def by (metis option.inject)

lemma guards_none: "guards None H f \<Longrightarrow> \<not> H (f u)"
  unfolding guards_def by (metis option.distinct(1))

lemma guards_holder: "guards l H f \<Longrightarrow> H (f t) \<longleftrightarrow> l = Some t"
  unfolding guards_def by blast

definition chan_inv :: "('p \<Rightarrow> bool) \<Rightarrow> ('p \<Rightarrow> bool) \<Rightarrow> ('p \<Rightarrow> nat list) \<Rightarrow> nat list \<Rightarrow> (nat \<Rightarrow> 'p) \<Rightarrow> bool" where
  "chan_inv queued asleep waking q f \<longleftrightarrow> distinct q \<and>
     (\<forall>t. t \<in> set q \<longleftrightarrow> queued (f t) \<or> asleep (f t) \<and> (\<forall>v. t \<notin> set (waking (f v)))) \<and>
     (\<forall>v t. t \<in> set (waking (f v)) \<longrightarrow> asleep (f t)) \<and>
     (\<forall>v. distinct (waking (f v))) \<and>
     (\<forall>v w. v \<noteq> w \<longrightarrow> set (waking (f v)) \<inter> set (waking (f w)) = {})"

text \<open>A thread that has nothing to do with the channel.\<close>

definition clear_of :: "('p \<Rightarrow> bool) \<Rightarrow> ('p \<Rightarrow> bool) \<Rightarrow> ('p \<Rightarrow> nat list) \<Rightarrow> 'p \<Rightarrow> bool" where
  "clear_of queued asleep waking p \<longleftrightarrow> \<not> queued p \<and> \<not> asleep p \<and> waking p = []"

locale wait_channel =
  fixes queued asleep :: "'p \<Rightarrow> bool" and waking :: "'p \<Rightarrow> nat list"
  assumes asleep_not: "asleep p \<Longrightarrow> \<not> queued p \<and> waking p = []"
    and queued_not: "queued p \<Longrightarrow> waking p = []"
begin

abbreviation inv where "inv \<equiv> chan_inv queued asleep waking"
abbreviation off where "off \<equiv> clear_of queued asleep waking"

lemma keep:
  assumes i: "inv q f" and p: "queued p = queued (f t)" "asleep p = asleep (f t)" "waking p = waking (f t)"
  shows "inv q (f(t := p))"
proof -
  have "queued ((f(t := p)) u) = queued (f u)" "asleep ((f(t := p)) u) = asleep (f u)" "waking ((f(t := p)) u) = waking (f u)" for u
    using p by simp_all
  then show ?thesis using i unfolding chan_inv_def by presburger
qed

lemma keep_off: "inv q f \<Longrightarrow> off (f t) \<Longrightarrow> off p \<Longrightarrow> inv q (f(t := p))"
  by (rule keep) (simp_all add: clear_of_def)

lemma sleeper_not_woken: "inv q f \<Longrightarrow> \<not> asleep (f t) \<Longrightarrow> t \<notin> set (waking (f v))"
  unfolding chan_inv_def by blast

lemma enqueue:
  assumes i: "inv q f" and t: "off (f t)" and p: "queued p"
  shows "inv (q @ [t]) (f(t := p))"
proof -
  have p': "\<not> asleep p" "waking p = []" using p asleep_not queued_not by blast+
  have w: "waking ((f(t := p)) v) = waking (f v)" for v using t p' by (simp add: clear_of_def)
  have "t \<notin> set q" using i t unfolding chan_inv_def clear_of_def by blast
  moreover have "t \<notin> set (waking (f v))" for v using sleeper_not_woken [OF i] t unfolding clear_of_def by blast
  ultimately show ?thesis using i p p' unfolding chan_inv_def w by auto
qed

lemma switch_off:
  assumes i: "inv q f" and t: "queued (f t)" and p: "asleep p"
  shows "inv q (f(t := p))"
proof -
  have p': "\<not> queued p" "waking p = []" using p asleep_not by blast+
  have t': "\<not> asleep (f t)" "waking (f t) = []" using t asleep_not queued_not by blast+
  have w: "waking ((f(t := p)) v) = waking (f v)" for v using t' p' by simp
  have "t \<notin> set (waking (f v))" for v using sleeper_not_woken [OF i t'(1)] .
  then show ?thesis using i p p' t t' unfolding chan_inv_def w by (auto; metis)
qed

text \<open>The head, or the whole list, goes to the waker, who is the only one at the channel.\<close>

lemma take_off:
  assumes i: "inv (xs @ q) f" and t: "off (f t)" and p: "waking p = xs" "\<not> asleep p" "\<not> queued p"
    and alone: "\<And>u. \<not> queued (f u)"
  shows "inv q (f(t := p))"
proof -
  have d: "distinct (xs @ q)" and on: "\<And>u. u \<in> set xs \<union> set q \<longleftrightarrow> asleep (f u) \<and> (\<forall>v. u \<notin> set (waking (f v)))"
    and wk: "\<And>v u. u \<in> set (waking (f v)) \<Longrightarrow> asleep (f u)"
    using i alone unfolding chan_inv_def by auto
  have w: "waking ((f(t := p)) v) = (if v = t then xs else waking (f v))" for v using p by simp
  have nt: "\<not> asleep (f t)" "waking (f t) = []" using t by (simp_all add: clear_of_def)
  have a: "asleep ((f(t := p)) u) = asleep (f u)" for u using p nt by simp
  have qd: "\<not> queued ((f(t := p)) u)" for u using p alone by simp
  have no: "(\<forall>v. u \<notin> set (waking ((f(t := p)) v))) \<longleftrightarrow> u \<notin> set xs \<and> (\<forall>v. u \<notin> set (waking (f v)))" for u
    unfolding w using nt by (metis empty_iff list.set(1))
  have xs: "u \<notin> set (waking (f v))" if "u \<in> set xs" for u v using on that by blast
  have "set (waking ((f(t := p)) v)) \<inter> set (waking ((f(t := p)) v')) = {}" if "v \<noteq> v'" for v v'
    using i that xs unfolding w chan_inv_def by auto
  moreover have "distinct (waking ((f(t := p)) v))" for v using i d unfolding w chan_inv_def by simp
  moreover have "asleep ((f(t := p)) u)" if "u \<in> set (waking ((f(t := p)) v))" for u v
    using that on wk unfolding a w by (auto split: if_splits)
  moreover have "u \<in> set q \<longleftrightarrow> queued ((f(t := p)) u) \<or> asleep ((f(t := p)) u) \<and> (\<forall>v. u \<notin> set (waking ((f(t := p)) v)))" for u
    unfolding no a using qd [of u] on [of u] d by auto
  ultimately show ?thesis using d unfolding chan_inv_def by auto
qed

lemma wake:
  assumes i: "inv q f" and t: "waking (f t) = x # xs" and p: "waking p = xs" "\<not> asleep p" "\<not> queued p" and r: "off r"
  shows "inv q (f(x := r, t := p))" and "asleep (f x)" "x \<noteq> t"
proof -
  have d: "distinct q" and on: "\<And>u. u \<in> set q \<longleftrightarrow> queued (f u) \<or> asleep (f u) \<and> (\<forall>v. u \<notin> set (waking (f v)))"
    and wk: "\<And>v u. u \<in> set (waking (f v)) \<Longrightarrow> asleep (f u)"
    and dw: "\<And>v. distinct (waking (f v))" and dj: "\<And>v w. v \<noteq> w \<Longrightarrow> set (waking (f v)) \<inter> set (waking (f w)) = {}"
    using i unfolding chan_inv_def by auto
  have nt: "\<not> asleep (f t)" "\<not> queued (f t)" using t asleep_not queued_not by (metis list.distinct(1))+
  show x: "asleep (f x)" by (rule wk [of x t]) (simp add: t)
  then have xq: "\<not> queued (f x)" "waking (f x) = []" using asleep_not by blast+
  show xt: "x \<noteq> t" using x nt by auto
  let ?g = "f(x := r, t := p)"
  have w: "set (waking (?g v)) = set (waking (f v)) - {x}" for v
    using p r t xq xt dw [of t] dj [of v t] by (auto simp: clear_of_def)
  have a: "asleep (?g u) \<longleftrightarrow> asleep (f u) \<and> u \<noteq> x" "queued (?g u) = queued (f u)" for u
    using p r nt xq by (auto simp: clear_of_def)
  have "x \<notin> set q" using on [of x] xq t by (auto intro: exI [of _ t])
  then have "u \<in> set q \<longleftrightarrow> queued (?g u) \<or> asleep (?g u) \<and> (\<forall>v. u \<notin> set (waking (?g v)))" for u
    unfolding a w using on [of u] xq by auto
  moreover have "distinct (waking (?g v))" for v using dw [of v] dw [of t] p r t by (auto simp: clear_of_def)
  moreover have "set (waking (?g v)) \<inter> set (waking (?g v')) = {}" if "v \<noteq> v'" for v v'
    unfolding w using dj [OF that] by auto
  moreover have "asleep (?g u)" if "u \<in> set (waking (?g v))" for u v
    using that wk unfolding w a by auto
  ultimately show "inv q ?g" using d unfolding chan_inv_def by auto
qed

lemma sleeper: "inv q f \<Longrightarrow> asleep (f t) \<Longrightarrow> t \<in> set q \<or> (\<exists>v. t \<in> set (waking (f v)))"
  unfolding chan_inv_def by blast

end

end
