(* ===== verification/Semaphore.thy ===== *)
theory Semaphore
  imports Waiters
begin

text \<open>
  Semaphores (\<^verbatim>\<open>kern/thread/synch.c\<close>, \<open>P\<close> and \<open>V\<close>) as a machine in which any number of threads run at
  once. A thread is at one place of the code (\<open>sem_pc\<close>); a step of a thread is one access to the
  shared state: taking or giving back a spinlock, testing or changing the count, going on or off
  the wait channel's list. The spinlocks \<open>sem_lock\<close> and the wait channel's \<open>wc_lock\<close> are held by
  at most one thread; a thread that spins, or sleeps in \<open>thread_switch\<close>, has no step. The body of
  \<open>wchan_sleep\<close> is that of \<open>thread_switch\<close> (queue, unlock the channel, stop), the body of
  \<open>wchan_wakeone\<close> takes the head off the list under the channel's lock and then makes it runnable.
  Ghost counters record the completed decrements and increments. An interrupt handler that calls \<open>V\<close>
  counts as a thread of its own (a thread that holds a spinlock has interrupts off, so it is not
  interrupted in the middle); \<open>P\<close> asserts that it is not called from one; its
  callers here are threads.
\<close>

subsection \<open>The code\<close>

datatype sem_pc =
    Idle
  | P_acquire | P_test | P_wclock | P_release | P_enqueue | P_unlock | P_asleep | P_reacquire | P_take | P_done
  | V_acquire | V_count | V_wclock | V_pop | V_unlock "nat option" | V_wake nat | V_done

record semaphore =
  sem_count :: u32
  sem_lock :: "nat option"
  wc_lock :: "nat option"
  wc_queue :: "nat list"
  at_pc :: "nat \<Rightarrow> sem_pc"
  decrements :: nat
  increments :: nat

definition goto :: "nat \<Rightarrow> sem_pc \<Rightarrow> semaphore \<Rightarrow> semaphore" where
  "goto t p s = s\<lparr>at_pc := (at_pc s)(t := p)\<rparr>"

text \<open>The step of thread \<open>t\<close>, if it has one: the next state, or the failed assertion.\<close>

fun P_step :: "nat \<Rightarrow> sem_pc \<Rightarrow> semaphore \<Rightarrow> semaphore result option" where
  "P_step t P_acquire s = (if sem_lock s = None then Some (Inr (goto t P_test (s\<lparr>sem_lock := Some t\<rparr>))) else None)"
| "P_step t P_test s = Some (Inr (goto t (if sem_count s = 0 then P_wclock else P_take) s))"
| "P_step t P_wclock s = (if wc_lock s = None then Some (Inr (goto t P_release (s\<lparr>wc_lock := Some t\<rparr>))) else None)"
| "P_step t P_release s = Some (Inr (goto t P_enqueue (s\<lparr>sem_lock := None\<rparr>)))"
| "P_step t P_enqueue s = Some (Inr (goto t P_unlock (s\<lparr>wc_queue := wc_queue s @ [t]\<rparr>)))"
| "P_step t P_unlock s = Some (Inr (goto t P_asleep (s\<lparr>wc_lock := None\<rparr>)))"
| "P_step t P_reacquire s = (if sem_lock s = None then Some (Inr (goto t P_test (s\<lparr>sem_lock := Some t\<rparr>))) else None)"
| "P_step t P_take s = Some (if 0 < sem_count s
     then Inr (goto t P_done (s\<lparr>sem_count := sem_count s - 1, decrements := decrements s + 1\<rparr>)) else Inl PANIC)"
| "P_step t P_done s = Some (Inr (goto t Idle (s\<lparr>sem_lock := None\<rparr>)))"
| "P_step t _ s = None"

fun V_step :: "nat \<Rightarrow> sem_pc \<Rightarrow> semaphore \<Rightarrow> semaphore result option" where
  "V_step t V_acquire s = (if sem_lock s = None then Some (Inr (goto t V_count (s\<lparr>sem_lock := Some t\<rparr>))) else None)"
| "V_step t V_count s = Some (if 0 < sem_count s + 1
     then Inr (goto t V_wclock (s\<lparr>sem_count := sem_count s + 1, increments := increments s + 1\<rparr>)) else Inl PANIC)"
| "V_step t V_wclock s = (if wc_lock s = None then Some (Inr (goto t V_pop (s\<lparr>wc_lock := Some t\<rparr>))) else None)"
| "V_step t V_pop s = Some (Inr (case wc_queue s of
       [] \<Rightarrow> goto t (V_unlock None) s
     | x # q \<Rightarrow> goto t (V_unlock (Some x)) (s\<lparr>wc_queue := q\<rparr>)))"
| "V_step t (V_unlock target) s = Some (Inr (goto t
     (case target of None \<Rightarrow> V_done | Some x \<Rightarrow> V_wake x) (s\<lparr>wc_lock := None\<rparr>)))"
| "V_step t (V_wake x) s = Some (Inr (goto t V_done (goto x P_reacquire s)))"
| "V_step t V_done s = Some (Inr (goto t Idle (s\<lparr>sem_lock := None\<rparr>)))"
| "V_step t _ s = None"

definition sem_step :: "nat \<Rightarrow> semaphore \<Rightarrow> semaphore result option" where
  "sem_step t s = (case P_step t (at_pc s t) s of Some r \<Rightarrow> Some r | None \<Rightarrow> V_step t (at_pc s t) s)"

definition sem_new :: "u32 \<Rightarrow> semaphore" where
  "sem_new n = \<lparr>sem_count = n, sem_lock = None, wc_lock = None, wc_queue = [], at_pc = \<lambda>_. Idle,
     decrements = 0, increments = 0\<rparr>"

text \<open>Any thread may call \<open>P\<close> or \<open>V\<close> at any time; threads take their steps in any order.\<close>

inductive sem_reach :: "u32 \<Rightarrow> semaphore \<Rightarrow> bool" for n where
  created: "sem_reach n (sem_new n)"
| call_P: "sem_reach n s \<Longrightarrow> at_pc s t = Idle \<Longrightarrow> sem_reach n (goto t P_acquire s)"
| call_V: "sem_reach n s \<Longrightarrow> at_pc s t = Idle \<Longrightarrow> sem_reach n (goto t V_acquire s)"
| go_on: "sem_reach n s \<Longrightarrow> sem_step t s = Some (Inr s') \<Longrightarrow> sem_reach n s'"

subsection \<open>The invariant\<close>

fun has_sem_lock :: "sem_pc \<Rightarrow> bool" where
  "has_sem_lock P_test = True" | "has_sem_lock P_wclock = True" | "has_sem_lock P_release = True"
| "has_sem_lock P_take = True" | "has_sem_lock P_done = True"
| "has_sem_lock V_count = True" | "has_sem_lock V_wclock = True" | "has_sem_lock V_pop = True"
| "has_sem_lock (V_unlock _) = True" | "has_sem_lock (V_wake _) = True" | "has_sem_lock V_done = True"
| "has_sem_lock _ = False"

fun has_wc_lock :: "sem_pc \<Rightarrow> bool" where
  "has_wc_lock P_release = True" | "has_wc_lock P_enqueue = True" | "has_wc_lock P_unlock = True"
| "has_wc_lock V_pop = True" | "has_wc_lock (V_unlock _) = True"
| "has_wc_lock _ = False"

text \<open>On the way to look at the count, or to wake someone who will.\<close>

fun en_route :: "sem_pc \<Rightarrow> bool" where
  "en_route P_reacquire = True" | "en_route P_test = True" | "en_route P_take = True"
| "en_route V_wclock = True" | "en_route V_pop = True" | "en_route (V_unlock x) = (x \<noteq> None)" | "en_route (V_wake _) = True"
| "en_route _ = False"

text \<open>The semaphore's use of its wait channel.\<close>

fun waking :: "sem_pc \<Rightarrow> nat list" where
  "waking (V_unlock (Some x)) = [x]" | "waking (V_wake x) = [x]" | "waking _ = []"

interpretation sem_chan: wait_channel "\<lambda>p. p = P_unlock" "\<lambda>p. p = P_asleep" waking
  by unfold_locales auto

definition locks_inv :: "semaphore \<Rightarrow> bool" where
  "locks_inv s \<longleftrightarrow> guards (sem_lock s) has_sem_lock (at_pc s) \<and> guards (wc_lock s) has_wc_lock (at_pc s)"

definition queue_inv :: "semaphore \<Rightarrow> bool" where
  "queue_inv s \<longleftrightarrow> sem_chan.inv (wc_queue s) (at_pc s)"

definition test_inv :: "semaphore \<Rightarrow> bool" where
  "test_inv s \<longleftrightarrow> (\<forall>t. at_pc s t = P_wclock \<or> at_pc s t = P_release \<longrightarrow> sem_count s = 0) \<and>
     (\<forall>t. at_pc s t = P_take \<longrightarrow> 0 < sem_count s)"

definition wake_inv :: "semaphore \<Rightarrow> bool" where
  "wake_inv s \<longleftrightarrow> finite {t. at_pc s t \<noteq> Idle} \<and>
     (wc_queue s = [] \<and> (\<forall>t. at_pc s t \<noteq> P_enqueue) \<or> unat (sem_count s) \<le> card {t. en_route (at_pc s t)})"

definition count_inv :: "u32 \<Rightarrow> semaphore \<Rightarrow> bool" where
  "count_inv n s \<longleftrightarrow> unat (sem_count s) + decrements s = unat n + increments s"

lemma card_goto:
  assumes fin: "finite {u. Q (f u)}"
  shows "card {u. Q ((f(t := p)) u)} + of_bool (Q (f t)) = card {u. Q (f u)} + of_bool (Q p)"
proof -
  let ?A = "{u. Q (f u)}"
  have new: "{u. Q ((f(t := p)) u)} = (if Q p then insert t (?A - {t}) else ?A - {t})" by auto
  have "card (?A - {t}) + of_bool (Q (f t)) = card ?A"
    using fin card.remove [of ?A t] by auto
  moreover have "card (insert t (?A - {t})) = Suc (card (?A - {t}))" using fin by (intro card_insert_disjoint) auto
  ultimately show ?thesis unfolding new by (cases "Q p") simp_all
qed

lemma goto_sel [simp]:
  "sem_count (goto t p s) = sem_count s" "sem_lock (goto t p s) = sem_lock s" "wc_lock (goto t p s) = wc_lock s"
  "wc_queue (goto t p s) = wc_queue s" "decrements (goto t p s) = decrements s" "increments (goto t p s) = increments s"
  "at_pc (goto t p s) = (at_pc s)(t := p)"
  by (simp_all add: goto_def)

lemma word_pos_count: "0 < c + 1 \<Longrightarrow> unat (c + 1 :: u32) = Suc (unat c)"
  by (metis Suc_eq_plus1 unatSuc add.commute word_gt_0)

text \<open>The steps, one case each.\<close>

lemma sem_step_cases:
  assumes "sem_step t s = Some (Inr s')"
  obtains
    (P_acquire) "at_pc s t = P_acquire" "sem_lock s = None" "s' = goto t P_test (s\<lparr>sem_lock := Some t\<rparr>)"
  | (sleep) "at_pc s t = P_test" "sem_count s = 0" "s' = goto t P_wclock s"
  | (go) "at_pc s t = P_test" "0 < sem_count s" "s' = goto t P_take s"
  | (P_wclock) "at_pc s t = P_wclock" "wc_lock s = None" "s' = goto t P_release (s\<lparr>wc_lock := Some t\<rparr>)"
  | (P_release) "at_pc s t = P_release" "s' = goto t P_enqueue (s\<lparr>sem_lock := None\<rparr>)"
  | (P_enqueue) "at_pc s t = P_enqueue" "s' = goto t P_unlock (s\<lparr>wc_queue := wc_queue s @ [t]\<rparr>)"
  | (P_unlock) "at_pc s t = P_unlock" "s' = goto t P_asleep (s\<lparr>wc_lock := None\<rparr>)"
  | (P_reacquire) "at_pc s t = P_reacquire" "sem_lock s = None" "s' = goto t P_test (s\<lparr>sem_lock := Some t\<rparr>)"
  | (P_take) "at_pc s t = P_take" "0 < sem_count s"
      "s' = goto t P_done (s\<lparr>sem_count := sem_count s - 1, decrements := decrements s + 1\<rparr>)"
  | (P_done) "at_pc s t = P_done" "s' = goto t Idle (s\<lparr>sem_lock := None\<rparr>)"
  | (V_acquire) "at_pc s t = V_acquire" "sem_lock s = None" "s' = goto t V_count (s\<lparr>sem_lock := Some t\<rparr>)"
  | (V_count) "at_pc s t = V_count" "0 < sem_count s + 1"
      "s' = goto t V_wclock (s\<lparr>sem_count := sem_count s + 1, increments := increments s + 1\<rparr>)"
  | (V_wclock) "at_pc s t = V_wclock" "wc_lock s = None" "s' = goto t V_pop (s\<lparr>wc_lock := Some t\<rparr>)"
  | (nobody) "at_pc s t = V_pop" "wc_queue s = []" "s' = goto t (V_unlock None) s"
  | (V_pop) x q where "at_pc s t = V_pop" "wc_queue s = x # q" "s' = goto t (V_unlock (Some x)) (s\<lparr>wc_queue := q\<rparr>)"
  | (unlock) "at_pc s t = V_unlock None" "s' = goto t V_done (s\<lparr>wc_lock := None\<rparr>)"
  | (V_unlock) x where "at_pc s t = V_unlock (Some x)" "s' = goto t (V_wake x) (s\<lparr>wc_lock := None\<rparr>)"
  | (V_wake) x where "at_pc s t = V_wake x" "s' = goto t V_done (goto x P_reacquire s)"
  | (V_done) "at_pc s t = V_done" "s' = goto t Idle (s\<lparr>sem_lock := None\<rparr>)"
proof (cases "at_pc s t")
  case P_acquire
  then show ?thesis using assms that(1) by (auto simp: sem_step_def word_gt_0 split: if_splits list.splits option.splits)
next
  case P_test
  then show ?thesis using assms that(2,3) by (auto simp: sem_step_def word_gt_0 split: if_splits list.splits option.splits)
next
  case P_wclock
  then show ?thesis using assms that(4) by (auto simp: sem_step_def word_gt_0 split: if_splits list.splits option.splits)
next
  case P_release
  then show ?thesis using assms that(5) by (auto simp: sem_step_def word_gt_0 split: if_splits list.splits option.splits)
next
  case P_enqueue
  then show ?thesis using assms that(6) by (auto simp: sem_step_def word_gt_0 split: if_splits list.splits option.splits)
next
  case P_unlock
  then show ?thesis using assms that(7) by (auto simp: sem_step_def word_gt_0 split: if_splits list.splits option.splits)
next
  case P_reacquire
  then show ?thesis using assms that(8) by (auto simp: sem_step_def word_gt_0 split: if_splits list.splits option.splits)
next
  case P_take
  then show ?thesis using assms that(9) by (auto simp: sem_step_def word_gt_0 split: if_splits list.splits option.splits)
next
  case P_done
  then show ?thesis using assms that(10) by (auto simp: sem_step_def word_gt_0 split: if_splits list.splits option.splits)
next
  case V_acquire
  then show ?thesis using assms that(11) by (auto simp: sem_step_def word_gt_0 split: if_splits list.splits option.splits)
next
  case V_count
  then show ?thesis using assms that(12) by (auto simp: sem_step_def word_gt_0 split: if_splits list.splits option.splits)
next
  case V_wclock
  then show ?thesis using assms that(13) by (auto simp: sem_step_def word_gt_0 split: if_splits list.splits option.splits)
next
  case V_pop
  then show ?thesis using assms that(14,15) by (auto simp: sem_step_def word_gt_0 split: if_splits list.splits option.splits)
next
  case (V_unlock x)
  then show ?thesis using assms that(16,17) by (auto simp: sem_step_def word_gt_0 split: if_splits list.splits option.splits)
next
  case (V_wake x)
  then show ?thesis using assms that(18) by (auto simp: sem_step_def word_gt_0 split: if_splits list.splits option.splits)
next
  case V_done
  then show ?thesis using assms that(19) by (auto simp: sem_step_def word_gt_0 split: if_splits list.splits option.splits)
next
  case Idle
  then show ?thesis using assms by (simp add: sem_step_def)
next
  case P_asleep
  then show ?thesis using assms by (simp add: sem_step_def)
qed

lemma woken_asleep: "queue_inv s \<Longrightarrow> x \<in> set (waking (at_pc s v)) \<Longrightarrow> at_pc s x = P_asleep"
  unfolding queue_inv_def chan_inv_def by blast

lemma step_locks:
  assumes l: "locks_inv s" and q: "queue_inv s" and st: "sem_step t s = Some (Inr s')"
  shows "locks_inv s'"
proof -
  have g: "guards (sem_lock s) has_sem_lock (at_pc s)" "guards (wc_lock s) has_wc_lock (at_pc s)"
    using l by (simp_all add: locks_inv_def)
  from st show ?thesis
  proof (cases rule: sem_step_cases)
    case (V_wake x)
    have x: "at_pc s x = P_asleep" by (rule woken_asleep [OF q, of _ t]) (simp add: V_wake)
    have "locks_inv (goto x P_reacquire s)"
      unfolding locks_inv_def goto_sel by (intro conjI guards_keep g) (simp_all only: x has_sem_lock.simps has_wc_lock.simps)
    moreover have "x \<noteq> t" using x V_wake by auto
    ultimately show ?thesis using V_wake by (simp add: locks_inv_def guards_keep)
  qed (use g in \<open>simp add: locks_inv_def guards_acquire guards_keep guards_release [OF g(1)] guards_release [OF g(2)]\<close>)+
qed

lemma step_queue:
  assumes l: "locks_inv s" and q: "queue_inv s" and st: "sem_step t s = Some (Inr s')"
  shows "queue_inv s'"
proof -
  have i: "sem_chan.inv (wc_queue s) (at_pc s)" using q by (simp add: queue_inv_def)
  have alone: "\<not> at_pc s u = P_unlock" if "has_wc_lock (at_pc s t)" "at_pc s t \<noteq> P_unlock" for u
    using l guards_unique [of "wc_lock s" has_wc_lock "at_pc s" t u] that unfolding locks_inv_def by auto
  from st show ?thesis
  proof (cases rule: sem_step_cases)
    case P_enqueue
    then show ?thesis using sem_chan.enqueue [OF i, of t P_unlock] by (simp add: queue_inv_def clear_of_def)
  next
    case P_unlock
    then show ?thesis using sem_chan.switch_off [OF i, of t P_asleep] by (simp add: queue_inv_def)
  next
    case (V_pop x q)
    have "sem_chan.inv q ((at_pc s)(t := V_unlock (Some x)))"
      using i alone V_pop by (intro sem_chan.take_off [of "[x]"]) (simp_all add: clear_of_def)
    then show ?thesis by (simp add: queue_inv_def V_pop)
  next
    case (V_unlock x)
    have "sem_chan.inv (wc_queue s) ((at_pc s)(t := V_wake x))"
      by (rule sem_chan.keep [OF i]) (simp_all add: V_unlock)
    then show ?thesis by (simp add: queue_inv_def V_unlock)
  next
    case (V_wake x)
    have "sem_chan.inv (wc_queue s) ((at_pc s)(x := P_reacquire, t := V_done))"
      by (rule sem_chan.wake [OF i, of t x "[]"]) (simp_all add: V_wake clear_of_def)
    then show ?thesis by (simp add: queue_inv_def V_wake)
  qed (use sem_chan.keep_off [OF i] in \<open>simp add: queue_inv_def clear_of_def\<close>)+
qed

lemma test_keep:
  assumes "test_inv s" and "at_pc s' = (at_pc s)(t := p)" and "sem_count s' = sem_count s"
    and "p = P_wclock \<or> p = P_release \<Longrightarrow> sem_count s = 0" and "p = P_take \<Longrightarrow> 0 < sem_count s"
  shows "test_inv s'"
  using assms unfolding test_inv_def by (metis fun_upd_apply)

lemma test_goto:
  assumes "test_inv s" and "s' = goto t p s0" and "at_pc s0 = at_pc s" and "sem_count s0 = sem_count s"
    and "p = P_wclock \<or> p = P_release \<Longrightarrow> sem_count s = 0" and "p = P_take \<Longrightarrow> 0 < sem_count s"
  shows "test_inv s'"
  using assms by (intro test_keep [OF assms(1), of s' t p]) simp_all

lemma step_test:
  assumes l: "locks_inv s" and q: "queue_inv s" and i: "test_inv s" and st: "sem_step t s = Some (Inr s')"
  shows "test_inv s'"
proof -
  have un: "has_sem_lock (at_pc s t) \<Longrightarrow> has_sem_lock (at_pc s v) \<Longrightarrow> v = t" for v
    using l guards_unique unfolding locks_inv_def by metis
  have others: "at_pc s v \<noteq> P_wclock \<and> at_pc s v \<noteq> P_release \<and> at_pc s v \<noteq> P_take" if "has_sem_lock (at_pc s t)" "v \<noteq> t" for v
    using un [OF that(1), of v] that(2) by auto
  from st show ?thesis
  proof (cases rule: sem_step_cases)
    case P_take
    then show ?thesis using others unfolding test_inv_def by simp
  next
    case V_count
    then show ?thesis using others unfolding test_inv_def by simp
  next
    case (V_wake x)
    have "test_inv (goto x P_reacquire s)" by (rule test_keep [OF i, of _ x P_reacquire]) simp_all
    then show ?thesis by (rule test_keep [of _ _ t V_done]) (simp_all add: V_wake)
  next
    case P_wclock
    then have "sem_count s = 0" using i unfolding test_inv_def by blast
    then show ?thesis by (intro test_keep [OF i, of _ t P_release]) (simp_all add: P_wclock)
  qed ((rule test_goto [OF i], assumption); simp)+
qed

lemma step_count:
  assumes "count_inv n s" and "sem_step t s = Some (Inr s')"
  shows "count_inv n s'"
  using assms(2)
proof (cases rule: sem_step_cases)
  case P_take
  have "unat (sem_count s - 1) = unat (sem_count s) - 1" "0 < unat (sem_count s)"
    using P_take(2) by (simp_all add: word_less_nat_alt unat_sub word_le_nat_alt)
  then show ?thesis using assms(1) P_take by (simp add: count_inv_def)
next
  case V_count
  then show ?thesis using assms(1) word_pos_count [of "sem_count s"] by (simp add: count_inv_def)
qed (use assms(1) in \<open>simp add: count_inv_def\<close>)+


text \<open>No wake-up is lost: each step keeps the count covered.\<close>

definition uncovered :: "semaphore \<Rightarrow> bool" where
  "uncovered s \<longleftrightarrow> wc_queue s \<noteq> [] \<or> (\<exists>t. at_pc s t = P_enqueue)"

lemma wake_inv_alt: "wake_inv s \<longleftrightarrow> finite {t. at_pc s t \<noteq> Idle} \<and> (uncovered s \<longrightarrow> unat (sem_count s) \<le> card {t. en_route (at_pc s t)})"
  by (auto simp: wake_inv_def uncovered_def)

lemma finite_goto: "finite {t. f t \<noteq> Idle} \<Longrightarrow> finite {u. (f(t := p)) u \<noteq> Idle}"
  by (rule finite_subset [of _ "insert t {t. f t \<noteq> Idle}"]) auto

lemma finite_route: "finite {t. f t \<noteq> Idle} \<Longrightarrow> finite {t. en_route (f t)}"
  by (rule finite_subset [of _ "{t. f t \<noteq> Idle}"]) auto

lemma step_wake:
  assumes l: "locks_inv s" and q: "queue_inv s" and i: "test_inv s" and w: "wake_inv s" and st: "sem_step t s = Some (Inr s')"
  shows "wake_inv s'"
proof -
  have fin: "finite {t. at_pc s t \<noteq> Idle}" and cov: "uncovered s \<Longrightarrow> unat (sem_count s) \<le> card {t. en_route (at_pc s t)}"
    using w by (simp_all add: wake_inv_alt)
  note card = card_goto [of en_route "at_pc s" t, OF finite_route [OF fin]]
  have no_enq: "at_pc s v \<noteq> P_enqueue" if "has_wc_lock (at_pc s t)" "v \<noteq> t" for v
    using l guards_unique [of "wc_lock s" has_wc_lock "at_pc s" t v] that unfolding locks_inv_def by auto
  have gen: "wake_inv s'" if f: "at_pc s' = (at_pc s)(t := p)" and u: "uncovered s' \<Longrightarrow> uncovered s"
    and c: "unat (sem_count s) \<le> card {u. en_route (at_pc s u)} \<Longrightarrow>
      unat (sem_count s') + of_bool (en_route (at_pc s t)) \<le> card {u. en_route (at_pc s u)} + of_bool (en_route p)" for p
  proof -
    have "unat (sem_count s') \<le> card {u. en_route (at_pc s' u)}" if "uncovered s'"
      using c [OF cov [OF u [OF that]]] card [of p] unfolding f by linarith
    moreover have "finite {u. at_pc s' u \<noteq> Idle}" unfolding f by (rule finite_goto [OF fin])
    ultimately show ?thesis unfolding wake_inv_alt by blast
  qed
  have keep: "wake_inv s'" if "at_pc s' = (at_pc s)(t := p)" "sem_count s' = sem_count s" "en_route (at_pc s t) \<Longrightarrow> en_route p"
    "uncovered s' \<Longrightarrow> uncovered s" for p
    by (rule gen [OF that(1,4)]) (use that(2,3) in auto)
  from st show ?thesis
  proof (cases rule: sem_step_cases)
    case sleep
    then show ?thesis using finite_goto [OF fin, of t P_wclock] by (simp add: wake_inv_alt)
  next
    case P_release
    then have "sem_count s = 0" using i by (auto simp: test_inv_def)
    then show ?thesis using P_release finite_goto [OF fin, of t P_enqueue] by (simp add: wake_inv_alt)
  next
    case P_enqueue
    then show ?thesis by (intro keep [of P_unlock]) (auto simp: uncovered_def)
  next
    case P_take
    have c: "unat (sem_count s - 1) = unat (sem_count s) - 1"
      using P_take(2) by (simp add: word_less_nat_alt unat_sub word_le_nat_alt)
    have "uncovered s' \<Longrightarrow> uncovered s" using P_take by (auto simp: uncovered_def split: if_splits)
    then show ?thesis by (intro gen [of P_done]) (use P_take c in \<open>auto simp: word_less_nat_alt\<close>)
  next
    case V_count
    have "uncovered s' \<Longrightarrow> uncovered s" using V_count by (auto simp: uncovered_def split: if_splits)
    then show ?thesis by (intro gen [of V_wclock]) (use V_count word_pos_count [OF V_count(2)] in auto)
  next
    case nobody
    then have "\<not> uncovered s'" using no_enq by (auto simp: uncovered_def)
    then show ?thesis using nobody finite_goto [OF fin, of t "V_unlock None"] by (simp add: wake_inv_alt)
  next
    case (V_wake x)
    have x: "at_pc s x = P_asleep" by (rule woken_asleep [OF q, of _ t]) (simp add: V_wake)
    have xt: "x \<noteq> t" using x V_wake by auto
    let ?f = "(at_pc s)(x := P_reacquire)"
    have f: "finite {u. ?f u \<noteq> Idle}" by (rule finite_goto [OF fin])
    have "card {u. en_route (?f u)} = Suc (card {u. en_route (at_pc s u)})"
      using card_goto [of en_route "at_pc s" x P_reacquire, OF finite_route [OF fin]] x by simp
    moreover have "Suc (card {u. en_route ((?f(t := V_done)) u)}) = card {u. en_route (?f u)}"
      using card_goto [of en_route ?f t V_done, OF finite_route [OF f]] xt V_wake by simp
    ultimately have cd: "card {u. en_route ((?f(t := V_done)) u)} = card {u. en_route (at_pc s u)}" by linarith
    have un: "uncovered s' \<Longrightarrow> uncovered s" using V_wake by (auto simp: uncovered_def split: if_splits)
    have at: "at_pc s' = ?f(t := V_done)" "sem_count s' = sem_count s" using V_wake by simp_all
    show ?thesis
      unfolding wake_inv_alt at cd using cov [OF un] finite_goto [OF f, of t V_done] by blast
  next
    case P_acquire
    then show ?thesis by (intro keep [of P_test]) (auto simp: uncovered_def split: if_splits)
  next
    case go
    then show ?thesis by (intro keep [of P_take]) (auto simp: uncovered_def split: if_splits)
  next
    case P_wclock
    then show ?thesis by (intro keep [of P_release]) (auto simp: uncovered_def split: if_splits)
  next
    case P_unlock
    then show ?thesis by (intro keep [of P_asleep]) (auto simp: uncovered_def split: if_splits)
  next
    case P_reacquire
    then show ?thesis by (intro keep [of P_test]) (auto simp: uncovered_def split: if_splits)
  next
    case P_done
    then show ?thesis by (intro keep [of Idle]) (auto simp: uncovered_def split: if_splits)
  next
    case V_acquire
    then show ?thesis by (intro keep [of V_count]) (auto simp: uncovered_def split: if_splits)
  next
    case V_wclock
    then show ?thesis by (intro keep [of V_pop]) (auto simp: uncovered_def split: if_splits)
  next
    case (V_pop x q)
    then show ?thesis by (intro keep [of "V_unlock (Some x)"]) (auto simp: uncovered_def split: if_splits)
  next
    case unlock
    then show ?thesis by (intro keep [of V_done]) (auto simp: uncovered_def split: if_splits)
  next
    case (V_unlock x)
    then show ?thesis by (intro keep [of "V_wake x"]) (auto simp: uncovered_def split: if_splits)
  next
    case V_done
    then show ?thesis by (intro keep [of Idle]) (auto simp: uncovered_def split: if_splits)
  qed
qed


subsection \<open>Every reachable state\<close>

definition sem_inv :: "u32 \<Rightarrow> semaphore \<Rightarrow> bool" where
  "sem_inv n s \<longleftrightarrow> locks_inv s \<and> queue_inv s \<and> test_inv s \<and> wake_inv s \<and> count_inv n s"

lemma call_inv:
  assumes inv: "sem_inv n s" and "at_pc s t = Idle" and p: "p = P_acquire \<or> p = V_acquire"
  shows "sem_inv n (goto t p s)"
proof -
  have fin: "finite {u. at_pc s u \<noteq> Idle}" and cov: "uncovered s \<Longrightarrow> unat (sem_count s) \<le> card {t. en_route (at_pc s t)}"
    using inv by (simp_all add: sem_inv_def wake_inv_alt)
  have "card {u. en_route ((at_pc (goto t p s)) u)} = card {u. en_route (at_pc s u)}"
    using card_goto [of en_route "at_pc s" t p, OF finite_route [OF fin]] assms(2) p by auto
  moreover have "uncovered (goto t p s) \<Longrightarrow> uncovered s" using p by (auto simp: uncovered_def split: if_splits)
  moreover have "finite {u. at_pc (goto t p s) u \<noteq> Idle}" unfolding goto_sel by (rule finite_goto [OF fin])
  ultimately have "wake_inv (goto t p s)" unfolding wake_inv_alt using cov by simp
  moreover have "locks_inv (goto t p s)"
  proof -
    have "guards (sem_lock s) has_sem_lock (at_pc s)" "guards (wc_lock s) has_wc_lock (at_pc s)"
      using inv by (simp_all add: sem_inv_def locks_inv_def)
    then show ?thesis
      unfolding locks_inv_def goto_sel by (intro conjI guards_keep) (use p assms(2) in auto)
  qed
  moreover have "queue_inv (goto t p s)"
    unfolding queue_inv_def goto_sel
  proof (rule sem_chan.keep_off)
    show "sem_chan.inv (wc_queue s) (at_pc s)" using inv by (simp add: sem_inv_def queue_inv_def)
    show "sem_chan.off (at_pc s t)" unfolding assms(2) by (simp add: clear_of_def)
    show "sem_chan.off p" using p by (elim disjE) (simp_all add: clear_of_def)
  qed
  moreover have "test_inv (goto t p s)"
  proof (rule test_goto [of s _ t p s])
    show "test_inv s" using inv by (simp add: sem_inv_def)
    show "sem_count s = 0" if "p = P_wclock \<or> p = P_release" using that p by (elim disjE) simp_all
    show "0 < sem_count s" if "p = P_take" using that p by (elim disjE) simp_all
  qed simp_all
  ultimately show ?thesis using inv by (simp add: sem_inv_def count_inv_def)
qed

lemma reach_inv: "sem_reach n s \<Longrightarrow> sem_inv n s"
proof (induction rule: sem_reach.induct)
  case created
  then show ?case
    by (simp add: sem_inv_def sem_new_def locks_inv_def guards_def queue_inv_def chan_inv_def test_inv_def wake_inv_def count_inv_def)
next
  case (go_on s t s')
  then show ?case
    unfolding sem_inv_def using step_locks step_queue step_test step_wake step_count by blast
qed (use call_inv in blast)+

text \<open>A schedule names the thread that steps next; it is run from a given state.\<close>

fun sem_run :: "nat list \<Rightarrow> semaphore \<Rightarrow> semaphore option" where
  "sem_run [] s = Some s"
| "sem_run (t # ts) s = (case sem_step t s of Some (Inr s') \<Rightarrow> sem_run ts s' | _ \<Rightarrow> None)"

lemma sem_run_reach: "sem_reach n s \<Longrightarrow> sem_run ts s = Some s' \<Longrightarrow> sem_reach n s'"
  by (induction ts s rule: sem_run.induct) (auto intro: go_on split: option.splits sum.splits)

text \<open>C14: semaphores never lose count and never let an unearned \<open>P\<close> through: in every state that any interleaving
  of any threads' calls of \<open>P\<close> and \<open>V\<close> can reach, the count is the initial one plus the completed
  increments minus the completed decrements, at most one thread is in the critical section, and no
  assertion fails but the one in \<open>V\<close> when the count has reached the largest 32-bit number.\<close>

theorem semaphore_counts:
  assumes "sem_reach n s"
  shows "unat (sem_count s) + decrements s = unat n + increments s \<and>
    (\<forall>t u. has_sem_lock (at_pc s t) \<and> has_sem_lock (at_pc s u) \<longrightarrow> t = u) \<and>
    (\<forall>t e. sem_step t s = Some (Inl e) \<longrightarrow> e = PANIC \<and> at_pc s t = V_count \<and> sem_count s = - 1)"
proof (intro conjI allI impI)
  have i: "locks_inv s" "test_inv s" "count_inv n s" using reach_inv [OF assms] by (simp_all add: sem_inv_def)
  show "unat (sem_count s) + decrements s = unat n + increments s" using i(3) by (simp add: count_inv_def)
  show "t = u" if "has_sem_lock (at_pc s t) \<and> has_sem_lock (at_pc s u)" for t u
    using that i(1) guards_unique unfolding locks_inv_def by metis
  show "e = PANIC" "at_pc s t = V_count" "sem_count s = - 1" if st: "sem_step t s = Some (Inl e)" for t e
  proof -
    have take: "at_pc s t = P_take \<Longrightarrow> 0 < sem_count s" using i(2) unfolding test_inv_def by blast
    have "e = PANIC \<and> at_pc s t = V_count \<and> sem_count s + 1 = 0"
      using st take by (cases "at_pc s t") (simp_all add: sem_step_def word_gt_0 split: if_splits list.splits option.splits)
    then show "e = PANIC" "at_pc s t = V_count" "sem_count s = - 1" by (simp_all add: eq_neg_iff_add_eq_0)
  qed
qed

lemma semaphore_counts_witness:
  "\<exists>s. sem_reach 1 s \<and> decrements s = 1 \<and> at_pc s 4 = P_done \<and>
    unat (sem_count s) + decrements s = unat (1 :: u32) + increments s"
proof -
  have "sem_reach 1 (goto 4 P_acquire (sem_new 1))" by (intro call_P created) (simp add: sem_new_def)
  moreover obtain s where s: "sem_run [4, 4, 4] (goto 4 P_acquire (sem_new 1)) = Some s" "decrements s = 1" "at_pc s 4 = P_done"
    by (simp add: sem_step_def sem_new_def)
  ultimately have "sem_reach 1 s" using sem_run_reach by blast
  from this s(2,3) semaphore_counts [OF this] show ?thesis by blast
qed

text \<open>Where threads are when none can take a step.\<close>

lemma free_cover:
  assumes "locks_inv s" "wake_inv s" "sem_lock s = None" "wc_queue s \<noteq> []"
  shows "unat (sem_count s) \<le> card {t. at_pc s t = P_reacquire}"
proof -
  have "\<not> has_sem_lock (at_pc s t)" for t using assms(1,3) guards_none unfolding locks_inv_def by metis
  then have "en_route (at_pc s t) \<longleftrightarrow> at_pc s t = P_reacquire" for t
    by (metis en_route.elims(2) en_route.simps(1) has_sem_lock.simps(1,4,7-10))
  then show ?thesis using assms(2,4) by (simp add: wake_inv_def)
qed

lemma stuck_free:
  assumes l: "locks_inv s" and none: "\<And>t. sem_step t s = None"
  shows "sem_lock s = None"
proof (rule ccontr)
  have wc: "\<not> has_wc_lock (at_pc s t)" for t
    using none [of t] by (cases "at_pc s t") (simp_all add: sem_step_def split: if_splits)
  have free: "wc_lock s = None"
    using l wc unfolding locks_inv_def guards_def by (metis not_None_eq)
  assume "sem_lock s \<noteq> None"
  then obtain t where "has_sem_lock (at_pc s t)" using l unfolding locks_inv_def guards_def by blast
  then show False using none [of t] free by (cases "at_pc s t") (simp_all add: sem_step_def split: if_splits)
qed

lemma stuck_where:
  assumes l: "locks_inv s" and none: "\<And>t. sem_step t s = None" and free: "sem_lock s = None"
  shows "at_pc s t = Idle \<or> at_pc s t = P_asleep"
proof -
  have "\<not> has_sem_lock (at_pc s t)" using l free guards_none unfolding locks_inv_def by metis
  then show ?thesis using none [of t] free by (cases "at_pc s t") (simp_all add: sem_step_def split: if_splits)
qed

text \<open>C5: no wake-up is lost and threads never block each other for good: whenever no thread can take a step,
  every thread that is inside \<open>P\<close> or \<open>V\<close> is asleep in \<open>P\<close> on the wait channel and the count is 0; and
  whenever the semaphore's lock is free while a thread is asleep on the channel, there are at least
  as many woken threads on their way to the count as it would let through.\<close>

theorem semaphore_no_lost_wakeup:
  assumes "sem_reach n s"
  shows "((\<forall>t. sem_step t s = None) \<longrightarrow>
      (\<forall>t. at_pc s t = Idle \<or> at_pc s t = P_asleep \<and> t \<in> set (wc_queue s)) \<and> (wc_queue s \<noteq> [] \<longrightarrow> sem_count s = 0)) \<and>
    (sem_lock s = None \<and> wc_queue s \<noteq> [] \<longrightarrow> unat (sem_count s) \<le> card {t. at_pc s t = P_reacquire})"
proof (intro conjI impI allI)
  have i: "locks_inv s" "queue_inv s" "wake_inv s" using reach_inv [OF assms] by (simp_all add: sem_inv_def)
  show few: "unat (sem_count s) \<le> card {t. at_pc s t = P_reacquire}" if "sem_lock s = None \<and> wc_queue s \<noteq> []"
    by (rule free_cover [OF i(1,3)]) (use that in simp_all)
  assume none: "\<forall>t. sem_step t s = None"
  have free: "sem_lock s = None" by (rule stuck_free [OF i(1)]) (use none in simp)
  show "at_pc s t = Idle \<or> at_pc s t = P_asleep \<and> t \<in> set (wc_queue s)" for t
  proof -
    have nw: "t \<notin> set (waking (at_pc s v))" for v
      using none [rule_format, of v] by (cases "at_pc s v") (auto simp: sem_step_def)
    have "at_pc s t = Idle \<or> at_pc s t = P_asleep" using stuck_where [OF i(1) _ free, of t] none by simp
    then show ?thesis using sem_chan.sleeper [OF i(2) [unfolded queue_inv_def]] nw by blast
  qed
  show "sem_count s = 0" if "wc_queue s \<noteq> []"
  proof -
    have "at_pc s t \<noteq> P_reacquire" for t using stuck_where [OF i(1) _ free, of t] none by auto
    then have "unat (sem_count s) \<le> 0" using free_cover [OF i(1,3) free that] by simp
    then show ?thesis by (simp add: unat_eq_0)
  qed
qed

lemma semaphore_no_lost_wakeup_witness:
  "\<exists>s. sem_reach 0 s \<and> at_pc s 1 = P_asleep \<and> wc_queue s = [1] \<and> (\<forall>t. sem_step t s = None) \<and> sem_count s = 0"
proof -
  have "sem_reach 0 (goto 1 P_acquire (sem_new 0))" by (intro call_P created) (simp add: sem_new_def)
  moreover obtain s where s: "sem_run [1, 1, 1, 1, 1, 1] (goto 1 P_acquire (sem_new 0)) = Some s"
      "at_pc s 1 = P_asleep" "wc_queue s = [1]" "\<forall>t. sem_step t s = None"
    by (simp add: sem_step_def sem_new_def)
  ultimately have "sem_reach 0 s" using sem_run_reach by blast
  from this s(2-4) semaphore_no_lost_wakeup [OF this] show ?thesis by auto
qed

end
