(* ===== verification/Locks.thy ===== *)
theory Locks
  imports Waiters
begin

text \<open>
  Sleep locks and condition variables (\<^verbatim>\<open>kern/thread/synch.c\<close>) as a machine in which any number of
  threads run at once: one lock and one condition variable that is used with it. A step of a thread is one
  access to shared state. The lock has its spinlock \<open>lk_lock\<close>, its wait channel (\<open>lk_wclock\<close>,
  \<open>lk_queue\<close>) and its holder; the condition variable is a wait channel. \<open>lock_do_i_hold\<close> is
  called by all five operations, \<open>lock_release\<close> and \<open>lock_acquire\<close> also by \<open>cv_wait\<close>, so
  their places carry what comes next. A thread may call any operation at any time; a misuse ends in a
  failed assertion. Callers are threads, not interrupt handlers, as the code asserts.
\<close>

subsection \<open>The code\<close>

datatype after = Return | Sleep_on_cv

datatype caller = In_acquire | In_reacquire | In_release after | In_wait | In_signal | In_broadcast

datatype lk_pc =
    Outside
  | Hold_acquire caller | Hold_test caller | Hold_release caller bool
  | Acq_acquire | Acq_test | Acq_wclock | Acq_release | Acq_enqueue | Acq_unlock | Acq_asleep | Acq_take | Acq_done
  | Rel_acquire after | Rel_clear after | Rel_wclock after | Rel_pop after | Rel_unlock after "nat option"
  | Rel_wake after nat | Rel_done after
  | Wait_wclock | Wait_enqueue | Wait_unlock | Wait_asleep
  | Sig_wclock | Sig_pop | Sig_unlock "nat option" | Sig_wake nat
  | Bc_wclock | Bc_take | Bc_unlock "nat list" | Bc_wake "nat list"

record synch =
  lk_holder :: "nat option"
  lk_lock :: "nat option"
  lk_wclock :: "nat option"
  lk_queue :: "nat list"
  cv_wclock :: "nat option"
  cv_queue :: "nat list"
  lk_pc :: "nat \<Rightarrow> lk_pc"

definition jump :: "nat \<Rightarrow> lk_pc \<Rightarrow> synch \<Rightarrow> synch" where
  "jump t p s = s\<lparr>lk_pc := (lk_pc s)(t := p)\<rparr>"

text \<open>\<open>spin l s\<close>: a spinlock is taken when it is free; otherwise the thread has no step.\<close>

definition spin :: "nat option \<Rightarrow> synch \<Rightarrow> synch result option" where
  "spin l s = (if l = None then Some (Inr s) else None)"

text \<open>What the caller does with the answer of \<open>lock_do_i_hold\<close>.\<close>

fun held_then :: "caller \<Rightarrow> bool \<Rightarrow> lk_pc option" where
  "held_then In_acquire h = (if \<not> h then Some Acq_acquire else None)"
| "held_then In_reacquire h = (if \<not> h then Some Acq_acquire else None)"
| "held_then (In_release a) h = (if h then Some (Rel_acquire a) else None)"
| "held_then In_wait h = (if h then Some Wait_wclock else None)"
| "held_then In_signal h = (if h then Some Sig_wclock else None)"
| "held_then In_broadcast h = (if h then Some Bc_wclock else None)"

fun lock_do_i_hold :: "nat \<Rightarrow> lk_pc \<Rightarrow> synch \<Rightarrow> synch result option" where
  "lock_do_i_hold t (Hold_acquire c) s = spin (lk_lock s) (jump t (Hold_test c) (s\<lparr>lk_lock := Some t\<rparr>))"
| "lock_do_i_hold t (Hold_test c) s = Some (Inr (jump t (Hold_release c (lk_holder s = Some t)) s))"
| "lock_do_i_hold t (Hold_release c ret) s = Some (case held_then c ret of
     Some p \<Rightarrow> Inr (jump t p (s\<lparr>lk_lock := None\<rparr>)) | None \<Rightarrow> Inl PANIC)"
| "lock_do_i_hold t _ s = None"

fun lock_acquire :: "nat \<Rightarrow> lk_pc \<Rightarrow> synch \<Rightarrow> synch result option" where
  "lock_acquire t Acq_acquire s = spin (lk_lock s) (jump t Acq_test (s\<lparr>lk_lock := Some t\<rparr>))"
| "lock_acquire t Acq_test s = Some (Inr (jump t (if lk_holder s \<noteq> None then Acq_wclock else Acq_take) s))"
| "lock_acquire t Acq_wclock s = spin (lk_wclock s) (jump t Acq_release (s\<lparr>lk_wclock := Some t\<rparr>))"
| "lock_acquire t Acq_release s = Some (Inr (jump t Acq_enqueue (s\<lparr>lk_lock := None\<rparr>)))"
| "lock_acquire t Acq_enqueue s = Some (Inr (jump t Acq_unlock (s\<lparr>lk_queue := lk_queue s @ [t]\<rparr>)))"
| "lock_acquire t Acq_unlock s = Some (Inr (jump t Acq_asleep (s\<lparr>lk_wclock := None\<rparr>)))"
| "lock_acquire t Acq_take s = Some (Inr (jump t Acq_done (s\<lparr>lk_holder := Some t\<rparr>)))"
| "lock_acquire t Acq_done s = Some (Inr (jump t Outside (s\<lparr>lk_lock := None\<rparr>)))"
| "lock_acquire t _ s = None"

fun released :: "after \<Rightarrow> lk_pc" where
  "released Return = Outside" | "released Sleep_on_cv = Wait_enqueue"

fun lock_release :: "nat \<Rightarrow> lk_pc \<Rightarrow> synch \<Rightarrow> synch result option" where
  "lock_release t (Rel_acquire a) s = spin (lk_lock s) (jump t (Rel_clear a) (s\<lparr>lk_lock := Some t\<rparr>))"
| "lock_release t (Rel_clear a) s = Some (Inr (jump t (Rel_wclock a) (s\<lparr>lk_holder := None\<rparr>)))"
| "lock_release t (Rel_wclock a) s = spin (lk_wclock s) (jump t (Rel_pop a) (s\<lparr>lk_wclock := Some t\<rparr>))"
| "lock_release t (Rel_pop a) s = Some (Inr (case lk_queue s of
     [] \<Rightarrow> jump t (Rel_unlock a None) s
   | x # q \<Rightarrow> jump t (Rel_unlock a (Some x)) (s\<lparr>lk_queue := q\<rparr>)))"
| "lock_release t (Rel_unlock a target) s = Some (Inr (jump t
     (case target of None \<Rightarrow> Rel_done a | Some x \<Rightarrow> Rel_wake a x) (s\<lparr>lk_wclock := None\<rparr>)))"
| "lock_release t (Rel_wake a x) s = Some (Inr (jump t (Rel_done a) (jump x Acq_acquire s)))"
| "lock_release t (Rel_done a) s = Some (Inr (jump t (released a) (s\<lparr>lk_lock := None\<rparr>)))"
| "lock_release t _ s = None"

text \<open>\<open>cv_wait\<close> after its assertion: the channel is locked before the lock is released, and the thread
  goes on its list before it is unlocked.\<close>

fun cv_wait :: "nat \<Rightarrow> lk_pc \<Rightarrow> synch \<Rightarrow> synch result option" where
  "cv_wait t Wait_wclock s = spin (cv_wclock s) (jump t (Hold_acquire (In_release Sleep_on_cv)) (s\<lparr>cv_wclock := Some t\<rparr>))"
| "cv_wait t Wait_enqueue s = Some (Inr (jump t Wait_unlock (s\<lparr>cv_queue := cv_queue s @ [t]\<rparr>)))"
| "cv_wait t Wait_unlock s = Some (Inr (jump t Wait_asleep (s\<lparr>cv_wclock := None\<rparr>)))"
| "cv_wait t _ s = None"

fun cv_signal :: "nat \<Rightarrow> lk_pc \<Rightarrow> synch \<Rightarrow> synch result option" where
  "cv_signal t Sig_wclock s = spin (cv_wclock s) (jump t Sig_pop (s\<lparr>cv_wclock := Some t\<rparr>))"
| "cv_signal t Sig_pop s = Some (Inr (case cv_queue s of
     [] \<Rightarrow> jump t (Sig_unlock None) s
   | x # q \<Rightarrow> jump t (Sig_unlock (Some x)) (s\<lparr>cv_queue := q\<rparr>)))"
| "cv_signal t (Sig_unlock target) s = Some (Inr (jump t
     (case target of None \<Rightarrow> Outside | Some x \<Rightarrow> Sig_wake x) (s\<lparr>cv_wclock := None\<rparr>)))"
| "cv_signal t (Sig_wake x) s = Some (Inr (jump t Outside (jump x (Hold_acquire In_reacquire) s)))"
| "cv_signal t _ s = None"

fun cv_broadcast :: "nat \<Rightarrow> lk_pc \<Rightarrow> synch \<Rightarrow> synch result option" where
  "cv_broadcast t Bc_wclock s = spin (cv_wclock s) (jump t Bc_take (s\<lparr>cv_wclock := Some t\<rparr>))"
| "cv_broadcast t Bc_take s = Some (Inr (jump t (Bc_unlock (cv_queue s)) (s\<lparr>cv_queue := []\<rparr>)))"
| "cv_broadcast t (Bc_unlock xs) s = Some (Inr (jump t (Bc_wake xs) (s\<lparr>cv_wclock := None\<rparr>)))"
| "cv_broadcast t (Bc_wake []) s = Some (Inr (jump t Outside s))"
| "cv_broadcast t (Bc_wake (x # xs)) s = Some (Inr (jump t (Bc_wake xs) (jump x (Hold_acquire In_reacquire) s)))"
| "cv_broadcast t _ s = None"

text \<open>The step of thread \<open>t\<close>, if it has one.\<close>

definition synch_step :: "nat \<Rightarrow> synch \<Rightarrow> synch result option" where
  "synch_step t s = (case lock_do_i_hold t (lk_pc s t) s of Some r \<Rightarrow> Some r | None \<Rightarrow>
     case lock_acquire t (lk_pc s t) s of Some r \<Rightarrow> Some r | None \<Rightarrow>
     case lock_release t (lk_pc s t) s of Some r \<Rightarrow> Some r | None \<Rightarrow>
     case cv_wait t (lk_pc s t) s of Some r \<Rightarrow> Some r | None \<Rightarrow>
     case cv_signal t (lk_pc s t) s of Some r \<Rightarrow> Some r | None \<Rightarrow> cv_broadcast t (lk_pc s t) s)"

definition synch_new :: synch where
  "synch_new = \<lparr>lk_holder = None, lk_lock = None, lk_wclock = None, lk_queue = [], cv_wclock = None, cv_queue = [],
     lk_pc = \<lambda>_. Outside\<rparr>"

inductive synch_reach :: "synch \<Rightarrow> bool" where
  created: "synch_reach synch_new"
| call: "synch_reach s \<Longrightarrow> lk_pc s t = Outside \<Longrightarrow> c \<notin> {In_reacquire, In_release Sleep_on_cv} \<Longrightarrow> synch_reach (jump t (Hold_acquire c) s)"
| go_on: "synch_reach s \<Longrightarrow> synch_step t s = Some (Inr s') \<Longrightarrow> synch_reach s'"

subsection \<open>The steps, one case each\<close>

lemma jump_sel [simp]:
  "lk_holder (jump t p s) = lk_holder s" "lk_lock (jump t p s) = lk_lock s" "lk_wclock (jump t p s) = lk_wclock s"
  "lk_queue (jump t p s) = lk_queue s" "cv_wclock (jump t p s) = cv_wclock s" "cv_queue (jump t p s) = cv_queue s"
  "lk_pc (jump t p s) = (lk_pc s)(t := p)"
  by (simp_all add: jump_def)

lemma synch_step_cases:
  assumes "synch_step t s = Some (Inr s')"
  obtains
    (hold_acquire) c where "lk_pc s t = Hold_acquire c" "lk_lock s = None" "s' = jump t (Hold_test c) (s\<lparr>lk_lock := Some t\<rparr>)"
  | (hold_test) c where "lk_pc s t = Hold_test c" "s' = jump t (Hold_release c (lk_holder s = Some t)) s"
  | (hold_release) c r p where "lk_pc s t = Hold_release c r" "held_then c r = Some p" "s' = jump t p (s\<lparr>lk_lock := None\<rparr>)"
  | (acq_acquire) "lk_pc s t = Acq_acquire" "lk_lock s = None" "s' = jump t Acq_test (s\<lparr>lk_lock := Some t\<rparr>)"
  | (acq_sleep) "lk_pc s t = Acq_test" "lk_holder s \<noteq> None" "s' = jump t Acq_wclock s"
  | (acq_go) "lk_pc s t = Acq_test" "lk_holder s = None" "s' = jump t Acq_take s"
  | (acq_wclock) "lk_pc s t = Acq_wclock" "lk_wclock s = None" "s' = jump t Acq_release (s\<lparr>lk_wclock := Some t\<rparr>)"
  | (acq_release) "lk_pc s t = Acq_release" "s' = jump t Acq_enqueue (s\<lparr>lk_lock := None\<rparr>)"
  | (acq_enqueue) "lk_pc s t = Acq_enqueue" "s' = jump t Acq_unlock (s\<lparr>lk_queue := lk_queue s @ [t]\<rparr>)"
  | (acq_unlock) "lk_pc s t = Acq_unlock" "s' = jump t Acq_asleep (s\<lparr>lk_wclock := None\<rparr>)"
  | (acq_take) "lk_pc s t = Acq_take" "s' = jump t Acq_done (s\<lparr>lk_holder := Some t\<rparr>)"
  | (acq_done) "lk_pc s t = Acq_done" "s' = jump t Outside (s\<lparr>lk_lock := None\<rparr>)"
  | (rel_acquire) a where "lk_pc s t = Rel_acquire a" "lk_lock s = None" "s' = jump t (Rel_clear a) (s\<lparr>lk_lock := Some t\<rparr>)"
  | (rel_clear) a where "lk_pc s t = Rel_clear a" "s' = jump t (Rel_wclock a) (s\<lparr>lk_holder := None\<rparr>)"
  | (rel_wclock) a where "lk_pc s t = Rel_wclock a" "lk_wclock s = None" "s' = jump t (Rel_pop a) (s\<lparr>lk_wclock := Some t\<rparr>)"
  | (rel_nobody) a where "lk_pc s t = Rel_pop a" "lk_queue s = []" "s' = jump t (Rel_unlock a None) s"
  | (rel_pop) a x q where "lk_pc s t = Rel_pop a" "lk_queue s = x # q" "s' = jump t (Rel_unlock a (Some x)) (s\<lparr>lk_queue := q\<rparr>)"
  | (rel_unlock0) a where "lk_pc s t = Rel_unlock a None" "s' = jump t (Rel_done a) (s\<lparr>lk_wclock := None\<rparr>)"
  | (rel_unlock) a x where "lk_pc s t = Rel_unlock a (Some x)" "s' = jump t (Rel_wake a x) (s\<lparr>lk_wclock := None\<rparr>)"
  | (rel_wake) a x where "lk_pc s t = Rel_wake a x" "s' = jump t (Rel_done a) (jump x Acq_acquire s)"
  | (rel_done) a where "lk_pc s t = Rel_done a" "s' = jump t (released a) (s\<lparr>lk_lock := None\<rparr>)"
  | (wait_wclock) "lk_pc s t = Wait_wclock" "cv_wclock s = None" "s' = jump t (Hold_acquire (In_release Sleep_on_cv)) (s\<lparr>cv_wclock := Some t\<rparr>)"
  | (wait_enqueue) "lk_pc s t = Wait_enqueue" "s' = jump t Wait_unlock (s\<lparr>cv_queue := cv_queue s @ [t]\<rparr>)"
  | (wait_unlock) "lk_pc s t = Wait_unlock" "s' = jump t Wait_asleep (s\<lparr>cv_wclock := None\<rparr>)"
  | (sig_wclock) "lk_pc s t = Sig_wclock" "cv_wclock s = None" "s' = jump t Sig_pop (s\<lparr>cv_wclock := Some t\<rparr>)"
  | (sig_nobody) "lk_pc s t = Sig_pop" "cv_queue s = []" "s' = jump t (Sig_unlock None) s"
  | (sig_pop) x q where "lk_pc s t = Sig_pop" "cv_queue s = x # q" "s' = jump t (Sig_unlock (Some x)) (s\<lparr>cv_queue := q\<rparr>)"
  | (sig_unlock0) "lk_pc s t = Sig_unlock None" "s' = jump t Outside (s\<lparr>cv_wclock := None\<rparr>)"
  | (sig_unlock) x where "lk_pc s t = Sig_unlock (Some x)" "s' = jump t (Sig_wake x) (s\<lparr>cv_wclock := None\<rparr>)"
  | (sig_wake) x where "lk_pc s t = Sig_wake x" "s' = jump t Outside (jump x (Hold_acquire In_reacquire) s)"
  | (bc_wclock) "lk_pc s t = Bc_wclock" "cv_wclock s = None" "s' = jump t Bc_take (s\<lparr>cv_wclock := Some t\<rparr>)"
  | (bc_take) "lk_pc s t = Bc_take" "s' = jump t (Bc_unlock (cv_queue s)) (s\<lparr>cv_queue := []\<rparr>)"
  | (bc_unlock) xs where "lk_pc s t = Bc_unlock xs" "s' = jump t (Bc_wake xs) (s\<lparr>cv_wclock := None\<rparr>)"
  | (bc_end) "lk_pc s t = Bc_wake []" "s' = jump t Outside s"
  | (bc_wake) x xs where "lk_pc s t = Bc_wake (x # xs)" "s' = jump t (Bc_wake xs) (jump x (Hold_acquire In_reacquire) s)"
proof (cases "lk_pc s t")
  case (Hold_acquire c)
  then show ?thesis using assms that(1) by (auto simp: synch_step_def spin_def split: if_splits option.splits)
next
  case (Hold_test c)
  then show ?thesis using assms that(2) by (auto simp: synch_step_def spin_def split: if_splits option.splits)
next
  case (Hold_release c r)
  then show ?thesis using assms that(3) by (auto simp: synch_step_def spin_def split: if_splits option.splits)
next
  case Acq_acquire
  then show ?thesis using assms that(4) by (auto simp: synch_step_def spin_def split: if_splits option.splits)
next
  case Acq_test
  then show ?thesis using assms that(5,6) by (auto simp: synch_step_def spin_def split: if_splits option.splits)
next
  case Acq_wclock
  then show ?thesis using assms that(7) by (auto simp: synch_step_def spin_def split: if_splits option.splits)
next
  case Acq_release
  then show ?thesis using assms that(8) by (auto simp: synch_step_def spin_def split: if_splits option.splits)
next
  case Acq_enqueue
  then show ?thesis using assms that(9) by (auto simp: synch_step_def spin_def split: if_splits option.splits)
next
  case Acq_unlock
  then show ?thesis using assms that(10) by (auto simp: synch_step_def spin_def split: if_splits option.splits)
next
  case Acq_take
  then show ?thesis using assms that(11) by (auto simp: synch_step_def spin_def split: if_splits option.splits)
next
  case Acq_done
  then show ?thesis using assms that(12) by (auto simp: synch_step_def spin_def split: if_splits option.splits)
next
  case (Rel_acquire a)
  then show ?thesis using assms that(13) by (auto simp: synch_step_def spin_def split: if_splits option.splits)
next
  case (Rel_clear a)
  then show ?thesis using assms that(14) by (auto simp: synch_step_def spin_def split: if_splits option.splits)
next
  case (Rel_wclock a)
  then show ?thesis using assms that(15) by (auto simp: synch_step_def spin_def split: if_splits option.splits)
next
  case (Rel_pop a)
  then show ?thesis using assms that(16,17) by (auto simp: synch_step_def spin_def split: if_splits option.splits list.splits)
next
  case (Rel_unlock a x)
  then show ?thesis using assms that(18,19) by (auto simp: synch_step_def spin_def split: if_splits option.splits)
next
  case (Rel_wake a x)
  then show ?thesis using assms that(20) by (auto simp: synch_step_def spin_def split: if_splits option.splits)
next
  case (Rel_done a)
  then show ?thesis using assms that(21) by (auto simp: synch_step_def spin_def split: if_splits option.splits)
next
  case Wait_wclock
  then show ?thesis using assms that(22) by (auto simp: synch_step_def spin_def split: if_splits option.splits)
next
  case Wait_enqueue
  then show ?thesis using assms that(23) by (auto simp: synch_step_def spin_def split: if_splits option.splits)
next
  case Wait_unlock
  then show ?thesis using assms that(24) by (auto simp: synch_step_def spin_def split: if_splits option.splits)
next
  case Sig_wclock
  then show ?thesis using assms that(25) by (auto simp: synch_step_def spin_def split: if_splits option.splits)
next
  case Sig_pop
  then show ?thesis using assms that(26,27) by (auto simp: synch_step_def spin_def split: if_splits option.splits list.splits)
next
  case (Sig_unlock x)
  then show ?thesis using assms that(28,29) by (auto simp: synch_step_def spin_def split: if_splits option.splits)
next
  case (Sig_wake x)
  then show ?thesis using assms that(30) by (auto simp: synch_step_def spin_def split: if_splits option.splits)
next
  case Bc_wclock
  then show ?thesis using assms that(31) by (auto simp: synch_step_def spin_def split: if_splits option.splits)
next
  case Bc_take
  then show ?thesis using assms that(32) by (auto simp: synch_step_def spin_def split: if_splits option.splits)
next
  case (Bc_unlock xs)
  then show ?thesis using assms that(33) by (auto simp: synch_step_def spin_def split: if_splits option.splits)
next
  case (Bc_wake xs)
  then show ?thesis using assms that(34,35) by (cases xs) (auto simp: synch_step_def)
next
  case Outside
  then show ?thesis using assms by (simp add: synch_step_def)
next
  case Acq_asleep
  then show ?thesis using assms by (simp add: synch_step_def)
next
  case Wait_asleep
  then show ?thesis using assms by (simp add: synch_step_def)
qed

subsection \<open>The invariant\<close>

fun has_lk :: "lk_pc \<Rightarrow> bool" where
  "has_lk (Hold_test _) = True" | "has_lk (Hold_release _ _) = True"
| "has_lk Acq_test = True" | "has_lk Acq_wclock = True" | "has_lk Acq_release = True"
| "has_lk Acq_take = True" | "has_lk Acq_done = True"
| "has_lk (Rel_clear _) = True" | "has_lk (Rel_wclock _) = True" | "has_lk (Rel_pop _) = True"
| "has_lk (Rel_unlock _ _) = True" | "has_lk (Rel_wake _ _) = True" | "has_lk (Rel_done _) = True"
| "has_lk _ = False"

fun has_lk_wc :: "lk_pc \<Rightarrow> bool" where
  "has_lk_wc Acq_release = True" | "has_lk_wc Acq_enqueue = True" | "has_lk_wc Acq_unlock = True"
| "has_lk_wc (Rel_pop _) = True" | "has_lk_wc (Rel_unlock _ _) = True"
| "has_lk_wc _ = False"

fun has_cv_wc :: "lk_pc \<Rightarrow> bool" where
  "has_cv_wc (Hold_acquire c) = (c = In_release Sleep_on_cv)" | "has_cv_wc (Hold_test c) = (c = In_release Sleep_on_cv)"
| "has_cv_wc (Hold_release c _) = (c = In_release Sleep_on_cv)"
| "has_cv_wc (Rel_acquire a) = (a = Sleep_on_cv)" | "has_cv_wc (Rel_clear a) = (a = Sleep_on_cv)"
| "has_cv_wc (Rel_wclock a) = (a = Sleep_on_cv)" | "has_cv_wc (Rel_pop a) = (a = Sleep_on_cv)"
| "has_cv_wc (Rel_unlock a _) = (a = Sleep_on_cv)" | "has_cv_wc (Rel_wake a _) = (a = Sleep_on_cv)"
| "has_cv_wc (Rel_done a) = (a = Sleep_on_cv)"
| "has_cv_wc Wait_enqueue = True" | "has_cv_wc Wait_unlock = True"
| "has_cv_wc Sig_pop = True" | "has_cv_wc (Sig_unlock _) = True"
| "has_cv_wc Bc_take = True" | "has_cv_wc (Bc_unlock _) = True"
| "has_cv_wc _ = False"

text \<open>Who may hold the sleep lock while thread \<open>t\<close> is at a place.\<close>

fun asks_ok :: "caller \<Rightarrow> nat \<Rightarrow> nat option \<Rightarrow> bool" where
  "asks_ok In_reacquire t h = (h \<noteq> Some t)"
| "asks_ok (In_release Sleep_on_cv) t h = (h = Some t)"
| "asks_ok _ t h = True"

fun holder_ok :: "lk_pc \<Rightarrow> nat \<Rightarrow> nat option \<Rightarrow> bool" where
  "holder_ok Outside t h = True"
| "holder_ok (Hold_acquire c) t h = asks_ok c t h" | "holder_ok (Hold_test c) t h = asks_ok c t h"
| "holder_ok (Hold_release c r) t h = ((r \<longleftrightarrow> h = Some t) \<and> asks_ok c t h)"
| "holder_ok Acq_wclock t h = (h \<noteq> None \<and> h \<noteq> Some t)" | "holder_ok Acq_release t h = (h \<noteq> None \<and> h \<noteq> Some t)"
| "holder_ok Acq_take t h = (h = None)"
| "holder_ok Acq_acquire t h = (h \<noteq> Some t)" | "holder_ok Acq_test t h = (h \<noteq> Some t)"
| "holder_ok Acq_enqueue t h = (h \<noteq> Some t)" | "holder_ok Acq_unlock t h = (h \<noteq> Some t)" | "holder_ok Acq_asleep t h = (h \<noteq> Some t)"
| "holder_ok (Rel_wclock _) t h = (h = None)" | "holder_ok (Rel_pop _) t h = (h = None)" | "holder_ok (Rel_unlock _ _) t h = (h = None)"
| "holder_ok (Rel_wake _ _) t h = (h = None)" | "holder_ok (Rel_done _) t h = (h = None)"
| "holder_ok Wait_enqueue t h = (h \<noteq> Some t)" | "holder_ok Wait_unlock t h = (h \<noteq> Some t)" | "holder_ok Wait_asleep t h = (h \<noteq> Some t)"
| "holder_ok _ t h = (h = Some t)"

fun lk_waking :: "lk_pc \<Rightarrow> nat list" where
  "lk_waking (Rel_unlock _ (Some x)) = [x]" | "lk_waking (Rel_wake _ x) = [x]" | "lk_waking _ = []"

fun cv_waking :: "lk_pc \<Rightarrow> nat list" where
  "cv_waking (Sig_unlock (Some x)) = [x]" | "cv_waking (Sig_wake x) = [x]"
| "cv_waking (Bc_unlock xs) = xs" | "cv_waking (Bc_wake xs) = xs" | "cv_waking _ = []"

text \<open>Both wait channels are used as the contract says.\<close>

interpretation lk_chan: wait_channel "\<lambda>p. p = Acq_unlock" "\<lambda>p. p = Acq_asleep" lk_waking
  by unfold_locales auto

interpretation cv_chan: wait_channel "\<lambda>p. p = Wait_unlock" "\<lambda>p. p = Wait_asleep" cv_waking
  by unfold_locales auto

text \<open>On the way to look at the holder, or to wake someone who will.\<close>

fun going :: "lk_pc \<Rightarrow> bool" where
  "going Acq_acquire = True" | "going Acq_test = True" | "going Acq_take = True"
| "going (Rel_wclock _) = True" | "going (Rel_pop _) = True" | "going (Rel_unlock _ x) = (x \<noteq> None)" | "going (Rel_wake _ _) = True"
| "going _ = False"

definition spins_inv :: "synch \<Rightarrow> bool" where
  "spins_inv s \<longleftrightarrow> guards (lk_lock s) has_lk (lk_pc s) \<and> guards (lk_wclock s) has_lk_wc (lk_pc s) \<and>
     guards (cv_wclock s) has_cv_wc (lk_pc s)"

definition holder_inv :: "synch \<Rightarrow> bool" where
  "holder_inv s \<longleftrightarrow> (\<forall>t. holder_ok (lk_pc s t) t (lk_holder s))"

definition chans_inv :: "synch \<Rightarrow> bool" where
  "chans_inv s \<longleftrightarrow> lk_chan.inv (lk_queue s) (lk_pc s) \<and> cv_chan.inv (cv_queue s) (lk_pc s)"

definition waiters :: "synch \<Rightarrow> bool" where
  "waiters s \<longleftrightarrow> lk_queue s \<noteq> [] \<or> (\<exists>t. lk_pc s t = Acq_enqueue)"

definition cover_inv :: "synch \<Rightarrow> bool" where
  "cover_inv s \<longleftrightarrow> (waiters s \<longrightarrow> lk_holder s \<noteq> None \<or> (\<exists>t. going (lk_pc s t)))"

text \<open>A woken thread was asleep.\<close>

lemma lk_woken: "chans_inv s \<Longrightarrow> x \<in> set (lk_waking (lk_pc s v)) \<Longrightarrow> lk_pc s x = Acq_asleep"
  unfolding chans_inv_def chan_inv_def by blast

lemma cv_woken: "chans_inv s \<Longrightarrow> x \<in> set (cv_waking (lk_pc s v)) \<Longrightarrow> lk_pc s x = Wait_asleep"
  unfolding chans_inv_def chan_inv_def by blast

lemma released_simps [simp]:
  "\<not> has_lk (released a)" "\<not> has_lk_wc (released a)" "has_cv_wc (released a) = (a = Sleep_on_cv)"
  "released a \<noteq> Acq_unlock" "released a \<noteq> Acq_asleep" "released a \<noteq> Wait_unlock" "released a \<noteq> Wait_asleep"
  "lk_waking (released a) = []" "cv_waking (released a) = []" "\<not> going (released a)" "released a \<noteq> Acq_enqueue"
  "holder_ok (released a) t None"
  by (cases a; simp)+

lemma held_then_simps:
  assumes "held_then c r = Some p"
  shows "\<not> has_lk p" "\<not> has_lk_wc p" "has_cv_wc p = (c = In_release Sleep_on_cv)"
    "p \<noteq> Acq_unlock" "p \<noteq> Acq_asleep" "p \<noteq> Wait_unlock" "p \<noteq> Wait_asleep" "lk_waking p = []" "cv_waking p = []" "p \<noteq> Acq_enqueue"
    "holder_ok (Hold_release c r) t h \<Longrightarrow> holder_ok p t h"
  using assms by (cases c; cases r; auto)+

lemma step_spins:
  assumes l: "spins_inv s" and q: "chans_inv s" and st: "synch_step t s = Some (Inr s')"
  shows "spins_inv s'"
proof -
  have g: "guards (lk_lock s) has_lk (lk_pc s)" "guards (lk_wclock s) has_lk_wc (lk_pc s)" "guards (cv_wclock s) has_cv_wc (lk_pc s)"
    using l by (simp_all add: spins_inv_def)
  have gx: "guards (lk_lock s) has_lk ((lk_pc s)(x := p))" "guards (lk_wclock s) has_lk_wc ((lk_pc s)(x := p))"
    "guards (cv_wclock s) has_cv_wc ((lk_pc s)(x := p))"
    if "lk_pc s x = Acq_asleep \<and> p = Acq_acquire \<or> lk_pc s x = Wait_asleep \<and> p = Hold_acquire In_reacquire" for x p
    using that by (auto intro!: guards_keep g)
  from st show ?thesis
  proof (cases rule: synch_step_cases)
    case (hold_release c r p)
    then show ?thesis using g held_then_simps(1-3) [of c r p]
      by (simp add: spins_inv_def guards_keep guards_release [OF g(1)])
  next
    case (rel_wake a x)
    have x: "lk_pc s x = Acq_asleep" by (rule lk_woken [OF q, of _ t]) (simp add: rel_wake)
    then have "x \<noteq> t" using rel_wake by auto
    then show ?thesis using gx [of x Acq_acquire] x rel_wake by (simp add: spins_inv_def guards_keep)
  next
    case (sig_wake x)
    have x: "lk_pc s x = Wait_asleep" by (rule cv_woken [OF q, of _ t]) (simp add: sig_wake)
    then have "x \<noteq> t" using sig_wake by auto
    then show ?thesis using gx [of x "Hold_acquire In_reacquire"] x sig_wake by (simp add: spins_inv_def guards_keep)
  next
    case (bc_wake x xs)
    have x: "lk_pc s x = Wait_asleep" by (rule cv_woken [OF q, of _ t]) (simp add: bc_wake)
    then have "x \<noteq> t" using bc_wake by auto
    then show ?thesis using gx [of x "Hold_acquire In_reacquire"] x bc_wake by (simp add: spins_inv_def guards_keep)
  qed (use g in \<open>simp add: spins_inv_def guards_acquire guards_keep
      guards_release [OF g(1)] guards_release [OF g(2)] guards_release [OF g(3)]\<close>)+
qed

text \<open>The holder.\<close>

lemma holder_taken: "holder_ok p u None \<Longrightarrow> \<not> has_lk p \<Longrightarrow> u \<noteq> t \<Longrightarrow> holder_ok p u (Some t)"
  by (cases "(p, u, None :: nat option)" rule: holder_ok.cases) (auto elim: asks_ok.elims)

lemma holder_left: "holder_ok p u (Some t) \<Longrightarrow> \<not> has_lk p \<Longrightarrow> u \<noteq> t \<Longrightarrow> holder_ok p u None"
  by (cases "(p, u, Some t)" rule: holder_ok.cases) (auto elim: asks_ok.elims)

lemma holder_keep:
  assumes "holder_inv s" and "holder_ok p t (lk_holder s)" and "lk_pc s' = (lk_pc s)(t := p)" and "lk_holder s' = lk_holder s"
  shows "holder_inv s'"
  using assms by (simp add: holder_inv_def)

lemma holder_goto:
  assumes "holder_inv s" and "s' = jump t p s0" and "lk_pc s0 = lk_pc s" and "lk_holder s0 = lk_holder s" and "holder_ok p t (lk_holder s)"
  shows "holder_inv s'"
  using assms by (simp add: holder_inv_def)

lemma step_holder:
  assumes l: "spins_inv s" and q: "chans_inv s" and h: "holder_inv s" and st: "synch_step t s = Some (Inr s')"
  shows "holder_inv s'"
proof -
  have ok: "holder_ok (lk_pc s u) u (lk_holder s)" for u using h by (simp add: holder_inv_def)
  have alone: "\<not> has_lk (lk_pc s u)" if "has_lk (lk_pc s t)" "u \<noteq> t" for u
    using l guards_unique [of "lk_lock s" has_lk "lk_pc s" t u] that unfolding spins_inv_def by blast
  have woken: "holder_inv (jump t p (jump x r s))"
    if "lk_pc s x = Acq_asleep \<or> lk_pc s x = Wait_asleep" "r = Acq_acquire \<or> r = Hold_acquire In_reacquire" "holder_ok p t (lk_holder s)" for x r p
  proof -
    have "lk_holder s \<noteq> Some x" using that(1) ok [of x] by auto
    then show ?thesis using that(2,3) ok by (auto simp: holder_inv_def)
  qed
  from st show ?thesis
  proof (cases rule: synch_step_cases)
    case (hold_release c r p)
    then show ?thesis using ok [of t] held_then_simps(11) [of c r p] by (intro holder_keep [OF h, of p t]) simp_all
  next
    case acq_take
    have "holder_ok (lk_pc s u) u (Some t)" if "u \<noteq> t" for u
      using ok [of u] ok [of t] acq_take alone [of u] that by (intro holder_taken) simp_all
    then show ?thesis by (simp add: holder_inv_def acq_take)
  next
    case (rel_clear a)
    have "holder_ok (lk_pc s u) u None" if "u \<noteq> t" for u
      using ok [of u] ok [of t] rel_clear alone [of u] that by (intro holder_left [of _ _ t]) simp_all
    then show ?thesis by (simp add: holder_inv_def rel_clear)
  next
    case (rel_wake a x)
    then show ?thesis using woken [of x Acq_acquire "Rel_done a"] lk_woken [OF q, of x t] ok [of t] by simp
  next
    case (sig_wake x)
    then show ?thesis using woken [of x "Hold_acquire In_reacquire" Outside] cv_woken [OF q, of x t] by simp
  next
    case (bc_wake x xs)
    then show ?thesis using woken [of x "Hold_acquire In_reacquire" "Bc_wake xs"] cv_woken [OF q, of x t] ok [of t] by simp
  next
    case (hold_acquire c)
    then show ?thesis using ok [of t] by (intro holder_keep [OF h, of "Hold_test c" t]) simp_all
  next
    case (hold_test c)
    then show ?thesis using ok [of t] by (intro holder_keep [OF h, of "Hold_release c (lk_holder s = Some t)" t]) simp_all
  next
    case (rel_done a)
    then show ?thesis using ok [of t] by (intro holder_keep [OF h, of "released a" t]) simp_all
  qed ((rule holder_goto [OF h], assumption); use ok [of t] in simp)+
qed

text \<open>The channels.\<close>

lemma cv_wakes:
  assumes q: "chans_inv s" and t: "cv_waking (lk_pc s t) = x # xs"
    and p: "cv_waking p = xs" "p \<noteq> Wait_asleep" "p \<noteq> Wait_unlock" "p \<noteq> Acq_unlock" "p \<noteq> Acq_asleep" "lk_waking p = []"
      "lk_waking (lk_pc s t) = []"
  shows "chans_inv (jump t p (jump x (Hold_acquire In_reacquire) s))"
proof -
  have i: "lk_chan.inv (lk_queue s) (lk_pc s)" and j: "cv_chan.inv (cv_queue s) (lk_pc s)" using q by (simp_all add: chans_inv_def)
  have x: "lk_pc s x = Wait_asleep" by (rule cv_woken [OF q, of _ t]) (simp add: t)
  have tp: "lk_pc s t \<noteq> Acq_unlock" "lk_pc s t \<noteq> Acq_asleep" using t by auto
  have "cv_chan.inv (cv_queue s) ((lk_pc s)(x := Hold_acquire In_reacquire, t := p))"
    by (rule cv_chan.wake [OF j t]) (simp_all add: p clear_of_def)
  moreover have "lk_chan.inv (lk_queue s) ((lk_pc s)(x := Hold_acquire In_reacquire))"
    by (rule lk_chan.keep_off [OF i]) (simp_all add: x clear_of_def)
  then have "lk_chan.inv (lk_queue s) ((lk_pc s)(x := Hold_acquire In_reacquire, t := p))"
    by (rule lk_chan.keep_off) (use p tp in \<open>simp_all add: clear_of_def\<close>)
  ultimately show ?thesis by (simp add: chans_inv_def)
qed

lemma step_chans:
  assumes l: "spins_inv s" and q: "chans_inv s" and st: "synch_step t s = Some (Inr s')"
  shows "chans_inv s'"
proof -
  have i: "lk_chan.inv (lk_queue s) (lk_pc s)" and j: "cv_chan.inv (cv_queue s) (lk_pc s)" using q by (simp_all add: chans_inv_def)
  have lk_alone: "lk_pc s u \<noteq> Acq_unlock" if "has_lk_wc (lk_pc s t)" "lk_pc s t \<noteq> Acq_unlock" for u
    using l guards_unique [of "lk_wclock s" has_lk_wc "lk_pc s" t u] that unfolding spins_inv_def by auto
  have cv_alone: "lk_pc s u \<noteq> Wait_unlock" if "has_cv_wc (lk_pc s t)" "lk_pc s t \<noteq> Wait_unlock" for u
    using l guards_unique [of "cv_wclock s" has_cv_wc "lk_pc s" t u] that unfolding spins_inv_def by auto
  from st show ?thesis
  proof (cases rule: synch_step_cases)
    case (hold_release c r p)
    note p = held_then_simps(4-9) [OF hold_release(2)]
    show ?thesis using lk_chan.keep_off [OF i, of t p] cv_chan.keep_off [OF j, of t p] p hold_release
      by (simp add: chans_inv_def clear_of_def)
  next
    case acq_enqueue
    then show ?thesis using lk_chan.enqueue [OF i, of t Acq_unlock] cv_chan.keep_off [OF j, of t Acq_unlock]
      by (simp add: chans_inv_def clear_of_def)
  next
    case acq_unlock
    then show ?thesis using lk_chan.switch_off [OF i, of t Acq_asleep] cv_chan.keep_off [OF j, of t Acq_asleep]
      by (simp add: chans_inv_def clear_of_def)
  next
    case (rel_pop a x q)
    have "lk_chan.inv q ((lk_pc s)(t := Rel_unlock a (Some x)))"
      using i lk_alone rel_pop by (intro lk_chan.take_off [of "[x]"]) (simp_all add: clear_of_def)
    then show ?thesis using cv_chan.keep_off [OF j, of t "Rel_unlock a (Some x)"] rel_pop by (simp add: chans_inv_def clear_of_def)
  next
    case (rel_unlock a x)
    then show ?thesis using lk_chan.keep [OF i, of "Rel_wake a x" t] cv_chan.keep_off [OF j, of t "Rel_wake a x"]
      by (simp add: chans_inv_def clear_of_def)
  next
    case (rel_wake a x)
    have x: "lk_pc s x = Acq_asleep" by (rule lk_woken [OF q, of _ t]) (simp add: rel_wake)
    have "lk_chan.inv (lk_queue s) ((lk_pc s)(x := Acq_acquire, t := Rel_done a))"
      by (rule lk_chan.wake [OF i, of t x "[]"]) (simp_all add: rel_wake clear_of_def)
    moreover have "cv_chan.inv (cv_queue s) ((lk_pc s)(x := Acq_acquire))"
      by (rule cv_chan.keep_off [OF j]) (simp_all add: x clear_of_def)
    then have "cv_chan.inv (cv_queue s) ((lk_pc s)(x := Acq_acquire, t := Rel_done a))"
      by (rule cv_chan.keep_off) (use rel_wake x in \<open>simp_all add: clear_of_def\<close>)
    ultimately show ?thesis by (simp add: chans_inv_def rel_wake)
  next
    case wait_enqueue
    then show ?thesis using cv_chan.enqueue [OF j, of t Wait_unlock] lk_chan.keep_off [OF i, of t Wait_unlock]
      by (simp add: chans_inv_def clear_of_def)
  next
    case wait_unlock
    then show ?thesis using cv_chan.switch_off [OF j, of t Wait_asleep] lk_chan.keep_off [OF i, of t Wait_asleep]
      by (simp add: chans_inv_def clear_of_def)
  next
    case (sig_pop x q)
    have "cv_chan.inv q ((lk_pc s)(t := Sig_unlock (Some x)))"
      using j cv_alone sig_pop by (intro cv_chan.take_off [of "[x]"]) (simp_all add: clear_of_def)
    then show ?thesis using lk_chan.keep_off [OF i, of t "Sig_unlock (Some x)"] sig_pop by (simp add: chans_inv_def clear_of_def)
  next
    case (sig_unlock x)
    then show ?thesis using cv_chan.keep [OF j, of "Sig_wake x" t] lk_chan.keep_off [OF i, of t "Sig_wake x"]
      by (simp add: chans_inv_def clear_of_def)
  next
    case (sig_wake x)
    have "chans_inv (jump t Outside (jump x (Hold_acquire In_reacquire) s))"
      by (rule cv_wakes [OF q, of t x "[]"]) (simp_all add: sig_wake)
    then show ?thesis by (simp only: sig_wake)
  next
    case bc_take
    have "cv_chan.inv [] ((lk_pc s)(t := Bc_unlock (cv_queue s)))"
      using j cv_alone bc_take by (intro cv_chan.take_off [of "cv_queue s"]) (simp_all add: clear_of_def)
    then show ?thesis using lk_chan.keep_off [OF i, of t "Bc_unlock (cv_queue s)"] bc_take by (simp add: chans_inv_def clear_of_def)
  next
    case (bc_unlock xs)
    then show ?thesis using cv_chan.keep [OF j, of "Bc_wake xs" t] lk_chan.keep_off [OF i, of t "Bc_wake xs"]
      by (simp add: chans_inv_def clear_of_def)
  next
    case (bc_wake x xs)
    have "chans_inv (jump t (Bc_wake xs) (jump x (Hold_acquire In_reacquire) s))"
      by (rule cv_wakes [OF q, of t x "xs"]) (simp_all add: bc_wake)
    then show ?thesis by (simp only: bc_wake)
  qed (use lk_chan.keep_off [OF i] cv_chan.keep_off [OF j] in \<open>simp add: chans_inv_def clear_of_def\<close>)+
qed

text \<open>Whoever waits for the lock is covered.\<close>

lemma cover_woken:
  assumes "cover_inv s" and "lk_pc s' = (lk_pc s)(x := r, t := p)" and "lk_queue s' = lk_queue s" "lk_holder s' = lk_holder s"
    and "\<not> going (lk_pc s x)" "\<not> going (lk_pc s t)" "r \<noteq> Acq_enqueue" "p \<noteq> Acq_enqueue"
  shows "cover_inv s'"
proof -
  have "waiters s' \<Longrightarrow> waiters s" using assms by (auto simp: waiters_def split: if_splits)
  moreover have "going (lk_pc s u) \<Longrightarrow> going (lk_pc s' u)" for u using assms by auto
  ultimately show ?thesis using assms(1,4) unfolding cover_inv_def by metis
qed

lemma step_cover:
  assumes l: "spins_inv s" and h: "holder_inv s" and q: "chans_inv s" and c: "cover_inv s" and st: "synch_step t s = Some (Inr s')"
  shows "cover_inv s'"
proof -
  have keep: "cover_inv s'" if "lk_pc s' = (lk_pc s)(t := p)" "waiters s' \<Longrightarrow> waiters s" "lk_holder s' = lk_holder s"
    "going (lk_pc s t) \<Longrightarrow> going p \<or> lk_holder s \<noteq> None" for p
    using c that unfolding cover_inv_def by (metis fun_upd_apply)
  have keep0: "cover_inv s'" if "s' = jump t p s0" "lk_pc s0 = lk_pc s" "lk_queue s0 = lk_queue s" "lk_holder s0 = lk_holder s" "p \<noteq> Acq_enqueue"
    "going (lk_pc s t) \<Longrightarrow> going p \<or> lk_holder s \<noteq> None" for p s0
    using that by (intro keep [of p]) (auto simp: waiters_def split: if_splits)
  have cov: "cover_inv s'" if "going p" "lk_pc s' u = p" for p u using that unfolding cover_inv_def by blast
  have no_enq: "lk_pc s v \<noteq> Acq_enqueue" if "has_lk_wc (lk_pc s t)" "v \<noteq> t" for v
    using l guards_unique [of "lk_wclock s" has_lk_wc "lk_pc s" t v] that unfolding spins_inv_def by auto
  have ok: "holder_ok (lk_pc s t) t (lk_holder s)" using h by (simp add: holder_inv_def)
  from st show ?thesis
  proof (cases rule: synch_step_cases)
    case acq_release
    then show ?thesis using ok by (simp add: cover_inv_def)
  next
    case acq_take
    then show ?thesis by (simp add: cover_inv_def)
  next
    case (acq_sleep)
    then show ?thesis by (simp add: cover_inv_def)
  next
    case (rel_clear a)
    then show ?thesis by (intro cov [of "Rel_wclock a" t]) simp_all
  next
    case (rel_nobody a)
    then have "\<not> waiters s'" using no_enq by (auto simp: waiters_def)
    then show ?thesis by (simp add: cover_inv_def)
  next
    case acq_enqueue
    then show ?thesis by (intro keep [of Acq_unlock]) (auto simp: waiters_def)
  next
    case (rel_pop a x q)
    then show ?thesis by (intro cov [of "Rel_unlock a (Some x)" t]) simp_all
  next
    case (rel_wake a x)
    then have "x \<noteq> t" using lk_woken [OF q, of x t] by auto
    then show ?thesis using rel_wake by (intro cov [of Acq_acquire x]) simp_all
  next
    case (sig_wake x)
    then have x: "lk_pc s x = Wait_asleep" "x \<noteq> t" using cv_woken [OF q, of x t] by auto
    show ?thesis by (rule cover_woken [OF c, where x = x and t = t and r = "Hold_acquire In_reacquire" and p = Outside]) (use x sig_wake in simp_all)
  next
    case (bc_wake x xs)
    then have x: "lk_pc s x = Wait_asleep" "x \<noteq> t" using cv_woken [OF q, of x t] by auto
    show ?thesis by (rule cover_woken [OF c, where x = x and t = t and r = "Hold_acquire In_reacquire" and p = "Bc_wake xs"]) (use x bc_wake in simp_all)
  next
    case (hold_release cl r p)
    then show ?thesis using held_then_simps(10) [OF hold_release(2)] by (intro keep0 [of p "s\<lparr>lk_lock := None\<rparr>"]) simp_all
  qed ((rule keep0, assumption); use ok in simp)+
qed

subsection \<open>Every reachable state\<close>

definition synch_inv :: "synch \<Rightarrow> bool" where
  "synch_inv s \<longleftrightarrow> spins_inv s \<and> holder_inv s \<and> chans_inv s \<and> cover_inv s"

lemma asks_any: "c \<notin> {In_reacquire, In_release Sleep_on_cv} \<Longrightarrow> asks_ok c t h"
proof (cases c)
  case (In_release a)
  then show "c \<notin> {In_reacquire, In_release Sleep_on_cv} \<Longrightarrow> asks_ok c t h" by (cases a) simp_all
qed simp_all

lemma synch_call_inv:
  assumes inv: "synch_inv s" and t: "lk_pc s t = Outside" and c: "c \<notin> {In_reacquire, In_release Sleep_on_cv}"
  shows "synch_inv (jump t (Hold_acquire c) s)"
proof -
  have "guards (lk_lock s) has_lk (lk_pc s)" "guards (lk_wclock s) has_lk_wc (lk_pc s)" "guards (cv_wclock s) has_cv_wc (lk_pc s)"
    using inv by (simp_all add: synch_inv_def spins_inv_def)
  then have "spins_inv (jump t (Hold_acquire c) s)"
    unfolding spins_inv_def jump_sel by (intro conjI guards_keep) (use t c in simp_all)
  moreover have "holder_ok (Hold_acquire c) t h" for h
    unfolding holder_ok.simps by (rule asks_any [OF c])
  then have "holder_inv (jump t (Hold_acquire c) s)"
    using inv unfolding synch_inv_def holder_inv_def jump_sel by (metis fun_upd_apply)
  moreover have "chans_inv (jump t (Hold_acquire c) s)"
    using inv t lk_chan.keep_off [of "lk_queue s" "lk_pc s" t "Hold_acquire c"] cv_chan.keep_off [of "cv_queue s" "lk_pc s" t "Hold_acquire c"]
    by (simp add: synch_inv_def chans_inv_def clear_of_def)
  moreover have "cover_inv (jump t (Hold_acquire c) s)"
  proof -
    have "waiters (jump t (Hold_acquire c) s) \<Longrightarrow> waiters s" by (auto simp: waiters_def split: if_splits)
    moreover have "going (lk_pc s u) \<Longrightarrow> going (lk_pc (jump t (Hold_acquire c) s) u)" for u using t by auto
    ultimately show ?thesis using inv unfolding synch_inv_def cover_inv_def jump_sel by metis
  qed
  ultimately show ?thesis by (simp add: synch_inv_def)
qed

lemma synch_reach_inv: "synch_reach s \<Longrightarrow> synch_inv s"
proof (induction rule: synch_reach.induct)
  case created
  then show ?case
    by (simp add: synch_inv_def synch_new_def spins_inv_def guards_def holder_inv_def chans_inv_def chan_inv_def cover_inv_def waiters_def)
next
  case (call s t c)
  then show ?case by (intro synch_call_inv)
next
  case (go_on s t s')
  then show ?case
    unfolding synch_inv_def using step_spins step_holder step_chans step_cover by blast
qed

lemma step_fails:
  assumes st: "synch_step t s = Some (Inl e)"
  obtains c r where "lk_pc s t = Hold_release c r" "held_then c r = None" "e = PANIC"
proof (cases "lk_pc s t")
  case (Hold_release c r)
  then show ?thesis using st that by (simp add: synch_step_def split: option.splits)
next
  case (Bc_wake xs)
  then show ?thesis using st by (cases xs) (simp_all add: synch_step_def)
qed (use st in \<open>simp add: synch_step_def spin_def split: if_splits\<close>)+

lemma refused:
  assumes "held_then c (l = Some t) = None" and "asks_ok c t l"
  shows "c = In_acquire \<and> l = Some t \<or> c \<in> {In_release Return, In_wait, In_signal, In_broadcast} \<and> l \<noteq> Some t"
proof (cases c)
  case (In_release a)
  then show ?thesis using assms by (cases a) (simp_all split: if_splits)
qed (use assms in \<open>simp split: if_splits\<close>)+

text \<open>C6: sleep locks exclude: in every state that any interleaving of any threads' calls can reach, a thread that comes
  out of \<open>lock_acquire\<close> is the holder, nobody else's step takes the lock away from its holder, who gives it up only in
  \<open>lock_release\<close>, and an assertion fails only on misuse: \<open>lock_acquire\<close> by the holder, or one of the
  other operations by somebody else.\<close>

theorem lock_excludes:
  assumes "synch_reach s"
  shows "(\<forall>t. lk_pc s t = Acq_done \<longrightarrow> lk_holder s = Some t) \<and>
    (\<forall>t u s'. synch_step u s = Some (Inr s') \<and> lk_holder s = Some t \<longrightarrow>
       lk_holder s' = Some t \<or> u = t \<and> (\<exists>a. lk_pc s t = Rel_clear a)) \<and>
    (\<forall>t e. synch_step t s = Some (Inl e) \<longrightarrow> e = PANIC \<and> (\<exists>c r. lk_pc s t = Hold_release c r \<and>
       (c = In_acquire \<and> lk_holder s = Some t \<or>
        c \<in> {In_release Return, In_wait, In_signal, In_broadcast} \<and> lk_holder s \<noteq> Some t)))"
proof (intro conjI allI impI)
  have ok: "holder_ok (lk_pc s u) u (lk_holder s)" for u
    using synch_reach_inv [OF assms] by (simp add: synch_inv_def holder_inv_def)
  show "lk_holder s = Some t" if "lk_pc s t = Acq_done" for t using ok [of t] that by simp
  show "lk_holder s' = Some t \<or> u = t \<and> (\<exists>a. lk_pc s t = Rel_clear a)"
    if "synch_step u s = Some (Inr s') \<and> lk_holder s = Some t" for t u s'
    by (rule synch_step_cases [OF that [THEN conjunct1]]) (use that ok [of u] in simp_all)
  fix t e
  assume st: "synch_step t s = Some (Inl e)"
  obtain c r where c: "lk_pc s t = Hold_release c r" "held_then c r = None" "e = PANIC"
    by (rule step_fails [OF st])
  have r: "r = (lk_holder s = Some t)" "asks_ok c t (lk_holder s)" using ok [of t] c(1) by simp_all
  show "e = PANIC" by (rule c(3))
  show "\<exists>c r. lk_pc s t = Hold_release c r \<and> (c = In_acquire \<and> lk_holder s = Some t \<or>
        c \<in> {In_release Return, In_wait, In_signal, In_broadcast} \<and> lk_holder s \<noteq> Some t)"
    using c(1) refused [OF c(2) [unfolded r(1)] r(2)] by blast
qed

subsection \<open>Schedules\<close>

text \<open>A schedule names who goes next: \<open>(t, Some c)\<close> is a call by \<open>t\<close>, \<open>(t, None)\<close> its next step.\<close>

fun synch_run :: "(nat \<times> caller option) list \<Rightarrow> synch \<Rightarrow> synch option" where
  "synch_run [] s = Some s"
| "synch_run ((t, None) # ts) s = (case synch_step t s of Some (Inr s') \<Rightarrow> synch_run ts s' | _ \<Rightarrow> None)"
| "synch_run ((t, Some c) # ts) s =
     (if lk_pc s t = Outside \<and> c \<notin> {In_reacquire, In_release Sleep_on_cv} then synch_run ts (jump t (Hold_acquire c) s) else None)"

lemma synch_run_reach: "synch_reach s \<Longrightarrow> synch_run ts s = Some s' \<Longrightarrow> synch_reach s'"
  by (induction ts s rule: synch_run.induct) (auto intro: call go_on split: option.splits sum.splits if_splits)

lemma lock_excludes_witness:
  "\<exists>s. synch_reach s \<and> lk_pc s 1 = Acq_done \<and> lk_holder s = Some 1"
proof -
  obtain s where s: "synch_run [(1, Some In_acquire), (1, None), (1, None), (1, None), (1, None), (1, None), (1, None)] synch_new = Some s" "lk_pc s 1 = Acq_done"
    by (simp add: synch_step_def spin_def synch_new_def)
  have "synch_reach s" by (rule synch_run_reach [OF created s(1)])
  from this s(2) lock_excludes [OF this] show ?thesis by blast
qed

subsection \<open>Nobody blocks for good\<close>

lemma stuck_spins:
  assumes l: "spins_inv s" and none: "\<And>t. synch_step t s = None"
  shows "lk_wclock s = None" "lk_lock s = None" "cv_wclock s = None"
proof -
  have held: "\<And>t. lk_wclock s = Some t \<Longrightarrow> has_lk_wc (lk_pc s t)" "\<And>t. lk_lock s = Some t \<Longrightarrow> has_lk (lk_pc s t)"
      "\<And>t. cv_wclock s = Some t \<Longrightarrow> has_cv_wc (lk_pc s t)"
    using l unfolding spins_inv_def guards_def by blast+
  have "\<not> has_lk_wc (lk_pc s t)" for t
    using none [of t] by (cases "lk_pc s t") (simp_all add: synch_step_def)
  then show wc: "lk_wclock s = None" using held(1) by (cases "lk_wclock s") auto
  have "\<not> has_lk (lk_pc s t)" for t
    using none [of t] wc by (cases "lk_pc s t") (simp_all add: synch_step_def spin_def)
  then show lk: "lk_lock s = None" using held(2) by (cases "lk_lock s") auto
  have "\<not> has_cv_wc (lk_pc s t)" for t
    using none [of t] wc lk by (cases "lk_pc s t") (simp_all add: synch_step_def spin_def)
  then show "cv_wclock s = None" using held(3) by (cases "cv_wclock s") auto
qed

lemma stuck_places:
  assumes l: "spins_inv s" and none: "\<And>t. synch_step t s = None"
  shows "lk_pc s t = Outside \<or> lk_pc s t = Acq_asleep \<or> lk_pc s t = Wait_asleep"
proof (cases "lk_pc s t")
  case (Bc_wake xs)
  then show ?thesis using none [of t] by (cases xs) (simp_all add: synch_step_def)
qed (use none [of t] stuck_spins [OF l none] in \<open>simp add: synch_step_def spin_def\<close>)+

text \<open>C8: locks and condition variables never block each other's users for good and lose no wake-up: whenever no
  thread can take a step, every thread inside an operation is asleep on the lock's channel, and then
  the lock has a holder, who is outside all operations and can release it; or it is asleep in
  \<open>cv_wait\<close>, on the list for the next signal.\<close>

theorem locks_block_only_on_holder:
  assumes "synch_reach s"
  shows "(\<forall>t. synch_step t s = None) \<longrightarrow> (\<forall>t. lk_pc s t = Outside \<or>
    lk_pc s t = Acq_asleep \<and> t \<in> set (lk_queue s) \<and> (\<exists>h. lk_holder s = Some h \<and> lk_pc s h = Outside) \<or>
    lk_pc s t = Wait_asleep \<and> t \<in> set (cv_queue s))"
proof (intro impI allI)
  fix t
  assume "\<forall>t. synch_step t s = None"
  then have none: "\<And>t. synch_step t s = None" by blast
  have inv: "spins_inv s" "holder_inv s" "chans_inv s" "cover_inv s" using synch_reach_inv [OF assms] by (simp_all add: synch_inv_def)
  have at: "lk_pc s u = Outside \<or> lk_pc s u = Acq_asleep \<or> lk_pc s u = Wait_asleep" for u by (rule stuck_places [OF inv(1) none])
  have quiet: "lk_waking (lk_pc s u) = []" "cv_waking (lk_pc s u) = []" "\<not> going (lk_pc s u)" for u using at [of u] by auto
  have holder: "lk_pc s h = Outside" if "lk_holder s = Some h" for h
    using inv(2) at [of h] that unfolding holder_inv_def by (metis holder_ok.simps(12,20))
  consider "lk_pc s t = Outside" | "lk_pc s t = Acq_asleep" | "lk_pc s t = Wait_asleep" using at by blast
  then show "lk_pc s t = Outside \<or>
    lk_pc s t = Acq_asleep \<and> t \<in> set (lk_queue s) \<and> (\<exists>h. lk_holder s = Some h \<and> lk_pc s h = Outside) \<or>
    lk_pc s t = Wait_asleep \<and> t \<in> set (cv_queue s)"
  proof cases
    case 2
    then have q: "t \<in> set (lk_queue s)"
      using lk_chan.sleeper [of "lk_queue s" "lk_pc s" t] inv(3) quiet by (simp add: chans_inv_def)
    then have "waiters s" by (auto simp: waiters_def)
    then obtain h where "lk_holder s = Some h" using inv(4) quiet unfolding cover_inv_def by blast
    then show ?thesis using 2 q holder by blast
  next
    case 3
    then show ?thesis using cv_chan.sleeper [of "cv_queue s" "lk_pc s" t] inv(3) quiet by (simp add: chans_inv_def)
  qed simp
qed

lemma locks_block_only_on_holder_witness:
  "\<exists>s. synch_reach s \<and> (\<forall>t. synch_step t s = None) \<and> lk_pc s 2 = Acq_asleep \<and> (\<exists>h. lk_holder s = Some h \<and> lk_pc s h = Outside)"
proof -
  obtain s where s: "synch_run
      [(1, Some In_acquire), (1, None), (1, None), (1, None), (1, None), (1, None), (1, None), (1, None), (2, Some
      In_acquire), (2, None), (2, None), (2, None), (2, None), (2, None), (2, None), (2, None), (2, None), (2, None)] synch_new = Some s" "lk_pc s 2 = Acq_asleep" "\<forall>t. synch_step t s = None"
    by (simp add: synch_step_def spin_def synch_new_def)
  have "synch_reach s" by (rule synch_run_reach [OF created s(1)])
  moreover have "\<exists>h. lk_holder s = Some h \<and> lk_pc s h = Outside"
    using locks_block_only_on_holder [OF calculation, rule_format, OF s(3) [rule_format], of 2] s(2) by simp
  ultimately show ?thesis using s(2,3) by blast
qed

subsection \<open>Signals\<close>

text \<open>A thread in \<open>cv_wait\<close> that has given up the lock, and that nobody has yet chosen to be woken.\<close>

fun left_lock :: "lk_pc \<Rightarrow> bool" where
  "left_lock (Rel_wclock a) = (a = Sleep_on_cv)" | "left_lock (Rel_pop a) = (a = Sleep_on_cv)"
| "left_lock (Rel_unlock a _) = (a = Sleep_on_cv)" | "left_lock (Rel_wake a _) = (a = Sleep_on_cv)"
| "left_lock (Rel_done a) = (a = Sleep_on_cv)"
| "left_lock Wait_enqueue = True" | "left_lock Wait_unlock = True" | "left_lock Wait_asleep = True"
| "left_lock _ = False"

definition cv_waiting :: "synch \<Rightarrow> nat \<Rightarrow> bool" where
  "cv_waiting s t \<longleftrightarrow> left_lock (lk_pc s t) \<and> (\<forall>v. t \<notin> set (cv_waking (lk_pc s v)))"

lemma left_lock_places: "left_lock p \<Longrightarrow> p = Wait_asleep \<or> has_cv_wc p"
  by (cases p) simp_all

lemma cv_waiting_queue:
  assumes l: "spins_inv s" and q: "chans_inv s" and t: "has_cv_wc (lk_pc s t)" "\<not> left_lock (lk_pc s t)"
  shows "cv_waiting s u \<longleftrightarrow> u \<in> set (cv_queue s)"
proof -
  have alone: "has_cv_wc (lk_pc s u) \<Longrightarrow> u = t" for u
    using l guards_unique [of "cv_wclock s" has_cv_wc "lk_pc s" t u] t unfolding spins_inv_def by blast
  have "left_lock (lk_pc s u) \<longleftrightarrow> lk_pc s u = Wait_asleep"
    using alone [of u] left_lock_places [of "lk_pc s u"] t(2) by auto
  moreover have "lk_pc s u \<noteq> Wait_unlock" using alone [of u] t by auto
  ultimately show ?thesis using q unfolding cv_waiting_def chans_inv_def chan_inv_def by blast
qed

text \<open>C12: no signal is lost: when \<open>cv_signal\<close> or \<open>cv_broadcast\<close> comes to the list of the condition variable, the list
  holds exactly the threads that have given up the lock in \<open>cv_wait\<close> and have not been chosen; a signal chooses the
  first of them, if there is one, a broadcast all of them, and the others keep waiting.\<close>

theorem cv_signal_not_lost:
  assumes "synch_reach s" and "lk_pc s t = Sig_pop \<or> lk_pc s t = Bc_take"
  shows "(\<forall>u. cv_waiting s u \<longleftrightarrow> u \<in> set (cv_queue s)) \<and>
    (\<exists>s'. synch_step t s = Some (Inr s') \<and>
      cv_waking (lk_pc s' t) = (if lk_pc s t = Sig_pop then take 1 (cv_queue s) else cv_queue s) \<and>
      cv_queue s = cv_waking (lk_pc s' t) @ cv_queue s' \<and>
      (\<forall>u. cv_waiting s' u \<longleftrightarrow> cv_waiting s u \<and> u \<notin> set (cv_waking (lk_pc s' t))))"
proof -
  have inv: "spins_inv s" "chans_inv s" using synch_reach_inv [OF assms(1)] by (simp_all add: synch_inv_def)
  have t: "has_cv_wc (lk_pc s t)" "\<not> left_lock (lk_pc s t)" "cv_waking (lk_pc s t) = []" using assms(2) by auto
  obtain s' where st: "synch_step t s = Some (Inr s')" using assms(2) by (auto simp: synch_step_def)
  have w: "cv_waking (lk_pc s' t) = (if lk_pc s t = Sig_pop then take 1 (cv_queue s) else cv_queue s)"
    and rest: "cv_queue s = cv_waking (lk_pc s' t) @ cv_queue s'" and same: "\<And>u. u \<noteq> t \<Longrightarrow> lk_pc s' u = lk_pc s u"
    and t': "\<not> left_lock (lk_pc s' t)"
    using st assms(2) by (auto simp: synch_step_def split: list.splits)
  have "left_lock (lk_pc s' u) = left_lock (lk_pc s u)" for u using same t(2) t' by (cases "u = t") simp_all
  moreover have "(\<forall>v. u \<notin> set (cv_waking (lk_pc s' v))) \<longleftrightarrow>
      (\<forall>v. u \<notin> set (cv_waking (lk_pc s v))) \<and> u \<notin> set (cv_waking (lk_pc s' t))" for u
    using same t(3) by (metis empty_iff list.set(1))
  ultimately have "cv_waiting s' u \<longleftrightarrow> cv_waiting s u \<and> u \<notin> set (cv_waking (lk_pc s' t))" for u
    unfolding cv_waiting_def by blast
  then show ?thesis using st w rest cv_waiting_queue [OF inv t(1,2)] by blast
qed

lemma cv_signal_not_lost_witness:
  "\<exists>s. synch_reach s \<and> lk_pc s 2 = Sig_pop \<and> cv_waiting s 1 \<and> (\<exists>s'. synch_step 2 s = Some (Inr s') \<and> cv_waking (lk_pc s' 2) = [1])"
proof -
  obtain s where s: "synch_run
      [(1, Some In_acquire), (1, None), (1, None), (1, None), (1, None), (1, None), (1, None), (1, None), (1, Some In_wait),
      (1, None), (1, None), (1, None), (1, None), (1, None), (1, None), (1, None), (1, None), (1, None), (1, None), (1, None),
      (1, None), (1, None), (1, None), (1, None), (2, Some In_acquire), (2, None), (2, None), (2, None), (2, None), (2, None),
      (2, None), (2, None), (2, Some In_signal), (2, None), (2, None), (2, None), (2, None)] synch_new = Some s" "lk_pc s 2 = Sig_pop" "cv_queue s = [1]"
    by (simp add: synch_step_def spin_def synch_new_def)
  have "synch_reach s" by (rule synch_run_reach [OF created s(1)])
  from this s(2,3) cv_signal_not_lost [OF this, of 2] show ?thesis by auto
qed

end
