(* ===== verification/Spec2Isabelle.thy ===== *)
theory Spec2Isabelle
  imports Prelude Libkern Bitmap Karray Threadlist Hangman Uio SfsDisk SfsBmap SfsIo SfsDir SfsInode SfsVnops
    Ram Kmalloc KmallocPage KmallocRefs KmallocHeap Kheap Kframe Kcheck Dumbvm
    Sched SchedRun SchedSwitch SchedInv SchedOps SchedWake SchedBalance SchedSafe SchedProps Waiters Semaphore Locks
begin

text \<open>
  Verification of the OS/161 kernel (\<^verbatim>\<open>src/os161/src/kern\<close>; all paths below are relative to it).

  \<^bold>\<open>The program.\<close> OS/161 is a small multiprocessor kernel for System/161, a 32-bit big-endian MIPS. At
  the bottom are the physical page allocator (\<^verbatim>\<open>arch/mips/vm/ram.c\<close>) and the kernel heap on top of it
  (\<^verbatim>\<open>vm/kmalloc.c\<close>), the interrupt levels and spinlocks (\<^verbatim>\<open>thread/spl.c\<close>, \<^verbatim>\<open>spinlock.c\<close>) and the
  scheduler with its wait channels (\<^verbatim>\<open>thread/thread.c\<close>). Semaphores, locks and condition variables
  (\<^verbatim>\<open>thread/synch.c\<close>) use spinlocks and wait channels. Address spaces (\<^verbatim>\<open>arch/mips/vm/dumbvm.c\<close>)
  take pages and heap blocks. The file system SFS (\<^verbatim>\<open>fs/sfs\<close>) sits on the disk driver
  (\<^verbatim>\<open>dev/lamebus/lhd.c\<close>), uses bitmaps, arrays and \<open>uio\<close> transfers, and is reached through vnodes.

  \<^bold>\<open>How it is modelled.\<close> Every operation that can fail or has effects is an \<open>('s, 'a) kernel\<close> of
  \<open>Prelude\<close>: a function from the state to a result and the state it leaves. Results are errno
  values, \<open>PANIC\<close> (a failed assertion), \<open>UNDEFINED\<close> (an access C does not define), \<open>HANG\<close> (the CPU
  waits for ever) or a value. Integers keep their width (\<open>u8\<close> .. \<open>u64\<close>); structs are records, unions
  and enumerations datatypes; pointers to shared objects are addresses into a map. Loops with an
  evident bound are structural recursion; the others are \<open>partial_function (option)\<close>,
  \<open>while_option\<close> or recursion on fuel, with a theorem that the fuel given suffices.

  \<^bold>\<open>Theories and code.\<close>
  \<^item> \<open>Prelude\<close>: types, errors, the monad, triples and their rules, lemmas on lists and words.
  \<^item> \<open>Libkern\<close>: \<^verbatim>\<open>lib/bswap.c\<close>, \<^verbatim>\<open>lib/time.c\<close>. Byte images, exact times.
  \<^item> \<open>Bitmap\<close>: \<^verbatim>\<open>lib/bitmap.c\<close>. The set of marked indexes as abstract value; the locale
    \<open>index_allocator\<close> is the contract of the file system with it.
  \<^item> \<open>Karray\<close>: \<^verbatim>\<open>lib/array.c\<close>. Contents as a list; the growth loop ends exactly up to 2^31.
  \<^item> \<open>Threadlist\<close>: \<^verbatim>\<open>thread/threadlist.c\<close>. Nodes in a heap refine lists; the locale \<open>thread_queue\<close>
    is the FIFO contract of run queues and wait channels.
  \<^item> \<open>Hangman\<close>: \<^verbatim>\<open>thread/hangman.c\<close>. No reachable waits-for cycle; a panic exactly at one.
  \<^item> \<open>Uio\<close>: \<^verbatim>\<open>vm/copyinout.c\<close>, \<^verbatim>\<open>lib/uio.c\<close>. Copies stay in user memory; transfers move exactly
    the next bytes.
  \<^item> \<open>SfsDisk\<close>, \<open>SfsBmap\<close>, \<open>SfsIo\<close>, \<open>SfsDir\<close>, \<open>SfsInode\<close>, \<open>SfsVnops\<close>: the disk driver and SFS
    from the block layer up (\<^verbatim>\<open>sfs_balloc.c\<close>, \<^verbatim>\<open>sfs_bmap.c\<close>, \<^verbatim>\<open>sfs_io.c\<close>, \<^verbatim>\<open>sfs_dir.c\<close>,
    \<^verbatim>\<open>sfs_inode.c\<close>, \<^verbatim>\<open>sfs_vnops.c\<close>, \<^verbatim>\<open>sfs_fsops.c\<close>, \<^verbatim>\<open>vfs/vnode.c\<close>). The state \<open>sfs_fs\<close> is the
    mounted volume with its device and the vnodes in memory. Abstract values: the block map of a
    file, its bytes, and the finite map from names to inode numbers of a directory; lookups,
    writes, linking and truncation are proved against those.
  \<^item> \<open>Ram\<close>: \<^verbatim>\<open>arch/mips/vm/ram.c\<close> and the page allocation of dumbvm.
  \<^item> \<open>Kmalloc\<close> (the code), \<open>KmallocPage\<close>, \<open>KmallocRefs\<close>, \<open>KmallocHeap\<close> (its invariant, layer by
    layer), \<open>Kheap\<close> (the properties), \<open>Kcheck\<close> (its own consistency checks), \<open>Kframe\<close> (what it
    leaves alone): \<^verbatim>\<open>vm/kmalloc.c\<close>. The abstract value is the set of live blocks with their sizes.
  \<^item> \<open>Dumbvm\<close>: \<^verbatim>\<open>arch/mips/vm/dumbvm.c\<close> over that heap. TLB and address space agree, copies are
    faithful, switching isolates.
  \<^item> \<open>Sched\<close> (the code of \<^verbatim>\<open>thread/spl.c\<close>, \<^verbatim>\<open>spinlock.c\<close>, \<^verbatim>\<open>thread.c\<close>, \<^verbatim>\<open>clock.c\<close>),
    \<open>SchedRun\<close> and \<open>SchedSwitch\<close> (exact effects), \<open>SchedInv\<close>, \<open>SchedOps\<close>, \<open>SchedWake\<close>,
    \<open>SchedBalance\<close>, \<open>SchedSafe\<close> (the invariant and every operation), \<open>SchedProps\<close> (the
    properties). An operation runs on one CPU without interference; what other CPUs do while it
    idles is an argument.
  \<^item> \<open>Waiters\<close>: spinlocks and wait channels as concurrent threads see them; the locale
    \<open>wait_channel\<close> is the contract of a channel with its clients.
  \<^item> \<open>Semaphore\<close> and \<open>Locks\<close>: \<open>P\<close> and \<open>V\<close>, sleep locks and condition variables of
    \<^verbatim>\<open>thread/synch.c\<close> with all threads running at once, a step per access to shared state.
    Exclusion, no lost wake-up, no lost signal, no blocking for good.

  \<^bold>\<open>Bounds and fuel.\<close> Free lists of a heap page are followed for at most 256 entries, the number
  of blocks a page has; the properties of \<open>Kheap\<close> and \<open>Kcheck\<close> show that the code ends within it. Disk operations
  retry ten times as the code does. The idle loop consumes one given event per halt, and \<open>HANG\<close>
  stands for idling for ever.

  \<^bold>\<open>Not modelled.\<close> Console and device attachment, the other LAMEbus devices, emufs and semfs, name
  resolution (\<^verbatim>\<open>vfs\<close>), processes and system calls, the kernel menu and its tests, the
  assembly of context switches and traps, boot of secondary CPUs; \<^verbatim>\<open>PROJECT.json\<close> lists
  each with the reason. Concurrency inside one scheduler operation is not interleaved; the
  file system runs under its big lock.
\<close>

end
